(* ===== verification/Prelude.thy ===== *)
theory Prelude
  imports Complex_Main
begin

text \<open>
  Shared vocabulary of the development: the Python exceptions the code can raise, results
  that may carry one, state-passing actions with exceptions, and list lemmas that several
  components use.

  An action of type \<open>('s, 'a) act\<close> takes the state and returns a result together with the
  new state. The state is returned on the exceptional path too, because a Python exception
  does not undo the writes made before it.
\<close>

named_theorems act_simps \<open>unfolding rules of the action combinators\<close>
named_theorems frame \<open>which parts of the state an operation leaves alone\<close>

section \<open>Exceptions and results\<close>

text \<open>The exceptions of the files API of the log pipeline (\<open>mapreduce/lib/files/file.py\<close>).\<close>

datatype files_exn =
    Error | UnsupportedOpenModeError | UnsupportedContentTypeError | InvalidArgumentError
  | FinalizationError | ExistenceError | UnknownError | SequenceKeyOutOfOrderError string
  | InvalidFileNameError | FileNotOpenedError | ReadOnlyError | WrongContentTypeError
  | WrongOpenModeError | OperationNotSupportedError | PermissionDeniedError
  | ApiTemporaryUnavailableError | FileTemporaryUnavailableError | InvalidParameterError
  | ExclusiveLockFailedError

datatype exn =
    ValueError | TypeError | AttributeError | KeyError | IndexError | NameError
  | ZeroDivisionError | URLError | HTTPError | IOError
  | NotFoundError | InvalidDatabaseError | AddressNotFoundError | AddressValueError
  | TransactionFailedError | BadValueError | StatusUnparseableError | SystemExit nat
  | EOFError | StructError | PlainException | InvalidRecordError | MapreduceError
  | FilesError files_exn
  | Diverges

type_synonym 'a res = "exn + 'a"

text \<open>
  \<open>Diverges\<close> is not an exception: it is the result of a run that never returns (the
  rejection loop of \<open>random.sample\<close> on a source that never draws a fresh index). No
  \<open>except\<close> clause of the model matches it. \<open>PlainException\<close> is a raised \<open>Exception\<close> itself,
  \<open>MapreduceError\<close> the \<open>Error\<close> of \<open>mapreduce/errors.py\<close>.
\<close>

text \<open>The subclass relations the \<open>except\<close> clauses rely on.\<close>

definition is_ValueError :: "exn \<Rightarrow> bool" where
  "is_ValueError e \<longleftrightarrow> e = ValueError \<or> e = AddressValueError"

definition is_URLError :: "exn \<Rightarrow> bool" where
  "is_URLError e \<longleftrightarrow> e = URLError \<or> e = HTTPError"

definition is_IOError :: "exn \<Rightarrow> bool" where
  "is_IOError e \<longleftrightarrow> e = IOError \<or> is_URLError e"

definition bindR :: "'a res \<Rightarrow> ('a \<Rightarrow> 'b res) \<Rightarrow> 'b res" where
  "bindR r f = (case r of Inl e \<Rightarrow> Inl e | Inr x \<Rightarrow> f x)"

lemma bindR_simps [simp]:
  "bindR (Inl e) f = Inl e"
  "bindR (Inr x) f = f x"
  by (simp_all add: bindR_def)

lemma bindR_Inr_iff: "bindR r f = Inr y \<longleftrightarrow> (\<exists>x. r = Inr x \<and> f x = Inr y)"
  by (cases r) auto

lemma bindR_Inl_iff: "bindR r f = Inl e \<longleftrightarrow> r = Inl e \<or> (\<exists>x. r = Inr x \<and> f x = Inl e)"
  by (cases r) auto

text \<open>\<open>mapR f xs\<close> is the list comprehension \<open>[f(x) for x in xs]\<close> where \<open>f\<close> may raise.\<close>

fun mapR :: "('a \<Rightarrow> 'b res) \<Rightarrow> 'a list \<Rightarrow> 'b list res" where
  "mapR f [] = Inr []"
| "mapR f (x # xs) = bindR (f x) (\<lambda>y. bindR (mapR f xs) (\<lambda>ys. Inr (y # ys)))"

lemma mapR_Inr_length: "mapR f xs = Inr ys \<Longrightarrow> length ys = length xs"
  by (induction xs arbitrary: ys) (auto simp: bindR_Inr_iff)

lemma mapR_total: "(\<And>x. x \<in> set xs \<Longrightarrow> f x = Inr (g x)) \<Longrightarrow> mapR f xs = Inr (map g xs)"
  by (induction xs) auto

text \<open>\<open>filterR p xs\<close> is \<open>filter(p, xs)\<close> where \<open>p\<close> may raise.\<close>

fun filterR :: "('a \<Rightarrow> bool res) \<Rightarrow> 'a list \<Rightarrow> 'a list res" where
  "filterR p [] = Inr []"
| "filterR p (x # xs) =
     bindR (p x) (\<lambda>b. bindR (filterR p xs) (\<lambda>ys. Inr (if b then x # ys else ys)))"

lemma filterR_total: "(\<And>x. x \<in> set xs \<Longrightarrow> p x = Inr (q x)) \<Longrightarrow> filterR p xs = Inr (filter q xs)"
  by (induction xs) auto

lemma filterR_subset: "filterR p xs = Inr ys \<Longrightarrow> set ys \<subseteq> set xs"
  by (induction xs arbitrary: ys) (auto simp: bindR_Inr_iff split: if_splits)

section \<open>Actions\<close>

type_synonym ('s, 'a) act = "'s \<Rightarrow> 'a res \<times> 's"

definition retA :: "'a \<Rightarrow> ('s, 'a) act" where
  "retA x s = (Inr x, s)"

definition raiseA :: "exn \<Rightarrow> ('s, 'a) act" where
  "raiseA e s = (Inl e, s)"

definition liftR :: "'a res \<Rightarrow> ('s, 'a) act" where
  "liftR r s = (r, s)"

definition bindA :: "('s, 'a) act \<Rightarrow> ('a \<Rightarrow> ('s, 'b) act) \<Rightarrow> ('s, 'b) act" where
  "bindA m f s = (case m s of (Inl e, s') \<Rightarrow> (Inl e, s') | (Inr x, s') \<Rightarrow> f x s')"

definition seqA :: "('s, unit) act \<Rightarrow> ('s, 'b) act \<Rightarrow> ('s, 'b) act" where
  "seqA m n = bindA m (\<lambda>_. n)"

definition getA :: "('s \<Rightarrow> 'a) \<Rightarrow> ('s, 'a) act" where
  "getA f s = (Inr (f s), s)"

definition modA :: "('s \<Rightarrow> 's) \<Rightarrow> ('s, unit) act" where
  "modA f s = (Inr (), f s)"

text \<open>\<open>catchA m h\<close> is \<open>try: m except ...\<close>: \<open>h e\<close> is the handler for \<open>e\<close>, if one matches.\<close>

definition catchA :: "('s, 'a) act \<Rightarrow> (exn \<Rightarrow> ('s, 'a) act option) \<Rightarrow> ('s, 'a) act" where
  "catchA m h s = (case m s of
      (Inl e, s') \<Rightarrow> (case h e of None \<Rightarrow> (Inl e, s') | Some a \<Rightarrow> a s')
    | (Inr x, s') \<Rightarrow> (Inr x, s'))"

text \<open>\<open>forA f xs\<close> is \<open>for x in xs: f(x)\<close>.\<close>

fun forA :: "('x \<Rightarrow> ('s, unit) act) \<Rightarrow> 'x list \<Rightarrow> ('s, unit) act" where
  "forA f [] = retA ()"
| "forA f (x # xs) = seqA (f x) (forA f xs)"

lemma act_run [act_simps, simp]:
  "retA x s = (Inr x, s)"
  "raiseA e s = (Inl e, s)"
  "liftR r s = (r, s)"
  "getA g s = (Inr (g s), s)"
  "modA h s = (Inr (), h s)"
  by (simp_all add: retA_def raiseA_def liftR_def getA_def modA_def)

lemma bindA_run [act_simps]:
  "bindA m f s = (case m s of (Inl e, s') \<Rightarrow> (Inl e, s') | (Inr x, s') \<Rightarrow> f x s')"
  "seqA m n s = (case m s of (Inl e, s') \<Rightarrow> (Inl e, s') | (Inr x, s') \<Rightarrow> n s')"
  by (simp_all add: bindA_def seqA_def)

lemma bindA_simps [simp]:
  "m s = (Inr x, s') \<Longrightarrow> bindA m f s = f x s'"
  "m s = (Inl e, s') \<Longrightarrow> bindA m f s = (Inl e, s')"
  "m' s = (Inr (), s') \<Longrightarrow> seqA m' n s = n s'"
  "m' s = (Inl e, s') \<Longrightarrow> seqA m' n s = (Inl e, s')"
  by (simp_all add: bindA_def seqA_def)

lemma catchA_simps [simp]:
  "m s = (Inr x, s') \<Longrightarrow> catchA m h s = (Inr x, s')"
  "m s = (Inl e, s') \<Longrightarrow> h e = None \<Longrightarrow> catchA m h s = (Inl e, s')"
  "m s = (Inl e, s') \<Longrightarrow> h e = Some a \<Longrightarrow> catchA m h s = a s'"
  by (simp_all add: catchA_def)

lemma bindA_assoc: "bindA (bindA m f) g = bindA m (\<lambda>x. bindA (f x) g)"
  by (rule ext) (simp add: bindA_def split: prod.splits sum.splits)

lemma bindA_Inr_iff:
  "bindA m f s = (Inr y, t) \<longleftrightarrow> (\<exists>x s'. m s = (Inr x, s') \<and> f x s' = (Inr y, t))"
  by (auto simp: bindA_def split: prod.splits sum.splits)

text \<open>
  A relation on states that every step keeps is kept by whole actions; the combinators
  preserve such \<^emph>\<open>frame\<close> properties.
\<close>

definition keepsA :: "('s \<Rightarrow> 's \<Rightarrow> bool) \<Rightarrow> ('s, 'a) act \<Rightarrow> bool" where
  "keepsA R m \<longleftrightarrow> (\<forall>s. R s (snd (m s)))"

lemma keepsAI: "(\<And>s. R s (snd (m s))) \<Longrightarrow> keepsA R m"
  by (simp add: keepsA_def)

lemma keepsAD: "keepsA R m \<Longrightarrow> R s (snd (m s))"
  by (simp add: keepsA_def)

lemma keepsA_basic [frame]:
  "reflp R \<Longrightarrow> keepsA R (retA x)"
  "reflp R \<Longrightarrow> keepsA R (raiseA e)"
  "reflp R \<Longrightarrow> keepsA R (liftR r)"
  "reflp R \<Longrightarrow> keepsA R (getA g)"
  by (simp_all add: keepsA_def reflpD)

lemma keepsA_bindA [frame]:
  assumes "transp R" and "keepsA R m" and "\<And>x. keepsA R (f x)"
  shows "keepsA R (bindA m f)"
proof (rule keepsAI)
  fix s
  obtain r s' where ms: "m s = (r, s')" by fastforce
  have 1: "R s s'" using keepsAD [OF assms(2), of s] ms by simp
  show "R s (snd (bindA m f s))"
  proof (cases r)
    case (Inl e)
    with ms 1 show ?thesis by simp
  next
    case (Inr x)
    have "R s' (snd (f x s'))" using assms(3) by (rule keepsAD)
    with ms Inr 1 show ?thesis using transpD [OF assms(1)] by simp
  qed
qed

lemma keepsA_seqA [frame]:
  "transp R \<Longrightarrow> keepsA R m \<Longrightarrow> keepsA R n \<Longrightarrow> keepsA R (seqA m n)"
  unfolding seqA_def by (rule keepsA_bindA)

lemma keepsA_catchA [frame]:
  assumes "transp R" and "keepsA R m" and "\<And>e a. h e = Some a \<Longrightarrow> keepsA R a"
  shows "keepsA R (catchA m h)"
proof (rule keepsAI)
  fix s
  obtain r s' where ms: "m s = (r, s')" by fastforce
  have 1: "R s s'" using keepsAD [OF assms(2), of s] ms by simp
  show "R s (snd (catchA m h s))"
  proof (cases r)
    case (Inr x)
    with ms 1 show ?thesis by simp
  next
    case (Inl e)
    show ?thesis
    proof (cases "h e")
      case None
      with ms Inl 1 show ?thesis by simp
    next
      case (Some a)
      have "R s' (snd (a s'))" using assms(3) [OF Some] by (rule keepsAD)
      with ms Inl Some 1 show ?thesis using transpD [OF assms(1)] by simp
    qed
  qed
qed

lemma keepsA_forA [frame]:
  assumes "reflp R" and "transp R" and "\<And>x. x \<in> set xs \<Longrightarrow> keepsA R (f x)"
  shows "keepsA R (forA f xs)"
  using assms(3) by (induction xs) (auto intro: keepsA_seqA keepsA_basic assms(1,2))

text \<open>
  \<open>safeA P R m Q\<close>: from a state where \<open>P\<close> holds, \<open>m\<close> leads to one where it holds again and that is
  related by \<open>R\<close>, whether it returns or raises; a value it returns satisfies \<open>Q\<close>.
\<close>

definition safeA :: "('s \<Rightarrow> bool) \<Rightarrow> ('s \<Rightarrow> 's \<Rightarrow> bool) \<Rightarrow> ('s, 'a) act \<Rightarrow> ('a \<Rightarrow> bool) \<Rightarrow> bool" where
  "safeA P R m Q \<longleftrightarrow> (\<forall>s. P s \<longrightarrow> P (snd (m s)) \<and> R s (snd (m s)) \<and> (\<forall>x. fst (m s) = Inr x \<longrightarrow> Q x))"

lemma safeAI: "(\<And>s. P s \<Longrightarrow> P (snd (m s)) \<and> R s (snd (m s)) \<and> (\<forall>x. fst (m s) = Inr x \<longrightarrow> Q x)) \<Longrightarrow> safeA P R m Q"
  by (simp add: safeA_def)

lemma safeAD:
  assumes "safeA P R m Q" and "P s"
  shows "P (snd (m s))" and "R s (snd (m s))" and "fst (m s) = Inr x \<Longrightarrow> Q x"
  using assms by (auto simp: safeA_def)

lemma safeA_basic:
  "reflp R \<Longrightarrow> Q x \<Longrightarrow> safeA P R (retA x) Q"
  "reflp R \<Longrightarrow> safeA P R (raiseA e) Q"
  "reflp R \<Longrightarrow> (\<And>x. r = Inr x \<Longrightarrow> Q x) \<Longrightarrow> safeA P R (liftR r) Q"
  "reflp R \<Longrightarrow> (\<And>s. P s \<Longrightarrow> Q (g s)) \<Longrightarrow> safeA P R (getA g) Q"
  by (auto simp: safeA_def reflpD)

lemma safeA_bindA:
  assumes R: "transp R" and m: "safeA P R m Q" and f: "\<And>x. Q x \<Longrightarrow> safeA P R (f x) Q'"
  shows "safeA P R (bindA m f) Q'"
proof (rule safeAI)
  fix s
  assume P: "P s"
  obtain r s' where ms: "m s = (r, s')" by fastforce
  have 1: "P s'" "R s s'" "\<And>x. r = Inr x \<Longrightarrow> Q x" using safeAD [OF m P] ms by auto
  show "P (snd (bindA m f s)) \<and> R s (snd (bindA m f s)) \<and> (\<forall>x. fst (bindA m f s) = Inr x \<longrightarrow> Q' x)"
  proof (cases r)
    case (Inl e)
    with ms 1 show ?thesis by simp
  next
    case (Inr x)
    have fx: "safeA P R (f x) Q'" using Inr 1(3) f by blast
    have run: "bindA m f s = f x s'" using ms Inr by simp
    show ?thesis unfolding run using safeAD [OF fx 1(1)] transpD [OF R 1(2)] by blast
  qed
qed

lemma safeA_seqA: "transp R \<Longrightarrow> safeA P R m (\<lambda>_. True) \<Longrightarrow> safeA P R n Q \<Longrightarrow> safeA P R (seqA m n) Q"
  unfolding seqA_def by (rule safeA_bindA)

lemma safeA_catchA:
  assumes R: "transp R" and m: "safeA P R m Q" and h: "\<And>e a. h e = Some a \<Longrightarrow> safeA P R a Q"
  shows "safeA P R (catchA m h) Q"
proof (rule safeAI)
  fix s
  assume P: "P s"
  obtain r s' where ms: "m s = (r, s')" by fastforce
  have 1: "P s'" "R s s'" "\<And>x. r = Inr x \<Longrightarrow> Q x" using safeAD [OF m P] ms by auto
  show "P (snd (catchA m h s)) \<and> R s (snd (catchA m h s)) \<and> (\<forall>x. fst (catchA m h s) = Inr x \<longrightarrow> Q x)"
  proof (cases r)
    case (Inr x)
    with ms 1 show ?thesis by simp
  next
    case (Inl e)
    show ?thesis
    proof (cases "h e")
      case None
      with ms Inl 1 show ?thesis by simp
    next
      case (Some a)
      have run: "catchA m h s = a s'" using ms Inl Some by simp
      show ?thesis unfolding run using safeAD [OF h [OF Some] 1(1)] transpD [OF R 1(2)] by blast
    qed
  qed
qed

lemma safeA_weaken: "safeA P R m Q \<Longrightarrow> (\<And>x. Q x \<Longrightarrow> Q' x) \<Longrightarrow> safeA P R m Q'"
  unfolding safeA_def by blast

section \<open>Lists\<close>

lemma take_len: "length xs = n \<Longrightarrow> take n (xs @ ys) = xs"
  by auto

lemma drop_len: "length xs = n \<Longrightarrow> drop n (xs @ ys) = ys"
  by auto

lemma filter_filter_commute: "filter p (filter q xs) = filter q (filter p xs)"
  by (simp add: conj_commute)

lemma distinct_map_filter: "distinct (map f xs) \<Longrightarrow> distinct (map f (filter p xs))"
  by (induction xs) auto

lemma takeWhile_append_stop:
  "(\<And>x. x \<in> set xs \<Longrightarrow> P x) \<Longrightarrow> \<not> P y \<Longrightarrow> takeWhile P (xs @ y # ys) = xs"
  by (induction xs) auto

lemma dropWhile_append_stop:
  "(\<And>x. x \<in> set xs \<Longrightarrow> P x) \<Longrightarrow> \<not> P y \<Longrightarrow> dropWhile P (xs @ y # ys) = y # ys"
  by (induction xs) auto

lemma sort_key_map: "sort_key f (map g xs) = map g (sort_key (f \<circ> g) xs)"
proof (induction xs)
  case (Cons x xs)
  have "insort_key f (g y) (map g ys) = map g (insort_key (f \<circ> g) y ys)" for y ys
    by (induction ys) simp_all
  with Cons show ?case by (simp add: comp_def)
qed simp

end
