(* ===== verification/PyString.thy ===== *)
theory PyString
  imports Prelude
begin

text \<open>
  The string methods of Python the code calls, on \<open>string\<close> (a list of 8-bit characters, as
  Python 2's \<open>str\<close>): \<open>split\<close>, \<open>join\<close>, \<open>strip\<close>, \<open>replace\<close>, \<open>in\<close>, \<open>lower\<close>, and the number
  conversions \<open>int(s)\<close>, \<open>int(s, 16)\<close> and \<open>str(n)\<close>.
\<close>

section \<open>Characters\<close>

definition ord :: "char \<Rightarrow> nat" where
  "ord c = of_char c"

definition is_digit :: "char \<Rightarrow> bool" where
  "is_digit c \<longleftrightarrow> 48 \<le> ord c \<and> ord c \<le> 57"

definition is_lower :: "char \<Rightarrow> bool" where
  "is_lower c \<longleftrightarrow> 97 \<le> ord c \<and> ord c \<le> 122"

definition is_upper :: "char \<Rightarrow> bool" where
  "is_upper c \<longleftrightarrow> 65 \<le> ord c \<and> ord c \<le> 90"

text \<open>ASCII whitespace, the set \<open>isspace\<close> and \<open>strip()\<close> use: tab to carriage return, and space.\<close>

definition is_space :: "char \<Rightarrow> bool" where
  "is_space c \<longleftrightarrow> ord c = 32 \<or> (9 \<le> ord c \<and> ord c \<le> 13)"

definition to_lower :: "char \<Rightarrow> char" where
  "to_lower c = (if is_upper c then char_of (ord c + 32) else c)"

definition is_hex :: "char \<Rightarrow> bool" where
  "is_hex c \<longleftrightarrow> is_digit c \<or> (65 \<le> ord c \<and> ord c \<le> 70) \<or> (97 \<le> ord c \<and> ord c \<le> 102)"

definition newline :: char where
  "newline = char_of (10 :: nat)"

lemma newline_char: "newline = CHR 0x0A"
  by (rule of_char_eq_iff [where ?'a = nat, THEN iffD1]) (simp add: newline_def)

lemmas char_defs = is_digit_def is_lower_def is_upper_def is_space_def is_hex_def ord_def

lemma ord_inj: "ord c = ord d \<longleftrightarrow> c = d"
  by (simp add: ord_def)

lemma ord_char_of [simp]: "n < 256 \<Longrightarrow> ord (char_of n) = n"
  by (simp add: ord_def)

lemma is_lower_not_digit: "is_lower c \<Longrightarrow> \<not> is_digit c"
  by (simp add: char_defs)

section \<open>split and join on a separator character\<close>

fun split_on :: "char \<Rightarrow> string \<Rightarrow> string list" where
  "split_on c [] = [[]]"
| "split_on c (x # xs) =
     (if x = c then [] # split_on c xs
      else (case split_on c xs of [] \<Rightarrow> [[x]] | y # ys \<Rightarrow> (x # y) # ys))"

fun join_with :: "string \<Rightarrow> string list \<Rightarrow> string" where
  "join_with sep [] = []"
| "join_with sep [x] = x"
| "join_with sep (x # y # ys) = x @ sep @ join_with sep (y # ys)"

lemma split_on_nonempty [simp]: "split_on c s \<noteq> []"
  by (cases s) (auto split: list.split)

lemma join_with_Cons: "xs \<noteq> [] \<Longrightarrow> join_with sep (x # xs) = x @ sep @ join_with sep xs"
  by (cases xs) auto

lemma join_split: "join_with [c] (split_on c s) = s"
proof (induction s)
  case Nil
  then show ?case by simp
next
  case (Cons x xs)
  obtain y ys where yys: "split_on c xs = y # ys"
    by (cases "split_on c xs") auto
  show ?case
  proof (cases "x = c")
    case True
    with Cons yys show ?thesis by simp
  next
    case False
    with Cons yys show ?thesis by (cases ys) auto
  qed
qed

lemma split_on_no_sep: "c \<notin> set s \<Longrightarrow> split_on c s = [s]"
  by (induction s) auto

lemma split_on_append: "c \<notin> set a \<Longrightarrow> split_on c (a @ c # s) = a # split_on c s"
  by (induction a) auto

lemma split_on_parts: "p \<in> set (split_on c s) \<Longrightarrow> c \<notin> set p"
proof (induction s arbitrary: p)
  case Nil
  then show ?case by simp
next
  case (Cons x xs)
  obtain y ys where yys: "split_on c xs = y # ys"
    by (cases "split_on c xs") auto
  from Cons yys show ?case by (auto split: if_splits)
qed

lemma split_join:
  "ps \<noteq> [] \<Longrightarrow> \<forall>p \<in> set ps. c \<notin> set p \<Longrightarrow> split_on c (join_with [c] ps) = ps"
proof (induction ps)
  case Nil
  then show ?case by simp
next
  case (Cons p ps)
  show ?case
  proof (cases ps)
    case Nil
    with Cons.prems show ?thesis by (simp add: split_on_no_sep)
  next
    case (Cons q qs)
    with Cons.IH Cons.prems show ?thesis
      by (simp add: join_with_Cons split_on_append)
  qed
qed

lemma length_split_on: "length (split_on c s) = Suc (count_list s c)"
proof (induction s)
  case Nil
  then show ?case by simp
next
  case (Cons x xs)
  obtain y ys where "split_on c xs = y # ys"
    by (cases "split_on c xs") auto
  with Cons show ?case by auto
qed

section \<open>strip, contains, replace\<close>

definition strip_by :: "(char \<Rightarrow> bool) \<Rightarrow> string \<Rightarrow> string" where
  "strip_by p s = rev (dropWhile p (rev (dropWhile p s)))"

definition rstrip_by :: "(char \<Rightarrow> bool) \<Rightarrow> string \<Rightarrow> string" where
  "rstrip_by p s = rev (dropWhile p (rev s))"

definition strip :: "string \<Rightarrow> string" where
  "strip s = strip_by is_space s"

definition strip_char :: "char \<Rightarrow> string \<Rightarrow> string" where
  "strip_char c s = strip_by (\<lambda>x. x = c) s"

definition starts_with :: "string \<Rightarrow> string \<Rightarrow> bool" where
  "starts_with p s \<longleftrightarrow> take (length p) s = p"

fun contains :: "string \<Rightarrow> string \<Rightarrow> bool" where
  "contains p [] \<longleftrightarrow> p = []"
| "contains p (x # xs) \<longleftrightarrow> starts_with p (x # xs) \<or> contains p xs"

definition isspace :: "string \<Rightarrow> bool" where
  "isspace s \<longleftrightarrow> s \<noteq> [] \<and> list_all is_space s"

definition lower :: "string \<Rightarrow> string" where
  "lower s = map to_lower s"

text \<open>\<open>s[:n]\<close>; a negative \<open>n\<close> counts from the end.\<close>

definition slice_to :: "int \<Rightarrow> 'a list \<Rightarrow> 'a list" where
  "slice_to n s = take (nat (if n < 0 then int (length s) + n else n)) s"

text \<open>
  \<open>s.replace(old, new)\<close> for a non-empty \<open>old\<close>: occurrences from the left, not overlapping.
  The calls in the code all have a non-empty \<open>old\<close>.
\<close>

fun replace_all :: "string \<Rightarrow> string \<Rightarrow> string \<Rightarrow> string" where
  "replace_all old new [] = []"
| "replace_all old new (x # xs) =
     (if starts_with old (x # xs) then new @ replace_all old new (drop (length old - 1) xs)
      else x # replace_all old new xs)"

lemma starts_with_append [simp]: "starts_with p (p @ s)"
  by (simp add: starts_with_def)

lemma starts_with_iff: "starts_with p s \<longleftrightarrow> (\<exists>t. s = p @ t)"
  unfolding starts_with_def by (metis append_eq_conv_conj append_take_drop_id)

lemma contains_iff: "contains p s \<longleftrightarrow> (\<exists>a b. s = a @ p @ b)"
proof (induction s)
  case Nil
  then show ?case by simp
next
  case (Cons x xs)
  show ?case
  proof
    assume "contains p (x # xs)"
    then consider t where "x # xs = p @ t" | a b where "xs = a @ p @ b"
      using Cons by (auto simp: starts_with_iff)
    then show "\<exists>a b. x # xs = a @ p @ b"
    proof cases
      case 1
      then have "x # xs = [] @ p @ t" by simp
      then show ?thesis by blast
    next
      case 2
      then have "x # xs = (x # a) @ p @ b" by simp
      then show ?thesis by blast
    qed
  next
    assume "\<exists>a b. x # xs = a @ p @ b"
    then obtain a b where ab: "x # xs = a @ p @ b" by blast
    show "contains p (x # xs)"
    proof (cases a)
      case Nil
      with ab have "starts_with p (x # xs)" by (auto simp: starts_with_iff)
      then show ?thesis by simp
    next
      case a: (Cons y ys)
      with ab Cons show ?thesis by auto
    qed
  qed
qed

lemma replace_all_absent: "\<not> contains old s \<Longrightarrow> replace_all old new s = s"
  by (induction s) auto

lemma replace_all_same:
  assumes "old \<noteq> []"
  shows "replace_all old old s = s"
proof (induction s rule: length_induct)
  case (1 s)
  show ?case
  proof (cases s)
    case Nil
    then show ?thesis by simp
  next
    case (Cons x xs)
    show ?thesis
    proof (cases "starts_with old (x # xs)")
      case True
      then obtain t where t: "x # xs = old @ t" by (auto simp: starts_with_iff)
      with assms have d: "drop (length old - 1) xs = t" by (cases old) auto
      moreover have "length t < length s" using t Cons assms
        by (metis append_eq_conv_conj diff_less length_drop length_greater_0_conv list.discI)
      ultimately have "replace_all old old (x # xs) = old @ t" using 1 True by simp
      with t Cons show ?thesis by simp
    next
      case False
      with 1 Cons show ?thesis by simp
    qed
  qed
qed

text \<open>A character that \<open>old\<close> does not contain bounds every occurrence of \<open>old\<close>.\<close>

lemma starts_with_boundary: "x \<notin> set old \<Longrightarrow> starts_with old (a @ x # s) \<longleftrightarrow> starts_with old a"
proof (induction old arbitrary: a)
  case (Cons c old)
  then show ?case by (cases a) (auto simp: starts_with_def)
qed (simp add: starts_with_def)

lemma replace_all_boundary:
  assumes "x \<notin> set old" and "old \<noteq> []"
  shows "\<not> contains old a \<Longrightarrow> replace_all old new (a @ x # s) = a @ x # replace_all old new s"
proof (induction a)
  case Nil
  with assms starts_with_boundary [OF assms(1), of "[]" s] show ?case by (simp add: starts_with_def)
next
  case (Cons y a)
  with starts_with_boundary [OF assms(1), of "y # a" s] show ?case by simp
qed

lemma contains_set: "contains p s \<Longrightarrow> set p \<subseteq> set s"
  by (auto simp: contains_iff)

lemma replace_all_hit:
  assumes "old \<noteq> []" and "\<not> contains old s"
  shows "replace_all old new (old @ s) = new @ s"
proof -
  obtain x xs where old: "old = x # xs" using assms(1) by (cases old) auto
  have "starts_with old (x # (xs @ s))" using old starts_with_append [of old s] by simp
  then have "replace_all old new (old @ s) = new @ replace_all old new s"
    by (simp add: old)
  with assms(2) show ?thesis by (simp add: replace_all_absent)
qed

lemma replace_all_skip:
  "old \<noteq> [] \<Longrightarrow> hd old \<notin> set a \<Longrightarrow> replace_all old new (a @ s) = a @ replace_all old new s"
proof (induction a)
  case (Cons x a)
  then have "\<not> starts_with old (x # a @ s)"
    by (cases old) (auto simp: starts_with_def)
  with Cons show ?case by simp
qed simp

section \<open>Decimal and hexadecimal numbers\<close>

definition digit_val :: "char \<Rightarrow> nat" where
  "digit_val c = ord c - 48"

definition hex_val :: "char \<Rightarrow> nat" where
  "hex_val c = (if is_digit c then ord c - 48
                else if 97 \<le> ord c then ord c - 87 else ord c - 55)"

definition digit_char :: "nat \<Rightarrow> char" where
  "digit_char d = ''0123456789abcdef'' ! d"

definition nat_of_digits :: "string \<Rightarrow> nat" where
  "nat_of_digits s = foldl (\<lambda>a c. 10 * a + digit_val c) 0 s"

definition nat_of_hex :: "string \<Rightarrow> nat" where
  "nat_of_hex s = foldl (\<lambda>a c. 16 * a + hex_val c) 0 s"

fun show_nat :: "nat \<Rightarrow> string" where
  "show_nat n = (if n < 10 then [digit_char n] else show_nat (n div 10) @ [digit_char (n mod 10)])"

fun show_hex :: "nat \<Rightarrow> string" where
  "show_hex n = (if n < 16 then [digit_char n] else show_hex (n div 16) @ [digit_char (n mod 16)])"

declare show_nat.simps [simp del] show_hex.simps [simp del]

definition show_int :: "int \<Rightarrow> string" where
  "show_int i = (if i < 0 then CHR ''-'' # show_nat (nat (- i)) else show_nat (nat i))"

text \<open>\<open>int(s)\<close> and \<open>int(s, 10)\<close>: surrounding whitespace, an optional sign, digits.\<close>

definition py_int :: "string \<Rightarrow> int res" where
  "py_int s =
     (let t = strip s;
          (neg, ds) = (case t of
              [] \<Rightarrow> (False, [])
            | c # cs \<Rightarrow> if c = CHR ''-'' then (True, cs) else if c = CHR ''+'' then (False, cs)
                       else (False, t))
      in if ds = [] \<or> \<not> list_all is_digit ds then Inl ValueError
         else Inr (if neg then - int (nat_of_digits ds) else int (nat_of_digits ds)))"

lemma less_16_cases:
  assumes "d < (16 :: nat)"
  obtains "d = 0" | "d = 1" | "d = 2" | "d = 3" | "d = 4" | "d = 5" | "d = 6" | "d = 7"
    | "d = 8" | "d = 9" | "d = 10" | "d = 11" | "d = 12" | "d = 13" | "d = 14" | "d = 15"
proof -
  have "d = 0 \<or> d = 1 \<or> d = 2 \<or> d = 3 \<or> d = 4 \<or> d = 5 \<or> d = 6 \<or> d = 7 \<or> d = 8
    \<or> d = 9 \<or> d = 10 \<or> d = 11 \<or> d = 12 \<or> d = 13 \<or> d = 14 \<or> d = 15"
    using assms by arith
  then show thesis using that by blast
qed

lemma digit_char_digit: "d < 10 \<Longrightarrow> is_digit (digit_char d)"
  by (rule less_16_cases [of d]) (simp_all add: digit_char_def char_defs)

lemma digit_val_char [simp]: "d < 10 \<Longrightarrow> digit_val (digit_char d) = d"
  by (rule less_16_cases [of d]) (simp_all add: digit_char_def digit_val_def char_defs)

lemma hex_val_char [simp]: "d < 16 \<Longrightarrow> hex_val (digit_char d) = d"
  by (rule less_16_cases [of d]) (simp_all add: digit_char_def hex_val_def char_defs)

lemma is_hex_char [simp]: "d < 16 \<Longrightarrow> is_hex (digit_char d)"
  by (rule less_16_cases [of d]) (simp_all add: digit_char_def char_defs)

lemma digit_char_zero_iff: "d < 10 \<Longrightarrow> digit_char d = CHR ''0'' \<longleftrightarrow> d = 0"
  by (rule less_16_cases [of d]) (simp_all add: digit_char_def)

lemma nat_of_digits_snoc [simp]: "nat_of_digits (s @ [c]) = 10 * nat_of_digits s + digit_val c"
  by (simp add: nat_of_digits_def)

lemma nat_of_hex_snoc [simp]: "nat_of_hex (s @ [c]) = 16 * nat_of_hex s + hex_val c"
  by (simp add: nat_of_hex_def)

lemma nat_of_digits_single [simp]: "nat_of_digits [c] = digit_val c"
  by (simp add: nat_of_digits_def)

lemma nat_of_hex_single [simp]: "nat_of_hex [c] = hex_val c"
  by (simp add: nat_of_hex_def)

lemma nat_of_show_nat [simp]: "nat_of_digits (show_nat n) = n"
proof (induction n rule: show_nat.induct)
  case (1 n)
  show ?case
  proof (cases "n < 10")
    case True
    then show ?thesis by (subst show_nat.simps) simp
  next
    case False
    with 1 have "nat_of_digits (show_nat (n div 10)) = n div 10" by simp
    with False show ?thesis by (subst show_nat.simps) simp
  qed
qed

lemma nat_of_show_hex [simp]: "nat_of_hex (show_hex n) = n"
proof (induction n rule: show_hex.induct)
  case (1 n)
  show ?case
  proof (cases "n < 16")
    case True
    then show ?thesis by (subst show_hex.simps) simp
  next
    case False
    with 1 have "nat_of_hex (show_hex (n div 16)) = n div 16" by simp
    with False show ?thesis by (subst show_hex.simps) simp
  qed
qed

lemma show_nat_digits: "list_all is_digit (show_nat n)"
proof (induction n rule: show_nat.induct)
  case (1 n)
  then show ?case
    by (cases "n < 10") (subst show_nat.simps, simp add: digit_char_digit)+
qed

lemma show_hex_digits: "list_all is_hex (show_hex n)"
proof (induction n rule: show_hex.induct)
  case (1 n)
  then show ?case
    by (cases "n < 16") (subst show_hex.simps, simp)+
qed

lemma show_nat_nonempty [simp]: "show_nat n \<noteq> []"
  by (subst show_nat.simps) simp

lemma show_hex_nonempty [simp]: "show_hex n \<noteq> []"
  by (subst show_hex.simps) simp

lemma show_nat_hd: "0 < n \<Longrightarrow> hd (show_nat n) \<noteq> CHR ''0''"
proof (induction n rule: show_nat.induct)
  case (1 n)
  then show ?case
    by (cases "n < 10") (subst show_nat.simps, simp add: digit_char_zero_iff hd_append)+
qed

lemma digit_val_less: "is_digit c \<Longrightarrow> digit_val c < 10"
  by (auto simp: digit_val_def is_digit_def)

lemma digit_val_inj: "is_digit c \<Longrightarrow> is_digit d \<Longrightarrow> digit_val c = digit_val d \<Longrightarrow> c = d"
  by (auto simp: digit_val_def is_digit_def simp flip: ord_inj)

lemma digit_char_val [simp]: "is_digit c \<Longrightarrow> digit_char (digit_val c) = c"
  by (rule digit_val_inj) (simp_all add: digit_char_digit digit_val_less)

lemma show_nat_small: "n < 10 \<Longrightarrow> show_nat n = [digit_char n]"
  by (subst show_nat.simps) simp

lemma show_nat_step: "0 < n \<Longrightarrow> d < 10 \<Longrightarrow> show_nat (10 * n + d) = show_nat n @ [digit_char d]"
  by (subst show_nat.simps) simp

text \<open>Decimal digits without a superfluous leading zero are what \<open>str\<close> prints.\<close>

lemma show_nat_of_digits:
  "list_all is_digit s \<Longrightarrow> s \<noteq> [] \<Longrightarrow> hd s \<noteq> CHR ''0'' \<or> length s = 1 \<Longrightarrow> show_nat (nat_of_digits s) = s"
proof (induction s rule: rev_induct)
  case (snoc c s)
  then have c: "is_digit c" by simp
  show ?case
  proof (cases "s = []")
    case True
    then show ?thesis using c by (simp add: show_nat_small digit_val_less)
  next
    case False
    with snoc have hd: "hd s \<noteq> CHR ''0''" and ih: "show_nat (nat_of_digits s) = s" by auto
    have "show_nat 0 = ''0''" by (simp add: show_nat_small digit_char_def)
    then have "0 < nat_of_digits s" using ih hd by (metis gr0I list.sel(1))
    then show ?thesis using c ih by (simp add: show_nat_step digit_val_less)
  qed
qed simp

lemma show_nat_lead: "length (show_nat n) = 1 \<or> hd (show_nat n) \<noteq> CHR ''0''"
  using show_nat_hd [of n] by (cases "n = 0") (simp_all add: show_nat_small)

lemma is_digit_not: "is_digit c \<Longrightarrow> \<not> is_space c \<and> c \<noteq> CHR ''-'' \<and> c \<noteq> CHR ''+''"
  by (auto simp: char_defs)

lemma strip_by_id: "s \<noteq> [] \<Longrightarrow> \<not> p (hd s) \<Longrightarrow> \<not> p (last s) \<Longrightarrow> strip_by p s = s"
proof -
  assume s: "s \<noteq> []" "\<not> p (hd s)" "\<not> p (last s)"
  then obtain c cs where "s = c # cs" by (cases s) auto
  with s have "dropWhile p s = s" by simp
  moreover have "dropWhile p (rev s) = rev s"
    using s by (metis dropWhile_eq_self_iff hd_rev rev_is_Nil_conv)
  ultimately show ?thesis by (simp add: strip_by_def)
qed

lemma py_int_empty [simp]: "py_int [] = Inl ValueError"
  by (simp add: py_int_def strip_def strip_by_def)

lemma py_int_digits:
  assumes "s \<noteq> []" and "list_all is_digit s"
  shows "py_int s = Inr (int (nat_of_digits s))"
proof -
  have "is_digit (hd s)" and "is_digit (last s)"
    using assms by (auto simp: list_all_iff)
  then have "strip s = s" using assms(1)
    by (simp add: strip_def strip_by_id is_digit_not)
  moreover obtain c cs where "s = c # cs" using assms(1) by (cases s) auto
  ultimately show ?thesis using assms(2) is_digit_not [of c]
    by (simp add: py_int_def)
qed

lemma py_int_show_nat [simp]: "py_int (show_nat n) = Inr (int n)"
  by (simp add: py_int_digits show_nat_digits)

lemma py_int_show_int: "py_int (show_int i) = Inr i"
proof (cases "i < 0")
  case False
  then show ?thesis by (simp add: show_int_def)
next
  case True
  have d: "list_all is_digit (show_nat (nat (- i)))" by (rule show_nat_digits)
  then have "is_digit (last (show_nat (nat (- i))))"
    by (simp add: list_all_iff)
  then have "strip (CHR ''-'' # show_nat (nat (- i))) = CHR ''-'' # show_nat (nat (- i))"
    unfolding strip_def by (intro strip_by_id) (simp_all add: is_digit_not char_defs)
  with True d show ?thesis by (simp add: show_int_def py_int_def)
qed

end
