(* ===== verification/Constants.thy ===== *)
theory Constants
  imports PyString
begin

text \<open>
  The constants of \<open>util/constants.py\<close> and the message fields of \<open>util/message.py\<close>. Each keeps
  its Python name; both modules' names share one namespace here.
\<close>

section \<open>\<open>util/constants.py\<close>\<close>

definition DEFAULT_NAGIOS_ENTRY :: string where
  "DEFAULT_NAGIOS_ENTRY = ''default''"

definition DEFAULT_PROMETHEUS_ENTRY :: string where
  "DEFAULT_PROMETHEUS_ENTRY = ''prometheus_default''"

definition PROMETHEUS_TOOL_EXTRA :: string where
  "PROMETHEUS_TOOL_EXTRA = ''Prometheus was here '' @ [char_of (92 :: nat)] @ ''o/.''"

definition EARTH_RADIUS :: real where
  "EARTH_RADIUS = 6371"

definition GEOLOCATION_APP_ENGINE :: string where
  "GEOLOCATION_APP_ENGINE = ''app_engine''"

definition GEOLOCATION_MAXMIND :: string where
  "GEOLOCATION_MAXMIND = ''maxmind''"

definition GEOLOCATION_USER_DEFINED :: string where
  "GEOLOCATION_USER_DEFINED = ''user_defined''"

definition GEOLOCATION_MAXMIND_GCS_BUCKET :: string where
  "GEOLOCATION_MAXMIND_GCS_BUCKET = ''mlab-ns.appspot.com''"

definition GEOLOCATION_MAXMIND_BUCKET_PATH :: string where
  "GEOLOCATION_MAXMIND_BUCKET_PATH = ''maxmind/current''"

definition GEOLOCATION_MAXMIND_CITY_FILE :: string where
  "GEOLOCATION_MAXMIND_CITY_FILE = ''GeoLite2-City.mmdb''"

definition MAX_FETCHED_RESULTS :: "nat option" where
  "MAX_FETCHED_RESULTS = None"

definition MEMCACHE_NAMESPACE_TOOLS :: string where
  "MEMCACHE_NAMESPACE_TOOLS = ''memcache_tools''"

definition MEMCACHE_NAMESPACE_REQUESTS :: string where
  "MEMCACHE_NAMESPACE_REQUESTS = ''memcache_requests''"

definition MEMCACHE_NAMESPACE_REVERSE_PROXY :: string where
  "MEMCACHE_NAMESPACE_REVERSE_PROXY = ''memcache_reverse_proxy''"

definition NAGIOS_SERVICE_STATUS_OK :: string where
  "NAGIOS_SERVICE_STATUS_OK = ''0''"

definition PROMETHEUS_SERVICE_STATUS_OK :: string where
  "PROMETHEUS_SERVICE_STATUS_OK = ''1''"

definition GQL_BATCH_SIZE :: nat where
  "GQL_BATCH_SIZE = 1000"

definition REGISTRATION_KEY_ID :: string where
  "REGISTRATION_KEY_ID = ''admin''"

definition UNKNOWN_COUNTRY :: string where
  "UNKNOWN_COUNTRY = ''ZZ''"

definition UNKNOWN_CITY :: string where
  "UNKNOWN_CITY = ''Zion''"

definition PRIVACY_DOC_URL :: string where
  "PRIVACY_DOC_URL = ''https://github.com/m-lab/mlab-ns/blob/master/MLAB-NS_PRIVACY_POLICY.md''"

definition DESIGN_DOC_URL :: string where
  "DESIGN_DOC_URL = ''https://github.com/m-lab/mlab-ns/blob/master/DESIGN_DOC.md''"

section \<open>\<open>util/message.py\<close>\<close>

definition ADDRESS_FAMILY :: string where "ADDRESS_FAMILY = ''address_family''"
definition ADDRESS_FAMILY_IPv4 :: string where "ADDRESS_FAMILY_IPv4 = ''ipv4''"
definition ADDRESS_FAMILY_IPv6 :: string where "ADDRESS_FAMILY_IPv6 = ''ipv6''"
definition CITY :: string where "CITY = ''city''"
definition COUNTRY :: string where "COUNTRY = ''country''"
definition RESPONSE_FORMAT :: string where "RESPONSE_FORMAT = ''format''"
definition FORMAT_HTML :: string where "FORMAT_HTML = ''html''"
definition FORMAT_JSON :: string where "FORMAT_JSON = ''json''"
definition FORMAT_MAP :: string where "FORMAT_MAP = ''map''"
definition FORMAT_REDIRECT :: string where "FORMAT_REDIRECT = ''redirect''"
definition FORMAT_BT :: string where "FORMAT_BT = ''bt''"
definition VALID_FORMATS :: "string list" where
  "VALID_FORMATS = [FORMAT_HTML, FORMAT_JSON, FORMAT_MAP, FORMAT_REDIRECT, FORMAT_BT]"
definition DEFAULT_RESPONSE_FORMAT :: string where
  "DEFAULT_RESPONSE_FORMAT = FORMAT_JSON"
definition HEADER_CITY :: string where "HEADER_CITY = ''X-AppEngine-City''"
definition HEADER_COUNTRY :: string where "HEADER_COUNTRY = ''X-AppEngine-Country''"
definition HEADER_LAT_LONG :: string where "HEADER_LAT_LONG = ''X-AppEngine-CityLatLong''"
definition LATITUDE :: string where "LATITUDE = ''lat''"
definition LONGITUDE :: string where "LONGITUDE = ''lon''"
definition METRO :: string where "METRO = ''metro''"
definition POLICY :: string where "POLICY = ''policy''"
definition POLICY_GEO :: string where "POLICY_GEO = ''geo''"
definition POLICY_GEO_OPTIONS :: string where "POLICY_GEO_OPTIONS = ''geo_options''"
definition POLICY_METRO :: string where "POLICY_METRO = ''metro''"
definition POLICY_RANDOM :: string where "POLICY_RANDOM = ''random''"
definition POLICY_COUNTRY :: string where "POLICY_COUNTRY = ''country''"
definition POLICY_ALL :: string where "POLICY_ALL = ''all''"
definition REMOTE_ADDRESS :: string where "REMOTE_ADDRESS = ''ip''"
definition NO_IP_ADDRESS :: string where "NO_IP_ADDRESS = ''off''"
definition STATUS :: string where "STATUS = ''status''"
definition STATUS_IPv4 :: string where "STATUS_IPv4 = ''status_ipv4''"
definition STATUS_IPv6 :: string where "STATUS_IPv6 = ''status_ipv6''"
definition STATUS_OFFLINE :: string where "STATUS_OFFLINE = ''offline''"
definition STATUS_ONLINE :: string where "STATUS_ONLINE = ''online''"
definition URL :: string where "URL = ''url''"
definition USER_AGENT :: string where "USER_AGENT = ''User-Agent''"

lemmas namespace_defs = MEMCACHE_NAMESPACE_TOOLS_def MEMCACHE_NAMESPACE_REQUESTS_def
  MEMCACHE_NAMESPACE_REVERSE_PROXY_def

lemmas family_defs = ADDRESS_FAMILY_IPv4_def ADDRESS_FAMILY_IPv6_def

lemmas status_defs = STATUS_OFFLINE_def STATUS_ONLINE_def NO_IP_ADDRESS_def

lemmas policy_defs = POLICY_GEO_def POLICY_GEO_OPTIONS_def POLICY_METRO_def POLICY_RANDOM_def
  POLICY_COUNTRY_def POLICY_ALL_def

lemmas format_defs = FORMAT_HTML_def FORMAT_JSON_def FORMAT_MAP_def FORMAT_REDIRECT_def
  FORMAT_BT_def VALID_FORMATS_def DEFAULT_RESPONSE_FORMAT_def

lemmas field_defs = ADDRESS_FAMILY_def CITY_def COUNTRY_def RESPONSE_FORMAT_def LATITUDE_def
  LONGITUDE_def METRO_def POLICY_def REMOTE_ADDRESS_def USER_AGENT_def HEADER_CITY_def
  HEADER_COUNTRY_def HEADER_LAT_LONG_def

lemmas geolocation_defs = GEOLOCATION_APP_ENGINE_def GEOLOCATION_MAXMIND_def
  GEOLOCATION_USER_DEFINED_def

lemma families_distinct [simp]:
  "ADDRESS_FAMILY_IPv4 \<noteq> ADDRESS_FAMILY_IPv6" "ADDRESS_FAMILY_IPv6 \<noteq> ADDRESS_FAMILY_IPv4"
  "ADDRESS_FAMILY_IPv4 \<noteq> []" "ADDRESS_FAMILY_IPv6 \<noteq> []"
  by (simp_all add: family_defs)

lemma statuses_distinct [simp]:
  "STATUS_ONLINE \<noteq> STATUS_OFFLINE" "STATUS_OFFLINE \<noteq> STATUS_ONLINE" "STATUS_ONLINE \<noteq> []"
  by (simp_all add: status_defs)

lemma namespaces_distinct [simp]:
  "MEMCACHE_NAMESPACE_TOOLS \<noteq> MEMCACHE_NAMESPACE_REQUESTS"
  "MEMCACHE_NAMESPACE_TOOLS \<noteq> MEMCACHE_NAMESPACE_REVERSE_PROXY"
  "MEMCACHE_NAMESPACE_REQUESTS \<noteq> MEMCACHE_NAMESPACE_TOOLS"
  "MEMCACHE_NAMESPACE_REVERSE_PROXY \<noteq> MEMCACHE_NAMESPACE_TOOLS"
  "MEMCACHE_NAMESPACE_REQUESTS \<noteq> MEMCACHE_NAMESPACE_REVERSE_PROXY"
  "MEMCACHE_NAMESPACE_REVERSE_PROXY \<noteq> MEMCACHE_NAMESPACE_REQUESTS"
  by (simp_all add: namespace_defs)

end
