(* ===== verification/PyRegex.thy ===== *)
theory PyRegex
  imports PyString
begin

text \<open>
  The part of Python's \<open>re\<close> the code uses: regular expressions as data, and a backtracking
  matcher that lists every way to match, in the order the \<open>re\<close> engine tries them (greedy
  repetition first, an optional group present before absent). \<open>re.match\<close> takes the first.
\<close>

datatype rx =
    RCls "(char \<times> char) list"   \<comment> \<open>a character class, as a list of ranges\<close>
  | RAny                          \<comment> \<open>\<open>.\<close>, anything but a newline\<close>
  | RBol                          \<comment> \<open>\<open>^\<close>\<close>
  | REol                          \<comment> \<open>\<open>$\<close>, at the end or before a final newline\<close>
  | REps
  | RSeq rx rx
  | ROpt rx                       \<comment> \<open>\<open>r?\<close>\<close>
  | RStar rx                      \<comment> \<open>\<open>r*\<close>\<close>
  | RGrp nat rx                   \<comment> \<open>a capturing group\<close>

text \<open>The state of a match: position, what is left of the subject, the groups captured.\<close>

type_synonym mst = "nat \<times> string \<times> (nat \<times> string) list"

definition in_ranges :: "(char \<times> char) list \<Rightarrow> char \<Rightarrow> bool" where
  "in_ranges rs c \<longleftrightarrow> list_ex (\<lambda>(a, b). ord a \<le> ord c \<and> ord c \<le> ord b) rs"

definition to_upper :: "char \<Rightarrow> char" where
  "to_upper c = (if is_lower c then char_of (ord c - 32) else c)"

text \<open>Under \<open>re.IGNORECASE\<close> a class also takes the other case of each of its letters.\<close>

definition in_cls :: "bool \<Rightarrow> (char \<times> char) list \<Rightarrow> char \<Rightarrow> bool" where
  "in_cls ic rs c \<longleftrightarrow>
     in_ranges rs c \<or> (ic \<and> (in_ranges rs (to_lower c) \<or> in_ranges rs (to_upper c)))"

fun star_runs :: "(mst \<Rightarrow> mst list) \<Rightarrow> nat \<Rightarrow> mst \<Rightarrow> mst list" where
  "star_runs f 0 st = [st]"
| "star_runs f (Suc n) st =
     concat (map (star_runs f n) (filter (\<lambda>st'. fst st < fst st') (f st))) @ [st]"

primrec rx_run :: "bool \<Rightarrow> rx \<Rightarrow> mst \<Rightarrow> mst list" where
  "rx_run ic (RCls rs) st = (case st of (p, s, g) \<Rightarrow>
     (case s of [] \<Rightarrow> [] | c # cs \<Rightarrow> if in_cls ic rs c then [(p + 1, cs, g)] else []))"
| "rx_run ic RAny st = (case st of (p, s, g) \<Rightarrow>
     (case s of [] \<Rightarrow> [] | c # cs \<Rightarrow> if c \<noteq> newline then [(p + 1, cs, g)] else []))"
| "rx_run ic RBol st = (case st of (p, s, g) \<Rightarrow> if p = 0 then [st] else [])"
| "rx_run ic REol st = (case st of (p, s, g) \<Rightarrow> if s = [] \<or> s = [newline] then [st] else [])"
| "rx_run ic REps st = [st]"
| "rx_run ic (RSeq a b) st = concat (map (rx_run ic b) (rx_run ic a st))"
| "rx_run ic (ROpt a) st = rx_run ic a st @ [st]"
| "rx_run ic (RStar a) st = (case st of (p, s, g) \<Rightarrow> star_runs (rx_run ic a) (length s) st)"
| "rx_run ic (RGrp n a) st = (case st of (p, s, g) \<Rightarrow>
     map (\<lambda>(p', s', g'). (p', s', (n, take (p' - p) s) # g')) (rx_run ic a st))"

definition RPlus :: "rx \<Rightarrow> rx" where
  "RPlus r = RSeq r (RStar r)"

fun RTimes :: "nat \<Rightarrow> rx \<Rightarrow> rx" where
  "RTimes 0 r = REps"
| "RTimes (Suc n) r = RSeq r (RTimes n r)"

fun RLit :: "string \<Rightarrow> rx" where
  "RLit [] = REps"
| "RLit (c # cs) = RSeq (RCls [(c, c)]) (RLit cs)"

fun RSeqs :: "rx list \<Rightarrow> rx" where
  "RSeqs [] = REps"
| "RSeqs [r] = r"
| "RSeqs (r # rs) = RSeq r (RSeqs rs)"

declare RLit.simps [simp del] RTimes.simps [simp del]

definition re_match :: "bool \<Rightarrow> rx \<Rightarrow> string \<Rightarrow> mst option" where
  "re_match ic r s = (case rx_run ic r (0, s, []) of [] \<Rightarrow> None | st # _ \<Rightarrow> Some st)"

text \<open>\<open>re.search\<close>: the leftmost position at which the expression matches.\<close>

fun search_from :: "bool \<Rightarrow> rx \<Rightarrow> nat \<Rightarrow> string \<Rightarrow> mst option" where
  "search_from ic r p [] = (case rx_run ic r (p, [], []) of [] \<Rightarrow> None | st # _ \<Rightarrow> Some st)"
| "search_from ic r p (c # cs) =
     (case rx_run ic r (p, c # cs, []) of [] \<Rightarrow> search_from ic r (p + 1) cs | st # _ \<Rightarrow> Some st)"

definition re_search :: "bool \<Rightarrow> rx \<Rightarrow> string \<Rightarrow> mst option" where
  "re_search ic r s = search_from ic r 0 s"

definition rx_group :: "mst \<Rightarrow> nat \<Rightarrow> string option" where
  "rx_group st n = map_of (snd (snd st)) n"

section \<open>How far a match can go\<close>

text \<open>Every result consumes a prefix of what was left, and its position says how much.\<close>

definition consumes :: "mst \<Rightarrow> mst \<Rightarrow> bool" where
  "consumes st st' \<longleftrightarrow>
     (\<exists>w. fst (snd st) = w @ fst (snd st') \<and> fst st' = fst st + length w)"

lemma consumes_refl [simp]: "consumes st st"
  by (simp add: consumes_def)

lemma consumes_trans: "consumes a b \<Longrightarrow> consumes b c \<Longrightarrow> consumes a c"
  unfolding consumes_def by fastforce

lemma consumes_pair: "s = w @ s' \<Longrightarrow> consumes (p, s, g) (p + length w, s', g')"
  by (simp add: consumes_def)

lemma star_runs_consumes:
  assumes "\<And>st st'. st' \<in> set (f st) \<Longrightarrow> consumes st st'"
  shows "st' \<in> set (star_runs f n st) \<Longrightarrow> consumes st st'"
proof (induction n arbitrary: st)
  case 0
  then show ?case by simp
next
  case (Suc n)
  from Suc.prems consider "st' = st"
    | st1 where "st1 \<in> set (f st)" "st' \<in> set (star_runs f n st1)"
    by auto
  then show ?case
  proof cases
    case 1
    then show ?thesis by simp
  next
    case 2
    then show ?thesis using assms Suc.IH consumes_trans by blast
  qed
qed

lemma rx_run_consumes: "st' \<in> set (rx_run ic r st) \<Longrightarrow> consumes st st'"
proof (induction r arbitrary: st st')
  case (RCls rs)
  then show ?case
    by (cases st) (auto split: list.splits if_splits intro: consumes_pair [where w = "[_]", simplified])
next
  case RAny
  then show ?case
    by (cases st) (auto split: list.splits if_splits intro: consumes_pair [where w = "[_]", simplified])
next
  case (RSeq r1 r2)
  then obtain st1 where "st1 \<in> set (rx_run ic r1 st)" and "st' \<in> set (rx_run ic r2 st1)" by auto
  with RSeq.IH show ?case using consumes_trans by blast
next
  case (RStar r)
  then show ?case using star_runs_consumes [OF RStar.IH]
    by (cases st) simp
next
  case (RGrp n r)
  obtain p s g where st: "st = (p, s, g)" by (cases st)
  from RGrp.prems st obtain p' s' g' where "(p', s', g') \<in> set (rx_run ic r st)"
    and "st' = (p', s', (n, take (p' - p) s) # g')"
    by auto
  with RGrp.IH [of "(p', s', g')" st] show ?case by (simp add: consumes_def)
qed (auto split: prod.splits if_splits)

section \<open>Greedy runs of single characters\<close>

definition char_step :: "(char \<Rightarrow> bool) \<Rightarrow> mst \<Rightarrow> mst list" where
  "char_step P st = (case st of (p, s, g) \<Rightarrow>
     (case s of [] \<Rightarrow> [] | c # cs \<Rightarrow> if P c then [(p + 1, cs, g)] else []))"

lemma char_step_simps [simp]:
  "char_step P (p, [], g) = []"
  "char_step P (p, c # cs, g) = (if P c then [(p + 1, cs, g)] else [])"
  by (simp_all add: char_step_def)

lemma rx_run_char_step:
  "rx_run ic (RCls rs) = char_step (in_cls ic rs)"
  "rx_run ic RAny = char_step (\<lambda>c. c \<noteq> newline)"
  by (rule ext, simp add: char_step_def)+

lemma star_char_runs:
  assumes "length s \<le> n"
  shows "star_runs (char_step P) n (p, s, g) =
    map (\<lambda>k. (p + k, drop k s, g)) (rev [0..<Suc (length (takeWhile P s))])"
  using assms
proof (induction n arbitrary: p s)
  case 0
  then show ?case by simp
next
  case (Suc n)
  show ?case
  proof (cases s)
    case Nil
    then show ?thesis by simp
  next
    case (Cons c cs)
    show ?thesis
    proof (cases "P c")
      case False
      with Cons show ?thesis by simp
    next
      case True
      let ?m = "length (takeWhile P cs)"
      have 1: "star_runs (char_step P) n (p + 1, cs, g) =
          map (\<lambda>k. (p + 1 + k, drop k cs, g)) (rev [0..<Suc ?m])"
        using Suc.prems Cons by (intro Suc.IH) simp
      have 2: "[0..<Suc (Suc ?m)] = 0 # map Suc [0..<Suc ?m]"
        by (metis map_Suc_upt upt_conv_Cons zero_less_Suc)
      have "star_runs (char_step P) (Suc n) (p, s, g) =
          star_runs (char_step P) n (p + 1, cs, g) @ [(p, s, g)]"
        using Cons True by simp
      also have "\<dots> = map (\<lambda>k. (p + k, drop k s, g)) (rev (0 # map Suc [0..<Suc ?m]))"
        using Cons unfolding 1 by (simp add: rev_map [symmetric] comp_def del: upt_Suc)
      finally show ?thesis using Cons True 2 by (simp del: upt_Suc star_runs.simps)
    qed
  qed
qed

lemma run_star_char:
  assumes "rx_run ic r = char_step P"
  shows "rx_run ic (RStar r) (p, s, g) =
    map (\<lambda>k. (p + k, drop k s, g)) (rev [0..<Suc (length (takeWhile P s))])"
  unfolding rx_run.simps prod.case assms by (rule star_char_runs [OF order_refl])

lemmas run_star_cls = run_star_char [OF rx_run_char_step(1)]
lemmas run_star_any = run_star_char [OF rx_run_char_step(2)]

lemma run_plus_cls:
  "rx_run ic (RPlus (RCls rs)) (p, s, g) =
    map (\<lambda>k. (p + k, drop k s, g)) (rev [1..<Suc (length (takeWhile (in_cls ic rs) s))])"
proof (cases s)
  case Nil
  then show ?thesis by (simp add: RPlus_def)
next
  case (Cons c cs)
  show ?thesis
  proof (cases "in_cls ic rs c")
    case False
    with Cons show ?thesis by (simp add: RPlus_def)
  next
    case True
    let ?m = "length (takeWhile (in_cls ic rs) cs)"
    have "rx_run ic (RPlus (RCls rs)) (p, s, g) = rx_run ic (RStar (RCls rs)) (p + 1, cs, g)"
      using Cons True by (simp add: RPlus_def)
    also have "\<dots> = map (\<lambda>k. (p + k, drop k s, g)) (rev (map Suc [0..<Suc ?m]))"
      using Cons unfolding run_star_cls
      by (simp add: rev_map [symmetric] comp_def del: upt_Suc)
    finally show ?thesis using Cons True by (simp add: map_Suc_upt del: upt_Suc)
  qed
qed

text \<open>
  When what follows a greedy run only accepts the longest one, the run is the longest one.
\<close>

lemma concat_map_longest:
  assumes "lo \<le> n" and "\<And>k. lo \<le> k \<Longrightarrow> k < n \<Longrightarrow> K k = []"
  shows "concat (map K (rev [lo..<Suc n])) = K n"
  using assms by simp

lemma concat_map_none:
  assumes "\<And>k. lo \<le> k \<Longrightarrow> k < n \<Longrightarrow> K k = []"
  shows "concat (map K (rev [lo..<n])) = []"
  using assms by simp

lemma takeWhile_all_stop:
  "list_all P w \<Longrightarrow> \<not> P c \<Longrightarrow> takeWhile P (w @ c # t) = w"
  by (induction w) auto

lemma in_ranges_simps [simp]:
  "in_ranges [] c = False"
  "in_ranges ((a, b) # rs) c = ((ord a \<le> ord c \<and> ord c \<le> ord b) \<or> in_ranges rs c)"
  by (simp_all add: in_ranges_def)

lemma in_cls_sensitive [simp]: "in_cls False rs = in_ranges rs"
  by (rule ext) (simp add: in_cls_def)

text \<open>Groups are unfolded by name: their closed forms are lemmas of the theories that use them.\<close>

declare rx_run.simps(9) [simp del]

lemmas rx_grp = rx_run.simps(9)

end
