(* ===== verification/Fqdn.thy ===== *)
theory Fqdn
  imports Constants PyRegex
begin

text \<open>
  M-Lab host names: parsing (\<open>util/parse_fqdn.py\<close>), the production checks
  (\<open>util/production_check.py\<close>), the address-family annotation (\<open>util/fqdn_rewrite.py\<close>) and the
  name functions of \<open>db/model.py\<close>.
\<close>

section \<open>\<open>util/parse_fqdn.py\<close>\<close>

record fqdn_parts =
  fp_experiment :: "string option"
  fp_org :: "string option"
  fp_machine :: string
  fp_site :: string
  fp_project :: "string option"
  fp_domain :: string

definition rx_letters :: rx where
  "rx_letters = RPlus (RCls [(CHR ''a'', CHR ''z'')])"

definition rx_sep :: rx where
  "rx_sep = RCls [(CHR ''.'', CHR ''.''), (CHR ''-'', CHR ''-'')]"

definition rx_machine :: rx where
  "rx_machine = RSeqs [RLit ''mlab'', RCls [(CHR ''1'', CHR ''4'')]]"

definition rx_site :: rx where
  "rx_site = RSeqs [RTimes 3 (RCls [(CHR ''a'', CHR ''z'')]),
     RTimes 2 (RCls [(CHR ''0'', CHR ''9''), (CHR ''c'', CHR ''c''), (CHR ''t'', CHR ''t'')])]"

definition fqdn_regex :: rx where
  "fqdn_regex = RSeqs
    [ROpt (RSeqs [RGrp 1 rx_letters, ROpt (RSeq rx_sep (RGrp 2 rx_letters)), rx_sep]),
     RGrp 3 rx_machine, rx_sep, RGrp 4 rx_site,
     ROpt (RSeq (RLit ''.'') (RGrp 5 (RSeq (RLit ''mlab-'') rx_letters))),
     RLit ''.'', RGrp 6 (RStar RAny), REol]"

text \<open>\<open>None\<close> is the empty dict the code returns for a name that does not match.\<close>

definition parse :: "string \<Rightarrow> fqdn_parts option" where
  "parse fqdn = (case re_match False fqdn_regex fqdn of
      None \<Rightarrow> None
    | Some st \<Rightarrow> (case map (rx_group st) [1..<7] of
          [e, og, Some m, Some s, p, Some d] \<Rightarrow>
            Some \<lparr>fp_experiment = e, fp_org = og, fp_machine = m, fp_site = s, fp_project = p, fp_domain = d\<rparr>
        | _ \<Rightarrow> None))"

section \<open>The matcher in closed form\<close>

definition sep_char :: "char \<Rightarrow> bool" where
  "sep_char c \<longleftrightarrow> c = CHR ''.'' \<or> c = CHR ''-''"

definition site_char :: "char \<Rightarrow> bool" where
  "site_char c \<longleftrightarrow> is_digit c \<or> c = CHR ''c'' \<or> c = CHR ''t''"

definition is_label :: "string \<Rightarrow> bool" where
  "is_label w \<longleftrightarrow> w \<noteq> [] \<and> list_all is_lower w"

definition is_machine :: "string \<Rightarrow> bool" where
  "is_machine w \<longleftrightarrow> w \<in> {''mlab1'', ''mlab2'', ''mlab3'', ''mlab4''}"

definition is_site :: "string \<Rightarrow> bool" where
  "is_site w \<longleftrightarrow> length w = 5 \<and> list_all is_lower (take 3 w) \<and> list_all site_char (drop 3 w)"

lemma ranges_lower [simp]: "in_ranges [(CHR ''a'', CHR ''z'')] = is_lower"
  by (rule ext) (simp add: is_lower_def ord_def)

lemma ranges_sep [simp]:
  "in_ranges [(CHR ''.'', CHR ''.''), (CHR ''-'', CHR ''-'')] = sep_char"
proof (rule ext)
  fix c
  have "ord (CHR ''.'') = 46" "ord (CHR ''-'') = 45" by (simp_all add: ord_def)
  then show "in_ranges [(CHR ''.'', CHR ''.''), (CHR ''-'', CHR ''-'')] c = sep_char c"
    by (auto simp: sep_char_def ord_inj [symmetric])
qed

lemma ranges_site [simp]:
  "in_ranges [(CHR ''0'', CHR ''9''), (CHR ''c'', CHR ''c''), (CHR ''t'', CHR ''t'')] = site_char"
proof (rule ext)
  fix c
  have "ord (CHR ''0'') = 48" "ord (CHR ''9'') = 57" "ord (CHR ''c'') = 99" "ord (CHR ''t'') = 116"
    by (simp_all add: ord_def)
  then show "in_ranges [(CHR ''0'', CHR ''9''), (CHR ''c'', CHR ''c''), (CHR ''t'', CHR ''t'')] c
      = site_char c"
    by (auto simp: site_char_def is_digit_def ord_inj [symmetric])
qed

lemma sep_not_lower: "sep_char c \<Longrightarrow> \<not> is_lower c"
  by (auto simp: sep_char_def char_defs)

lemma run_lit:
  "rx_run False (RLit w) (p, s, g) =
     (if starts_with w s then [(p + length w, drop (length w) s, g)] else [])"
proof (induction w arbitrary: p s)
  case Nil
  then show ?case by (simp add: starts_with_def RLit.simps)
next
  case (Cons c w)
  then show ?case
    by (cases s) (auto simp: starts_with_def RLit.simps ord_inj [symmetric])
qed

lemma run_times:
  "rx_run False (RTimes n (RCls rs)) (p, s, g) =
     (if n \<le> length s \<and> list_all (in_ranges rs) (take n s) then [(p + n, drop n s, g)] else [])"
proof (induction n arbitrary: p s)
  case 0
  then show ?case by (simp add: RTimes.simps)
next
  case (Suc n)
  then show ?case by (cases s) (auto simp: RTimes.simps)
qed

lemma run_sep:
  "rx_run False rx_sep (p, s, g) = (case s of [] \<Rightarrow> [] | c # t \<Rightarrow> if sep_char c then [(p + 1, t, g)] else [])"
  unfolding rx_sep_def rx_run.simps(1) prod.case in_cls_sensitive ranges_sep ..

lemma is_machine_snoc:
  "is_machine (w @ [c]) \<longleftrightarrow> w = ''mlab'' \<and>
     (c = CHR ''1'' \<or> c = CHR ''2'' \<or> c = CHR ''3'' \<or> c = CHR ''4'')"
proof -
  have "''mlab1'' = ''mlab'' @ ''1''" "''mlab2'' = ''mlab'' @ ''2''"
    "''mlab3'' = ''mlab'' @ ''3''" "''mlab4'' = ''mlab'' @ ''4''" by simp_all
  then show ?thesis
    unfolding is_machine_def by (auto simp only: append1_eq_conv insert_iff empty_iff)
qed

lemma run_machine:
  "rx_run False (RGrp n rx_machine) (p, s, g) =
     (if is_machine (take 5 s) then [(p + 5, drop 5 s, (n, take 5 s) # g)] else [])"
proof -
  have ords: "ord (CHR ''1'') = 49" "ord (CHR ''2'') = 50" "ord (CHR ''3'') = 51" "ord (CHR ''4'') = 52"
    by (simp_all add: ord_def)
  have d: "ord (CHR ''1'') \<le> ord c \<and> ord c \<le> ord (CHR ''4'') \<longleftrightarrow>
      c = CHR ''1'' \<or> c = CHR ''2'' \<or> c = CHR ''3'' \<or> c = CHR ''4''" for c
    by (simp only: ord_inj [symmetric] ords) linarith
  have lit: "rx_run False (RLit ''mlab'') (p, s, g) =
      (if starts_with ''mlab'' s then [(p + 4, drop 4 s, g)] else [])"
    using run_lit [of "''mlab''" p s g] by (simp add: numeral_eq_Suc)
  have m: "starts_with ''mlab'' s \<and> (\<exists>c t. drop 4 s = c # t \<and>
      (c = CHR ''1'' \<or> c = CHR ''2'' \<or> c = CHR ''3'' \<or> c = CHR ''4'')) \<longleftrightarrow> is_machine (take 5 s)"
  proof (cases "drop 4 s")
    case Nil
    then have "length (take 5 s) < 5" by simp
    then have "\<not> is_machine (take 5 s)" by (auto simp: is_machine_def)
    with Nil show ?thesis by simp
  next
    case (Cons c t)
    then have "take 5 s = take 4 s @ [c]"
      using take_Suc_conv_app_nth [of 4 s] nth_via_drop [of 4 s c t]
      by (cases "4 < length s") auto
    moreover have "starts_with ''mlab'' s \<longleftrightarrow> take 4 s = ''mlab''"
      by (simp add: starts_with_def numeral_eq_Suc)
    ultimately show ?thesis using Cons by (auto simp: is_machine_snoc)
  qed
  show ?thesis
  proof (cases "starts_with ''mlab'' s \<and> drop 4 s \<noteq> []")
    case False
    then have "\<not> is_machine (take 5 s)" using m by auto
    with False show ?thesis by (auto simp: rx_machine_def lit rx_grp)
  next
    case True
    then obtain c t where ct: "drop 4 s = c # t" by (cases "drop 4 s") auto
    have "drop 5 s = drop 1 (drop 4 s)" by simp
    with ct have d5: "drop 5 s = t" by simp
    have r: "rx_run False rx_machine (p, s, g) =
        (if in_ranges [(CHR ''1'', CHR ''4'')] c then [(p + 5, t, g)] else [])"
      using True ct by (simp add: rx_machine_def lit)
    have "in_ranges [(CHR ''1'', CHR ''4'')] c \<longleftrightarrow> is_machine (take 5 s)"
      using True ct m d by auto
    with r d5 show ?thesis by (simp add: rx_grp)
  qed
qed

lemma run_site:
  "rx_run False (RGrp n rx_site) (p, s, g) =
     (if is_site (take 5 s) then [(p + 5, drop 5 s, (n, take 5 s) # g)] else [])"
proof -
  have "3 \<le> length s \<and> list_all is_lower (take 3 s) \<and>
      2 \<le> length (drop 3 s) \<and> list_all site_char (take 2 (drop 3 s)) \<longleftrightarrow> is_site (take 5 s)"
    by (auto simp: is_site_def min_def drop_take)
  then show ?thesis
    by (auto simp: rx_site_def run_times rx_grp)
qed

text \<open>A greedy letter group followed by something that cannot start inside a run of letters.\<close>

lemma run_letters_then:
  assumes "\<And>p s g. s \<noteq> [] \<Longrightarrow> is_lower (hd s) \<Longrightarrow> rx_run False r (p, s, g) = []"
  shows "rx_run False (RSeq (RGrp n rx_letters) r) (p, s, g) =
    (let w = takeWhile is_lower s in
     if w = [] then []
     else rx_run False r (p + length w, drop (length w) s, (n, w) # g))"
proof -
  define m where "m = length (takeWhile is_lower s)"
  have grp: "rx_run False (RGrp n rx_letters) (p, s, g) =
      map (\<lambda>k. (p + k, drop k s, (n, take k s) # g)) (rev [1..<Suc m])"
    by (simp add: rx_letters_def run_plus_cls m_def comp_def rx_grp del: upt_Suc)
  have tw: "take m s = takeWhile is_lower s"
    unfolding m_def by (rule takeWhile_eq_take [symmetric])
  have fail: "rx_run False r (p + k, drop k s, (n, take k s) # g) = []" if "k < m" for k
  proof (rule assms)
    have k: "k < length s" using that length_takeWhile_le [of is_lower s] by (simp add: m_def)
    then show "drop k s \<noteq> []" by simp
    have "takeWhile is_lower s ! k = s ! k" using that by (simp add: m_def takeWhile_nth)
    moreover have "is_lower (takeWhile is_lower s ! k)"
      using that nth_mem set_takeWhileD unfolding m_def by metis
    ultimately show "is_lower (hd (drop k s))" using k by (simp add: hd_drop_conv_nth)
  qed
  have seq: "rx_run False (RSeq (RGrp n rx_letters) r) (p, s, g) =
      concat (map (\<lambda>k. rx_run False r (p + k, drop k s, (n, take k s) # g)) (rev [1..<Suc m]))"
    by (simp only: rx_run.simps(6) grp map_map comp_def)
  show ?thesis
  proof (cases "m = 0")
    case True
    then have "takeWhile is_lower s = []" by (simp add: m_def)
    with True show ?thesis unfolding seq by simp
  next
    case False
    have "rx_run False (RSeq (RGrp n rx_letters) r) (p, s, g) =
        concat (map (\<lambda>k. rx_run False r (p + k, drop k s, (n, take k s) # g)) (rev [1..<Suc m]))"
      by (rule seq)
    also have "\<dots> = rx_run False r (p + m, drop m s, (n, take m s) # g)"
      using False by (intro concat_map_longest) (auto simp: fail)
    finally show ?thesis using False tw by (simp add: Let_def m_def)
  qed
qed

definition fqdn_tail :: rx where
  "fqdn_tail = RSeqs [RLit ''.'', RGrp 6 (RStar RAny), REol]"

definition fqdn_project :: rx where
  "fqdn_project = RSeq (RLit ''.'') (RGrp 5 (RSeq (RLit ''mlab-'') rx_letters))"

definition fqdn_rest :: rx where
  "fqdn_rest = RSeqs [RGrp 3 rx_machine, rx_sep, RGrp 4 rx_site, ROpt fqdn_project,
     RLit ''.'', RGrp 6 (RStar RAny), REol]"

lemma lits:
  "rx_run False (RLit ''.'') (p, s, g) = (if starts_with ''.'' s then [(p + 1, drop 1 s, g)] else [])"
  "rx_run False (RLit ''mlab-'') (p, s, g) =
     (if starts_with ''mlab-'' s then [(p + 5, drop 5 s, g)] else [])"
  using run_lit [of "''.''" p s g] run_lit [of "''mlab-''" p s g] by (simp_all add: numeral_eq_Suc)

lemma run_tail:
  "\<exists>q. rx_run False fqdn_tail (p, s, g) =
    (if starts_with ''.'' s \<and> dropWhile (\<lambda>c. c \<noteq> newline) (drop 1 s) \<in> {[], [newline]} then
       [(q, dropWhile (\<lambda>c. c \<noteq> newline) (drop 1 s), (6, takeWhile (\<lambda>c. c \<noteq> newline) (drop 1 s)) # g)]
     else [])"
proof (cases "starts_with ''.'' s")
  case False
  then show ?thesis by (simp add: fqdn_tail_def lits)
next
  case True
  define t where "t = drop 1 s"
  let ?P = "\<lambda>c. c \<noteq> newline"
  define m where "m = length (takeWhile ?P t)"
  have grp: "rx_run False (RGrp 6 (RStar RAny)) (p', t, g) =
      map (\<lambda>k. (p' + k, drop k t, (6, take k t) # g)) (rev [0..<Suc m])" for p'
    unfolding rx_run.simps(9) prod.case run_star_any m_def by (simp add: comp_def del: upt_Suc)
  have fail: "rx_run False REol (p' + k, drop k t, (6, take k t) # g) = []" if "k < m" for k p'
  proof -
    have k: "k < length t" using that length_takeWhile_le [of ?P t] by (simp add: m_def)
    have "takeWhile ?P t ! k = t ! k" using that by (simp add: m_def takeWhile_nth)
    moreover have "takeWhile ?P t ! k \<in> set (takeWhile ?P t)" using that by (simp add: m_def)
    then have "takeWhile ?P t ! k \<noteq> newline" by (rule set_takeWhileD [THEN conjunct2])
    ultimately have "t ! k \<noteq> newline" by simp
    moreover have "drop k t = t ! k # drop (Suc k) t" using k by (simp add: Cons_nth_drop_Suc)
    ultimately show ?thesis by simp
  qed
  have "rx_run False (RSeq (RGrp 6 (RStar RAny)) REol) (p', t, g) =
      concat (map (\<lambda>k. rx_run False REol (p' + k, drop k t, (6, take k t) # g)) (rev [0..<Suc m]))" for p'
    by (simp only: rx_run.simps(6) grp map_map comp_def)
  also have "\<dots> p' = rx_run False REol (p' + m, drop m t, (6, take m t) # g)" for p'
    by (rule concat_map_longest [OF le0]) (erule fail)
  finally have "rx_run False fqdn_tail (p, s, g) =
      rx_run False REol (p + 1 + m, drop m t, (6, take m t) # g)"
    using True by (simp add: fqdn_tail_def lits t_def)
  moreover have "drop m t = dropWhile ?P t" "take m t = takeWhile ?P t"
    unfolding m_def by (rule dropWhile_eq_drop [symmetric], rule takeWhile_eq_take [symmetric])
  ultimately have "rx_run False fqdn_tail (p, s, g) =
      rx_run False REol (p + 1 + m, dropWhile ?P t, (6, takeWhile ?P t) # g)"
    by (simp only:)
  then have "rx_run False fqdn_tail (p, s, g) =
      (if dropWhile ?P t \<in> {[], [newline]} then
         [(p + 1 + m, dropWhile ?P t, (6, takeWhile ?P t) # g)] else [])"
    by (simp only: rx_run.simps prod.case insert_iff empty_iff simp_thms)
  with True show ?thesis
    unfolding t_def [symmetric] by (intro exI [where x = "p + 1 + m"]) simp
qed

lemma run_project_then_tail:
  "\<exists>q. concat (map (rx_run False fqdn_tail) (rx_run False fqdn_project (p, s, g))) =
    (let w = takeWhile is_lower (drop 6 s) in
     if starts_with ''.mlab-'' s \<and> w \<noteq> [] then
       rx_run False fqdn_tail (q, drop (6 + length w) s, (5, ''mlab-'' @ w) # g)
     else [])"
proof (cases "starts_with ''.mlab-'' s")
  case False
  then have "rx_run False fqdn_project (p, s, g) = []"
    by (cases s) (auto simp: fqdn_project_def lits starts_with_def rx_grp)
  with False show ?thesis by (simp add: Let_def)
next
  case True
  then obtain t where t: "s = ''.mlab-'' @ t" by (auto simp: starts_with_iff)
  define m where "m = length (takeWhile is_lower t)"
  have "rx_run False (RSeq (RLit ''mlab-'') rx_letters) (p', ''mlab-'' @ t, g) =
      map (\<lambda>k. (p' + 5 + k, drop k t, g)) (rev [1..<Suc m])" for p'
    by (simp add: lits(2) rx_letters_def run_plus_cls m_def starts_with_def del: upt_Suc)
  then have "rx_run False (RGrp 5 (RSeq (RLit ''mlab-'') rx_letters)) (p', ''mlab-'' @ t, g) =
      map (\<lambda>k. (p' + 5 + k, drop k t, (5, take (5 + k) (''mlab-'' @ t)) # g)) (rev [1..<Suc m])" for p'
    unfolding rx_run.simps(9) prod.case by (simp add: comp_def del: upt_Suc)
  moreover have "take (5 + k) (''mlab-'' @ t) = ''mlab-'' @ take k t" for k
    by (simp add: numeral_eq_Suc)
  ultimately have pr: "rx_run False fqdn_project (p, s, g) =
      map (\<lambda>k. (p + 6 + k, drop k t, (5, ''mlab-'' @ take k t) # g)) (rev [1..<Suc m])"
    using t by (simp add: fqdn_project_def lits(1) starts_with_def del: upt_Suc)
  have fail: "rx_run False fqdn_tail (q, drop k t, h) = []" if "k < m" for q k h
  proof -
    have k: "k < length t" using that length_takeWhile_le [of is_lower t] by (simp add: m_def)
    have "takeWhile is_lower t ! k = t ! k" using that by (simp add: m_def takeWhile_nth)
    moreover have "takeWhile is_lower t ! k \<in> set (takeWhile is_lower t)" using that by (simp add: m_def)
    then have "is_lower (takeWhile is_lower t ! k)" by (rule set_takeWhileD [THEN conjunct2])
    ultimately have "t ! k \<noteq> CHR ''.''" by (auto simp: char_defs)
    moreover have "drop k t = t ! k # drop (Suc k) t" using k by (simp add: Cons_nth_drop_Suc)
    ultimately have "\<not> starts_with ''.'' (drop k t)" by (simp add: starts_with_def)
    then show ?thesis by (simp add: fqdn_tail_def lits(1))
  qed
  have all: "concat (map (rx_run False fqdn_tail) (rx_run False fqdn_project (p, s, g))) =
      concat (map (\<lambda>k. rx_run False fqdn_tail (p + 6 + k, drop k t, (5, ''mlab-'' @ take k t) # g))
        (rev [1..<Suc m]))"
    by (simp only: pr map_map comp_def)
  have d6: "drop 6 s = t" using t by simp
  show ?thesis
  proof (cases "m = 0")
    case True
    then have "takeWhile is_lower t = []" by (simp add: m_def)
    with True all d6 show ?thesis by simp
  next
    case False
    have "concat (map (\<lambda>k. rx_run False fqdn_tail (p + 6 + k, drop k t, (5, ''mlab-'' @ take k t) # g))
        (rev [1..<Suc m])) = rx_run False fqdn_tail (p + 6 + m, drop m t, (5, ''mlab-'' @ take m t) # g)"
      using False by (intro concat_map_longest) (auto simp: fail)
    moreover have "take m t = takeWhile is_lower t"
      unfolding m_def by (rule takeWhile_eq_take [symmetric])
    moreover have "takeWhile is_lower t \<noteq> []" using False by (auto simp: m_def)
    moreover have "drop (6 + m) s = drop m t"
      unfolding d6 [symmetric] drop_drop by (simp only: add.commute)
    ultimately have "concat (map (rx_run False fqdn_tail) (rx_run False fqdn_project (p, s, g))) =
        rx_run False fqdn_tail
          (p + 6 + m, drop (6 + m) s, (5, ''mlab-'' @ takeWhile is_lower t) # g)"
      using all by (simp only:)
    then show ?thesis using True d6 \<open>takeWhile is_lower t \<noteq> []\<close>
      unfolding Let_def m_def by (simp only: simp_thms if_True) blast
  qed
qed

text \<open>
  The recogniser the expression denotes, group by group; \<open>parse\<close> is equal to it
  (\<open>parse_eq\<close> below), and every later fact about names uses this form.
\<close>

definition tail_spec :: "string \<Rightarrow> string option" where
  "tail_spec s =
     (if starts_with ''.'' s \<and> dropWhile (\<lambda>c. c \<noteq> newline) (drop 1 s) \<in> {[], [newline]}
      then Some (takeWhile (\<lambda>c. c \<noteq> newline) (drop 1 s)) else None)"

definition project_spec :: "string \<Rightarrow> (string option \<times> string) option" where
  "project_spec s =
     (let w = takeWhile is_lower (drop 6 s);
          with = (if starts_with ''.mlab-'' s \<and> w \<noteq> [] then tail_spec (drop (6 + length w) s) else None)
      in case with of
           Some d \<Rightarrow> Some (Some (''mlab-'' @ w), d)
         | None \<Rightarrow> (case tail_spec s of Some d \<Rightarrow> Some (None, d) | None \<Rightarrow> None))"

definition rest_spec :: "string \<Rightarrow> (string \<times> string \<times> string option \<times> string) option" where
  "rest_spec s =
     (if is_machine (take 5 s) then
        (case drop 5 s of [] \<Rightarrow> None
         | c # t \<Rightarrow> if sep_char c \<and> is_site (take 5 t) then
             (case project_spec (drop 5 t) of
                Some (p, d) \<Rightarrow> Some (take 5 s, take 5 t, p, d) | None \<Rightarrow> None)
           else None)
      else None)"

definition with_prefix :: "string option \<Rightarrow> string option \<Rightarrow> string \<Rightarrow> fqdn_parts option" where
  "with_prefix e og s = (case rest_spec s of None \<Rightarrow> None
     | Some (m, st, p, d) \<Rightarrow>
         Some \<lparr>fp_experiment = e, fp_org = og, fp_machine = m, fp_site = st, fp_project = p, fp_domain = d\<rparr>)"

definition or_else :: "'a option \<Rightarrow> 'a option \<Rightarrow> 'a option" where
  "or_else a b = (case a of None \<Rightarrow> b | Some x \<Rightarrow> Some x)"

definition parse_spec :: "string \<Rightarrow> fqdn_parts option" where
  "parse_spec s =
     (let e = takeWhile is_lower s; r = drop (length e) s in
      or_else
        (if e \<noteq> [] \<and> r \<noteq> [] \<and> sep_char (hd r) then
           (let og = takeWhile is_lower (tl r); r2 = drop (length og) (tl r) in
            or_else
              (if og \<noteq> [] \<and> r2 \<noteq> [] \<and> sep_char (hd r2)
               then with_prefix (Some e) (Some og) (tl r2) else None)
              (with_prefix (Some e) None (tl r)))
         else None)
        (with_prefix None None s))"

definition first :: "'a list \<Rightarrow> 'a option" where
  "first xs = (case xs of [] \<Rightarrow> None | x # _ \<Rightarrow> Some x)"

lemma first_simps [simp]: "first [] = None" "first (x # xs) = Some x"
  by (simp_all add: first_def)

lemma or_else_simps [simp]: "or_else None b = b" "or_else (Some x) b = Some x" "or_else a None = a"
  by (simp_all add: or_else_def split: option.split)

lemma first_append: "map_option f (first (xs @ ys)) = or_else (map_option f (first xs)) (map_option f (first ys))"
  by (cases xs) simp_all

lemma map_or_else: "map_option f (or_else a b) = or_else (map_option f a) (map_option f b)"
  by (cases a) simp_all

lemma re_match_first: "re_match ic r s = first (rx_run ic r (0, s, []))"
  by (simp add: re_match_def first_def)

lemma run_seq_assoc: "rx_run ic (RSeq (RSeq a b) c) st = rx_run ic (RSeq a (RSeq b c)) st"
proof -
  have "concat (map (rx_run ic c) (concat (map (rx_run ic b) xs))) =
      concat (map (rx_run ic (RSeq b c)) xs)" for xs
    by (induction xs) simp_all
  then show ?thesis by (simp only: rx_run.simps(6))
qed

lemma run_seq_opt: "rx_run ic (RSeq (ROpt a) b) st = rx_run ic (RSeq a b) st @ rx_run ic b st"
  by simp

definition groups_of :: "mst \<Rightarrow> (nat \<times> string) list" where
  "groups_of st = snd (snd st)"

definition win :: "rx \<Rightarrow> mst \<Rightarrow> (nat \<times> string) list option" where
  "win r st = map_option groups_of (first (rx_run False r st))"

lemma win_tail: "win fqdn_tail (p, s, g) = map_option (\<lambda>d. (6, d) # g) (tail_spec s)"
proof -
  obtain q where "rx_run False fqdn_tail (p, s, g) =
      (if starts_with ''.'' s \<and> dropWhile (\<lambda>c. c \<noteq> newline) (drop 1 s) \<in> {[], [newline]} then
         [(q, dropWhile (\<lambda>c. c \<noteq> newline) (drop 1 s), (6, takeWhile (\<lambda>c. c \<noteq> newline) (drop 1 s)) # g)]
       else [])"
    using run_tail by blast
  then show ?thesis by (auto simp: win_def tail_spec_def groups_of_def)
qed

lemma win_project_tail:
  "win (RSeq (ROpt fqdn_project) fqdn_tail) (p, s, g) =
     map_option (\<lambda>(pr, d). (6, d) # (case pr of None \<Rightarrow> [] | Some x \<Rightarrow> [(5, x)]) @ g) (project_spec s)"
proof -
  let ?w = "takeWhile is_lower (drop 6 s)"
  obtain q where q: "rx_run False (RSeq fqdn_project fqdn_tail) (p, s, g) =
      (if starts_with ''.mlab-'' s \<and> ?w \<noteq> [] then
         rx_run False fqdn_tail (q, drop (6 + length ?w) s, (5, ''mlab-'' @ ?w) # g) else [])"
    using run_project_then_tail [of p s g] unfolding Let_def rx_run.simps(6) by blast
  have "win (RSeq (ROpt fqdn_project) fqdn_tail) (p, s, g) =
      or_else (if starts_with ''.mlab-'' s \<and> ?w \<noteq> []
               then win fqdn_tail (q, drop (6 + length ?w) s, (5, ''mlab-'' @ ?w) # g) else None)
        (win fqdn_tail (p, s, g))"
    unfolding win_def run_seq_opt first_append q by simp
  then show ?thesis
    unfolding win_tail project_spec_def Let_def by (auto split: option.splits)
qed

lemma win_rest:
  "win fqdn_rest (p, s, g) =
     map_option (\<lambda>(m, st, pr, d). (6, d) # (case pr of None \<Rightarrow> [] | Some x \<Rightarrow> [(5, x)]) @
       (4, st) # (3, m) # g) (rest_spec s)"
proof -
  have shape: "rx_run False fqdn_rest (p, s, g) =
      concat (map (rx_run False (RSeq rx_sep (RSeq (RGrp 4 rx_site) (RSeq (ROpt fqdn_project) fqdn_tail))))
        (rx_run False (RGrp 3 rx_machine) (p, s, g)))"
    by (simp add: fqdn_rest_def fqdn_tail_def)
  show ?thesis
  proof (cases "is_machine (take 5 s)")
    case False
    then show ?thesis by (simp add: win_def shape run_machine rest_spec_def)
  next
    case True
    show ?thesis
    proof (cases "drop 5 s")
      case Nil
      with True show ?thesis by (simp add: win_def shape run_machine run_sep rest_spec_def)
    next
      case (Cons c t)
      show ?thesis
      proof (cases "sep_char c \<and> is_site (take 5 t)")
        case False
        with True Cons show ?thesis
          by (auto simp: win_def shape run_machine run_sep run_site rest_spec_def)
      next
        case sep: True
        have "rx_run False fqdn_rest (p, s, g) =
            rx_run False (RSeq (ROpt fqdn_project) fqdn_tail)
              (p + 5 + 1 + 5, drop 5 t, (4, take 5 t) # (3, take 5 s) # g)"
          using True Cons sep unfolding shape run_machine
          by (simp add: run_sep run_site del: rx_run.simps(7))
        then have "win fqdn_rest (p, s, g) = win (RSeq (ROpt fqdn_project) fqdn_tail)
              (p + 5 + 1 + 5, drop 5 t, (4, take 5 t) # (3, take 5 s) # g)"
          by (simp only: win_def)
        then show ?thesis unfolding win_project_tail rest_spec_def
          using True Cons sep by (auto split: option.splits)
      qed
    qed
  qed
qed

definition fqdn_prefix :: rx where
  "fqdn_prefix = RSeqs [RGrp 1 rx_letters, ROpt (RSeq rx_sep (RGrp 2 rx_letters)), rx_sep]"

lemma fqdn_regex_eq: "rx_run False fqdn_regex st = rx_run False (RSeq (ROpt fqdn_prefix) fqdn_rest) st"
  by (simp add: fqdn_regex_def fqdn_prefix_def fqdn_rest_def fqdn_project_def)

lemma run_sep_lower: "s \<noteq> [] \<Longrightarrow> is_lower (hd s) \<Longrightarrow> rx_run False rx_sep (p, s, g) = []"
  by (cases s) (auto simp: run_sep dest: sep_not_lower)

lemma run_after_sep:
  "rx_run False (RSeq rx_sep r) (p, s, g) =
     (if s \<noteq> [] \<and> sep_char (hd s) then rx_run False r (p + 1, tl s, g) else [])"
  by (cases s) (simp_all add: run_sep)

lemma win_after_sep:
  "win (RSeq rx_sep r) (p, s, g) =
     (if s \<noteq> [] \<and> sep_char (hd s) then win r (p + 1, tl s, g) else None)"
  unfolding win_def run_after_sep by simp

lemma win_after_letters:
  assumes "\<And>p s g. s \<noteq> [] \<Longrightarrow> is_lower (hd s) \<Longrightarrow> rx_run False r (p, s, g) = []"
  shows "win (RSeq (RGrp n rx_letters) r) (p, s, g) =
    (let w = takeWhile is_lower s in
     if w = [] then None else win r (p + length w, drop (length w) s, (n, w) # g))"
proof -
  have eq: "rx_run False (RSeq (RGrp n rx_letters) r) (p, s, g) =
      (let w = takeWhile is_lower s in
       if w = [] then [] else rx_run False r (p + length w, drop (length w) s, (n, w) # g))"
    by (rule run_letters_then) (rule assms)
  show ?thesis unfolding win_def eq Let_def by (simp del: rx_run.simps)
qed

lemma win_alt: "win (RSeq (ROpt a) b) st = or_else (win (RSeq a b) st) (win b st)"
  unfolding win_def run_seq_opt first_append ..

lemma win_assoc: "win (RSeq (RSeq a b) c) st = win (RSeq a (RSeq b c)) st"
  unfolding win_def run_seq_assoc ..

definition groups_spec :: "fqdn_parts \<Rightarrow> (nat \<times> string) list" where
  "groups_spec P = (6, fp_domain P) # (case fp_project P of None \<Rightarrow> [] | Some x \<Rightarrow> [(5, x)]) @
     (4, fp_site P) # (3, fp_machine P) #
     (case fp_org P of None \<Rightarrow> [] | Some x \<Rightarrow> [(2, x)]) @
     (case fp_experiment P of None \<Rightarrow> [] | Some x \<Rightarrow> [(1, x)])"

lemma win_rest_prefix:
  "win fqdn_rest (p, s, (2, og) # [(1, e)]) = map_option groups_spec (with_prefix (Some e) (Some og) s)"
  "win fqdn_rest (p, s, [(1, e)]) = map_option groups_spec (with_prefix (Some e) None s)"
  "win fqdn_rest (p, s, []) = map_option groups_spec (with_prefix None None s)"
  unfolding win_rest with_prefix_def groups_spec_def by (auto split: option.splits)

lemma win_fqdn: "win fqdn_regex (0, s, []) = map_option groups_spec (parse_spec s)"
proof -
  let ?r = "RSeq (ROpt (RSeq rx_sep (RGrp 2 rx_letters))) (RSeq rx_sep fqdn_rest)"
  have fail_sep: "rx_run False (RSeq rx_sep r) (p, s, g) = []" if "s \<noteq> []" "is_lower (hd s)" for r p s g
    using that sep_not_lower by (auto simp: run_after_sep simp del: rx_run.simps)
  have fail: "rx_run False ?r (p, s, g) = []" if "s \<noteq> []" "is_lower (hd s)" for p s g
    unfolding run_seq_opt run_seq_assoc by (simp only: fail_sep [OF that] append_Nil)
  have pre: "win (RSeq fqdn_prefix fqdn_rest) st = win (RSeq (RGrp 1 rx_letters) ?r) st" for st
  proof -
    have "rx_run False (RSeq fqdn_prefix fqdn_rest) st = rx_run False (RSeq (RGrp 1 rx_letters) ?r) st"
      unfolding fqdn_prefix_def RSeqs.simps run_seq_assoc
      unfolding rx_run.simps(6) [of False "RGrp 1 rx_letters"]
      by (intro arg_cong [where f = concat] map_cong refl run_seq_assoc)
    then show ?thesis by (simp only: win_def)
  qed
  have two: "win ?r (p, s, g) =
      (if s \<noteq> [] \<and> sep_char (hd s) then
         or_else (let w = takeWhile is_lower (tl s); s2 = drop (length w) (tl s) in
                  if w \<noteq> [] \<and> s2 \<noteq> [] \<and> sep_char (hd s2)
                  then win fqdn_rest (p + 1 + length w + 1, tl s2, (2, w) # g) else None)
           (win fqdn_rest (p + 1, tl s, g))
       else None)" for p s g
  proof -
    have letters: "win (RSeq (RGrp 2 rx_letters) (RSeq rx_sep fqdn_rest)) (q, t, g) =
        (let w = takeWhile is_lower t in
         if w = [] then None else win (RSeq rx_sep fqdn_rest) (q + length w, drop (length w) t, (2, w) # g))"
      for q t by (rule win_after_letters) (rule fail_sep)
    show ?thesis
      unfolding win_alt win_assoc win_after_sep letters by (auto simp: Let_def)
  qed
  have one: "win (RSeq (RGrp 1 rx_letters) ?r) (0, s, []) =
      (let w = takeWhile is_lower s in
       if w = [] then None else win ?r (0 + length w, drop (length w) s, [(1, w)]))"
    by (rule win_after_letters) (rule fail)
  have "win fqdn_regex (0, s, []) =
      or_else (win (RSeq (RGrp 1 rx_letters) ?r) (0, s, [])) (win fqdn_rest (0, s, []))"
    unfolding pre [symmetric] win_alt [symmetric] by (simp only: win_def fqdn_regex_eq)
  then show ?thesis
    unfolding one two parse_spec_def Let_def win_rest_prefix map_or_else
    by (auto simp: if_distrib [of "map_option groups_spec"] map_or_else cong: if_cong)
qed

theorem parse_eq: "parse s = parse_spec s"
proof (cases "re_match False fqdn_regex s")
  case None
  then have "map_option groups_spec (parse_spec s) = None"
    unfolding win_fqdn [symmetric] win_def re_match_first [symmetric] by simp
  with None show ?thesis by (simp add: parse_def)
next
  case (Some st)
  then have "map_option groups_spec (parse_spec s) = Some (groups_of st)"
    unfolding win_fqdn [symmetric] win_def re_match_first [symmetric] by simp
  then obtain P where P: "parse_spec s = Some P" and g: "groups_of st = groups_spec P" by auto
  have grp: "rx_group st n = map_of (groups_spec P) n" for n
    unfolding rx_group_def g [symmetric] groups_of_def ..
  have nums: "[1..<7] = [1, 2, 3, 4, 5, 6 :: nat]" by (simp add: upt_rec)
  have orgd: "fp_experiment P = None \<Longrightarrow> fp_org P = None"
    using P unfolding parse_spec_def or_else_def with_prefix_def Let_def
    by (auto split: option.splits if_splits)
  have "map (rx_group st) [1..<7] =
      [fp_experiment P, fp_org P, Some (fp_machine P), Some (fp_site P), fp_project P, Some (fp_domain P)]"
    unfolding nums list.map grp groups_spec_def
    by (cases "fp_experiment P"; cases "fp_org P"; cases "fp_project P") (use orgd in auto)
  with Some P show ?thesis by (simp add: parse_def)
qed

section \<open>Names built from their parts\<close>

definition is_project :: "string \<Rightarrow> bool" where
  "is_project p \<longleftrightarrow> starts_with ''mlab-'' p \<and> is_label (drop 5 p)"

text \<open>A domain that itself begins with a project label would be read as project and domain.\<close>

definition project_prefix :: "string \<Rightarrow> bool" where
  "project_prefix d \<longleftrightarrow> starts_with ''mlab-'' d \<and>
     (let w = takeWhile is_lower (drop 5 d) in w \<noteq> [] \<and> starts_with ''.'' (drop (5 + length w) d))"

definition wf_parts :: "fqdn_parts \<Rightarrow> bool" where
  "wf_parts P \<longleftrightarrow>
     (case fp_experiment P of None \<Rightarrow> fp_org P = None | Some e \<Rightarrow> is_label e) \<and>
     (case fp_org P of None \<Rightarrow> True | Some og \<Rightarrow> is_label og) \<and>
     is_machine (fp_machine P) \<and> is_site (fp_site P) \<and>
     (case fp_project P of None \<Rightarrow> \<not> project_prefix (fp_domain P) | Some p \<Rightarrow> is_project p) \<and>
     newline \<notin> set (fp_domain P)"

text \<open>The name with separators \<open>c1\<close> (before the org), \<open>c2\<close> (before the machine), \<open>c3\<close> (before the site).\<close>

definition prefix_string :: "char \<Rightarrow> char \<Rightarrow> fqdn_parts \<Rightarrow> string" where
  "prefix_string c1 c2 P = (case fp_experiment P of None \<Rightarrow> []
     | Some e \<Rightarrow> e @ (case fp_org P of None \<Rightarrow> [] | Some og \<Rightarrow> c1 # og) @ [c2])"

definition suffix_string :: "char \<Rightarrow> fqdn_parts \<Rightarrow> string" where
  "suffix_string c3 P = c3 # fp_site P @
     (case fp_project P of None \<Rightarrow> [] | Some p \<Rightarrow> ''.'' @ p) @ ''.'' @ fp_domain P"

definition fqdn_string :: "char \<Rightarrow> char \<Rightarrow> char \<Rightarrow> fqdn_parts \<Rightarrow> string" where
  "fqdn_string c1 c2 c3 P = prefix_string c1 c2 P @ fp_machine P @ suffix_string c3 P"

lemma takeWhile_label: "is_label w \<Longrightarrow> \<not> is_lower c \<Longrightarrow> takeWhile is_lower (w @ c # t) = w"
  by (simp add: is_label_def takeWhile_all_stop)

lemma machine_digits: "is_digit CHR ''1''" "is_digit CHR ''2''" "is_digit CHR ''3''" "is_digit CHR ''4''"
  by (simp_all add: is_digit_def ord_def)

lemma machine_shape:
  assumes "is_machine m"
  shows "\<exists>d. m = ''mlab'' @ [d] \<and> is_digit d"
proof -
  consider "m = ''mlab'' @ ''1''" | "m = ''mlab'' @ ''2''" | "m = ''mlab'' @ ''3''" | "m = ''mlab'' @ ''4''"
    using assms unfolding is_machine_def by (simp only: append_Cons append_Nil) blast
  then show ?thesis using machine_digits by cases blast+
qed

lemma lower_mlab: "list_all is_lower ''mlab''"
  by (simp add: is_lower_def ord_def)

lemma drop_mlab: "drop 4 (''mlab'' @ t) = t"
  by (simp add: numeral_eq_Suc)

lemma machine_letters:
  assumes "is_machine m"
  shows "takeWhile is_lower (m @ t) = ''mlab''"
    and "\<exists>d. drop 4 (m @ t) = d # t \<and> \<not> sep_char d"
proof -
  obtain d where m: "m = ''mlab'' @ [d]" and d: "is_digit d" using machine_shape [OF assms] by blast
  have mt: "m @ t = ''mlab'' @ (d # t)" unfolding m by (simp only: append_assoc append_Cons append_Nil)
  have "\<not> is_lower d" using d by (auto dest: is_lower_not_digit)
  then show "takeWhile is_lower (m @ t) = ''mlab''"
    unfolding mt by (rule takeWhile_all_stop [OF lower_mlab])
  have "\<not> sep_char d" using d by (auto simp: sep_char_def char_defs)
  then show "\<exists>d. drop 4 (m @ t) = d # t \<and> \<not> sep_char d" unfolding mt drop_mlab by blast
qed

lemma dropWhile_no_newline: "newline \<notin> set d \<Longrightarrow> dropWhile (\<lambda>c. c \<noteq> newline) d = []"
  by (simp add: dropWhile_eq_Nil_conv) metis

lemma takeWhile_no_newline: "newline \<notin> set d \<Longrightarrow> takeWhile (\<lambda>c. c \<noteq> newline) d = d"
  by (simp add: takeWhile_eq_all_conv) metis

lemma tail_spec_nl:
  assumes "newline \<notin> set d" and "nl \<in> {[], [newline]}"
  shows "tail_spec (''.'' @ d @ nl) = Some d"
proof -
  have "\<And>c. c \<in> set d \<Longrightarrow> c \<noteq> newline" using assms(1) by auto
  then have "takeWhile (\<lambda>c. c \<noteq> newline) (d @ nl) = d" "dropWhile (\<lambda>c. c \<noteq> newline) (d @ nl) = nl"
    using assms(2) by (auto simp: takeWhile_append_stop dropWhile_append_stop
        dropWhile_no_newline takeWhile_no_newline)
  then show ?thesis using assms(2) by (simp add: tail_spec_def starts_with_def)
qed

lemma takeWhile_split: "s = takeWhile p s @ drop (length (takeWhile p s)) s"
  by (metis append_take_drop_id takeWhile_eq_take)

lemma tail_spec_sound:
  assumes "tail_spec s = Some d"
  shows "newline \<notin> set d \<and> (\<exists>nl \<in> {[], [newline]}. s = ''.'' @ d @ nl)"
proof -
  let ?P = "\<lambda>c. c \<noteq> newline"
  from assms obtain t where s: "s = ''.'' @ t" and d: "d = takeWhile ?P t"
    and nl: "dropWhile ?P t \<in> {[], [newline]}"
    by (auto simp: tail_spec_def starts_with_iff split: if_splits)
  have "newline \<notin> set d" unfolding d by (auto dest: set_takeWhileD)
  moreover have "s = ''.'' @ d @ dropWhile ?P t" by (simp add: s d)
  ultimately show ?thesis using nl by blast
qed

lemma project_spec_build:
  assumes pr: "case pr of None \<Rightarrow> \<not> project_prefix d | Some p \<Rightarrow> is_project p" and d: "newline \<notin> set d"
    and nl: "nl \<in> {[], [newline]}"
  shows "project_spec ((case pr of None \<Rightarrow> [] | Some p \<Rightarrow> ''.'' @ p) @ ''.'' @ d @ nl) = Some (pr, d)"
proof (cases pr)
  case None
  define s where "s = ''.'' @ d @ nl"
  define w where "w = takeWhile is_lower (drop 6 s)"
  have tail: "tail_spec s = Some d" unfolding s_def by (rule tail_spec_nl [OF d nl])
  have "tail_spec (drop (6 + length w) s) = None" if sw: "starts_with ''.mlab-'' s" "w \<noteq> []"
  proof (rule ccontr)
    assume "tail_spec (drop (6 + length w) s) \<noteq> None"
    then obtain x where "tail_spec (drop (6 + length w) s) = Some x" by blast
    from tail_spec_sound [OF this] obtain nx where
      x: "drop (6 + length w) s = ''.'' @ x @ nx" "nx \<in> {[], [newline]}" by blast
    obtain t where st: "s = ''.mlab-'' @ t" using sw(1) by (auto simp: starts_with_iff)
    have "t = w @ drop (length w) t" proof -
      have "drop 6 s = t" by (simp add: st)
      then show ?thesis unfolding w_def by (simp only:) (rule takeWhile_split)
    qed
    moreover have "drop (length w) t = ''.'' @ x @ nx"
    proof -
      have "drop (6 + length w) s = drop (length w) (drop 6 s)" by (simp add: add.commute)
      moreover have "drop 6 s = t" by (simp add: st)
      ultimately show ?thesis using x(1) by simp
    qed
    ultimately have "''.mlab-'' @ w @ ''.'' @ x @ nx = ''.'' @ d @ nl" using st unfolding s_def by metis
    then have all: "d @ nl = ''mlab-'' @ w @ ''.'' @ x @ nx" by simp
    define u where "u = ''mlab-'' @ w @ ''.''"
    have eq: "d @ nl = u @ (x @ nx)" unfolding all u_def by simp
    have "list_all is_lower w" by (auto simp: w_def list_all_iff dest: set_takeWhileD)
    then have "newline \<notin> set u" unfolding u_def
      by (auto simp: list_all_iff newline_char char_defs)
    then have "length u \<le> length d"
      using eq nl by (auto simp: append_eq_append_conv2 append_eq_Cons_conv Cons_eq_append_conv)
    then obtain y where "d = u @ y" using eq by (metis append_eq_append_conv_if append_take_drop_id)
    then have dy: "d = ''mlab-'' @ w @ ''.'' @ y" by (simp add: u_def)
    have "\<not> is_lower CHR ''.''" by (simp add: char_defs)
    then have "takeWhile is_lower (drop 5 d) = w"
      using \<open>list_all is_lower w\<close> by (simp add: dy takeWhile_all_stop)
    moreover have "drop (5 + length w) d = drop (length w) (drop 5 d)" by (simp add: add.commute)
    then have "drop (5 + length w) d = ''.'' @ y" by (simp add: dy)
    moreover have "starts_with ''mlab-'' d" by (simp add: dy starts_with_def)
    ultimately have "project_prefix d" using sw(2)
      by (simp add: project_prefix_def Let_def starts_with_def)
    with pr None show False by simp
  qed
  then have "project_spec s = Some (None, d)"
    unfolding project_spec_def Let_def w_def [symmetric] tail by simp
  then show ?thesis by (simp add: s_def None)
next
  case (Some p)
  with assms obtain w where p: "p = ''mlab-'' @ w" and w: "is_label w"
    by (auto simp: is_project_def starts_with_iff)
  have "\<not> is_lower CHR ''.''" by (simp add: char_defs)
  then have tw: "takeWhile is_lower (w @ ''.'' @ d @ nl) = w" using w by (simp add: takeWhile_label)
  define s where "s = ''.'' @ p @ ''.'' @ d @ nl"
  have 1: "starts_with ''.mlab-'' s" and 2: "drop 6 s = w @ ''.'' @ d @ nl"
    by (simp_all add: s_def p starts_with_def numeral_eq_Suc)
  have "drop (6 + length w) s = drop (length w) (drop 6 s)" by (simp add: add.commute)
  then have 3: "drop (6 + length w) s = ''.'' @ d @ nl" unfolding 2 by simp
  have "project_spec s = Some (Some p, d)"
    unfolding project_spec_def Let_def 2 3 tw tail_spec_nl [OF d nl]
    using w p by (simp add: is_label_def 1)
  then show ?thesis unfolding s_def Some by simp
qed

lemma rest_spec_build:
  assumes "wf_parts P" and "sep_char c3" and "nl \<in> {[], [newline]}"
  shows "rest_spec (fp_machine P @ suffix_string c3 P @ nl) =
    Some (fp_machine P, fp_site P, fp_project P, fp_domain P)"
proof -
  have s: "length (fp_site P) = 5" and "is_machine (fp_machine P)"
    using assms by (auto simp: wf_parts_def is_site_def)
  then have m: "length (fp_machine P) = 5" using machine_shape by fastforce
  note parts = take_len [OF m] drop_len [OF m] take_len [OF s] drop_len [OF s]
  have "project_spec ((case fp_project P of None \<Rightarrow> [] | Some p \<Rightarrow> ''.'' @ p) @ ''.'' @ fp_domain P @ nl)
      = Some (fp_project P, fp_domain P)"
    using assms by (intro project_spec_build) (auto simp: wf_parts_def)
  then show ?thesis
    using assms unfolding rest_spec_def suffix_string_def wf_parts_def parts
    by (simp add: parts del: take_append drop_append)
qed

lemma with_prefix_build:
  assumes "wf_parts P" and "sep_char c3" and "nl \<in> {[], [newline]}"
  shows "with_prefix (fp_experiment P) (fp_org P) (fp_machine P @ suffix_string c3 P @ nl) = Some P"
  by (simp add: with_prefix_def rest_spec_build [OF assms])

lemma parse_build:
  assumes wf: "wf_parts P" and seps: "sep_char c1" "sep_char c2" "sep_char c3"
    and nl: "nl \<in> {[], [newline]}"
  shows "parse (fqdn_string c1 c2 c3 P @ nl) = Some P"
proof -
  define t where "t = fp_machine P @ suffix_string c3 P @ nl"
  have mach: "is_machine (fp_machine P)" using wf by (simp add: wf_parts_def)
  have ml: "takeWhile is_lower t = ''mlab''" unfolding t_def by (rule machine_letters [OF mach])
  obtain d t' where d: "drop (Suc (Suc (Suc (Suc 0)))) t = d # t'" "\<not> sep_char d"
    using machine_letters(2) [OF mach, of "suffix_string c3 P @ nl"] by (auto simp: t_def numeral_eq_Suc)
  have built: "with_prefix (fp_experiment P) (fp_org P) t = Some P"
    unfolding t_def by (rule with_prefix_build [OF wf seps(3) nl])
  show ?thesis
  proof (cases "fp_experiment P")
    case None
    with wf have "fp_org P = None" by (simp add: wf_parts_def)
    with None built d show ?thesis
      by (simp add: parse_eq fqdn_string_def prefix_string_def parse_spec_def Let_def ml flip: t_def)
  next
    case (Some e)
    with wf have e: "is_label e" "e \<noteq> []" by (simp_all add: wf_parts_def is_label_def)
    show ?thesis
    proof (cases "fp_org P")
      case None
      have "takeWhile is_lower (e @ c2 # t) = e"
        using e seps sep_not_lower by (intro takeWhile_label) auto
      with Some None built d e seps ml show ?thesis
        by (simp add: parse_eq fqdn_string_def prefix_string_def parse_spec_def Let_def flip: t_def)
    next
      case og: (Some og)
      with wf have o: "is_label og" "og \<noteq> []" by (simp_all add: wf_parts_def is_label_def)
      have "takeWhile is_lower (e @ c1 # og @ c2 # t) = e" "takeWhile is_lower (og @ c2 # t) = og"
        using e o seps sep_not_lower by (auto intro: takeWhile_label)
      with Some og built e o seps show ?thesis
        by (simp add: parse_eq fqdn_string_def prefix_string_def parse_spec_def Let_def flip: t_def)
    qed
  qed
qed

section \<open>What a parsed name looks like\<close>

lemma project_spec_sound:
  assumes "project_spec s = Some (pr, d)"
  shows "newline \<notin> set d"
    and "case pr of None \<Rightarrow> \<not> project_prefix d | Some p \<Rightarrow> is_project p"
    and "\<exists>nl \<in> {[], [newline]}. s = (case pr of None \<Rightarrow> [] | Some p \<Rightarrow> ''.'' @ p) @ ''.'' @ d @ nl"
proof -
  define w where "w = takeWhile is_lower (drop 6 s)"
  define wd where "wd = (if starts_with ''.mlab-'' s \<and> w \<noteq> [] then tail_spec (drop (6 + length w) s) else None)"
  have ps: "project_spec s = (case wd of Some d \<Rightarrow> Some (Some (''mlab-'' @ w), d)
      | None \<Rightarrow> (case tail_spec s of Some d \<Rightarrow> Some (None, d) | None \<Rightarrow> None))"
    unfolding project_spec_def Let_def wd_def w_def ..
  have lower: "list_all is_lower w" by (auto simp: w_def list_all_iff dest: set_takeWhileD)
  have "newline \<notin> set d \<and> (case pr of None \<Rightarrow> \<not> project_prefix d | Some p \<Rightarrow> is_project p) \<and>
    (\<exists>nl \<in> {[], [newline]}. s = (case pr of None \<Rightarrow> [] | Some p \<Rightarrow> ''.'' @ p) @ ''.'' @ d @ nl)"
  proof (cases wd)
    case (Some d')
    with assms have d: "d' = d" and pr: "pr = Some (''mlab-'' @ w)" by (simp_all add: ps)
    from Some have ne: "w \<noteq> []" and s0: "starts_with ''.mlab-'' s" and t: "tail_spec (drop (6 + length w) s) = Some d"
      by (auto simp: wd_def d split: if_splits)
    have tk: "take (length w) (drop 6 s) = w" unfolding w_def by (rule takeWhile_eq_take [symmetric])
    have "take 6 s = ''.mlab-''" using s0 by (simp add: starts_with_def numeral_eq_Suc)
    moreover have "drop 6 s = w @ drop (6 + length w) s"
      using tk append_take_drop_id [of "length w" "drop 6 s"] by (simp add: add.commute)
    ultimately have "s = ''.mlab-'' @ w @ drop (6 + length w) s"
      using append_take_drop_id [of 6 s] by simp
    moreover have "is_project (''mlab-'' @ w)" using ne lower by (simp add: is_project_def is_label_def starts_with_def)
    ultimately show ?thesis using tail_spec_sound [OF t] pr by auto
  next
    case None
    with assms have pr: "pr = None" and t: "tail_spec s = Some d"
      by (auto simp: ps split: option.splits)
    obtain nl where nl: "nl \<in> {[], [newline]}" and s: "s = ''.'' @ d @ nl" and d: "newline \<notin> set d"
      using tail_spec_sound [OF t] by blast
    have "\<not> project_prefix d"
    proof
      assume "project_prefix d"
      define v where "v = takeWhile is_lower (drop 5 d)"
      obtain x where 0: "starts_with ''mlab-'' d" "v \<noteq> []" "drop (5 + length v) d = ''.'' @ x"
        using \<open>project_prefix d\<close> by (auto simp: project_prefix_def Let_def starts_with_iff v_def)
      have "take (length v) (drop 5 d) = v" unfolding v_def by (rule takeWhile_eq_take [symmetric])
      then have "drop 5 d = v @ drop (5 + length v) d"
        using append_take_drop_id [of "length v" "drop 5 d"] by (simp add: add.commute)
      moreover have "d = ''mlab-'' @ drop 5 d" using 0(1) by (auto simp: starts_with_iff)
      ultimately have "d = ''mlab-'' @ v @ ''.'' @ x" using 0(3) by simp
      with 0 v_def have v: "d = ''mlab-'' @ v @ ''.'' @ x" "v = takeWhile is_lower (drop 5 d)" "v \<noteq> []" by blast+
      have "drop 6 s = v @ CHR ''.'' # (x @ nl)" by (simp add: s v(1) numeral_eq_Suc)
      moreover have "list_all is_lower v" unfolding v(2) by (auto simp: list_all_iff dest: set_takeWhileD)
      moreover have "\<not> is_lower CHR ''.''" by (simp add: char_defs)
      ultimately have w: "w = v" by (simp add: w_def takeWhile_all_stop)
      have "drop (6 + length w) s = drop (length w) (drop 6 s)" by (simp add: add.commute)
      then have "drop (6 + length w) s = ''.'' @ x @ nl" using w \<open>drop 6 s = _\<close> by simp
      moreover have "newline \<notin> set x" using d v(1) by auto
      ultimately have "wd = Some x" using nl w v(1,3) s tail_spec_nl [of x nl]
        by (simp add: wd_def starts_with_def)
      with None show False by simp
    qed
    with pr nl s d show ?thesis by auto
  qed
  then show "newline \<notin> set d" "case pr of None \<Rightarrow> \<not> project_prefix d | Some p \<Rightarrow> is_project p"
    "\<exists>nl \<in> {[], [newline]}. s = (case pr of None \<Rightarrow> [] | Some p \<Rightarrow> ''.'' @ p) @ ''.'' @ d @ nl" by blast+
qed

lemma with_prefix_sound:
  assumes "with_prefix e og s = Some P"
  shows "fp_experiment P = e \<and> fp_org P = og \<and> is_machine (fp_machine P) \<and> is_site (fp_site P) \<and>
    (case fp_project P of None \<Rightarrow> \<not> project_prefix (fp_domain P) | Some p \<Rightarrow> is_project p) \<and>
    newline \<notin> set (fp_domain P) \<and>
    (\<exists>c3 nl. sep_char c3 \<and> nl \<in> {[], [newline]} \<and> s = fp_machine P @ suffix_string c3 P @ nl)"
proof -
  obtain m st pr d where P: "P = \<lparr>fp_experiment = e, fp_org = og, fp_machine = m, fp_site = st,
      fp_project = pr, fp_domain = d\<rparr>" and r: "rest_spec s = Some (m, st, pr, d)"
    using assms by (auto simp: with_prefix_def split: option.splits)
  obtain c t where ct: "drop 5 s = c # t" and c: "sep_char c" and "is_site (take 5 t)"
    and m: "is_machine (take 5 s)" "m = take 5 s" "st = take 5 t" and ps: "project_spec (drop 5 t) = Some (pr, d)"
    using r by (auto simp: rest_spec_def split: if_splits list.splits option.splits)
  obtain nl where nl: "nl \<in> {[], [newline]}"
    "drop 5 t = (case pr of None \<Rightarrow> [] | Some p \<Rightarrow> ''.'' @ p) @ ''.'' @ d @ nl"
    using project_spec_sound(3) [OF ps] by blast
  have "s = m @ c # t" using append_take_drop_id [of 5 s] by (simp add: m(2) ct)
  moreover have "t = st @ drop 5 t" by (simp add: m(3))
  ultimately have "s = m @ c # st @ drop 5 t" by metis
  then have "s = fp_machine P @ suffix_string c P @ nl" by (simp add: P suffix_string_def nl(2))
  moreover have "fp_experiment P = e" "fp_org P = og" "fp_machine P = m" "fp_site P = st"
    "fp_project P = pr" "fp_domain P = d" by (simp_all add: P)
  ultimately show ?thesis using c nl(1) m \<open>is_site (take 5 t)\<close> project_spec_sound(1,2) [OF ps]
    by (simp only:) blast
qed

lemma label_takeWhile: "takeWhile is_lower s \<noteq> [] \<Longrightarrow> is_label (takeWhile is_lower s)"
  by (auto simp: is_label_def list_all_iff dest: set_takeWhileD)

lemma parse_sound:
  assumes "parse s = Some P"
  shows "wf_parts P \<and> (\<exists>c1 c2 c3 nl. sep_char c1 \<and> sep_char c2 \<and> sep_char c3 \<and>
    nl \<in> {[], [newline]} \<and> s = fqdn_string c1 c2 c3 P @ nl)"
proof -
  define e where "e = takeWhile is_lower s"
  define r where "r = drop (length e) s"
  define og where "og = takeWhile is_lower (tl r)"
  define r2 where "r2 = drop (length og) (tl r)"
  have sr: "s = e @ r" unfolding e_def r_def by (rule takeWhile_split)
  have rr: "tl r = og @ r2" unfolding og_def r2_def by (rule takeWhile_split)
  have labels: "e \<noteq> [] \<Longrightarrow> is_label e" "og \<noteq> [] \<Longrightarrow> is_label og"
    unfolding e_def og_def by (rule label_takeWhile, assumption)+
  consider (both) "e \<noteq> []" "r \<noteq> []" "sep_char (hd r)" "og \<noteq> []" "r2 \<noteq> []" "sep_char (hd r2)"
      "with_prefix (Some e) (Some og) (tl r2) = Some P"
    | (one) "e \<noteq> []" "r \<noteq> []" "sep_char (hd r)" "with_prefix (Some e) None (tl r) = Some P"
    | (none) "with_prefix None None s = Some P"
    using assms unfolding parse_eq parse_spec_def Let_def e_def [symmetric] r_def [symmetric]
      og_def [symmetric] r2_def [symmetric] or_else_def
    by (auto split: option.splits if_splits)
  then show ?thesis
  proof cases
    case both
    note w = with_prefix_sound [OF both(7)]
    obtain c3 nl where c3: "sep_char c3" "nl \<in> {[], [newline]}" "tl r2 = fp_machine P @ suffix_string c3 P @ nl"
      using w by blast
    have "s = e @ hd r # og @ hd r2 # tl r2" using sr rr both by (cases r; cases r2) auto
    then have "s = fqdn_string (hd r) (hd r2) c3 P @ nl"
      using w c3 by (simp add: fqdn_string_def prefix_string_def)
    moreover have "wf_parts P" using w labels both(1,4) by (simp add: wf_parts_def)
    ultimately show ?thesis using both(3,6) c3(1,2) by blast
  next
    case one
    note w = with_prefix_sound [OF one(4)]
    obtain c3 nl where c3: "sep_char c3" "nl \<in> {[], [newline]}" "tl r = fp_machine P @ suffix_string c3 P @ nl"
      using w by blast
    have "s = e @ hd r # tl r" using sr one by (cases r) auto
    then have "s = fqdn_string (hd r) (hd r) c3 P @ nl"
      using w c3 by (simp add: fqdn_string_def prefix_string_def)
    moreover have "wf_parts P" using w labels one(1) by (simp add: wf_parts_def)
    ultimately show ?thesis using one(3) c3(1,2) by blast
  next
    case none
    note w = with_prefix_sound [OF none]
    obtain c3 nl where c3: "sep_char c3" "nl \<in> {[], [newline]}" "s = fp_machine P @ suffix_string c3 P @ nl"
      using w by blast
    then have "s = fqdn_string c3 c3 c3 P @ nl"
      using w by (simp add: fqdn_string_def prefix_string_def)
    moreover have "wf_parts P" using w by (simp add: wf_parts_def)
    ultimately show ?thesis using c3(1,2) by blast
  qed
qed

end
