(* ===== verification/Names.thy ===== *)
theory Names
  imports Fqdn
begin

text \<open>
  What the code does with host names: the address-family annotation (\<open>util/fqdn_rewrite.py\<close>),
  the production checks (\<open>util/production_check.py\<close>) and the name functions of \<open>db/model.py\<close>.
  The two regular expressions of the production checks come from the environment
  (\<open>os.environ.get\<close>), so they are parameters; \<open>None\<close> is a variable that is not set, on which
  \<open>re.match\<close> raises \<open>TypeError\<close>.
\<close>

section \<open>\<open>util/fqdn_rewrite.py\<close>\<close>

definition fqdn_annotation :: "string option \<Rightarrow> string option" where
  "fqdn_annotation address_family =
     (if address_family = None \<or> address_family = Some [] then Some []
      else if address_family = Some ADDRESS_FAMILY_IPv4 then Some ''v4''
      else if address_family = Some ADDRESS_FAMILY_IPv6 then Some ''v6''
      else None)"

definition apply_af_awareness :: "string \<Rightarrow> string option \<Rightarrow> string" where
  "apply_af_awareness fqdn address_family =
     (case fqdn_annotation address_family of
        None \<Rightarrow> fqdn
      | Some annotation \<Rightarrow>
          (case parse fqdn of
             None \<Rightarrow> fqdn
           | Some parts \<Rightarrow> replace_all (fp_machine parts) (fp_machine parts @ annotation) fqdn))"

definition rewrite :: "string \<Rightarrow> string option \<Rightarrow> string option \<Rightarrow> string" where
  "rewrite fqdn address_family tool_id = apply_af_awareness fqdn address_family"

section \<open>\<open>util/production_check.py\<close>\<close>

definition is_production_site :: "rx option \<Rightarrow> string \<Rightarrow> bool res" where
  "is_production_site site_regex site_name =
     (case site_regex of
        None \<Rightarrow> Inl TypeError
      | Some r \<Rightarrow> Inr (re_match True r site_name \<noteq> None))"

definition is_production_slice :: "rx option \<Rightarrow> rx option \<Rightarrow> string \<Rightarrow> bool res" where
  "is_production_slice site_regex machine_regex slice_fqdn =
     (case parse slice_fqdn of
        None \<Rightarrow> Inr False
      | Some parts \<Rightarrow>
          (case site_regex of
             None \<Rightarrow> Inl TypeError
           | Some r \<Rightarrow>
               if re_match True r (fp_site parts) = None then Inr False
               else (case machine_regex of
                       None \<Rightarrow> Inl TypeError
                     | Some m \<Rightarrow> Inr (re_match True m (fp_machine parts) \<noteq> None))))"

text \<open>The production configuration (\<open>app.yaml.mlab-ns\<close>).\<close>

definition SITE_REGEX :: rx where
  "SITE_REGEX = RSeqs [RBol, RTimes 3 (RCls [(CHR ''a'', CHR ''z'')]),
     RTimes 2 (RCls [(CHR ''0'', CHR ''9''), (CHR ''c'', CHR ''c'')]), REol]"

definition MACHINE_REGEX :: rx where
  "MACHINE_REGEX = RSeqs [RBol, RLit ''mlab'', RCls [(CHR ''1'', CHR ''3'')], REol]"

section \<open>The name functions of \<open>db/model.py\<close>\<close>

text \<open>\<open>'-'.join([tool_id, slice_id, server_id, site_id])\<close>; a \<open>None\<close> among them is a \<open>TypeError\<close>.\<close>

definition get_sliver_tool_id ::
    "string option \<Rightarrow> string option \<Rightarrow> string option \<Rightarrow> string option \<Rightarrow> string option" where
  "get_sliver_tool_id tool_id slice_id server_id site_id =
     (case (tool_id, slice_id, server_id, site_id) of
        (Some t, Some sl, Some sv, Some si) \<Rightarrow> Some (join_with ''-'' [t, sl, sv, si])
      | _ \<Rightarrow> None)"

definition get_fqdn :: "string \<Rightarrow> string \<Rightarrow> string \<Rightarrow> string option" where
  "get_fqdn slice_id server_id site_id =
     (let slice_parts = split_on CHR ''_'' slice_id in
      if length slice_parts \<noteq> 2 then None
      else Some (join_with ''.'' [slice_parts ! 1, slice_parts ! 0, server_id, site_id,
                                  ''measurement-lab.org'']))"

definition get_slice_site_server_ids ::
    "string \<Rightarrow> string option \<times> string option \<times> string option" where
  "get_slice_site_server_ids fqdn =
     (case parse fqdn of
        None \<Rightarrow> (None, None, None)
      | Some p \<Rightarrow>
          (case fp_experiment p of
             None \<Rightarrow> (None, None, None)
           | Some e \<Rightarrow>
               if e = [] \<or> fp_machine p = [] \<or> fp_site p = [] then (None, None, None)
               else
                 let slice = (case fp_org p of
                       None \<Rightarrow> e
                     | Some og \<Rightarrow> if og = [] then e else og @ ''_'' @ e)
                 in (Some slice, Some (fp_site p), Some (fp_machine p))))"

section \<open>Facts about the names\<close>

lemma parse_machine: "parse s = Some P \<Longrightarrow> is_machine (fp_machine P)"
  using parse_sound by (auto simp: wf_parts_def)

lemma machine_not_sep: "is_machine m \<Longrightarrow> sep_char c \<Longrightarrow> c \<notin> set m"
  by (auto simp: is_machine_def sep_char_def)

lemma machine_nonempty: "is_machine m \<Longrightarrow> m \<noteq> []"
  by (auto simp: is_machine_def)

lemma no_machine_in_letters:
  assumes "is_machine m" and "\<And>c. c \<in> set a \<Longrightarrow> \<not> is_digit c"
  shows "\<not> contains m a"
proof
  assume "contains m a"
  then have "set m \<subseteq> set a" by (rule contains_set)
  moreover obtain d where "m = ''mlab'' @ [d]" "is_digit d" using machine_shape [OF assms(1)] by blast
  ultimately show False using assms(2) by auto
qed

lemma no_machine_in_site:
  assumes "is_machine m" and "is_site s"
  shows "\<not> contains m s"
proof
  assume "contains m s"
  then obtain a b where s: "s = a @ m @ b" by (auto simp: contains_iff)
  obtain d where m: "m = ''mlab'' @ [d]" using machine_shape [OF assms(1)] by blast
  have "length s = 5" using assms(2) by (simp add: is_site_def)
  with s m have "s = m" by simp
  with m assms(2) show False
    by (simp add: is_site_def site_char_def char_defs numeral_eq_Suc)
qed

lemma label_char: "is_label w \<Longrightarrow> c \<in> set w \<Longrightarrow> is_lower c"
  by (auto simp: is_label_def list_all_iff)

lemma sep_not_digit: "sep_char c \<Longrightarrow> \<not> is_digit c"
  by (auto simp: sep_char_def char_defs)

text \<open>The prefix ends in a separator, so no machine label starts in it.\<close>

lemma prefix_split:
  assumes "wf_parts P" and "sep_char c1" and "sep_char c2" and "is_machine m"
  shows "replace_all m n (prefix_string c1 c2 P @ s) = prefix_string c1 c2 P @ replace_all m n s"
proof (cases "fp_experiment P")
  case None
  then show ?thesis by (simp add: prefix_string_def)
next
  case (Some e)
  define a where "a = e @ (case fp_org P of None \<Rightarrow> [] | Some og \<Rightarrow> c1 # og)"
  have "\<not> is_digit c" if "c \<in> set a" for c
    using that assms Some by (auto simp: a_def wf_parts_def sep_not_digit
        dest: label_char is_lower_not_digit split: option.splits)
  then have "\<not> contains m a" by (rule no_machine_in_letters [OF assms(4)])
  moreover have "prefix_string c1 c2 P = a @ [c2]"
    using Some by (simp add: prefix_string_def a_def)
  ultimately show ?thesis
    using replace_all_boundary [OF machine_not_sep machine_nonempty] assms(3,4) by simp
qed

lemma suffix_split:
  assumes "wf_parts P" and "sep_char c3" and "is_machine m"
  shows "replace_all m n (suffix_string c3 P @ nl) =
    c3 # fp_site P @ (case fp_project P of None \<Rightarrow> [] | Some p \<Rightarrow> ''.'' @ p) @ ''.'' @ replace_all m n (fp_domain P @ nl)"
proof -
  have dot: "sep_char CHR ''.''" by (simp add: sep_char_def)
  note step = replace_all_boundary [OF machine_not_sep [OF assms(3)] machine_nonempty [OF assms(3)]]
  have site: "\<not> contains m (fp_site P)" and empty: "\<not> contains m []"
    using assms by (auto simp: wf_parts_def no_machine_in_site machine_nonempty)
  have sep: "replace_all m n (c3 # t) = c3 # replace_all m n t" for t
    using step [OF assms(2) empty, of n t] by simp
  show ?thesis
  proof (cases "fp_project P")
    case None
    then show ?thesis using step [OF dot site] by (simp add: suffix_string_def sep del: replace_all.simps)
  next
    case (Some p)
    with assms(1) obtain w where p: "p = ''mlab-'' @ w" "is_label w"
      by (auto simp: wf_parts_def is_project_def starts_with_iff)
    have "\<not> is_digit c" if "c \<in> set p" for c
      using that p by (auto dest!: label_char is_lower_not_digit simp: char_defs)
    then have "\<not> contains m p" by (rule no_machine_in_letters [OF assms(3)])
    with Some show ?thesis using step [OF dot site] step [OF dot, of p]
      by (simp add: suffix_string_def sep del: replace_all.simps)
  qed
qed

text \<open>Replacing the machine label annotates it once, and the label wherever the domain repeats it.\<close>

lemma annotate_name:
  assumes wf: "wf_parts P" and seps: "sep_char c1" "sep_char c2" "sep_char c3"
    and absent: "\<not> contains (fp_machine P) (fp_domain P @ nl)"
  shows "replace_all (fp_machine P) (fp_machine P @ a) (fqdn_string c1 c2 c3 P @ nl) =
    fqdn_string c1 c2 c3 (P\<lparr>fp_machine := fp_machine P @ a\<rparr>) @ nl"
proof -
  have m: "is_machine (fp_machine P)" using wf by (simp add: wf_parts_def)
  have hit: "replace_all (fp_machine P) (fp_machine P @ a) (fp_machine P @ t) =
      (fp_machine P @ a) @ replace_all (fp_machine P) (fp_machine P @ a) t" for t
    using machine_nonempty [OF m] by (cases "fp_machine P") (simp_all add: starts_with_def)
  have pre: "prefix_string c1 c2 (P\<lparr>fp_machine := x\<rparr>) = prefix_string c1 c2 P"
    and suf: "suffix_string c3 (P\<lparr>fp_machine := x\<rparr>) = suffix_string c3 P" for x
    by (simp_all add: prefix_string_def suffix_string_def split: option.split)
  show ?thesis
    unfolding fqdn_string_def append_assoc prefix_split [OF wf seps(1,2) m] hit
      suffix_split [OF wf seps(3) m] replace_all_absent [OF absent] pre suf
    by (simp add: suffix_string_def)
qed

lemma contains_newline:
  assumes "is_machine m" and "nl \<in> {[], [newline]}"
  shows "contains m (d @ nl) \<longleftrightarrow> contains m d"
proof -
  have n: "newline \<notin> set m" using assms(1) by (auto simp: is_machine_def newline_char)
  have "contains m (d @ newline # [])  \<longleftrightarrow> contains m d"
  proof (induction d)
    case Nil
    then show ?case using starts_with_boundary [OF n, of "[]" "[]"] by (auto simp: starts_with_def)
  next
    case (Cons x d)
    then show ?case using starts_with_boundary [OF n, of "x # d" "[]"] by simp
  qed
  with assms(2) show ?thesis by auto
qed

text \<open>An annotated name is not a valid name, so it is not annotated again.\<close>

lemma not_machine_label:
  assumes "is_label e" and "sep_char c"
  shows "\<not> is_machine (take 5 (e @ c # t))"
proof
  assume "is_machine (take 5 (e @ c # t))"
  then obtain d where d: "take 5 (e @ c # t) = ''mlab'' @ [d]" "is_digit d" using machine_shape by blast
  show False
  proof (cases "length e < 5")
    case True
    then have "c \<in> set (take 5 (e @ c # t))" by (auto simp: take_Cons' )
    then have "c = d \<or> c \<in> set ''mlab''" unfolding d by auto
    with d(2) assms(2) show False by (auto simp: sep_not_digit sep_char_def)
  next
    case False
    then have "take 5 (e @ c # t) = take 5 e" by simp
    then have "d \<in> set e" using d(1) by (metis in_set_conv_decomp in_set_takeD)
    with d(2) assms(1) show False by (auto dest: label_char is_lower_not_digit)
  qed
qed

lemma rest_spec_not_machine: "\<not> is_machine (take 5 s) \<Longrightarrow> with_prefix e og s = None"
  by (simp add: with_prefix_def rest_spec_def)

lemma rest_spec_not_sep:
  "length m = 5 \<Longrightarrow> \<not> sep_char c \<Longrightarrow> with_prefix e og (m @ c # t) = None"
  by (simp add: with_prefix_def rest_spec_def)

lemma parse_spec_no_machine:
  assumes m: "is_machine m" and c: "\<not> sep_char c"
    and P: "case fp_experiment P of None \<Rightarrow> fp_org P = None | Some e \<Rightarrow> is_label e"
      "case fp_org P of None \<Rightarrow> True | Some og \<Rightarrow> is_label og"
    and seps: "sep_char c1" "sep_char c2"
  shows "parse_spec (prefix_string c1 c2 P @ m @ c # t) = None"
proof -
  define u where "u = m @ c # t"
  have len: "length m = 5" using machine_shape [OF m] by auto
  have none: "with_prefix e og u = None" for e og
    unfolding u_def by (rule rest_spec_not_sep [OF len c])
  have ml: "takeWhile is_lower u = ''mlab''" unfolding u_def by (rule machine_letters [OF m])
  obtain d t' where "drop 4 u = d # t'" "\<not> sep_char d"
    using machine_letters(2) [OF m, of "c # t"] unfolding u_def by blast
  then have stop: "drop (Suc (Suc (Suc (Suc 0)))) u = d # t'" "\<not> sep_char d" by (simp_all add: numeral_eq_Suc)
  show ?thesis
  proof (cases "fp_experiment P")
    case None
    with stop show ?thesis
      by (simp add: prefix_string_def parse_spec_def Let_def ml none flip: u_def)
  next
    case (Some e)
    with P have e: "is_label e" "e \<noteq> []" by (simp_all add: is_label_def)
    show ?thesis
    proof (cases "fp_org P")
      case None
      have "with_prefix None None (e @ c2 # u) = None"
        by (rule rest_spec_not_machine) (rule not_machine_label [OF e(1) seps(2)])
      moreover have "takeWhile is_lower (e @ c2 # u) = e"
        using e seps sep_not_lower by (intro takeWhile_label) auto
      ultimately show ?thesis using Some None e seps stop
        by (simp add: prefix_string_def parse_spec_def Let_def ml none flip: u_def)
    next
      case og: (Some og)
      with P have o: "is_label og" "og \<noteq> []" by (simp_all add: is_label_def)
      have "with_prefix None None (e @ c1 # og @ c2 # u) = None"
        by (rule rest_spec_not_machine) (rule not_machine_label [OF e(1) seps(1)])
      moreover have "with_prefix (Some e) None (og @ c2 # u) = None"
        by (rule rest_spec_not_machine) (rule not_machine_label [OF o(1) seps(2)])
      moreover have "takeWhile is_lower (e @ c1 # og @ c2 # u) = e" "takeWhile is_lower (og @ c2 # u) = og"
        using e o seps sep_not_lower by (auto intro: takeWhile_label)
      ultimately show ?thesis using Some og e o seps
        by (simp add: prefix_string_def parse_spec_def Let_def none flip: u_def)
    qed
  qed
qed

lemma annotated_not_parsed:
  assumes "parse s = Some P" and "\<not> sep_char (hd a)" and "a \<noteq> []"
  shows "parse (replace_all (fp_machine P) (fp_machine P @ a) s) = None"
proof -
  let ?m = "fp_machine P"
  obtain c1 c2 c3 nl where wf: "wf_parts P" and seps: "sep_char c1" "sep_char c2" "sep_char c3"
    and s: "s = fqdn_string c1 c2 c3 P @ nl" using parse_sound [OF assms(1)] by blast
  have m: "is_machine ?m" using wf by (simp add: wf_parts_def)
  have hit: "replace_all ?m (?m @ a) (?m @ t) = ?m @ a @ replace_all ?m (?m @ a) t" for t
    using machine_nonempty [OF m] by (cases ?m) (simp_all add: starts_with_def)
  obtain c u where a: "a = c # u" using assms(3) by (cases a) auto
  have "replace_all ?m (?m @ a) s =
      prefix_string c1 c2 P @ ?m @ c # (u @ replace_all ?m (?m @ a) (suffix_string c3 P @ nl))"
    unfolding s fqdn_string_def append_assoc prefix_split [OF wf seps(1,2) m] hit by (simp add: a)
  moreover have "\<not> sep_char c" using assms(2) a by simp
  ultimately show ?thesis unfolding parse_eq
    using wf seps m by (auto simp: wf_parts_def intro: parse_spec_no_machine)
qed

lemma annotation_head:
  "fqdn_annotation f = Some a \<Longrightarrow> a = [] \<or> a \<noteq> [] \<and> \<not> sep_char (hd a)"
  by (auto simp: fqdn_annotation_def sep_char_def split: if_splits)

lemma rewrite_none: "parse s = None \<Longrightarrow> rewrite s f t = s"
  by (simp add: rewrite_def apply_af_awareness_def split: option.split)

section \<open>Properties\<close>

text \<open>C17: \<open>parse\<close> returns parts exactly for the host names built from well-formed parts with dots
  or dashes as separators (a final newline is dropped, as \<open>$\<close> matches before it), and then
  returns those parts; on every other string it returns the empty dict.\<close>

theorem parse_round_trip:
  "parse s = Some P \<longleftrightarrow> wf_parts P \<and> (\<exists>c1 c2 c3 nl. sep_char c1 \<and> sep_char c2 \<and> sep_char c3 \<and>
     nl \<in> {[], [newline]} \<and> s = fqdn_string c1 c2 c3 P @ nl)"
  using parse_sound parse_build by blast


lemma wf_ath01:
  "wf_parts \<lparr>fp_experiment = Some ''ndt'', fp_org = Some ''iupui'', fp_machine = ''mlab3'',
     fp_site = ''ath01'', fp_project = None, fp_domain = ''measurement-lab.org''\<rparr>"
  by code_simp


text \<open>rewriting is idempotent: a name that has been rewritten for one family is left alone by
  any later rewrite for the same family.\<close>

theorem rewrite_idempotent: "rewrite (rewrite s f t) f t = rewrite s f t"
proof (cases "parse s")
  case None
  then show ?thesis by (simp add: rewrite_none)
next
  case (Some P)
  show ?thesis
  proof (cases "fqdn_annotation f")
    case None
    then show ?thesis by (simp add: rewrite_def apply_af_awareness_def)
  next
    case (Some a)
    show ?thesis
    proof (cases "a = []")
      case True
      have "fp_machine P \<noteq> []" using parse_machine [OF \<open>parse s = Some P\<close>] by (rule machine_nonempty)
      then show ?thesis using Some True \<open>parse s = Some P\<close>
        by (simp add: rewrite_def apply_af_awareness_def replace_all_same)
    next
      case False
      then have "\<not> sep_char (hd a)" using annotation_head [OF Some] by blast
      then have "parse (rewrite s f t) = None" using annotated_not_parsed False Some \<open>parse s = Some P\<close>
        by (simp add: rewrite_def apply_af_awareness_def)
      then show ?thesis by (rule rewrite_none)
    qed
  qed
qed

lemma run_times_ic:
  "rx_run ic (RTimes n (RCls rs)) (p, s, g) =
     (if n \<le> length s \<and> list_all (in_cls ic rs) (take n s) then [(p + n, drop n s, g)] else [])"
proof (induction n arbitrary: p s)
  case 0
  then show ?case by (simp add: RTimes.simps)
next
  case (Suc n)
  then show ?case by (cases s) (auto simp: RTimes.simps)
qed

lemma lower_in_class: "is_lower c \<Longrightarrow> in_cls ic [(CHR ''a'', CHR ''z'')] c"
  by (simp add: in_cls_def)

lemma site_in_class:
  assumes "site_char c"
  shows "in_cls True [(CHR ''0'', CHR ''9''), (CHR ''c'', CHR ''c'')] c \<longleftrightarrow> c \<noteq> CHR ''t''"
proof -
  consider "is_digit c" | "c = CHR ''c''" | "c = CHR ''t''" using assms by (auto simp: site_char_def)
  then show ?thesis
  proof cases
    case 1
    then have "in_ranges [(CHR ''0'', CHR ''9''), (CHR ''c'', CHR ''c'')] c"
      by (simp add: in_ranges_def is_digit_def ord_def)
    with 1 show ?thesis by (auto simp: in_cls_def char_defs)
  qed (simp, code_simp)+
qed

lemma site_regex_on_site:
  assumes "is_site s"
  shows "re_match True SITE_REGEX s \<noteq> None \<longleftrightarrow> CHR ''t'' \<notin> set (drop 3 s)"
proof -
  have len: "length s = 5" using assms by (simp add: is_site_def)
  have d: "drop 2 (drop 3 s) = []" "take 2 (drop 3 s) = drop 3 s" using len by simp_all
  have a: "list_all (in_cls True [(CHR ''a'', CHR ''z'')]) (take 3 s)"
    using assms by (auto simp: is_site_def list_all_iff lower_in_class)
  have "rx_run True SITE_REGEX (0, s, []) =
      (if list_all (in_cls True [(CHR ''0'', CHR ''9''), (CHR ''c'', CHR ''c'')]) (drop 3 s)
       then [(5, [], [])] else [])"
    using a len d unfolding SITE_REGEX_def by (simp add: run_times_ic)
  moreover have "list_all (in_cls True [(CHR ''0'', CHR ''9''), (CHR ''c'', CHR ''c'')]) (drop 3 s) \<longleftrightarrow>
      CHR ''t'' \<notin> set (drop 3 s)"
    using assms by (auto simp: is_site_def list_all_iff site_in_class)
  ultimately show ?thesis by (simp add: re_match_def)
qed

lemma machine_regex_on_machine:
  assumes "is_machine m"
  shows "re_match True MACHINE_REGEX m \<noteq> None \<longleftrightarrow> m \<noteq> ''mlab4''"
proof -
  have "re_match True MACHINE_REGEX ''mlab1'' \<noteq> None" "re_match True MACHINE_REGEX ''mlab2'' \<noteq> None"
    "re_match True MACHINE_REGEX ''mlab3'' \<noteq> None" "re_match True MACHINE_REGEX ''mlab4'' = None"
    by code_simp+
  then show ?thesis using assms unfolding is_machine_def by auto
qed

text \<open>A host of the examples.\<close>

definition ath01_host :: string where
  "ath01_host = ''ndt.iupui.mlab3.ath01.measurement-lab.org''"

lemma parse_ath01:
  "parse ath01_host = Some \<lparr>fp_experiment = Some ''ndt'', fp_org = Some ''iupui'', fp_machine = ''mlab3'',
     fp_site = ''ath01'', fp_project = None, fp_domain = ''measurement-lab.org''\<rparr>"
proof -
  have dot: "sep_char CHR ''.''" by (simp add: sep_char_def)
  show ?thesis using parse_build [OF wf_ath01 dot dot dot, of "[]"]
    by (simp add: ath01_host_def fqdn_string_def prefix_string_def suffix_string_def)
qed

lemma ath01_ids: "get_slice_site_server_ids ath01_host = (Some ''iupui_ndt'', Some ''ath01'', Some ''mlab3'')"
  by (simp add: get_slice_site_server_ids_def parse_ath01)

lemma ath01_production: "is_production_slice (Some SITE_REGEX) (Some MACHINE_REGEX) ath01_host = Inr True"
proof -
  have "re_match True SITE_REGEX ''ath01'' \<noteq> None" "re_match True MACHINE_REGEX ''mlab3'' \<noteq> None" by code_simp+
  then show ?thesis by (auto simp: is_production_slice_def parse_ath01)
qed

text \<open>C16: with the production configuration the registered slices are exactly those whose name
  parses, whose machine is not the testbed \<open>mlab4\<close> and whose site is not a test site.\<close>

theorem production_slice_iff:
  "is_production_slice (Some SITE_REGEX) (Some MACHINE_REGEX) s =
     Inr (case parse s of None \<Rightarrow> False
       | Some P \<Rightarrow> fp_machine P \<noteq> ''mlab4'' \<and> CHR ''t'' \<notin> set (drop 3 (fp_site P)))"
proof (cases "parse s")
  case None
  then show ?thesis by (simp add: is_production_slice_def)
next
  case (Some P)
  then have "is_site (fp_site P)" "is_machine (fp_machine P)"
    using parse_sound by (auto simp: wf_parts_def)
  note m = site_regex_on_site [OF this(1)] machine_regex_on_machine [OF this(2)]
  show ?thesis using m Some by (auto simp: is_production_slice_def)
qed

text \<open>the slice, server and site ids of a node name are read back from the name built from
  them.\<close>

theorem slice_ids_round_trip:
  assumes "is_label og" and "is_label e" and "is_machine m" and "is_site st"
  shows "\<exists>fqdn. get_fqdn (og @ ''_'' @ e) m st = Some fqdn \<and>
    get_slice_site_server_ids fqdn = (Some (og @ ''_'' @ e), Some st, Some m)"
proof -
  define P where "P = \<lparr>fp_experiment = Some e, fp_org = Some og, fp_machine = m, fp_site = st,
    fp_project = None, fp_domain = ''measurement-lab.org''\<rparr>"
  have "CHR ''_'' \<notin> set og" "CHR ''_'' \<notin> set e"
    using assms(1,2) by (auto dest!: label_char simp: char_defs)
  then have "split_on CHR ''_'' (og @ ''_'' @ e) = [og, e]"
    by (simp add: split_on_append split_on_no_sep)
  then have "get_fqdn (og @ ''_'' @ e) m st = Some (fqdn_string CHR ''.'' CHR ''.'' CHR ''.'' P)"
    by (simp add: get_fqdn_def Let_def fqdn_string_def prefix_string_def suffix_string_def P_def)
  moreover have "\<not> project_prefix ''measurement-lab.org''" "newline \<notin> set ''measurement-lab.org''"
    by code_simp+
  then have "wf_parts P" using assms by (simp add: wf_parts_def P_def)
  then have "parse (fqdn_string CHR ''.'' CHR ''.'' CHR ''.'' P) = Some P"
    using parse_build [of P "CHR ''.''" "CHR ''.''" "CHR ''.''" "[]"] by (simp add: sep_char_def)
  ultimately show ?thesis using assms
    by (auto simp: get_slice_site_server_ids_def P_def is_label_def machine_nonempty is_site_def)
qed

theorem slice_ids_round_trip_witness:
  "get_slice_site_server_ids ''ndt.iupui.mlab3.ath01.measurement-lab.org'' =
     (Some ''iupui_ndt'', Some ''ath01'', Some ''mlab3'')"
proof -
  have "is_label ''iupui''" "is_label ''ndt''" "is_machine ''mlab3''" "is_site ''ath01''" by code_simp+
  from slice_ids_round_trip [OF this] show ?thesis
    by (simp add: get_fqdn_def Let_def)
qed

end
