(* ===== verification/PyFloat.thy ===== *)
theory PyFloat
  imports PyString
begin

text \<open>
  Python floats as extended reals: a finite value is a real number (arithmetic is exact, the
  rounding to 53 bits is not modelled), and the two infinities and the NaN that \<open>float(s)\<close>
  can produce are values of their own, so that comparisons with them behave as IEEE's do.
\<close>

datatype pyfloat = Fin real | PInf | NInf | NaN

section \<open>Truth value, absolute value, comparison\<close>

definition fl_true :: "pyfloat \<Rightarrow> bool" where
  "fl_true x \<longleftrightarrow> x \<noteq> Fin 0"

fun fl_neg :: "pyfloat \<Rightarrow> pyfloat" where
  "fl_neg (Fin a) = Fin (- a)"
| "fl_neg PInf = NInf"
| "fl_neg NInf = PInf"
| "fl_neg NaN = NaN"

fun fl_abs :: "pyfloat \<Rightarrow> pyfloat" where
  "fl_abs (Fin a) = Fin \<bar>a\<bar>"
| "fl_abs PInf = PInf"
| "fl_abs NInf = PInf"
| "fl_abs NaN = NaN"

fun fl_sub :: "pyfloat \<Rightarrow> pyfloat \<Rightarrow> pyfloat" where
  "fl_sub (Fin a) (Fin b) = Fin (a - b)"
| "fl_sub NaN _ = NaN"
| "fl_sub _ NaN = NaN"
| "fl_sub PInf PInf = NaN"
| "fl_sub NInf NInf = NaN"
| "fl_sub PInf _ = PInf"
| "fl_sub NInf _ = NInf"
| "fl_sub (Fin _) PInf = NInf"
| "fl_sub (Fin _) NInf = PInf"

fun fl_less :: "pyfloat \<Rightarrow> pyfloat \<Rightarrow> bool" where
  "fl_less NaN _ = False"
| "fl_less _ NaN = False"
| "fl_less (Fin a) (Fin b) = (a < b)"
| "fl_less NInf y = (y \<noteq> NInf)"
| "fl_less (Fin a) PInf = True"
| "fl_less (Fin a) NInf = False"
| "fl_less PInf _ = False"

definition fl_gt :: "pyfloat \<Rightarrow> pyfloat \<Rightarrow> bool" where
  "fl_gt x y = fl_less y x"

lemma fl_gt_Fin [simp]: "fl_gt (Fin a) (Fin b) \<longleftrightarrow> b < a"
  by (simp add: fl_gt_def)

section \<open>\<open>float(s)\<close>\<close>

definition scale10 :: "nat \<Rightarrow> int \<Rightarrow> real" where
  "scale10 m k = (if 0 \<le> k then real m * 10 ^ nat k else real m / 10 ^ nat (- k))"

text \<open>A decimal text at or above this value rounds to infinity.\<close>

definition fl_overflow :: real where
  "fl_overflow = 2 ^ 1024 - 2 ^ 970"

definition fl_of_real :: "real \<Rightarrow> pyfloat" where
  "fl_of_real x = (if fl_overflow \<le> x then PInf else if x \<le> - fl_overflow then NInf else Fin x)"

definition span_digits :: "string \<Rightarrow> string \<times> string" where
  "span_digits s = (takeWhile is_digit s, dropWhile is_digit s)"

text \<open>The exponent part: nothing, or \<open>e\<close> with an optional sign and at least one digit.\<close>

definition parse_exponent :: "string \<Rightarrow> int option" where
  "parse_exponent s = (case s of
      [] \<Rightarrow> Some 0
    | c # cs \<Rightarrow>
        if c = CHR ''e'' \<or> c = CHR ''E'' then
          (let (neg, ds) = (case cs of
                [] \<Rightarrow> (False, [])
              | d # ds \<Rightarrow> if d = CHR ''-'' then (True, ds) else if d = CHR ''+'' then (False, ds)
                         else (False, cs))
           in if ds = [] \<or> \<not> list_all is_digit ds then None
              else Some (if neg then - int (nat_of_digits ds) else int (nat_of_digits ds)))
        else None)"

definition parse_decimal :: "string \<Rightarrow> real option" where
  "parse_decimal s =
     (let (ip, r1) = span_digits s;
          (fp, r2) = (case r1 of [] \<Rightarrow> ([], [])
                      | c # r \<Rightarrow> if c = CHR ''.'' then span_digits r else ([], r1))
      in if ip = [] \<and> fp = [] then None
         else (case parse_exponent r2 of None \<Rightarrow> None
               | Some e \<Rightarrow> Some (scale10 (nat_of_digits (ip @ fp)) (e - int (length fp)))))"

definition parse_unsigned_float :: "string \<Rightarrow> pyfloat option" where
  "parse_unsigned_float s =
     (if lower s = ''inf'' \<or> lower s = ''infinity'' then Some PInf
      else if lower s = ''nan'' then Some NaN
      else map_option fl_of_real (parse_decimal s))"

definition py_float :: "string \<Rightarrow> pyfloat res" where
  "py_float s =
     (let t = strip s;
          (neg, u) = (case t of [] \<Rightarrow> (False, [])
              | c # cs \<Rightarrow> if c = CHR ''-'' then (True, cs) else if c = CHR ''+'' then (False, cs)
                         else (False, t))
      in case parse_unsigned_float u of
           None \<Rightarrow> Inl ValueError
         | Some x \<Rightarrow> Inr (if neg then fl_neg x else x))"

section \<open>Formatting\<close>

text \<open>Rounding to the nearest integer, ties to even.\<close>

definition round_half_even :: "real \<Rightarrow> int" where
  "round_half_even x =
     (let f = \<lfloor>x\<rfloor>; d = x - of_int f
      in if d < 1 / 2 then f else if 1 / 2 < d then f + 1 else if even f then f else f + 1)"

lemma round_half_even_of_int [simp]: "round_half_even (of_int i) = i"
  by (simp add: round_half_even_def)

lemma round_half_even_near: "\<bar>of_int (round_half_even x) - x\<bar> \<le> 1 / 2"
proof -
  have 1: "of_int \<lfloor>x\<rfloor> \<le> x" and 2: "x < of_int \<lfloor>x\<rfloor> + 1"
    by linarith+
  show ?thesis using 1 2 by (auto simp: round_half_even_def Let_def)
qed

definition pad_left :: "nat \<Rightarrow> string \<Rightarrow> string" where
  "pad_left n s = replicate (n - length s) CHR ''0'' @ s"

text \<open>\<open>'%.nf' % x\<close>; \<open>%f\<close> is the case \<open>n = 6\<close>.\<close>

definition fmt_fixed :: "nat \<Rightarrow> pyfloat \<Rightarrow> string" where
  "fmt_fixed n x = (case x of
      NaN \<Rightarrow> ''nan'' | PInf \<Rightarrow> ''inf'' | NInf \<Rightarrow> ''-inf''
    | Fin a \<Rightarrow>
        (let m = nat (round_half_even (\<bar>a\<bar> * 10 ^ n))
         in (if a < 0 then ''-'' else []) @ show_nat (m div 10 ^ n) @
            (if n = 0 then [] else ''.'' @ pad_left n (show_nat (m mod 10 ^ n)))))"

text \<open>
  \<open>'%.ng' % x\<close>: \<open>n\<close> significant digits, trailing zeros dropped, exponent notation outside
  \<open>1e-4 .. 10^n\<close>. The decimal exponent is searched over the range of doubles.
\<close>

definition pow10 :: "int \<Rightarrow> real" where
  "pow10 k = (if 0 \<le> k then 10 ^ nat k else 1 / 10 ^ nat (- k))"

definition dec_exponent :: "real \<Rightarrow> int" where
  "dec_exponent a = (case find (\<lambda>e. pow10 e \<le> a \<and> a < pow10 (e + 1)) [-324..308] of
      None \<Rightarrow> 0 | Some e \<Rightarrow> e)"

definition drop_zeros :: "string \<Rightarrow> string" where
  "drop_zeros s = rstrip_by (\<lambda>c. c = CHR ''0'') s"

definition fmt_sig :: "nat \<Rightarrow> real \<Rightarrow> string" where
  "fmt_sig n a =
     (if a = 0 then ''0'' else
      let e0 = dec_exponent \<bar>a\<bar>;
          m0 = nat (round_half_even (\<bar>a\<bar> * pow10 (int n - 1 - e0)));
          (m, e) = (if m0 = 10 ^ n then (10 ^ (n - 1), e0 + 1) else (m0, e0));
          ds = drop_zeros (show_nat m);
          sgn = (if a < 0 then ''-'' else [])
      in if e < -4 \<or> int n \<le> e then
           sgn @ take 1 ds @ (if length ds > 1 then ''.'' @ drop 1 ds else []) @ ''e'' @
           (if e < 0 then ''-'' else ''+'') @ pad_left 2 (show_nat (nat \<bar>e\<bar>))
         else if e < 0 then sgn @ ''0.'' @ replicate (nat (- e) - 1) CHR ''0'' @ ds
         else let k = nat e + 1
              in sgn @ take k (ds @ replicate (k - length ds) CHR ''0'') @
                 (if length ds > k then ''.'' @ drop k ds else []))"

text \<open>\<open>str(x)\<close> is \<open>'%.12g' % x\<close> with \<open>.0\<close> added to a result that looks like an integer.\<close>

definition fl_str :: "pyfloat \<Rightarrow> string" where
  "fl_str x = (case x of
      NaN \<Rightarrow> ''nan'' | PInf \<Rightarrow> ''inf'' | NInf \<Rightarrow> ''-inf''
    | Fin a \<Rightarrow> (let s = fmt_sig 12 a
               in if list_all (\<lambda>c. is_digit c \<or> c = CHR ''-'') s then s @ ''.0'' else s))"

section \<open>Facts\<close>

lemma lower_digit: "is_digit c \<Longrightarrow> to_lower c = c"
  by (simp add: to_lower_def char_defs is_upper_def ord_def)

lemma span_digits_all: "list_all is_digit s \<Longrightarrow> span_digits s = (s, [])"
  by (simp add: span_digits_def list_all_iff)

lemma span_digits_stop:
  "list_all is_digit s \<Longrightarrow> \<not> is_digit c \<Longrightarrow> span_digits (s @ c # t) = (s, c # t)"
  by (simp add: span_digits_def list_all_iff takeWhile_append_stop dropWhile_append_stop)

lemma py_float_nan: "py_float ''nan'' = Inr NaN"
  by code_simp

lemma fl_range_finite:
  assumes "\<not> fl_gt (fl_abs x) (Fin b)"
  shows "x = NaN \<or> (\<exists>a. x = Fin a \<and> \<bar>a\<bar> \<le> b)"
  using assms by (cases x) (auto simp: fl_gt_def)

end
