(* ===== verification/Json.thy ===== *)
theory Json
  imports PyFloat
begin

text \<open>
  Python's \<open>json\<close> module as the code uses it. A JSON value is what \<open>json.loads\<close> returns: a dict
  is an association list without repeated keys, in the order of first insertion. Strings are byte
  strings; a \<open>\u\<close> escape stands for the UTF-8 encoding of its code unit. \<open>json_loads\<close> is a
  recursive-descent parser; its fuel is \<open>2 * length s + 2\<close>, and every two units of fuel
  consume at least one character.
\<close>

datatype json =
    JNull
  | JBool bool
  | JInt int
  | JFloat pyfloat
  | JStr string
  | JArr "json list"
  | JObj "(string \<times> json) list"

section \<open>Using a value\<close>

text \<open>\<open>bool(v)\<close>.\<close>

fun js_true :: "json \<Rightarrow> bool" where
  "js_true JNull = False"
| "js_true (JBool b) = b"
| "js_true (JInt i) = (i \<noteq> 0)"
| "js_true (JFloat f) = fl_true f"
| "js_true (JStr s) = (s \<noteq> [])"
| "js_true (JArr xs) = (xs \<noteq> [])"
| "js_true (JObj kvs) = (kvs \<noteq> [])"

text \<open>
  \<open>v[key]\<close> for a string key: only a dict has string keys; a list or a string raises
  \<open>TypeError\<close> (its indices are integers), and so does every other value (not subscriptable).
\<close>

definition js_get :: "string \<Rightarrow> json \<Rightarrow> json res" where
  "js_get key v = (case v of
      JObj kvs \<Rightarrow> (case map_of kvs key of Some x \<Rightarrow> Inr x | None \<Rightarrow> Inl KeyError)
    | _ \<Rightarrow> Inl TypeError)"

text \<open>\<open>v[i]\<close> for a non-negative index: a dict has no integer keys.\<close>

definition js_nth :: "nat \<Rightarrow> json \<Rightarrow> json res" where
  "js_nth i v = (case v of
      JArr xs \<Rightarrow> if i < length xs then Inr (xs ! i) else Inl IndexError
    | JStr s \<Rightarrow> if i < length s then Inr (JStr [s ! i]) else Inl IndexError
    | JObj _ \<Rightarrow> Inl KeyError
    | _ \<Rightarrow> Inl TypeError)"

text \<open>\<open>key in v\<close> for a string key: membership in a dict or list, substring of a string.\<close>

definition js_in :: "string \<Rightarrow> json \<Rightarrow> bool res" where
  "js_in key v = (case v of
      JObj kvs \<Rightarrow> Inr (key \<in> fst ` set kvs)
    | JArr xs \<Rightarrow> Inr (JStr key \<in> set xs)
    | JStr s \<Rightarrow> Inr (contains key s)
    | _ \<Rightarrow> Inl TypeError)"

text \<open>\<open>for x in v\<close>: a dict yields its keys, a string its characters.\<close>

definition js_iter :: "json \<Rightarrow> json list res" where
  "js_iter v = (case v of
      JArr xs \<Rightarrow> Inr xs
    | JObj kvs \<Rightarrow> Inr (map (\<lambda>kv. JStr (fst kv)) kvs)
    | JStr s \<Rightarrow> Inr (map (\<lambda>c. JStr [c]) s)
    | _ \<Rightarrow> Inl TypeError)"

text \<open>\<open>float(v)\<close>.\<close>

definition js_float :: "json \<Rightarrow> pyfloat res" where
  "js_float v = (case v of
      JStr s \<Rightarrow> py_float s
    | JFloat f \<Rightarrow> Inr f
    | JInt i \<Rightarrow> Inr (Fin (of_int i))
    | JBool b \<Rightarrow> Inr (Fin (if b then 1 else 0))
    | _ \<Rightarrow> Inl TypeError)"

section \<open>\<open>json.loads\<close>\<close>

fun kv_set :: "string \<Rightarrow> 'v \<Rightarrow> (string \<times> 'v) list \<Rightarrow> (string \<times> 'v) list" where
  "kv_set k v [] = [(k, v)]"
| "kv_set k v (x # xs) = (if fst x = k then (k, v) # xs else x # kv_set k v xs)"

lemma map_of_kv_set: "map_of (kv_set k v xs) = (map_of xs)(k \<mapsto> v)"
  by (induction xs) (auto simp: fun_eq_iff)

lemma set_kv_set: "x \<in> set (kv_set k v xs) \<Longrightarrow> x = (k, v) \<or> x \<in> set xs"
  by (induction xs) (auto split: if_splits)

lemma keys_kv_set: "fst ` set (kv_set k v xs) = insert k (fst ` set xs)"
  by (induction xs) auto

lemma distinct_kv_set: "distinct (map fst xs) \<Longrightarrow> distinct (map fst (kv_set k v xs))"
proof (induction xs)
  case (Cons x xs)
  have "set (map fst (kv_set k v xs)) = insert k (set (map fst xs))"
    using keys_kv_set [of k v xs] by simp
  with Cons show ?case by auto
qed simp

definition js_space :: "char \<Rightarrow> bool" where
  "js_space c \<longleftrightarrow> c \<in> {CHR '' '', CHR 0x09, CHR 0x0A, CHR 0x0D}"

definition skip_ws :: "string \<Rightarrow> string" where
  "skip_ws s = dropWhile js_space s"

definition utf8 :: "nat \<Rightarrow> string" where
  "utf8 n =
     (if n < 128 then [char_of n]
      else if n < 2048 then [char_of (192 + n div 64), char_of (128 + n mod 64)]
      else [char_of (224 + n div 4096), char_of (128 + n div 64 mod 64), char_of (128 + n mod 64)])"

definition unescape :: "char \<Rightarrow> char option" where
  "unescape c =
     (if c = CHR 0x22 \<or> c = CHR 0x5C \<or> c = CHR ''/'' then Some c
      else if c = CHR ''b'' then Some (CHR 0x08)
      else if c = CHR ''f'' then Some (CHR 0x0C)
      else if c = CHR ''n'' then Some (CHR 0x0A)
      else if c = CHR ''r'' then Some (CHR 0x0D)
      else if c = CHR ''t'' then Some (CHR 0x09) else None)"

text \<open>The rest of a string literal, after its opening quote; control characters are not allowed.\<close>

fun string_body :: "string \<Rightarrow> (string \<times> string) option" where
  "string_body [] = None"
| "string_body (c # s) =
     (if c = CHR 0x22 then Some ([], s)
      else if c = CHR 0x5C then
        (case s of
           [] \<Rightarrow> None
         | e # t \<Rightarrow>
             if e = CHR ''u'' then
               (case t of
                  a # b # x # y # u \<Rightarrow>
                    if list_all is_hex [a, b, x, y]
                    then map_option (\<lambda>(w, r). (utf8 (nat_of_hex [a, b, x, y]) @ w, r)) (string_body u)
                    else None
                | _ \<Rightarrow> None)
             else (case unescape e of
                     None \<Rightarrow> None
                   | Some d \<Rightarrow> map_option (\<lambda>(w, r). (d # w, r)) (string_body t)))
      else if ord c < 32 then None
      else map_option (\<lambda>(w, r). (c # w, r)) (string_body s))"

text \<open>A number: optional minus, digits without a leading zero, then fraction and exponent.\<close>

definition number_token :: "string \<Rightarrow> (string \<times> string) option" where
  "number_token s =
     (let (sign, t) = (case s of c # cs \<Rightarrow> if c = CHR ''-'' then ([c], cs) else ([], s) | [] \<Rightarrow> ([], s));
          ds = (case t of c # cs \<Rightarrow> if c = CHR ''0'' then [c] else takeWhile is_digit t | [] \<Rightarrow> []);
          r = drop (length ds) t;
          frac = (case r of c # cs \<Rightarrow> if c = CHR ''.'' \<and> takeWhile is_digit cs \<noteq> []
                                     then c # takeWhile is_digit cs else [] | [] \<Rightarrow> []);
          r2 = drop (length frac) r;
          expo = (case r2 of
              c # cs \<Rightarrow> if c = CHR ''e'' \<or> c = CHR ''E'' then
                  (let sg = (case cs of d # _ \<Rightarrow> if d = CHR ''-'' \<or> d = CHR ''+'' then [d] else [] | [] \<Rightarrow> []);
                       ed = takeWhile is_digit (drop (length sg) cs)
                   in if ed \<noteq> [] then c # sg @ ed else [])
                else []
            | [] \<Rightarrow> []);
          r3 = drop (length expo) r2
      in if ds = [] then None else Some (sign @ ds @ frac @ expo, r3))"

definition number_value :: "string \<Rightarrow> json" where
  "number_value w =
     (if list_all (\<lambda>c. is_digit c \<or> c = CHR ''-'') w
      then (case py_int w of Inr i \<Rightarrow> JInt i | Inl _ \<Rightarrow> JNull)
      else (case py_float w of Inr f \<Rightarrow> JFloat f | Inl _ \<Rightarrow> JNull))"

definition literals :: "(string \<times> json) list" where
  "literals = [(''null'', JNull), (''true'', JBool True), (''false'', JBool False),
     (''NaN'', JFloat NaN), (''Infinity'', JFloat PInf), (''-Infinity'', JFloat NInf)]"

fun js_value :: "nat \<Rightarrow> string \<Rightarrow> (json \<times> string) option"
  and js_elems :: "nat \<Rightarrow> string \<Rightarrow> (json list \<times> string) option"
  and js_members :: "nat \<Rightarrow> (string \<times> json) list \<Rightarrow> string \<Rightarrow> ((string \<times> json) list \<times> string) option" where
  "js_value 0 s = None"
| "js_value (Suc n) s =
     (case find (\<lambda>l. starts_with (fst l) s) literals of
        Some l \<Rightarrow> Some (snd l, drop (length (fst l)) s)
      | None \<Rightarrow>
          (case s of
             [] \<Rightarrow> None
           | c # t \<Rightarrow>
               if c = CHR 0x22 then map_option (\<lambda>(w, r). (JStr w, r)) (string_body t)
               else if c = CHR ''['' then
                 (case skip_ws t of
                    [] \<Rightarrow> None
                  | d # u \<Rightarrow> if d = CHR '']'' then Some (JArr [], u)
                             else map_option (\<lambda>(xs, r). (JArr xs, r)) (js_elems n (skip_ws t)))
               else if c = CHR ''{'' then
                 (case skip_ws t of
                    [] \<Rightarrow> None
                  | d # u \<Rightarrow> if d = CHR ''}'' then Some (JObj [], u)
                             else map_option (\<lambda>(kvs, r). (JObj kvs, r)) (js_members n [] (skip_ws t)))
               else map_option (\<lambda>(w, r). (number_value w, r)) (number_token s)))"
| "js_elems 0 s = None"
| "js_elems (Suc n) s =
     (case js_value n s of
        None \<Rightarrow> None
      | Some (v, r) \<Rightarrow>
          (case skip_ws r of
             [] \<Rightarrow> None
           | c # t \<Rightarrow>
               if c = CHR '']'' then Some ([v], t)
               else if c = CHR '','' then map_option (\<lambda>(vs, u). (v # vs, u)) (js_elems n (skip_ws t))
               else None))"
| "js_members 0 acc s = None"
| "js_members (Suc n) acc s =
     (case s of
        [] \<Rightarrow> None
      | q # s1 \<Rightarrow>
          if q \<noteq> CHR 0x22 then None
          else (case string_body s1 of
                  None \<Rightarrow> None
                | Some (k, r) \<Rightarrow>
                    (case skip_ws r of
                       [] \<Rightarrow> None
                     | c # t \<Rightarrow>
                         if c \<noteq> CHR '':'' then None
                         else (case js_value n (skip_ws t) of
                                 None \<Rightarrow> None
                               | Some (v, r2) \<Rightarrow>
                                   (case skip_ws r2 of
                                      [] \<Rightarrow> None
                                    | d # u \<Rightarrow>
                                        if d = CHR ''}'' then Some (kv_set k v acc, u)
                                        else if d = CHR '','' then js_members n (kv_set k v acc) (skip_ws u)
                                        else None)))))"

definition json_loads :: "string \<Rightarrow> json res" where
  "json_loads s =
     (case js_value (2 * length s + 2) (skip_ws s) of
        Some (v, r) \<Rightarrow> if skip_ws r = [] then Inr v else Inl ValueError
      | None \<Rightarrow> Inl ValueError)"

lemma json_loads_example:
  "json_loads ''[{\"a\": 1, \"b\": [true, null]}, \"x\"]'' =
     Inr (JArr [JObj [(''a'', JInt 1), (''b'', JArr [JBool True, JNull])], JStr ''x''])"
  by code_simp

end
