(* ===== verification/Tables.thy ===== *)
theory Tables
  imports Prelude
begin

text \<open>
  Tables of entities with a key name, as the datastore keeps them: \<open>put_by\<close> is
  \<open>entity.put()\<close> (it replaces the entity with the same key, or adds one), \<open>get_by\<close> is
  \<open>get_by_key_name\<close>. The locale \<open>table\<close> is what the clients of a table rely on; every table of
  the model interprets it.
\<close>

fun put_by :: "('e \<Rightarrow> 'k) \<Rightarrow> 'e \<Rightarrow> 'e list \<Rightarrow> 'e list" where
  "put_by key e [] = [e]"
| "put_by key e (x # xs) = (if key x = key e then e # xs else x # put_by key e xs)"

definition get_by :: "('e \<Rightarrow> 'k) \<Rightarrow> 'k \<Rightarrow> 'e list \<Rightarrow> 'e option" where
  "get_by key k xs = find (\<lambda>e. key e = k) xs"

locale table =
  fixes key :: "'e \<Rightarrow> 'k" and put :: "'e \<Rightarrow> 't \<Rightarrow> 't" and get :: "'k \<Rightarrow> 't \<Rightarrow> 'e option"
    and entities :: "'t \<Rightarrow> 'e set" and ok :: "'t \<Rightarrow> bool"
  assumes get_put: "get k (put e t) = (if k = key e then Some e else get k t)"
    and ok_put: "ok t \<Longrightarrow> ok (put e t)"
    and entities_get: "ok t \<Longrightarrow> entities t = {e. get (key e) t = Some e}"
begin

definition put_all :: "'e list \<Rightarrow> 't \<Rightarrow> 't" where
  "put_all es t = fold put es t"

lemma put_all_simps: "put_all [] t = t" "put_all (e # es) t = put_all es (put e t)"
  by (simp_all add: put_all_def)

lemma ok_put_all: "ok t \<Longrightarrow> ok (put_all es t)"
  by (induction es arbitrary: t) (simp_all add: put_all_simps ok_put)

lemma get_put_all_other: "k \<notin> key ` set es \<Longrightarrow> get k (put_all es t) = get k t"
  by (induction es arbitrary: t) (auto simp: put_all_simps get_put)

lemma get_put_all: "distinct (map key es) \<Longrightarrow> e \<in> set es \<Longrightarrow> get (key e) (put_all es t) = Some e"
proof (induction es arbitrary: t)
  case (Cons x es)
  show ?case
  proof (cases "e = x")
    case True
    with Cons.prems have "key e \<notin> key ` set es" by auto
    with True show ?thesis by (simp add: put_all_simps get_put_all_other get_put)
  next
    case False
    with Cons show ?thesis by (simp add: put_all_simps)
  qed
qed simp

lemma entities_put:
  assumes "ok t"
  shows "entities (put e t) = insert e {x \<in> entities t. key x \<noteq> key e}"
  using assms by (auto simp: entities_get [OF ok_put] entities_get get_put split: if_splits)

lemma entities_put_all:
  assumes "ok t" and "distinct (map key es)"
  shows "entities (put_all es t) = set es \<union> {x \<in> entities t. key x \<notin> key ` set es}"
proof -
  have "get (key x) (put_all es t) = Some x \<longleftrightarrow>
      x \<in> set es \<or> (get (key x) t = Some x \<and> key x \<notin> key ` set es)" for x
  proof (cases "key x \<in> key ` set es")
    case True
    then obtain y where y: "y \<in> set es" "key y = key x" by auto
    have "get (key x) (put_all es t) = Some y" using get_put_all [OF assms(2) y(1)] y(2) by simp
    moreover have "x \<in> set es \<Longrightarrow> get (key x) (put_all es t) = Some x" by (rule get_put_all [OF assms(2)])
    ultimately show ?thesis using True y(1) by auto
  next
    case False
    then show ?thesis by (auto simp: get_put_all_other)
  qed
  then show ?thesis using assms(1) by (auto simp: entities_get ok_put_all)
qed

end

section \<open>The tables of the datastore\<close>

lemma get_put_by: "get_by key k (put_by key e xs) = (if k = key e then Some e else get_by key k xs)"
  by (induction xs) (auto simp: get_by_def)

lemma keys_put_by: "key ` set (put_by key e xs) = insert (key e) (key ` set xs)"
  by (induction xs) auto

lemma distinct_put_by: "distinct (map key xs) \<Longrightarrow> distinct (map key (put_by key e xs))"
proof (induction xs)
  case (Cons x xs)
  then show ?case using keys_put_by [of key e xs] by (auto simp flip: set_map simp del: set_map)
qed simp

lemma set_put_by: "x \<in> set (put_by key e xs) \<Longrightarrow> x = e \<or> x \<in> set xs"
  by (induction xs) (auto split: if_splits)

lemma put_by_mem: "e \<in> set (put_by key e xs)"
  by (induction xs) auto

lemma get_by_iff: "distinct (map key xs) \<Longrightarrow> get_by key k xs = Some e \<longleftrightarrow> e \<in> set xs \<and> key e = k"
  by (induction xs) (auto simp: get_by_def)

lemma put_by_same: "get_by key (key e) xs = Some e \<Longrightarrow> put_by key e xs = xs"
  by (induction xs) (auto simp: get_by_def split: if_splits)

lemma map_put_by:
  assumes "\<And>x. f x = f e \<Longrightarrow> key x = key e" and "key e \<in> key ` set xs"
  shows "length (put_by key e xs) = length xs"
  using assms(2) by (induction xs) auto

lemma put_by_map:
  "distinct (map key xs) \<Longrightarrow> key e \<in> key ` set xs \<Longrightarrow> put_by key e xs = map (\<lambda>x. if key x = key e then e else x) xs"
proof (induction xs)
  case (Cons y ys)
  show ?case
  proof (cases "key y = key e")
    case True
    have "key x \<noteq> key e" if "x \<in> set ys" for x
      using Cons.prems(1) True imageI [OF that, of key] by auto
    with True show ?thesis by (simp add: map_idI)
  next
    case False
    with Cons show ?thesis by auto
  qed
qed simp

lemma fold_put_by:
  assumes "distinct (map key xs)" and "distinct (map key es)" and "key ` set es \<subseteq> key ` set xs"
  shows "fold (put_by key) es xs = map (\<lambda>x. case find (\<lambda>e. key e = key x) es of Some e \<Rightarrow> e | None \<Rightarrow> x) xs"
  using assms
proof (induction es arbitrary: xs)
  case (Cons e es)
  define ys where "ys = map (\<lambda>x. if key x = key e then e else x) xs"
  have keys: "map key ys = map key xs" by (auto simp: ys_def)
  then have "key ` set ys = key ` set xs" by (metis set_map)
  then have "fold (put_by key) es ys = map (\<lambda>x. case find (\<lambda>e. key e = key x) es of Some e \<Rightarrow> e | None \<Rightarrow> x) ys"
    using Cons.prems keys by (intro Cons.IH) auto
  moreover have "put_by key e xs = ys" using Cons.prems unfolding ys_def by (intro put_by_map) auto
  moreover have "find (\<lambda>f. key f = key e) es = None"
    using Cons.prems(2) by (auto simp: find_None_iff) (metis imageI)
  ultimately show ?case by (auto simp: ys_def)
qed simp

lemma fold_put_by_filter:
  assumes "distinct (map key xs)" and "\<And>x. key (f x) = key x"
  shows "fold (put_by key) (map f (filter P xs)) xs = map (\<lambda>x. if P x then f x else x) xs"
proof -
  have keys: "map key (map f (filter P xs)) = map key (filter P xs)" using assms(2) by simp
  have dist: "distinct (map key (map f (filter P xs)))" unfolding keys by (rule distinct_map_filter [OF assms(1)])
  have find: "find (\<lambda>e. key e = key x) (map f (filter P xs)) = (if P x then Some (f x) else None)" if x: "x \<in> set xs" for x
  proof (cases "P x")
    case True
    then have "f x \<in> set (map f (filter P xs))" using x by simp
    then have "get_by key (key x) (map f (filter P xs)) = Some (f x)"
      unfolding get_by_iff [OF dist] using assms(2) by simp
    with True show ?thesis by (simp add: get_by_def)
  next
    case False
    have "key y \<noteq> key x" if "y \<in> set xs" "P y" for y
      using assms(1) x that False by (metis distinct_map inj_onD)
    with False show ?thesis by (auto simp: find_None_iff assms(2))
  qed
  have "fold (put_by key) (map f (filter P xs)) xs =
      map (\<lambda>x. case find (\<lambda>e. key e = key x) (map f (filter P xs)) of Some e \<Rightarrow> e | None \<Rightarrow> x) xs"
    by (rule fold_put_by [OF assms(1) dist]) (auto simp: assms(2))
  also have "\<dots> = map (\<lambda>x. if P x then f x else x) xs"
    by (rule map_cong) (simp_all add: find)
  finally show ?thesis .
qed

lemma table_put_by: "table key (put_by key) (get_by key) set (\<lambda>xs. distinct (map key xs))"
  by unfold_locales (auto simp: get_put_by distinct_put_by get_by_iff)

lemma put_all_put_by:
  "table.put_all (put_by key) es xs = fold (put_by key) es xs"
  by (simp add: table.put_all_def [OF table_put_by])

end
