(* ===== verification/PyRandom.thy ===== *)
theory PyRandom
  imports Prelude "HOL-Library.Word" "HOL-Library.Stream" "HOL-Library.Multiset"
begin

text \<open>
  Python's \<open>random\<close> module over an explicit source. \<open>random.random()\<close> returns one of the
  \<open>2 ^ 53\<close> multiples of \<open>2 ^ -53\<close> below 1, so the source is a stream of 53-bit words and a
  draw takes the first. \<open>uniform\<close>, \<open>choice\<close>, \<open>shuffle\<close> and \<open>sample\<close> consume draws in
  the order CPython 2.7 does.
\<close>

type_synonym rng = "53 word stream"

definition unit_of :: "53 word \<Rightarrow> real" where
  "unit_of w = real (unat w) / 2 ^ 53"

text \<open>\<open>random.uniform(0, 1)\<close>\<close>

definition uniform01 :: "rng \<Rightarrow> real \<times> rng" where
  "uniform01 r = (unit_of (shd r), stl r)"

text \<open>\<open>int(random.random() * n)\<close>\<close>

definition rand_below :: "nat \<Rightarrow> rng \<Rightarrow> nat \<times> rng" where
  "rand_below n r = (nat \<lfloor>unit_of (shd r) * real n\<rfloor>, stl r)"

lemma unit_of_range: "0 \<le> unit_of w \<and> unit_of w < 1"
proof -
  have "unat w < 2 ^ 53" using unsigned_less [of w, where ?'a = nat] by simp
  then have "real (unat w) < 2 ^ 53" by (metis of_nat_less_iff of_nat_numeral of_nat_power)
  moreover have "0 \<le> real (unat w)" by (rule of_nat_0_le_iff)
  ultimately show ?thesis by (simp add: unit_of_def)
qed

lemma uniform01_range: "fst (uniform01 r) \<in> {0..<1}"
  using unit_of_range [of "shd r"] by (simp add: uniform01_def)

lemma rand_below_less: "0 < n \<Longrightarrow> fst (rand_below n r) < n"
proof -
  assume n: "0 < n"
  have "unit_of (shd r) * real n < real n" using unit_of_range [of "shd r"] n by simp
  moreover have "0 \<le> unit_of (shd r) * real n" using unit_of_range [of "shd r"] by simp
  ultimately have "nat \<lfloor>unit_of (shd r) * real n\<rfloor> < n"
    by (simp add: floor_less_iff nat_less_iff)
  then show ?thesis by (simp add: rand_below_def)
qed

section \<open>choice\<close>

definition choice :: "'a list \<Rightarrow> rng \<Rightarrow> 'a res \<times> rng" where
  "choice xs r = (if xs = [] then (Inl IndexError, stl r)
                  else (Inr (xs ! fst (rand_below (length xs) r)), stl r))"

lemma choice_mem: "xs \<noteq> [] \<Longrightarrow> \<exists>x \<in> set xs. choice xs r = (Inr x, stl r)"
  using rand_below_less [of "length xs" r] by (auto simp: choice_def)

section \<open>shuffle\<close>

definition swap :: "nat \<Rightarrow> nat \<Rightarrow> 'a list \<Rightarrow> 'a list" where
  "swap i j xs = xs[i := xs ! j, j := xs ! i]"

text \<open>\<open>for i in reversed(xrange(1, len(x))): j = int(random() * (i + 1)); swap x[i], x[j]\<close>\<close>

fun shuffle_from :: "nat \<Rightarrow> 'a list \<Rightarrow> rng \<Rightarrow> 'a list \<times> rng" where
  "shuffle_from 0 xs r = (xs, r)"
| "shuffle_from (Suc i) xs r =
     (let (j, r') = rand_below (i + 2) r in shuffle_from i (swap (Suc i) j xs) r')"

definition shuffle :: "'a list \<Rightarrow> rng \<Rightarrow> 'a list \<times> rng" where
  "shuffle xs r = shuffle_from (length xs - 1) xs r"

lemma length_swap [simp]: "length (swap i j xs) = length xs"
  by (simp add: swap_def)

lemma mset_swap_list: "i < length xs \<Longrightarrow> j < length xs \<Longrightarrow> mset (swap i j xs) = mset xs"
  by (simp add: swap_def mset_swap)

lemma mset_shuffle_from: "i < length xs \<Longrightarrow> mset (fst (shuffle_from i xs r)) = mset xs"
proof (induction i arbitrary: xs r)
  case 0
  then show ?case by simp
next
  case (Suc i)
  obtain j r' where jr: "rand_below (i + 2) r = (j, r')" by fastforce
  have "j < i + 2" using rand_below_less [of "i + 2" r] jr by simp
  with Suc.prems have j: "j < length xs" by simp
  have "mset (fst (shuffle_from i (swap (Suc i) j xs) r')) = mset (swap (Suc i) j xs)"
    using Suc.prems by (intro Suc.IH) simp
  with jr j Suc.prems show ?case by (simp add: mset_swap_list)
qed

lemma mset_shuffle: "mset (fst (shuffle xs r)) = mset xs"
  by (cases xs) (simp_all add: shuffle_def mset_shuffle_from)

lemma set_shuffle [simp]: "set (fst (shuffle xs r)) = set xs"
  by (metis mset_shuffle set_mset_mset)

lemma length_shuffle [simp]: "length (fst (shuffle xs r)) = length xs"
  by (metis mset_shuffle size_mset)

section \<open>sample\<close>

text \<open>
  \<open>random.sample(xs, k)\<close>: \<open>ValueError\<close> when \<open>k\<close> exceeds the population. A population
  of at most \<open>setsize\<close> elements (21 while \<open>k \<le> 5\<close>) is sampled from a pool that shrinks;
  a larger one by drawing indices and rejecting those already taken, a loop that need not end
  on every source of draws.
\<close>

definition ceil_log4 :: "nat \<Rightarrow> nat" where
  "ceil_log4 m = (case find (\<lambda>e. m \<le> 4 ^ e) [0..<Suc m] of None \<Rightarrow> 0 | Some e \<Rightarrow> e)"

definition sample_setsize :: "nat \<Rightarrow> nat" where
  "sample_setsize k = (if k > 5 then 21 + 4 ^ ceil_log4 (k * 3) else 21)"

text \<open>The pool loop: \<open>i\<close> runs up, \<open>n - i\<close> pool entries are live.\<close>

fun sample_pool :: "nat \<Rightarrow> nat \<Rightarrow> 'a list \<Rightarrow> rng \<Rightarrow> 'a list \<times> rng" where
  "sample_pool 0 m pool r = ([], r)"
| "sample_pool (Suc k) m pool r =
     (let (j, r') = rand_below m r;
          (ys, r'') = sample_pool k (m - 1) (pool[j := pool ! (m - 1)]) r'
      in (pool ! j # ys, r''))"

partial_function (option) draw_fresh :: "nat \<Rightarrow> nat list \<Rightarrow> rng \<Rightarrow> (nat \<times> rng) option" where
  "draw_fresh n taken r =
     (case rand_below n r of
        (j, r') \<Rightarrow> if j \<in> set taken then draw_fresh n taken r' else Some (j, r'))"

fun sample_reject :: "nat \<Rightarrow> nat \<Rightarrow> nat list \<Rightarrow> rng \<Rightarrow> (nat list \<times> rng) option" where
  "sample_reject 0 n taken r = Some ([], r)"
| "sample_reject (Suc k) n taken r =
     (case draw_fresh n taken r of None \<Rightarrow> None
      | Some (j, r') \<Rightarrow> (case sample_reject k n (j # taken) r' of None \<Rightarrow> None
         | Some (js, r'') \<Rightarrow> Some (j # js, r'')))"

definition sample :: "'a list \<Rightarrow> nat \<Rightarrow> rng \<Rightarrow> 'a list res \<times> rng" where
  "sample xs k r =
     (let n = length xs in
      if n < k then (Inl ValueError, r)
      else if n \<le> sample_setsize k then
        (let (ys, r') = sample_pool k n xs r in (Inr ys, r'))
      else (case sample_reject k n [] r of
              None \<Rightarrow> (Inl Diverges, r)
            | Some (js, r') \<Rightarrow> (Inr (map (\<lambda>j. xs ! j) js), r')))"

lemma length_sample_pool: "length (fst (sample_pool k m pool r)) = k"
  by (induction k m pool r rule: sample_pool.induct) (auto split: prod.splits)

text \<open>What the pool loop draws is a sub-multiset of the live part of the pool.\<close>

lemma mset_take_move:
  assumes "j < m" and "m \<le> length pool"
  shows "add_mset (pool ! j) (mset (take (m - 1) (pool[j := pool ! (m - 1)]))) = mset (take m pool)"
proof -
  obtain l where l: "m = Suc l" using assms(1) by (cases m) auto
  have lt: "l < length pool" using assms l by simp
  have take_m: "take m pool = take l pool @ [pool ! l]"
    using lt l by (simp add: take_Suc_conv_app_nth)
  show ?thesis
  proof (cases "j = l")
    case True
    have "take l (pool[l := pool ! l]) = take l pool" by simp
    with True l take_m show ?thesis by simp
  next
    case False
    with assms l have jl: "j < l" by simp
    have "take l (pool[j := pool ! l]) = (take l pool)[j := pool ! l]"
      by (simp add: take_update_swap)
    moreover have "mset ((take l pool)[j := pool ! l])
        = add_mset (pool ! l) (mset (take l pool) - {# pool ! j #})"
      using jl lt by (simp add: mset_update)
    moreover have "pool ! j \<in># mset (take l pool)"
      using jl lt by (auto simp: in_set_conv_nth)
    ultimately show ?thesis using l take_m by simp
  qed
qed

lemma sample_pool_subset:
  "k \<le> m \<Longrightarrow> m \<le> length pool \<Longrightarrow> mset (fst (sample_pool k m pool r)) \<subseteq># mset (take m pool)"
proof (induction k m pool r rule: sample_pool.induct)
  case (1 m pool r)
  then show ?case by simp
next
  case (2 k m pool r)
  obtain j r' where jr: "rand_below m r = (j, r')" by fastforce
  have jm: "j < m" using rand_below_less [of m r] jr 2 by simp
  let ?pool = "pool[j := pool ! (m - 1)]"
  have "mset (fst (sample_pool k (m - 1) ?pool r')) \<subseteq># mset (take (m - 1) ?pool)"
    using 2 jr by (intro "2.IH") auto
  then have "add_mset (pool ! j) (mset (fst (sample_pool k (m - 1) ?pool r'))) \<subseteq># mset (take m pool)"
    using mset_take_move [OF jm] 2 by (metis mset_subset_eq_add_mset_cancel)
  moreover have "fst (sample_pool (Suc k) m pool r) = pool ! j # fst (sample_pool k (m - 1) ?pool r')"
    using jr by (simp add: case_prod_unfold Let_def)
  ultimately show ?case by simp
qed

lemma draw_fresh_sound:
  assumes "draw_fresh n taken r = Some (j, r')" and "0 < n"
  shows "j < n \<and> j \<notin> set taken"
proof -
  define P where "P = (\<lambda>n taken (r :: rng) (x :: nat \<times> rng). 0 < n \<longrightarrow> fst x < n \<and> fst x \<notin> set taken)"
  have "P n taken r (j, r')"
  proof (rule draw_fresh.raw_induct [where P = P, OF _ assms(1)])
    fix f n taken r y
    assume IH: "\<And>n taken r y. f n taken r = Some y \<Longrightarrow> P n taken r y"
      and eq: "(case rand_below n r of
          (j, r') \<Rightarrow> if j \<in> set taken then f n taken r' else Some (j, r')) = Some y"
    obtain j r' where jr: "rand_below n r = (j, r')" by fastforce
    show "P n taken r y"
    proof (cases "j \<in> set taken")
      case True
      with eq jr have "f n taken r' = Some y" by simp
      from IH [OF this] show ?thesis by (simp add: P_def)
    next
      case False
      with eq jr rand_below_less [of n r] show ?thesis by (auto simp: P_def)
    qed
  qed
  with assms(2) show ?thesis by (simp add: P_def)
qed

lemma sample_reject_sound:
  "sample_reject k n taken r = Some (js, r') \<Longrightarrow> 0 < n \<Longrightarrow>
     length js = k \<and> distinct js \<and> set js \<subseteq> {..<n} \<and> set js \<inter> set taken = {}"
proof (induction k n taken r arbitrary: js r' rule: sample_reject.induct)
  case (1 n taken r)
  then show ?case by simp
next
  case (2 k n taken r)
  from "2.prems"(1) obtain j r1 js' where
    d: "draw_fresh n taken r = Some (j, r1)" and
    rest: "sample_reject k n (j # taken) r1 = Some (js', r')" and js: "js = j # js'"
    by (auto split: option.splits prod.splits)
  have "length js' = k \<and> distinct js' \<and> set js' \<subseteq> {..<n} \<and> set js' \<inter> set (j # taken) = {}"
    using "2.IH" [OF d refl rest "2.prems"(2)] .
  moreover have "j < n \<and> j \<notin> set taken" using draw_fresh_sound [OF d "2.prems"(2)] .
  ultimately show ?case using js by auto
qed

lemma mset_map_nth_subset:
  assumes "distinct js" and "set js \<subseteq> {..<length xs}"
  shows "mset (map (\<lambda>j. xs ! j) js) \<subseteq># mset xs"
proof -
  have "mset js \<subseteq># mset [0..<length xs]"
    using assms by (simp add: mset_set_set [symmetric] subset_imp_msubset_mset_set atLeast0LessThan
        flip: mset_set_upto_eq_mset_upto)
  then have "image_mset (\<lambda>j. xs ! j) (mset js) \<subseteq># image_mset (\<lambda>j. xs ! j) (mset [0..<length xs])"
    by (rule image_mset_subseteq_mono)
  moreover have "image_mset (\<lambda>j. xs ! j) (mset [0..<length xs]) = mset xs"
    by (metis map_nth mset_map)
  ultimately show ?thesis by simp
qed

text \<open>A sample is \<open>k\<close> entries of the population, no entry taken twice.\<close>

lemma sample_sound:
  assumes "sample xs k r = (Inr ys, r')"
  shows "length ys = k \<and> mset ys \<subseteq># mset xs"
proof (cases "length xs \<le> sample_setsize k")
  case True
  with assms have k: "k \<le> length xs" and ys: "ys = fst (sample_pool k (length xs) xs r)"
    by (auto simp: sample_def Let_def split: if_splits prod.splits)
  show ?thesis using sample_pool_subset [OF k order_refl, of r] ys
    by (simp add: length_sample_pool)
next
  case False
  with assms obtain js where js: "sample_reject k (length xs) [] r = Some (js, r')"
    and ys: "ys = map (\<lambda>j. xs ! j) js"
    by (auto simp: sample_def Let_def split: if_splits prod.splits option.splits)
  have n: "0 < length xs" using False by auto
  from sample_reject_sound [OF js n] have "length js = k" and
    "mset (map (\<lambda>j. xs ! j) js) \<subseteq># mset xs"
    by (auto intro: mset_map_nth_subset simp del: mset_map)
  with ys show ?thesis by simp
qed

lemma sample_small_total:
  assumes "k \<le> length xs" and "length xs \<le> 21"
  shows "\<exists>ys r'. sample xs k r = (Inr ys, r')"
  using assms by (auto simp: sample_def Let_def sample_setsize_def split: prod.splits)

text \<open>
  The rejection loop returns on every source that keeps drawing each index: then a fresh index
  comes up after finitely many draws.
\<close>

definition fair_draws :: "nat \<Rightarrow> rng \<Rightarrow> bool" where
  "fair_draws n r \<longleftrightarrow> (\<forall>j < n. \<forall>m. \<exists>i \<ge> m. fst (rand_below n (sdrop i r)) = j)"

lemma fair_draws_stl: "fair_draws n r \<Longrightarrow> fair_draws n (stl r)"
  unfolding fair_draws_def
proof (intro allI impI)
  fix j m
  assume *: "\<forall>j<n. \<forall>m. \<exists>i\<ge>m. fst (rand_below n (sdrop i r)) = j" and "j < n"
  then obtain i where "i \<ge> Suc m" and "fst (rand_below n (sdrop i r)) = j" by blast
  then have "i - 1 \<ge> m" and "fst (rand_below n (sdrop (i - 1) (stl r))) = j"
    by (cases i; simp)+
  then show "\<exists>i\<ge>m. fst (rand_below n (sdrop i (stl r))) = j" by blast
qed

lemma fair_draws_sdrop: "fair_draws n r \<Longrightarrow> fair_draws n (sdrop i r)"
  by (induction i arbitrary: r) (auto intro: fair_draws_stl)

lemma draw_fresh_steps:
  "fst (rand_below n (sdrop i r)) \<notin> set taken \<Longrightarrow>
     \<exists>j i'. draw_fresh n taken r = Some (j, sdrop i' r)"
proof (induction i arbitrary: r)
  case 0
  then have "draw_fresh n taken r = Some (fst (rand_below n r), sdrop 1 r)"
    by (subst draw_fresh.simps) (simp add: rand_below_def)
  then show ?case by blast
next
  case (Suc i)
  show ?case
  proof (cases "fst (rand_below n r) \<in> set taken")
    case True
    then have "draw_fresh n taken r = draw_fresh n taken (stl r)"
      by (subst draw_fresh.simps) (simp add: rand_below_def)
    moreover have "fst (rand_below n (sdrop i (stl r))) \<notin> set taken" using Suc.prems by simp
    then obtain j i' where "draw_fresh n taken (stl r) = Some (j, sdrop i' (stl r))"
      using Suc.IH by blast
    ultimately have "draw_fresh n taken r = Some (j, sdrop (Suc i') r)" by simp
    then show ?thesis by blast
  next
    case False
    then have "draw_fresh n taken r = Some (fst (rand_below n r), sdrop 1 r)"
      by (subst draw_fresh.simps) (simp add: rand_below_def)
    then show ?thesis by blast
  qed
qed

lemma draw_fresh_total:
  assumes "fair_draws n r" and "j < n" and "j \<notin> set taken"
  shows "\<exists>j r'. draw_fresh n taken r = Some (j, r') \<and> fair_draws n r'"
proof -
  obtain i where "fst (rand_below n (sdrop i r)) = j"
    using assms(1,2) unfolding fair_draws_def by blast
  with assms(3) obtain j' i' where "draw_fresh n taken r = Some (j', sdrop i' r)"
    using draw_fresh_steps by blast
  then show ?thesis using fair_draws_sdrop [OF assms(1)] by blast
qed

lemma sample_reject_total:
  "fair_draws n r \<Longrightarrow> k + length taken \<le> n \<Longrightarrow> \<exists>js r'. sample_reject k n taken r = Some (js, r')"
proof (induction k arbitrary: taken r)
  case 0
  then show ?case by simp
next
  case (Suc k)
  have "card (set taken) < card {..<n}"
    using Suc.prems card_length [of taken] by simp
  then obtain j where "j < n" and "j \<notin> set taken"
    by (metis card_mono finite_set leD lessThan_iff subsetI)
  with Suc.prems obtain j' r1 where d: "draw_fresh n taken r = Some (j', r1)" "fair_draws n r1"
    using draw_fresh_total by blast
  obtain js r' where "sample_reject k n (j' # taken) r1 = Some (js, r')"
    using Suc.IH [of r1 "j' # taken"] d Suc.prems by auto
  with d show ?case by auto
qed

lemma sample_total:
  assumes "k \<le> length xs" and "fair_draws (length xs) r"
  shows "\<exists>ys r'. sample xs k r = (Inr ys, r')"
proof (cases "length xs \<le> sample_setsize k")
  case True
  with assms show ?thesis by (auto simp: sample_def Let_def split: prod.splits)
next
  case False
  obtain js r' where "sample_reject k (length xs) [] r = Some (js, r')"
    using sample_reject_total [of "length xs" r k "[]"] assms by auto
  with False assms show ?thesis by (auto simp: sample_def Let_def)
qed

end
