(* ===== verification/Model.thy ===== *)
theory Model
  imports Names Json Tables PyRandom
begin

text \<open>
  The data model (\<open>db/model.py\<close>), the memcache and the services a request can reach, and the
  functions of \<open>db/model.py\<close> and of the configuration wrappers that read them.

  A \<open>world\<close> is everything a request can change: the datastore tables, the memcache, the random
  source, the cached MaxMind reader, the clock, the log and the response under construction.
  An \<open>env\<close> is everything it can only read: the environment variables and the services outside
  the program (URL fetching, cloud storage, the MaxMind database, whether a write to the
  memcache or the datastore goes through). Python 2 leaves the iteration order of a dict open;
  \<open>e_hash\<close> fixes one, and the theorems hold for each.

  Fields that the program's own writes leave non-null are plain values, the others options.
\<close>

section \<open>Entities\<close>

record sliver_tool =
  st_key :: string
  st_tool_id :: string
  st_slice_id :: string
  st_site_id :: string
  st_server_id :: string
  st_server_port :: "string option"
  st_http_port :: "string option"
  st_tool_extra :: "string option"
  st_fqdn :: string
  st_sliver_ipv4 :: string
  st_sliver_ipv6 :: string
  st_status_ipv4 :: string
  st_status_ipv6 :: string
  st_update_request_timestamp :: int
  st_latitude :: pyfloat
  st_longitude :: pyfloat
  st_city :: "string option"
  st_country :: "string option"
  st_roundrobin :: "bool option"
  st_when :: real

record site =
  si_site_id :: string
  si_city :: "string option"
  si_country :: "string option"
  si_latitude :: pyfloat
  si_longitude :: pyfloat
  si_metro :: "string list"
  si_registration_timestamp :: int
  si_roundrobin :: "bool option"
  si_when :: real

record tool =
  tl_slice_id :: string
  tl_tool_id :: string
  tl_server_port :: "string option"
  tl_http_port :: "string option"
  tl_show_tool_extra :: "bool option"
  tl_status_source :: "string option"

record city_location =
  cl_country :: string
  cl_city :: string
  cl_latitude :: "pyfloat option"
  cl_longitude :: "pyfloat option"

record country_code =
  cc_key :: string
  cc_alpha2_code :: "string option"
  cc_latitude :: "pyfloat option"
  cc_longitude :: "pyfloat option"

text \<open>\<open>Nagios\<close> and \<open>Prometheus\<close> have the same properties.\<close>

record credentials =
  cr_key :: string
  cr_username :: string
  cr_password :: string
  cr_url :: string

record reverse_proxy_probability =
  rp_name :: string
  rp_probability :: pyfloat
  rp_url :: string

definition with_name :: "string \<Rightarrow> reverse_proxy_probability \<Rightarrow> reverse_proxy_probability" where
  "with_name name p = p\<lparr>rp_name := name\<rparr>"

section \<open>Responses\<close>

text \<open>
  A piece of a response body: a string, the text \<open>json.dumps\<close> makes of a value (key order and
  digits of floats left open), or a template rendered in a context.
\<close>

datatype chunk =
    Text string
  | Dumped json
  | Rendered string "(string \<times> json) list"

record response =
  re_status :: nat
  re_headers :: "(string \<times> string) list"
  re_body :: "chunk list"

definition empty_response :: response where
  "empty_response = \<lparr>re_status = 200, re_headers = [], re_body = []\<rparr>"

section \<open>World and environment\<close>

text \<open>What the default namespace of the memcache holds.\<close>

datatype mc_val = MNagios credentials | MPrometheus credentials

record world =
  db_sites :: "site list"
  db_tools :: "tool list"
  db_sliver_tools :: "sliver_tool list"
  db_cities :: "city_location list"
  db_countries :: "country_code list"
  db_nagios :: "credentials list"
  db_prometheus :: "credentials list"
  db_reverse_proxies :: "reverse_proxy_probability list"
  db_requests :: "string list"
  mc_tools :: "string \<Rightarrow> sliver_tool list option"
  mc_requests :: "string \<Rightarrow> string option"
  mc_reverse_proxy :: "string \<Rightarrow> (reverse_proxy_probability \<times> real) option"
  mc_default :: "string \<Rightarrow> mc_val option"
  w_rng :: rng
  w_reader :: bool
  w_now :: real
  w_log :: "string list"
  w_response :: response

text \<open>An opener of \<open>urllib2\<close> with one authentication handler and one password, for any realm.\<close>

datatype auth_scheme = HTTPDigestAuth | HTTPBasicAuth

record opener =
  op_scheme :: auth_scheme
  op_uri :: string
  op_user :: string
  op_password :: string

record geo_response =
  gr_city :: "string option"
  gr_country :: "string option"
  gr_latitude :: "pyfloat option"
  gr_longitude :: "pyfloat option"

record env =
  e_site_regex :: "rx option"
  e_machine_regex :: "rx option"
  e_machine_text :: "string option"
  e_locations_url :: "string option"
  e_hostnames_url :: "string option"
  e_urlopen :: "string \<Rightarrow> (string \<times> string) res"
  e_open :: "opener \<Rightarrow> string \<Rightarrow> string res"
  e_hash :: "string \<Rightarrow> nat"
  e_mc_ok :: "string \<Rightarrow> string \<Rightarrow> bool"
  e_put_ok :: "string \<Rightarrow> bool"
  e_string_ok :: "string \<Rightarrow> bool"
  e_gcs_open :: "unit res"
  e_reader :: "unit res"
  e_city :: "string \<Rightarrow> geo_response option res"

section \<open>Elementary actions\<close>

definition liftRng :: "(rng \<Rightarrow> 'a \<times> rng) \<Rightarrow> (world, 'a) act" where
  "liftRng f w = (case f (w_rng w) of (x, r) \<Rightarrow> (Inr x, w\<lparr>w_rng := r\<rparr>))"

definition liftRngR :: "(rng \<Rightarrow> 'a res \<times> rng) \<Rightarrow> (world, 'a) act" where
  "liftRngR f w = (case f (w_rng w) of (x, r) \<Rightarrow> (x, w\<lparr>w_rng := r\<rparr>))"

definition logA :: "string \<Rightarrow> (world, unit) act" where
  "logA line = modA (\<lambda>w. w\<lparr>w_log := w_log w @ [line]\<rparr>)"

text \<open>\<open>long(time.time())\<close>.\<close>

definition timestamp :: "world \<Rightarrow> int" where
  "timestamp w = \<lfloor>w_now w\<rfloor>"

text \<open>
  \<open>for x in d.values()\<close> and \<open>list(d)\<close>: the entries of a dict in the iteration order that the
  hash function gives.
\<close>

definition dict_order :: "(string \<Rightarrow> nat) \<Rightarrow> (string \<times> 'v) list \<Rightarrow> (string \<times> 'v) list" where
  "dict_order h d = sort_key (\<lambda>kv. h (fst kv)) d"

lemma set_dict_order [simp]: "set (dict_order h d) = set d"
  by (simp add: dict_order_def)

lemma mset_dict_order [simp]: "mset (dict_order h d) = mset d"
  by (simp add: dict_order_def)

lemma length_dict_order [simp]: "length (dict_order h d) = length d"
  by (simp add: dict_order_def)

section \<open>Writes to the datastore and the memcache\<close>

text \<open>
  \<open>entity.put()\<close> raises \<open>TransactionFailedError\<close> when the write does not go through, and sets
  the \<open>auto_now\<close> property \<open>when\<close> otherwise. \<open>db.put\<close> of a list writes the entities that go
  through and raises when one does not.
\<close>

definition put_site :: "env \<Rightarrow> site \<Rightarrow> (world, unit) act" where
  "put_site E s w =
     (if e_put_ok E (si_site_id s)
      then (Inr (), w\<lparr>db_sites := put_by si_site_id (s\<lparr>si_when := w_now w\<rparr>) (db_sites w)\<rparr>)
      else (Inl TransactionFailedError, w))"

definition put_sliver :: "env \<Rightarrow> sliver_tool \<Rightarrow> (world, unit) act" where
  "put_sliver E st w =
     (if e_put_ok E (st_key st)
      then (Inr (), w\<lparr>db_sliver_tools := put_by st_key (st\<lparr>st_when := w_now w\<rparr>) (db_sliver_tools w)\<rparr>)
      else (Inl TransactionFailedError, w))"

definition put_slivers :: "env \<Rightarrow> sliver_tool list \<Rightarrow> (world, unit) act" where
  "put_slivers E sts w =
     (let written = map (\<lambda>st. st\<lparr>st_when := w_now w\<rparr>) (filter (\<lambda>st. e_put_ok E (st_key st)) sts);
          w' = w\<lparr>db_sliver_tools := fold (put_by st_key) written (db_sliver_tools w)\<rparr>
      in if list_all (\<lambda>st. e_put_ok E (st_key st)) sts then (Inr (), w')
         else (Inl TransactionFailedError, w'))"

text \<open>\<open>memcache.set\<close> tells whether the value was stored.\<close>

definition mc_set_tools :: "env \<Rightarrow> string \<Rightarrow> sliver_tool list \<Rightarrow> (world, bool) act" where
  "mc_set_tools E k sts w =
     (if e_mc_ok E MEMCACHE_NAMESPACE_TOOLS k
      then (Inr True, w\<lparr>mc_tools := (mc_tools w)(k := Some sts)\<rparr>) else (Inr False, w))"

definition mc_set_proxy :: "env \<Rightarrow> string \<Rightarrow> reverse_proxy_probability \<Rightarrow> real \<Rightarrow> (world, bool) act" where
  "mc_set_proxy E k p time w =
     (if e_mc_ok E MEMCACHE_NAMESPACE_REVERSE_PROXY k
      then (Inr True, w\<lparr>mc_reverse_proxy := (mc_reverse_proxy w)(k := Some (p, w_now w + time))\<rparr>)
      else (Inr False, w))"

definition mc_set_default :: "env \<Rightarrow> string \<Rightarrow> mc_val \<Rightarrow> (world, bool) act" where
  "mc_set_default E k v w =
     (if e_mc_ok E [] k then (Inr True, w\<lparr>mc_default := (mc_default w)(k := Some v)\<rparr>) else (Inr False, w))"

definition mc_get_proxy :: "string \<Rightarrow> world \<Rightarrow> reverse_proxy_probability option" where
  "mc_get_proxy k w = (case mc_reverse_proxy w k of
      None \<Rightarrow> None | Some (p, expiry) \<Rightarrow> if w_now w < expiry then Some p else None)"

interpretation sliver_table: table st_key "put_by st_key" "get_by st_key" set
    "\<lambda>xs. distinct (map st_key xs)"
  by (rule table_put_by)

interpretation site_table: table si_site_id "put_by si_site_id" "get_by si_site_id" set
    "\<lambda>xs. distinct (map si_site_id xs)"
  by (rule table_put_by)

section \<open>\<open>db/model.py\<close>\<close>

definition get_tool_from_tool_id :: "string \<Rightarrow> world \<Rightarrow> tool option" where
  "get_tool_from_tool_id tool_id w = find (\<lambda>t. tl_tool_id t = tool_id) (db_tools w)"

definition get_all_tool_ids :: "world \<Rightarrow> string list" where
  "get_all_tool_ids w = map tl_tool_id (db_tools w)"

definition get_status_source_deps :: "string \<Rightarrow> world \<Rightarrow> tool list" where
  "get_status_source_deps source w = filter (\<lambda>t. tl_status_source t = Some source) (db_tools w)"

definition is_valid_tool :: "string \<Rightarrow> world \<Rightarrow> bool" where
  "is_valid_tool tool_id w \<longleftrightarrow> tool_id \<in> set (get_all_tool_ids w)"

section \<open>The configuration wrappers\<close>

text \<open>
  The default namespace holds only what these wrappers put there, under keys of their own;
  a value of the other kind would be returned as it is, and reading its properties gives the
  same record.
\<close>

definition mc_credentials :: "mc_val \<Rightarrow> credentials" where
  "mc_credentials v = (case v of MNagios c \<Rightarrow> c | MPrometheus c \<Rightarrow> c)"

definition get_nagios_config :: "env \<Rightarrow> (world, credentials option) act" where
  "get_nagios_config E w =
     (case mc_default w DEFAULT_NAGIOS_ENTRY of
        Some v \<Rightarrow> (Inr (Some (mc_credentials v)), w)
      | None \<Rightarrow>
          (case get_by cr_key DEFAULT_NAGIOS_ENTRY (db_nagios w) of
             None \<Rightarrow> (Inr None, w)
           | Some c \<Rightarrow>
               bindA (mc_set_default E DEFAULT_NAGIOS_ENTRY (MNagios c)) (\<lambda>_. retA (Some c)) w))"

definition get_prometheus_config :: "env \<Rightarrow> (world, credentials option) act" where
  "get_prometheus_config E w =
     (case mc_default w DEFAULT_PROMETHEUS_ENTRY of
        Some v \<Rightarrow> (Inr (Some (mc_credentials v)), w)
      | None \<Rightarrow>
          (case get_by cr_key DEFAULT_PROMETHEUS_ENTRY (db_prometheus w) of
             None \<Rightarrow> (Inr None, w)
           | Some c \<Rightarrow>
               bindA (mc_set_default E DEFAULT_PROMETHEUS_ENTRY (MPrometheus c)) (\<lambda>_. retA (Some c)) w))"

section \<open>\<open>db/client_signature_fetcher.py\<close>\<close>

definition fetch_client_signature :: "string \<Rightarrow> world \<Rightarrow> pyfloat" where
  "fetch_client_signature key w =
     (case mc_requests w key of
        None \<Rightarrow> Fin 1
      | Some probability_str \<Rightarrow>
          (case py_int probability_str of
             Inr n \<Rightarrow> Fin (of_int n / 10000)
           | Inl _ \<Rightarrow> Fin 1))"

section \<open>A small world\<close>

text \<open>
  Concrete values for the witnesses: the production configuration, an empty world, and a tool
  of a given site and host name with both interfaces up.
\<close>

definition zero_rng :: rng where
  "zero_rng = sconst 0"

definition idle_world :: world where
  "idle_world = \<lparr>db_sites = [], db_tools = [], db_sliver_tools = [], db_cities = [], db_countries = [],
     db_nagios = [], db_prometheus = [], db_reverse_proxies = [], db_requests = [],
     mc_tools = Map.empty, mc_requests = Map.empty, mc_reverse_proxy = Map.empty,
     mc_default = Map.empty, w_rng = zero_rng, w_reader = False, w_now = 0, w_log = [],
     w_response = empty_response\<rparr>"

definition idle_env :: env where
  "idle_env = \<lparr>e_site_regex = Some SITE_REGEX, e_machine_regex = Some MACHINE_REGEX, e_machine_text = None,
     e_locations_url = None, e_hostnames_url = None, e_urlopen = (\<lambda>_. Inl URLError),
     e_open = (\<lambda>_ _. Inl URLError), e_hash = (\<lambda>_. 0), e_mc_ok = (\<lambda>_ _. True),
     e_put_ok = (\<lambda>_. True), e_string_ok = (\<lambda>_. True), e_gcs_open = Inl NotFoundError,
     e_reader = Inl IOError, e_city = (\<lambda>_. Inl AddressNotFoundError)\<rparr>"

definition sample_sliver :: "string \<Rightarrow> string \<Rightarrow> string \<Rightarrow> sliver_tool" where
  "sample_sliver tool_id site_id fqdn = \<lparr>st_key = tool_id @ ''-'' @ fqdn, st_tool_id = tool_id,
     st_slice_id = ''iupui_ndt'', st_site_id = site_id, st_server_id = ''mlab1'',
     st_server_port = None, st_http_port = None, st_tool_extra = None, st_fqdn = fqdn,
     st_sliver_ipv4 = ''1.2.3.4'', st_sliver_ipv6 = NO_IP_ADDRESS,
     st_status_ipv4 = STATUS_ONLINE, st_status_ipv6 = STATUS_OFFLINE,
     st_update_request_timestamp = 0, st_latitude = Fin 0, st_longitude = Fin 0,
     st_city = Some ''Athens'', st_country = Some ''GR'', st_roundrobin = Some False, st_when = 0\<rparr>"

end
