(* ===== verification/Maxmind.thy ===== *)
theory Maxmind
  imports Model
begin

text \<open>
  \<open>util/maxmind.py\<close>: geolocation by IP address from the MaxMind database, and by city or country
  from the datastore. The database file and its reader are outside the program: \<open>e_gcs_open\<close> is
  what opening the file gives, \<open>e_reader\<close> what building the reader gives, \<open>e_city\<close> the lookup.
\<close>

record geo_record =
  ge_city :: "string option"
  ge_country :: "string option"
  ge_latitude :: "pyfloat option"
  ge_longitude :: "pyfloat option"

definition GeoRecord :: geo_record where
  "GeoRecord = \<lparr>ge_city = None, ge_country = None, ge_latitude = None, ge_longitude = None\<rparr>"

text \<open>Cloud storage's \<open>NotFoundError\<close> is logged and raised again; every other error passes.\<close>

definition get_database_file :: "env \<Rightarrow> unit res" where
  "get_database_file E = e_gcs_open E"

text \<open>
  \<open>True\<close> is a reader, \<open>False\<close> the empty \<open>GeoRecord\<close> that is returned instead when the database
  cannot be read. Only a reader is kept for later calls.
\<close>

definition get_geo_reader :: "env \<Rightarrow> (world, bool) act" where
  "get_geo_reader E w =
     (if w_reader w then (Inr True, w)
      else case bindR (get_database_file E) (\<lambda>_. e_reader E) of
          Inr _ \<Rightarrow> (Inr True, w\<lparr>w_reader := True\<rparr>)
        | Inl e \<Rightarrow> if e = InvalidDatabaseError \<or> is_IOError e then (Inr False, w) else (Inl e, w))"

text \<open>The \<open>city\<close> of an empty \<open>GeoRecord\<close> is \<open>None\<close>, and calling it raises \<open>TypeError\<close>.\<close>

definition get_ip_geolocation :: "env \<Rightarrow> string \<Rightarrow> (world, geo_record) act" where
  "get_ip_geolocation E ip_address =
     bindA
       (catchA
         (bindA (get_geo_reader E) (\<lambda>reader.
            if reader then liftR (e_city E ip_address) else raiseA TypeError))
         (\<lambda>e. if is_ValueError e \<or> e = AddressNotFoundError then Some (retA None) else None))
       (\<lambda>geo_response. retA (case geo_response of
            None \<Rightarrow> GeoRecord
          | Some g \<Rightarrow> \<lparr>ge_city = gr_city g, ge_country = gr_country g,
                       ge_latitude = gr_latitude g, ge_longitude = gr_longitude g\<rparr>))"

definition get_country_geolocation :: "string \<Rightarrow> world \<Rightarrow> geo_record" where
  "get_country_geolocation country w =
     (case get_by cc_key country (db_countries w) of
        None \<Rightarrow> GeoRecord
      | Some location \<Rightarrow> \<lparr>ge_city = Some UNKNOWN_CITY, ge_country = cc_alpha2_code location,
                          ge_latitude = cc_latitude location, ge_longitude = cc_longitude location\<rparr>)"

definition get_city_geolocation :: "string \<Rightarrow> string \<Rightarrow> world \<Rightarrow> geo_record" where
  "get_city_geolocation city country w =
     (case find (\<lambda>l. cl_city l = city \<and> cl_country l = country) (db_cities w) of
        None \<Rightarrow> GeoRecord
      | Some location \<Rightarrow> \<lparr>ge_city = Some (cl_city location), ge_country = Some (cl_country location),
                          ge_latitude = cl_latitude location, ge_longitude = cl_longitude location\<rparr>)"

section \<open>Facts\<close>

lemma geo_reader_frame: "get_geo_reader E w = (r, w') \<Longrightarrow> w' = w \<or> w' = w\<lparr>w_reader := True\<rparr>"
  by (auto simp: get_geo_reader_def split: if_splits sum.splits)

lemma geo_reader_cached: "w_reader w \<Longrightarrow> get_geo_reader E w = (Inr True, w)"
  by (simp add: get_geo_reader_def)

lemma ip_geolocation_cached:
  assumes "w_reader w"
  shows "get_ip_geolocation E ip w =
    (case e_city E ip of
       Inr None \<Rightarrow> (Inr GeoRecord, w)
     | Inr (Some g) \<Rightarrow> (Inr \<lparr>ge_city = gr_city g, ge_country = gr_country g,
                             ge_latitude = gr_latitude g, ge_longitude = gr_longitude g\<rparr>, w)
     | Inl e \<Rightarrow> if is_ValueError e \<or> e = AddressNotFoundError then (Inr GeoRecord, w) else (Inl e, w))"
proof (cases "e_city E ip")
  case (Inl e)
  then show ?thesis using assms
    by (simp add: get_ip_geolocation_def bindA_def catchA_def geo_reader_cached)
next
  case (Inr x)
  then show ?thesis using assms
    by (cases x) (simp_all add: get_ip_geolocation_def bindA_def catchA_def geo_reader_cached)
qed

lemma geo_reader_world: "get_geo_reader E w = (r, w') \<Longrightarrow> \<exists>b. w' = w\<lparr>w_reader := b\<rparr>"
  by (auto simp: get_geo_reader_def split: if_splits sum.splits intro: exI [of _ "w_reader w"])

lemma ip_geolocation_world: "\<exists>b. snd (get_ip_geolocation E ip w) = w\<lparr>w_reader := b\<rparr>"
proof -
  obtain r w' where g: "get_geo_reader E w = (r, w')" by fastforce
  then obtain b where "w' = w\<lparr>w_reader := b\<rparr>" using geo_reader_world by blast
  with g show ?thesis
    by (auto simp: get_ip_geolocation_def bindA_def catchA_def split: sum.splits)
qed

section \<open>Properties\<close>

text \<open>Reloading does not reload: once a reader is cached, \<open>get_geo_reader\<close> returns it whatever the
  database file in cloud storage has become.\<close>

theorem cached_reader_is_kept:
  assumes "get_geo_reader E w = (Inr True, w')"
  shows "get_geo_reader E' w' = (Inr True, w')"
proof -
  have "w_reader w'" using assms by (auto simp: get_geo_reader_def split: if_splits sum.splits)
  then show ?thesis by (rule geo_reader_cached)
qed

lemma reader_fresh: "get_geo_reader (idle_env\<lparr>e_gcs_open := Inr (), e_reader := Inr ()\<rparr>) idle_world =
    (Inr True, idle_world\<lparr>w_reader := True\<rparr>)"
  by (simp add: get_geo_reader_def get_database_file_def idle_world_def)

theorem cached_reader_is_kept_witness:
  "get_geo_reader idle_env (idle_world\<lparr>w_reader := True\<rparr>) = (Inr True, idle_world\<lparr>w_reader := True\<rparr>)"
  by (rule cached_reader_is_kept [OF reader_fresh])

text \<open>When the database file cannot be read, a lookup by IP address raises \<open>TypeError\<close> instead of
  giving the empty record its documentation promises, because the empty record stands in for the
  reader.\<close>

theorem unreadable_database_raises:
  assumes "\<not> w_reader w" and "e_gcs_open E = Inr ()" and "e_reader E = Inl IOError"
  shows "get_ip_geolocation E ip w = (Inl TypeError, w)"
  using assms
  by (simp add: get_ip_geolocation_def get_geo_reader_def get_database_file_def bindA_def catchA_def
      is_IOError_def is_ValueError_def)

theorem unreadable_database_raises_witness:
  "get_ip_geolocation (idle_env\<lparr>e_gcs_open := Inr ()\<rparr>) ''1.2.3.4'' idle_world = (Inl TypeError, idle_world)"
  by (rule unreadable_database_raises) (simp_all add: idle_env_def idle_world_def)

end
