(* ===== verification/IpAddr.thy ===== *)
theory IpAddr
  imports PyString "HOL-Library.Word"
begin

text \<open>
  The parts of \<open>third_party/ipaddr.py\<close> the lookup code relies on: parsing and printing single
  IPv4 and IPv6 addresses. Addresses are Python integers.
\<close>

unbundle bit_operations_syntax

section \<open>Parsing\<close>

text \<open>\<open>acc = (acc << w) | parse(part)\<close> for each part in turn; a \<open>ValueError\<close> of \<open>parse\<close> becomes
  an \<open>AddressValueError\<close>.\<close>

fun shift_in :: "nat \<Rightarrow> (string \<Rightarrow> int res) \<Rightarrow> string list \<Rightarrow> int \<Rightarrow> int res" where
  "shift_in w parse [] acc = Inr acc"
| "shift_in w parse (p # ps) acc =
     (case parse p of
        Inl e \<Rightarrow> if is_ValueError e then Inl AddressValueError else Inl e
      | Inr v \<Rightarrow> shift_in w parse ps (push_bit w acc OR v))"

definition parse_octet :: "string \<Rightarrow> int res" where
  "parse_octet octet_str =
     (if \<not> list_all is_digit octet_str then Inl ValueError
      else bindR (py_int octet_str) (\<lambda>octet_int.
        if octet_int > 255 \<or> (octet_str ! 0 = CHR ''0'' \<and> length octet_str > 1) then Inl ValueError
        else Inr octet_int))"

definition ipv4_int_from_string :: "string \<Rightarrow> int res" where
  "ipv4_int_from_string ip_str =
     (let octets = split_on CHR ''.'' ip_str
      in if length octets \<noteq> 4 then Inl AddressValueError else shift_in 8 parse_octet octets 0)"

fun octets_of :: "nat \<Rightarrow> int \<Rightarrow> string list \<Rightarrow> string list" where
  "octets_of 0 ip_int octets = octets"
| "octets_of (Suc n) ip_int octets = octets_of n (drop_bit 8 ip_int) (show_int (ip_int AND 0xFF) # octets)"

definition ipv4_string_from_int :: "int \<Rightarrow> string" where
  "ipv4_string_from_int ip_int = join_with ''.'' (octets_of 4 ip_int [])"

text \<open>\<open>int(s, 16)\<close> after the whitelist of digits has been checked.\<close>

definition parse_hextet :: "string \<Rightarrow> int res" where
  "parse_hextet hextet_str =
     (if \<not> list_all is_hex hextet_str \<or> hextet_str = [] then Inl ValueError
      else let hextet_int = int (nat_of_hex hextet_str)
           in if hextet_int > 0xFFFF then Inl ValueError else Inr hextet_int)"

definition ipv4_suffix :: "string list \<Rightarrow> string list res" where
  "ipv4_suffix parts =
     (if CHR ''.'' \<in> set (last parts) then
        bindR (ipv4_int_from_string (last parts)) (\<lambda>v.
          Inr (butlast parts @ [show_hex (nat (drop_bit 16 v AND 0xFFFF)), show_hex (nat (v AND 0xFFFF))]))
      else Inr parts)"

definition ipv6_from_parts :: "string list \<Rightarrow> nat \<Rightarrow> nat \<Rightarrow> nat \<Rightarrow> int res" where
  "ipv6_from_parts parts parts_hi parts_skipped parts_lo =
     bindR (shift_in 16 parse_hextet (take parts_hi parts) 0) (\<lambda>hi.
       shift_in 16 parse_hextet (drop (length parts - parts_lo) parts) (push_bit (16 * parts_skipped) hi))"

definition ipv6_int_from_string :: "string \<Rightarrow> int res" where
  "ipv6_int_from_string ip_str =
     (let parts = split_on CHR '':'' ip_str in
      if length parts < 3 then Inl AddressValueError
      else bindR (ipv4_suffix parts) (\<lambda>parts.
        if length parts > 9 then Inl AddressValueError
        else case filter (\<lambda>i. parts ! i = []) [1..<length parts - 1] of
            [] \<Rightarrow> if length parts \<noteq> 8 then Inl AddressValueError
                  else ipv6_from_parts parts 8 0 0
          | [skip_index] \<Rightarrow>
              let parts_hi = skip_index;
                  parts_lo = length parts - skip_index - 1
              in if parts ! 0 = [] \<and> parts_hi - 1 \<noteq> 0 then Inl AddressValueError
                 else let parts_hi = (if parts ! 0 = [] then parts_hi - 1 else parts_hi) in
                 if last parts = [] \<and> parts_lo - 1 \<noteq> 0 then Inl AddressValueError
                 else let parts_lo = (if last parts = [] then parts_lo - 1 else parts_lo) in
                 if 8 - int (parts_hi + parts_lo) < 1 then Inl AddressValueError
                 else ipv6_from_parts parts parts_hi (8 - (parts_hi + parts_lo)) parts_lo
          | _ \<Rightarrow> Inl AddressValueError))"

text \<open>The constructors, on a string; \<open>str(None)\<close> is the word \<open>None\<close>.\<close>

definition py_str :: "string option \<Rightarrow> string" where
  "py_str x = (case x of None \<Rightarrow> ''None'' | Some s \<Rightarrow> s)"

definition IPv4Address :: "string option \<Rightarrow> int res" where
  "IPv4Address address = ipv4_int_from_string (py_str address)"

definition IPv6Address :: "string option \<Rightarrow> int res" where
  "IPv6Address address =
     (let addr_str = py_str address
      in if addr_str = [] then Inl AddressValueError else ipv6_int_from_string addr_str)"

section \<open>Arithmetic of the parsers\<close>

lemma push_or: "0 \<le> v \<Longrightarrow> v < 2 ^ w \<Longrightarrow> push_bit w a OR v = a * 2 ^ w + v" for a v :: int
proof -
  assume v: "0 \<le> v" "v < 2 ^ w"
  have "take_bit w v = v" using v by (simp add: take_bit_int_eq_self)
  moreover have "push_bit w a AND take_bit w v = 0" by (rule bit_eqI) (auto simp: bit_simps)
  ultimately have "push_bit w a AND v = 0" by simp
  then have "push_bit w a OR v = push_bit w a + v" by (simp add: disjunctive_add_eq_or)
  then show ?thesis by (simp add: push_bit_eq_mult)
qed

definition parser_ok :: "nat \<Rightarrow> (string \<Rightarrow> int res) \<Rightarrow> bool" where
  "parser_ok w f \<longleftrightarrow> (\<forall>p. (\<exists>v. f p = Inr v \<and> 0 \<le> v \<and> v < 2 ^ w) \<or> f p = Inl ValueError)"

lemma shift_in_outcome:
  assumes "parser_ok w f" and "0 \<le> acc" and "acc < 2 ^ k"
  shows "(\<exists>n. shift_in w f ps acc = Inr n \<and> 0 \<le> n \<and> n < 2 ^ (k + w * length ps)) \<or>
    shift_in w f ps acc = Inl AddressValueError"
  using assms(2,3)
proof (induction ps arbitrary: acc k)
  case (Cons p ps)
  from assms(1) consider v where "f p = Inr v" "0 \<le> v" "v < 2 ^ w" | "f p = Inl ValueError"
    unfolding parser_ok_def by blast
  then show ?case
  proof cases
    case 1
    have "(acc + 1) * 2 ^ w \<le> 2 ^ k * 2 ^ w" using Cons.prems(2) by (intro mult_right_mono) auto
    then have "acc * 2 ^ w + v < 2 ^ (k + w)" using 1 by (simp add: power_add algebra_simps)
    moreover have "0 \<le> acc * 2 ^ w + v" using Cons.prems 1 by simp
    ultimately show ?thesis
      using Cons.IH [of "acc * 2 ^ w + v" "k + w"] 1 by (simp add: push_or algebra_simps)
  qed (simp add: is_ValueError_def)
qed simp

lemma shift_in_Inr:
  assumes "parser_ok w f" and "shift_in w f ps 0 = Inr n"
  shows "0 \<le> n \<and> n < 2 ^ (w * length ps)"
  using shift_in_outcome [OF assms(1), of 0 0 ps] assms(2) by auto

lemma parse_octet_iff: "parse_octet s = Inr v \<longleftrightarrow> 0 \<le> v \<and> v \<le> 255 \<and> s = show_nat (nat v)"
proof
  assume p: "parse_octet s = Inr v"
  then have d: "list_all is_digit s" and ne: "s \<noteq> []"
    by (auto simp: parse_octet_def split: if_splits)
  then have "v = int (nat_of_digits s)" "v \<le> 255" "s ! 0 \<noteq> CHR ''0'' \<or> \<not> 1 < length s"
    using p by (auto simp: parse_octet_def py_int_digits split: if_splits)
  moreover have "0 < length s" using ne by simp
  ultimately have s: "list_all is_digit s" "s \<noteq> []" "v = int (nat_of_digits s)" "v \<le> 255"
    "s ! 0 \<noteq> CHR ''0'' \<or> length s = 1" using d ne by linarith+
  then show "0 \<le> v \<and> v \<le> 255 \<and> s = show_nat (nat v)"
    using show_nat_of_digits [of s] by (auto simp: hd_conv_nth)
next
  assume v: "0 \<le> v \<and> v \<le> 255 \<and> s = show_nat (nat v)"
  moreover have "show_nat (nat v) ! 0 = hd (show_nat (nat v))" by (simp add: hd_conv_nth)
  ultimately show "parse_octet s = Inr v"
    using show_nat_lead [of "nat v"] show_nat_digits [of "nat v"] by (auto simp: parse_octet_def)
qed

lemma parse_octet_ok: "parser_ok 8 parse_octet"
proof -
  have "parse_octet s = Inl ValueError" if "\<nexists>v. parse_octet s = Inr v" for s
  proof (cases "list_all is_digit s \<and> s \<noteq> []")
    case True
    with that show ?thesis by (auto simp: parse_octet_def py_int_digits split: if_splits)
  qed (auto simp: parse_octet_def)
  then show ?thesis unfolding parser_ok_def using parse_octet_iff by fastforce
qed

lemma parse_hextet_ok: "parser_ok 16 parse_hextet"
  by (auto simp: parser_ok_def parse_hextet_def Let_def)

section \<open>IPv4\<close>

lemma octets_of_four:
  "octets_of 4 n [] = [show_int (drop_bit 8 (drop_bit 8 (drop_bit 8 n)) AND 0xFF),
     show_int (drop_bit 8 (drop_bit 8 n) AND 0xFF), show_int (drop_bit 8 n AND 0xFF), show_int (n AND 0xFF)]"
  by (simp add: numeral_eq_Suc del: drop_bit_drop_bit)

lemma byte_mod: "n AND 0xFF = n mod 256" for n :: int
  using take_bit_eq_mask [of 8 n] by (simp add: take_bit_eq_mod mask_eq_exp_minus_1)

lemma show_int_nat: "0 \<le> i \<Longrightarrow> show_int i = show_nat (nat i)"
  by (simp add: show_int_def)

lemma show_nat_no_dot: "CHR ''.'' \<notin> set (show_nat n)"
  using show_nat_digits [of n] by (auto simp: list_all_iff char_defs)

lemma four_parts:
  assumes "length xs = 4"
  shows "xs = [xs ! 0, xs ! 1, xs ! 2, xs ! 3]"
  using assms by (auto simp: numeral_eq_Suc length_Suc_conv)

definition dotted :: "int \<Rightarrow> int \<Rightarrow> int \<Rightarrow> int \<Rightarrow> string" where
  "dotted a b c d = join_with ''.'' (map (\<lambda>v. show_nat (nat v)) [a, b, c, d])"

definition byte :: "int \<Rightarrow> bool" where
  "byte v \<longleftrightarrow> 0 \<le> v \<and> v \<le> 255"

lemma shift_in_octets:
  assumes "byte a" "byte b" "byte c" "byte d"
  shows "shift_in 8 parse_octet (map (\<lambda>v. show_nat (nat v)) [a, b, c, d]) 0 =
    Inr (((a * 256 + b) * 256 + c) * 256 + d)"
proof -
  have p: "parse_octet (show_nat (nat v)) = Inr v" if "byte v" for v
    using that by (simp add: parse_octet_iff byte_def)
  have o: "push_bit 8 x OR v = x * 256 + v" if "byte v" for x v
    using that push_or [of v 8 x] by (simp add: byte_def)
  show ?thesis using assms by (simp add: p o)
qed

lemma split_dotted: "split_on CHR ''.'' (dotted a b c d) = map (\<lambda>v. show_nat (nat v)) [a, b, c, d]"
  unfolding dotted_def by (rule split_join) (auto simp: show_nat_no_dot)

lemma ipv4_dotted:
  assumes "byte a" "byte b" "byte c" "byte d"
  shows "ipv4_int_from_string (dotted a b c d) = Inr (((a * 256 + b) * 256 + c) * 256 + d)"
  using shift_in_octets [OF assms] by (simp add: ipv4_int_from_string_def Let_def split_dotted)

lemma ipv4_only_dotted:
  assumes "ipv4_int_from_string s = Inr n"
  obtains a b c d where "byte a" "byte b" "byte c" "byte d" "s = dotted a b c d"
    "n = ((a * 256 + b) * 256 + c) * 256 + d"
proof -
  define xs where "xs = split_on CHR ''.'' s"
  have len: "length xs = 4" and run: "shift_in 8 parse_octet xs 0 = Inr n"
    using assms by (auto simp: ipv4_int_from_string_def Let_def xs_def split: if_splits)
  obtain p q r t where xs: "xs = [p, q, r, t]" using four_parts [OF len] by blast
  obtain a b c d where v: "parse_octet p = Inr a" "parse_octet q = Inr b" "parse_octet r = Inr c"
    "parse_octet t = Inr d" using run by (auto simp: xs split: sum.splits if_splits)
  then have byte: "byte a" "byte b" "byte c" "byte d" and
    sh: "p = show_nat (nat a)" "q = show_nat (nat b)" "r = show_nat (nat c)" "t = show_nat (nat d)"
    by (auto simp: parse_octet_iff byte_def)
  have "s = join_with ''.'' xs" unfolding xs_def by (rule join_split [symmetric])
  then have s: "s = dotted a b c d" unfolding xs sh dotted_def by simp
  moreover from byte have "n = ((a * 256 + b) * 256 + c) * 256 + d"
    using assms ipv4_dotted [OF byte] s by simp
  ultimately show thesis using that byte by blast
qed

lemma ipv4_print_dotted:
  assumes "byte a" "byte b" "byte c" "byte d"
  shows "ipv4_string_from_int (((a * 256 + b) * 256 + c) * 256 + d) = dotted a b c d"
proof -
  have low: "(x * 256 + v) AND 0xFF = v" and high: "drop_bit 8 (x * 256 + v) = x" if "byte v" for x v
    using that by (simp_all add: byte_mod byte_def drop_bit_eq_div)
  have "a AND 0xFF = a" using assms(1) by (simp add: byte_mod byte_def)
  then show ?thesis
    using assms unfolding ipv4_string_from_int_def octets_of_four
    by (simp only: high low) (simp add: dotted_def show_int_nat byte_def)
qed

lemma int_bytes:
  assumes "0 \<le> n" and "n < 2 ^ 32"
  obtains a b c d where "byte a" "byte b" "byte c" "byte d" "n = ((a * 256 + b) * 256 + c) * 256 + d"
proof -
  define q1 q2 q3 where q: "q1 = n div 256" "q2 = q1 div 256" "q3 = q2 div 256"
  have e: "n = q1 * 256 + n mod 256" "q1 = q2 * 256 + q1 mod 256" "q2 = q3 * 256 + q2 mod 256"
    by (simp_all add: q)
  have "0 \<le> q1" "0 \<le> q2" "0 \<le> q3" using assms(1) by (simp_all add: q pos_imp_zdiv_nonneg_iff)
  have m: "byte (n mod 256)" "byte (q1 mod 256)" "byte (q2 mod 256)" by (simp_all add: byte_def)
  then have "q1 < 16777216" using e(1) assms(2) by (simp add: byte_def)
  then have "q2 < 65536" using e(2) m by (simp add: byte_def)
  then have "q3 < 256" using e(3) m by (simp add: byte_def)
  with \<open>0 \<le> q3\<close> have "byte q3" by (simp add: byte_def)
  moreover have "n = ((q3 * 256 + q2 mod 256) * 256 + q1 mod 256) * 256 + n mod 256"
    using e by simp
  ultimately show thesis using that m by blast
qed

section \<open>IPv6\<close>

text \<open>Every parser of this theory either returns a value in range or fails with
  \<open>AddressValueError\<close>.\<close>

definition address_outcome :: "nat \<Rightarrow> int res \<Rightarrow> bool" where
  "address_outcome k r \<longleftrightarrow> (\<exists>n. r = Inr n \<and> 0 \<le> n \<and> n < 2 ^ k) \<or> r = Inl AddressValueError"

lemma power_bound_mono: "n < 2 ^ k \<Longrightarrow> k \<le> l \<Longrightarrow> n < 2 ^ l" for n :: int
  by (erule order_less_le_trans) (rule power_increasing, simp_all)

lemma outcome_mono: "address_outcome k r \<Longrightarrow> k \<le> l \<Longrightarrow> address_outcome l r"
  unfolding address_outcome_def using power_bound_mono by blast

lemma outcome_shift_in:
  "parser_ok w f \<Longrightarrow> 0 \<le> acc \<Longrightarrow> acc < 2 ^ k \<Longrightarrow> address_outcome (k + w * length ps) (shift_in w f ps acc)"
  using shift_in_outcome [of w f acc k ps] by (auto simp: address_outcome_def)

lemma outcome_ipv4: "address_outcome 32 (ipv4_int_from_string s)"
  using outcome_shift_in [OF parse_octet_ok, of 0 0 "split_on CHR ''.'' s"]
  by (auto simp: ipv4_int_from_string_def Let_def address_outcome_def)

lemma outcome_from_parts:
  assumes "hi + sk + lo \<le> 8"
  shows "address_outcome 128 (ipv6_from_parts parts hi sk lo)"
proof -
  have "address_outcome (16 * hi) (shift_in 16 parse_hextet (take hi parts) 0)"
    by (rule outcome_mono [OF outcome_shift_in [OF parse_hextet_ok, of 0 0]]) simp_all
  then consider "shift_in 16 parse_hextet (take hi parts) 0 = Inl AddressValueError"
    | n where "shift_in 16 parse_hextet (take hi parts) 0 = Inr n" "0 \<le> n" "n < 2 ^ (16 * hi)"
    by (auto simp: address_outcome_def)
  then show ?thesis
  proof cases
    case 2
    have "n * 2 ^ (16 * sk) < 2 ^ (16 * hi) * 2 ^ (16 * sk)" using 2(3) by simp
    then have "push_bit (16 * sk) n < 2 ^ (16 * hi + 16 * sk)" by (simp add: push_bit_eq_mult power_add)
    moreover have "0 \<le> push_bit (16 * sk) n" using 2(2) by simp
    ultimately have "address_outcome (16 * hi + 16 * sk + 16 * length (drop (length parts - lo) parts))
        (shift_in 16 parse_hextet (drop (length parts - lo) parts) (push_bit (16 * sk) n))"
      by (intro outcome_shift_in parse_hextet_ok)
    then show ?thesis using 2(1) assms by (auto simp: ipv6_from_parts_def intro: outcome_mono)
  qed (simp add: ipv6_from_parts_def address_outcome_def)
qed

lemma outcome_ipv6: "address_outcome 128 (ipv6_int_from_string s)"
proof -
  define ps where "ps = split_on CHR '':'' s"
  have err: "address_outcome 128 (Inl AddressValueError)" by (simp add: address_outcome_def)
  have suffix: "(\<exists>qs. ipv4_suffix ps = Inr qs) \<or> ipv4_suffix ps = Inl AddressValueError"
    using outcome_ipv4 [of "last ps"] by (auto simp: ipv4_suffix_def address_outcome_def)
  show ?thesis
  proof (cases "ipv4_suffix ps")
    case (Inl e)
    with suffix err show ?thesis unfolding ipv6_int_from_string_def Let_def ps_def [symmetric] by auto
  next
    case (Inr qs)
    show ?thesis
    proof (cases "filter (\<lambda>i. qs ! i = []) [1..<length qs - 1]")
      case Nil
      with Inr err outcome_from_parts [of 8 0 0 qs] show ?thesis
        unfolding ipv6_int_from_string_def Let_def ps_def [symmetric] by simp
    next
      case (Cons k ks)
      show ?thesis
      proof (cases ks)
        case Nil
        show ?thesis
          unfolding ipv6_int_from_string_def Let_def ps_def [symmetric] Inr bindR_simps Cons Nil
          using err by (auto intro!: outcome_from_parts split: if_splits)
      next
        case (Cons j js)
        with Inr \<open>filter _ _ = k # ks\<close> err show ?thesis
          unfolding ipv6_int_from_string_def Let_def ps_def [symmetric] by simp
      qed
    qed
  qed
qed

lemma outcome_IPv6Address: "address_outcome 128 (IPv6Address a)"
  using outcome_ipv6 by (auto simp: IPv6Address_def Let_def address_outcome_def)

lemma outcome_IPv4Address: "address_outcome 32 (IPv4Address a)"
  using outcome_ipv4 by (simp add: IPv4Address_def)

section \<open>Shorthand\<close>

definition hextet :: "int \<Rightarrow> bool" where
  "hextet v \<longleftrightarrow> 0 \<le> v \<and> v \<le> 0xFFFF"

definition hex_string :: "int \<Rightarrow> string" where
  "hex_string v = show_hex (nat v)"

definition hextets_value :: "int \<Rightarrow> int list \<Rightarrow> int" where
  "hextets_value acc vs = foldl (\<lambda>a v. a * 65536 + v) acc vs"

lemma hex_string_facts:
  "hex_string v \<noteq> []" "CHR '':'' \<notin> set (hex_string v)" "CHR ''.'' \<notin> set (hex_string v)"
  using show_hex_digits [of "nat v"] by (auto simp: hex_string_def list_all_iff char_defs)

lemma parse_hex_string: "hextet v \<Longrightarrow> parse_hextet (hex_string v) = Inr v"
  by (auto simp: parse_hextet_def hex_string_def show_hex_digits Let_def hextet_def)

lemma shift_in_hextets:
  "list_all hextet vs \<Longrightarrow> shift_in 16 parse_hextet (map hex_string vs) acc = Inr (hextets_value acc vs)"
proof (induction vs arbitrary: acc)
  case (Cons v vs)
  then have "hextet v" by simp
  then have "push_bit 16 acc OR v = acc * 65536 + v" using push_or [of v 16 acc] by (simp add: hextet_def)
  with Cons show ?case by (simp add: parse_hex_string hextets_value_def)
qed (simp add: hextets_value_def)

lemma hextets_zeros: "hextets_value acc (replicate k 0) = push_bit (16 * k) acc"
  by (induction k arbitrary: acc) (simp_all add: hextets_value_def push_bit_eq_mult power_add)

lemma hextets_append: "hextets_value acc (us @ vs) = hextets_value (hextets_value acc us) vs"
  by (simp add: hextets_value_def)

lemma no_suffix: "CHR ''.'' \<notin> set (last ps) \<Longrightarrow> ipv4_suffix ps = Inr ps"
  by (simp add: ipv4_suffix_def)

lemma ipv6_full:
  assumes "length vs = 8" and "list_all hextet vs"
  shows "ipv6_int_from_string (join_with '':'' (map hex_string vs)) = Inr (hextets_value 0 vs)"
proof -
  define ps where "ps = map hex_string vs"
  have split: "split_on CHR '':'' (join_with '':'' ps) = ps"
    unfolding ps_def using assms(1) by (intro split_join) (auto simp: hex_string_facts)
  have "last ps \<in> set ps" using assms(1) by (intro last_in_set) (auto simp: ps_def)
  then have "CHR ''.'' \<notin> set (last ps)" by (auto simp: ps_def hex_string_facts)
  note suffix = no_suffix [OF this]
  have "ps ! i \<noteq> []" if "i < 8" for i using that assms(1) by (simp add: ps_def hex_string_facts)
  then have none: "filter (\<lambda>i. ps ! i = []) [1..<length ps - 1] = []"
    using assms(1) by (auto simp: ps_def filter_empty_conv)
  have "ipv6_from_parts ps 8 0 0 = Inr (hextets_value 0 vs)"
    using shift_in_hextets [OF assms(2), of 0] assms(1) by (simp add: ipv6_from_parts_def ps_def)
  then show ?thesis
    using assms(1) unfolding ipv6_int_from_string_def ps_def [symmetric] split suffix Let_def bindR_simps none
    by (simp add: ps_def)
qed

text \<open>A segment of hextets on one side of \<open>::\<close>; an empty one shows as one empty part.\<close>

definition segment :: "int list \<Rightarrow> string list" where
  "segment vs = (if vs = [] then [[]] else map hex_string vs)"

lemma segment_facts:
  "segment vs \<noteq> []" "hd (segment vs) = [] \<longleftrightarrow> vs = []" "last (segment vs) = [] \<longleftrightarrow> vs = []"
  "i < length (segment vs) \<Longrightarrow> segment vs ! i = [] \<longleftrightarrow> vs = []"
  "length (segment vs) = (if vs = [] then 1 else length vs)"
  "p \<in> set (segment vs) \<Longrightarrow> CHR '':'' \<notin> set p \<and> CHR ''.'' \<notin> set p"
  by (auto simp: segment_def hex_string_facts hd_map last_map split: if_splits)

lemma join_segment: "join_with '':'' (segment vs) = join_with '':'' (map hex_string vs)"
  by (simp add: segment_def)

lemma join_append: "xs \<noteq> [] \<Longrightarrow> ys \<noteq> [] \<Longrightarrow> join_with sep (xs @ ys) = join_with sep xs @ sep @ join_with sep ys"
proof (induction xs)
  case (Cons x xs)
  then show ?case by (cases "xs = []") (simp_all add: join_with_Cons)
qed simp

lemma filter_one:
  assumes "a \<le> k" and "k < b" and "\<And>i. a \<le> i \<Longrightarrow> i < b \<Longrightarrow> P i \<longleftrightarrow> i = k"
  shows "filter P [a..<b] = [k]"
proof -
  have "[a..<b] = [a..<k] @ k # [Suc k..<b]"
    using assms(1,2) upt_add_eq_append [of a k "b - k"] upt_conv_Cons [of k b] by simp
  moreover have "filter P [a..<k] = []" "filter P [Suc k..<b] = []"
    using assms by (auto simp: filter_empty_conv)
  ultimately show ?thesis using assms by simp
qed

lemma ipv6_shorthand:
  assumes len: "length his + length los \<le> 7" and h: "list_all hextet his" "list_all hextet los"
  shows "ipv6_int_from_string (join_with '':'' (map hex_string his) @ ''::'' @ join_with '':'' (map hex_string los)) =
    Inr (hextets_value 0 (his @ replicate (8 - (length his + length los)) 0 @ los))"
proof -
  define A B where AB: "A = segment his" "B = segment los"
  define ps where "ps = A @ [] # B"
  have ne: "A \<noteq> []" "B \<noteq> []" by (simp_all add: AB segment_facts)
  have "join_with '':'' ([] # B) = '':'' @ join_with '':'' B"
    using ne by (simp add: join_with_Cons)
  then have str: "join_with '':'' (map hex_string his) @ ''::'' @ join_with '':'' (map hex_string los) = join_with '':'' ps"
    using ne by (simp add: ps_def join_append AB join_segment)
  have split: "split_on CHR '':'' (join_with '':'' ps) = ps"
    by (rule split_join) (auto simp: ps_def AB dest: segment_facts(6))
  have last: "last ps = last B" "hd ps = hd A" "ps ! 0 = hd A" using ne by (simp_all add: ps_def nth_append hd_conv_nth)
  then have suffix: "ipv4_suffix ps = Inr ps"
    using segment_facts(6) [of "last B" los] ne(2) by (intro no_suffix) (simp add: AB)
  have lA: "length A = (if his = [] then 1 else length his)" and lB: "length B = (if los = [] then 1 else length los)"
    by (simp_all add: AB segment_facts)
  have lps: "length ps = length A + 1 + length B" by (simp add: ps_def)
  have one: "filter (\<lambda>i. ps ! i = []) [1..<length ps - 1] = [length A]"
  proof (rule filter_one)
    show "1 \<le> length A" using ne by (cases A) auto
    show "length A < length ps - 1" using ne by (cases B) (auto simp: lps)
    show "ps ! i = [] \<longleftrightarrow> i = length A" if "1 \<le> i" "i < length ps - 1" for i
    proof -
      consider "i < length A" | "i = length A" | "length A < i" by linarith
      then consider "i < length A" | "i = length A" | j where "i = length A + 1 + j" "j < length B"
      proof cases
        case 3
        then obtain j where "i = length A + 1 + j" by (metis add.assoc add.commute less_iff_Suc_add Suc_eq_plus1)
        moreover have "j < length B" using calculation \<open>i < length ps - 1\<close> lps by simp
        ultimately show thesis using that(3) by blast
      qed
      then show ?thesis
      proof cases
        case 1
        with \<open>1 \<le> i\<close> lA have "his \<noteq> []" by auto
        with 1 show ?thesis using segment_facts(4) [of i his] by (simp add: ps_def nth_append AB)
      next
        case 2
        then show ?thesis by (simp add: ps_def nth_append)
      next
        case 3
        with \<open>i < length ps - 1\<close> lB lps have "los \<noteq> []" by auto
        with 3 show ?thesis using segment_facts(4) [of j los] by (simp add: ps_def nth_append AB)
      qed
    qed
  qed
  have hd: "ps ! 0 = [] \<longleftrightarrow> his = []" "last ps = [] \<longleftrightarrow> los = []"
    unfolding last AB by (rule segment_facts)+
  have hi: "take (length his) ps = map hex_string his" by (auto simp: ps_def AB segment_def)
  have lo: "drop (length ps - length los) ps = map hex_string los" by (auto simp: ps_def AB segment_def)
  define sk where "sk = 8 - (length his + length los)"
  have "ipv6_from_parts ps (length his) sk (length los) =
      Inr (hextets_value 0 (his @ replicate sk 0 @ los))"
    unfolding ipv6_from_parts_def hi lo
    by (simp add: shift_in_hextets [OF h(1)] shift_in_hextets [OF h(2)] hextets_append hextets_zeros)
  moreover have "0 < length A" "0 < length B" using ne by simp_all
  then have "\<not> length ps < 3" using lps by linarith
  moreover have "length ps \<le> 9" using len lA lB lps by (auto split: if_splits)
  ultimately show ?thesis
    using len lA lB lps unfolding str ipv6_int_from_string_def split suffix Let_def bindR_simps one hd sk_def
    by (auto split: if_splits)
qed

section \<open>Properties\<close>

text \<open>the IPv4 strings that are accepted are exactly the dotted notations of the 32-bit integers, in
  canonical form (no leading zeros), and parsing inverts printing.\<close>

theorem ipv4_round_trip:
  "ipv4_int_from_string s = Inr n \<longleftrightarrow> 0 \<le> n \<and> n < 2 ^ 32 \<and> s = ipv4_string_from_int n"
proof
  assume "ipv4_int_from_string s = Inr n"
  then obtain a b c d where byte: "byte a" "byte b" "byte c" "byte d" and s: "s = dotted a b c d"
    and n: "n = ((a * 256 + b) * 256 + c) * 256 + d" by (rule ipv4_only_dotted)
  have "0 \<le> n" "n < 2 ^ 32" using byte unfolding n byte_def by simp_all
  with ipv4_print_dotted [OF byte] show "0 \<le> n \<and> n < 2 ^ 32 \<and> s = ipv4_string_from_int n"
    unfolding n s by simp
next
  assume a: "0 \<le> n \<and> n < 2 ^ 32 \<and> s = ipv4_string_from_int n"
  then obtain a b c d where "byte a" "byte b" "byte c" "byte d" "n = ((a * 256 + b) * 256 + c) * 256 + d"
    using int_bytes by blast
  with a show "ipv4_int_from_string s = Inr n" using ipv4_print_dotted ipv4_dotted by simp
qed

text \<open>An IPv6 address written with \<open>::\<close> is the address whose missing hextets are zero: the
  shorthand parses to the same number as the eight hextets written out.\<close>

theorem ipv6_shorthand_is_full:
  assumes "length his + length los \<le> 7" and "list_all hextet his" and "list_all hextet los"
    and "vs = his @ replicate (8 - (length his + length los)) 0 @ los"
  shows "ipv6_int_from_string (join_with '':'' (map hex_string his) @ ''::'' @ join_with '':'' (map hex_string los)) =
      Inr (hextets_value 0 vs) \<and>
    ipv6_int_from_string (join_with '':'' (map hex_string vs)) = Inr (hextets_value 0 vs)"
proof -
  have "length vs = 8" using assms(1,4) by simp
  moreover have "list_all hextet vs" using assms by (auto simp: list_all_iff hextet_def)
  ultimately show ?thesis using ipv6_full ipv6_shorthand [OF assms(1-3)] assms(4) by blast
qed

theorem ipv6_shorthand_is_full_witness:
  "ipv6_int_from_string ''1:2::8'' = ipv6_int_from_string ''1:2:0:0:0:0:0:8''"
proof -
  have small: "hex_string v = [digit_char (nat v)]" if "nat v < 16" for v
    using that unfolding hex_string_def by (subst show_hex.simps) simp
  have hex: "hex_string 1 = ''1''" "hex_string 2 = ''2''" "hex_string 8 = ''8''" "hex_string 0 = ''0''"
    using small by (simp_all add: digit_char_def)
  show ?thesis
    using ipv6_shorthand_is_full [of "[1, 2]" "[8]" "[1, 2, 0, 0, 0, 0, 0, 8]"]
    by (simp add: hex hextet_def numeral_eq_Suc)
qed

text \<open>The address parsers raise nothing but \<open>AddressValueError\<close>, on any argument, \<open>None\<close>
  included, and what they return fits in 32 and 128 bits.\<close>

theorem address_parsers_total:
  "address_outcome 32 (IPv4Address a) \<and> address_outcome 128 (IPv6Address a)"
  using outcome_IPv4Address outcome_IPv6Address by simp

end
