(* ===== verification/LookupQuery.thy ===== *)
theory LookupQuery
  imports Maxmind IpAddr
begin

text \<open>
  \<open>util/lookup_query.py\<close>: a lookup query is read off an HTTP request; its geolocation comes from
  the user, App Engine's headers or the MaxMind database, its policy from the arguments.
\<close>

section \<open>Requests and queries\<close>

text \<open>Query arguments (the first value of each) and headers, \<open>None\<close> where absent.\<close>

record request =
  rq_path :: string
  rq_path_qs :: string
  rq_args :: "string \<Rightarrow> string option"
  rq_headers :: "string \<Rightarrow> string option"
  rq_remote_addr :: "string option"
  rq_scheme :: string

record lookup_query =
  lq_tool_id :: string
  lq_path :: string
  lq_policy :: "string option"
  lq_metro :: "string option"
  lq_response_format :: string
  lq_geolocation_type :: "string option"
  lq_ip_address :: "string option"
  lq_tool_address_family :: "string option"
  lq_city :: "string option"
  lq_country :: "string option"
  lq_latitude :: "pyfloat option"
  lq_longitude :: "pyfloat option"
  lq_distance :: "pyfloat option"
  lq_ip_is_explicit :: bool
  lq_user_agent :: string
  lq_path_qs :: string
  ud_city :: "string option"
  ud_country :: "string option"
  ud_latitude :: "pyfloat option"
  ud_longitude :: "pyfloat option"
  gae_city :: "string option"
  gae_country :: "string option"
  gae_latitude :: "pyfloat option"
  gae_longitude :: "pyfloat option"
  mm_city :: "string option"
  mm_country :: "string option"
  mm_latitude :: "pyfloat option"
  mm_longitude :: "pyfloat option"

text \<open>\<open>LookupQuery()\<close>; the fields without a \<open>None\<close> are set before they are read.\<close>

definition new_query :: lookup_query where
  "new_query = \<lparr>lq_tool_id = [], lq_path = [], lq_policy = None, lq_metro = None,
     lq_response_format = [], lq_geolocation_type = None, lq_ip_address = None,
     lq_tool_address_family = None, lq_city = None, lq_country = None, lq_latitude = None,
     lq_longitude = None, lq_distance = None, lq_ip_is_explicit = False, lq_user_agent = [],
     lq_path_qs = [], ud_city = None, ud_country = None, ud_latitude = None, ud_longitude = None,
     gae_city = None, gae_country = None, gae_latitude = None, gae_longitude = None,
     mm_city = None, mm_country = None, mm_latitude = None, mm_longitude = None\<rparr>"

text \<open>\<open>request.get(name)\<close>: the empty string by default.\<close>

definition arg_or :: "string \<Rightarrow> string \<Rightarrow> request \<Rightarrow> string" where
  "arg_or d name rq = (case rq_args rq name of None \<Rightarrow> d | Some v \<Rightarrow> v)"

definition truthy :: "string option \<Rightarrow> bool" where
  "truthy x \<longleftrightarrow> x \<noteq> None \<and> x \<noteq> Some []"

definition fl_truthy :: "pyfloat option \<Rightarrow> bool" where
  "fl_truthy x = (case x of None \<Rightarrow> False | Some f \<Rightarrow> fl_true f)"

section \<open>Validity of addresses\<close>

definition is_valid_ipv4 :: "string option \<Rightarrow> bool res" where
  "is_valid_ipv4 ip = (case IPv4Address ip of
      Inr _ \<Rightarrow> Inr True | Inl e \<Rightarrow> if e = AddressValueError then Inr False else Inl e)"

definition is_valid_ipv6 :: "string option \<Rightarrow> bool res" where
  "is_valid_ipv6 ip = (case IPv6Address ip of
      Inr _ \<Rightarrow> Inr True | Inl e \<Rightarrow> if e = AddressValueError then Inr False else Inl e)"

definition is_valid_ip :: "string option \<Rightarrow> bool res" where
  "is_valid_ip ip = bindR (is_valid_ipv4 ip) (\<lambda>v4. if v4 then Inr True else is_valid_ipv6 ip)"

section \<open>The setters\<close>

definition set_response_format :: "request \<Rightarrow> lookup_query \<Rightarrow> lookup_query" where
  "set_response_format rq q =
     (let f = arg_or DEFAULT_RESPONSE_FORMAT RESPONSE_FORMAT rq
      in q\<lparr>lq_response_format := if f \<in> set VALID_FORMATS then f else DEFAULT_RESPONSE_FORMAT\<rparr>)"

definition set_ip_address :: "request \<Rightarrow> lookup_query \<Rightarrow> lookup_query res" where
  "set_ip_address rq q =
     (let user_defined_ip = arg_or [] REMOTE_ADDRESS rq
      in bindR (is_valid_ip (Some user_defined_ip)) (\<lambda>valid.
           Inr (if valid \<and> Some user_defined_ip \<noteq> rq_remote_addr rq
                then q\<lparr>lq_ip_address := Some user_defined_ip, lq_ip_is_explicit := True\<rparr>
                else q\<lparr>lq_ip_address := rq_remote_addr rq, lq_ip_is_explicit := False\<rparr>)))"

definition set_user_agent :: "request \<Rightarrow> lookup_query \<Rightarrow> lookup_query" where
  "set_user_agent rq q =
     q\<lparr>lq_user_agent := case rq_headers rq USER_AGENT of None \<Rightarrow> [] | Some v \<Rightarrow> v\<rparr>"

definition set_path_qs :: "request \<Rightarrow> lookup_query \<Rightarrow> lookup_query" where
  "set_path_qs rq q = q\<lparr>lq_path_qs := rq_path_qs rq\<rparr>"

definition set_tool_address_family :: "request \<Rightarrow> lookup_query \<Rightarrow> lookup_query" where
  "set_tool_address_family rq q =
     (let f = rq_args rq ADDRESS_FAMILY
      in if f \<in> {Some ADDRESS_FAMILY_IPv4, Some ADDRESS_FAMILY_IPv6}
         then q\<lparr>lq_tool_address_family := f\<rparr> else q)"

section \<open>Geolocation\<close>

definition MAX_LATITUDE_ABSOLUTE :: pyfloat where "MAX_LATITUDE_ABSOLUTE = Fin 90"
definition MAX_LONGITUDE_ABSOLUTE :: pyfloat where "MAX_LONGITUDE_ABSOLUTE = Fin 180"

definition get_user_defined_lat_lon :: "request \<Rightarrow> pyfloat option \<times> pyfloat option" where
  "get_user_defined_lat_lon rq =
     (let input_latitude = rq_args rq LATITUDE; input_longitude = rq_args rq LONGITUDE
      in if \<not> truthy input_latitude \<or> \<not> truthy input_longitude then (None, None)
         else case (py_float (the input_latitude), py_float (the input_longitude)) of
             (Inr latitude, Inr longitude) \<Rightarrow>
               if fl_gt (fl_abs latitude) MAX_LATITUDE_ABSOLUTE \<or>
                  fl_gt (fl_abs longitude) MAX_LONGITUDE_ABSOLUTE
               then (None, None) else (Some latitude, Some longitude)
           | _ \<Rightarrow> (None, None))"

definition set_appengine_geolocation :: "request \<Rightarrow> lookup_query \<Rightarrow> lookup_query" where
  "set_appengine_geolocation rq q =
     (let q = (case rq_headers rq HEADER_CITY of None \<Rightarrow> q | Some c \<Rightarrow> q\<lparr>gae_city := Some c\<rparr>);
          q = (case rq_headers rq HEADER_COUNTRY of None \<Rightarrow> q | Some c \<Rightarrow> q\<lparr>gae_country := Some c\<rparr>)
      in case rq_headers rq HEADER_LAT_LONG of
           None \<Rightarrow> q
         | Some lat_long \<Rightarrow>
             (case mapR py_float (split_on CHR '','' lat_long) of
                Inr [a, b] \<Rightarrow> q\<lparr>gae_latitude := Some a, gae_longitude := Some b\<rparr>
              | _ \<Rightarrow> q))"

definition set_maxmind_geolocation ::
    "env \<Rightarrow> string option \<Rightarrow> string option \<Rightarrow> string option \<Rightarrow> lookup_query \<Rightarrow> (world, bool \<times> lookup_query) act" where
  "set_maxmind_geolocation E ip_address country city q =
     bindA (liftR (is_valid_ipv6 ip_address)) (\<lambda>v6.
     bindA (liftR (if v6 then Inr True else is_valid_ipv4 ip_address)) (\<lambda>_.
     bindA (case ip_address of
              Some ip \<Rightarrow> get_ip_geolocation E ip
            | None \<Rightarrow>
                (case (city, country) of
                   (Some ci, Some co) \<Rightarrow> getA (get_city_geolocation ci co)
                 | (None, Some co) \<Rightarrow> getA (get_country_geolocation co)
                 | _ \<Rightarrow> retA GeoRecord)) (\<lambda>g.
     retA (ge_latitude g \<noteq> None \<and> ge_longitude g \<noteq> None,
           q\<lparr>mm_city := ge_city g, mm_country := ge_country g,
             mm_latitude := ge_latitude g, mm_longitude := ge_longitude g\<rparr>))))"

definition set_maxmind :: "env \<Rightarrow> string option \<Rightarrow> string option \<Rightarrow> string option \<Rightarrow> lookup_query \<Rightarrow> (world, lookup_query) act" where
  "set_maxmind E ip country city q = bindA (set_maxmind_geolocation E ip country city q) (\<lambda>p. retA (snd p))"

text \<open>The first half of \<open>_set_geolocation\<close>: the source of the position, and the MaxMind fields.\<close>

definition choose_geolocation :: "env \<Rightarrow> pyfloat option \<times> pyfloat option \<Rightarrow> lookup_query \<Rightarrow> (world, lookup_query) act" where
  "choose_geolocation E input q =
     (case input of
        (Some lat, Some lon) \<Rightarrow>
          retA (q\<lparr>lq_geolocation_type := Some GEOLOCATION_USER_DEFINED, ud_latitude := Some lat, ud_longitude := Some lon\<rparr>)
      | _ \<Rightarrow>
          if lq_ip_is_explicit q \<or> truthy (ud_country q) then
            set_maxmind E (if lq_ip_is_explicit q then lq_ip_address q else None) (ud_country q) (ud_city q)
              (q\<lparr>lq_geolocation_type := Some GEOLOCATION_MAXMIND\<rparr>)
          else if fl_truthy (gae_latitude q) \<and> fl_truthy (gae_longitude q) then
            retA (q\<lparr>lq_geolocation_type := Some GEOLOCATION_APP_ENGINE\<rparr>)
          else
            set_maxmind E (lq_ip_address q) (gae_country q) (gae_city q)
              (q\<lparr>lq_geolocation_type := Some GEOLOCATION_MAXMIND\<rparr>))"

text \<open>The second half: the position of the query is that of the source.\<close>

definition apply_geolocation :: "lookup_query \<Rightarrow> lookup_query" where
  "apply_geolocation q =
     (if lq_geolocation_type q = Some GEOLOCATION_USER_DEFINED then
        q\<lparr>lq_city := ud_city q, lq_country := (if truthy (ud_country q) then ud_country q else None),
          lq_latitude := ud_latitude q, lq_longitude := ud_longitude q\<rparr>
      else if lq_geolocation_type q = Some GEOLOCATION_MAXMIND then
        q\<lparr>lq_city := mm_city q, lq_country := mm_country q,
          lq_latitude := mm_latitude q, lq_longitude := mm_longitude q\<rparr>
      else if lq_geolocation_type q = Some GEOLOCATION_APP_ENGINE then
        q\<lparr>lq_city := gae_city q, lq_country := gae_country q,
          lq_latitude := gae_latitude q, lq_longitude := gae_longitude q\<rparr>
      else q)"

definition set_geolocation :: "env \<Rightarrow> request \<Rightarrow> lookup_query \<Rightarrow> (world, lookup_query) act" where
  "set_geolocation E rq q =
     (let q = set_appengine_geolocation rq q;
          q = q\<lparr>ud_city := rq_args rq CITY, ud_country := Some (arg_or [] COUNTRY rq)\<rparr>
      in bindA (choose_geolocation E (get_user_defined_lat_lon rq) q) (\<lambda>q. retA (apply_geolocation q)))"

section \<open>Policy\<close>

definition get_default_policy :: "lookup_query \<Rightarrow> string" where
  "get_default_policy q =
     (if lq_latitude q \<noteq> None \<and> lq_longitude q \<noteq> None then POLICY_GEO else POLICY_RANDOM)"

definition set_policy :: "request \<Rightarrow> lookup_query \<Rightarrow> lookup_query" where
  "set_policy rq q =
     (let policy = rq_args rq POLICY;
          with = (\<lambda>p. q\<lparr>lq_policy := p\<rparr>)
      in if (fl_truthy (ud_latitude q) \<and> fl_truthy (ud_longitude q)) \<or> lq_ip_is_explicit q then
           with (if policy \<noteq> Some POLICY_GEO \<and> policy \<noteq> Some POLICY_GEO_OPTIONS then Some POLICY_GEO else policy)
         else if truthy (ud_country q) then
           with (if policy \<noteq> Some POLICY_COUNTRY \<and> policy \<noteq> Some POLICY_GEO then Some POLICY_GEO else policy)
         else if lq_metro q \<noteq> None then with (Some POLICY_METRO)
         else if policy = Some POLICY_GEO then
           with (if lq_latitude q = None \<or> lq_longitude q = None then Some POLICY_RANDOM else policy)
         else if policy = Some POLICY_COUNTRY then
           with (if \<not> truthy (ud_country q) then Some (get_default_policy q) else policy)
         else if policy = Some POLICY_METRO then
           with (if lq_metro q = None then Some (get_default_policy q) else policy)
         else if policy = Some POLICY_RANDOM then with policy
         else if policy = Some POLICY_GEO_OPTIONS then with policy
         else if policy = Some POLICY_ALL then with policy
         else with (Some (get_default_policy q)))"

definition initialize_from_http_request :: "env \<Rightarrow> request \<Rightarrow> (world, lookup_query) act" where
  "initialize_from_http_request E rq =
     (let q = new_query\<lparr>lq_tool_id := hd (split_on CHR ''/'' (strip_char CHR ''/'' (rq_path rq))),
                        lq_path := rq_path rq\<rparr>;
          q = set_response_format rq q
      in bindA (liftR (set_ip_address rq q)) (\<lambda>q.
         let q = set_path_qs rq (set_user_agent rq (set_tool_address_family rq q))
         in bindA (set_geolocation E rq q) (\<lambda>q.
              retA (set_policy rq (q\<lparr>lq_metro := rq_args rq METRO\<rparr>)))))"

section \<open>The client signature\<close>

definition calculate_client_signature :: "lookup_query \<Rightarrow> string" where
  "calculate_client_signature q =
     (if truthy (lq_ip_address q) \<and> lq_path_qs q \<noteq> [] then
        (let ip = the (lq_ip_address q);
             resource = lq_path_qs q;
             user_agent = lq_user_agent q;
             key_max_size = 250 :: int;
             res_min_size = 40;
             res_max_size = key_max_size - int (length ip) - int (length resource) - 2;
             res_max_size = (if res_max_size < res_min_size then res_min_size else res_max_size);
             resource = (if int (length resource) > res_max_size then slice_to res_max_size resource else resource);
             ua_max_size = key_max_size - int (length ip) - int (length resource) - 2;
             user_agent = (if int (length user_agent) > ua_max_size then slice_to ua_max_size user_agent else user_agent)
         in ip @ ''#'' @ user_agent @ ''#'' @ resource)
      else [])"

section \<open>Facts\<close>

lemma is_valid_ipv4_total: "is_valid_ipv4 ip = Inr (\<exists>n. IPv4Address ip = Inr n)"
  using outcome_IPv4Address [of ip] by (auto simp: is_valid_ipv4_def address_outcome_def)

lemma is_valid_ipv6_total: "is_valid_ipv6 ip = Inr (\<exists>n. IPv6Address ip = Inr n)"
  using outcome_IPv6Address [of ip] by (auto simp: is_valid_ipv6_def address_outcome_def)

definition valid_ip :: "string option \<Rightarrow> bool" where
  "valid_ip ip \<longleftrightarrow> (\<exists>n. IPv4Address ip = Inr n) \<or> (\<exists>n. IPv6Address ip = Inr n)"

lemma is_valid_ip_total: "is_valid_ip ip = Inr (valid_ip ip)"
  by (simp add: is_valid_ip_def is_valid_ipv4_total is_valid_ipv6_total valid_ip_def)

lemma lat_lon_cases:
  "get_user_defined_lat_lon rq = (None, None) \<or>
   (\<exists>a b. get_user_defined_lat_lon rq = (Some a, Some b) \<and>
      \<not> fl_gt (fl_abs a) (Fin 90) \<and> \<not> fl_gt (fl_abs b) (Fin 180))"
  by (cases "py_float (the (rq_args rq LATITUDE))"; cases "py_float (the (rq_args rq LONGITUDE))")
    (auto simp: get_user_defined_lat_lon_def Let_def MAX_LATITUDE_ABSOLUTE_def MAX_LONGITUDE_ABSOLUTE_def)

lemma set_ip_address_total:
  "set_ip_address rq q = Inr (if valid_ip (Some (arg_or [] REMOTE_ADDRESS rq)) \<and> Some (arg_or [] REMOTE_ADDRESS rq) \<noteq> rq_remote_addr rq
     then q\<lparr>lq_ip_address := Some (arg_or [] REMOTE_ADDRESS rq), lq_ip_is_explicit := True\<rparr>
     else q\<lparr>lq_ip_address := rq_remote_addr rq, lq_ip_is_explicit := False\<rparr>)"
  by (simp add: set_ip_address_def Let_def is_valid_ip_total)

text \<open>What the MaxMind step writes, and what it leaves alone.\<close>

lemma set_maxmind_run:
  assumes "set_maxmind E ip country city q w = (Inr q', w')"
  shows "\<exists>a b c d. q' = q\<lparr>mm_city := a, mm_country := b, mm_latitude := c, mm_longitude := d\<rparr>"
    and "\<exists>b. w' = w\<lparr>w_reader := b\<rparr>"
proof -
  define step where "step = (case ip of
      Some ip \<Rightarrow> get_ip_geolocation E ip
    | None \<Rightarrow> (case (city, country) of
         (Some ci, Some co) \<Rightarrow> getA (get_city_geolocation ci co)
       | (None, Some co) \<Rightarrow> getA (get_country_geolocation co)
       | _ \<Rightarrow> retA GeoRecord))"
  have stay: "\<exists>b. (w = w\<lparr>w_reader := b\<rparr>)" by (rule exI [of _ "w_reader w"]) simp
  have v4: "(if v6 then Inr True else is_valid_ipv4 ip) = Inr (v6 \<or> (\<exists>n. IPv4Address ip = Inr n))" for v6
    by (simp add: is_valid_ipv4_total)
  have run: "bindA step (\<lambda>g. retA (ge_latitude g \<noteq> None \<and> ge_longitude g \<noteq> None,
      q\<lparr>mm_city := ge_city g, mm_country := ge_country g, mm_latitude := ge_latitude g,
        mm_longitude := ge_longitude g\<rparr>)) w = (Inr (b, q'), w')" if "set_maxmind_geolocation E ip country city q w = (Inr (b, q'), w')" for b
    using that unfolding set_maxmind_geolocation_def is_valid_ipv6_total v4 step_def by simp
  obtain b where "set_maxmind_geolocation E ip country city q w = (Inr (b, q'), w')"
    using assms by (auto simp: set_maxmind_def bindA_Inr_iff)
  from run [OF this] obtain g where g: "step w = (Inr g, w')"
    and q': "q' = q\<lparr>mm_city := ge_city g, mm_country := ge_country g, mm_latitude := ge_latitude g,
        mm_longitude := ge_longitude g\<rparr>"
    by (auto simp: bindA_Inr_iff)
  show "\<exists>a b c d. q' = q\<lparr>mm_city := a, mm_country := b, mm_latitude := c, mm_longitude := d\<rparr>"
    using q' by blast
  have "\<exists>b. snd (step w) = w\<lparr>w_reader := b\<rparr>"
    using stay ip_geolocation_world unfolding step_def by (auto split: option.split)
  then show "\<exists>b. w' = w\<lparr>w_reader := b\<rparr>" using g by simp
qed

lemma valid_ip_long: "valid_ip (Some (''::'' @ replicate n CHR ''0''))"
proof -
  have z: "nat_of_hex (replicate k CHR ''0'') = 0" for k
    by (induction k) (simp_all add: nat_of_hex_def hex_val_def char_defs)
  show ?thesis
  proof (cases "n = 0")
    case True
    have "IPv6Address (Some ''::'') = Inr 0" by code_simp
    with True show ?thesis by (auto simp: valid_ip_def)
  next
    case False
    let ?z = "replicate n CHR ''0''"
    have split: "split_on CHR '':'' (''::'' @ ?z) = [[], [], ?z]"
      by (simp add: split_on_no_sep)
    have "parse_hextet ?z = Inr 0"
      using False by (simp add: parse_hextet_def z Let_def list_all_iff char_defs)
    moreover have "CHR ''.'' \<notin> set ?z" by simp
    moreover have "filter (\<lambda>i. [[], [], ?z] ! i = []) [1..<2] = [1]" by (simp add: upt_rec)
    ultimately have "ipv6_int_from_string (''::'' @ ?z) = Inr 0"
      using False unfolding ipv6_int_from_string_def split
      by (simp add: Let_def ipv4_suffix_def ipv6_from_parts_def)
    then show ?thesis by (auto simp: valid_ip_def IPv6Address_def py_str_def)
  qed
qed

lemma set_maxmind_total:
  assumes "w_reader w" and "\<And>ip e. e_city E ip = Inl e \<Longrightarrow> is_ValueError e \<or> e = AddressNotFoundError"
  shows "\<exists>q'. set_maxmind E ip country city q w = (Inr q', w)"
proof -
  have geo: "\<exists>g. get_ip_geolocation E a w = (Inr g, w)" for a
    unfolding ip_geolocation_cached [OF assms(1)] using assms(2) [of a]
    by (auto split: sum.split option.split)
  have v4: "(if v6 then Inr True else is_valid_ipv4 ip) = Inr (v6 \<or> (\<exists>n. IPv4Address ip = Inr n))" for v6
    by (simp add: is_valid_ipv4_total)
  show ?thesis
  proof (cases ip)
    case None
    then show ?thesis
      unfolding set_maxmind_def set_maxmind_geolocation_def is_valid_ipv6_total v4
      by (cases city; cases country) simp_all
  next
    case (Some a)
    obtain g where "get_ip_geolocation E a w = (Inr g, w)" using geo by blast
    with Some show ?thesis
      unfolding set_maxmind_def set_maxmind_geolocation_def is_valid_ipv6_total v4 by simp
  qed
qed

lemma choose_geolocation_total:
  assumes "w_reader w" and "\<And>ip e. e_city E ip = Inl e \<Longrightarrow> is_ValueError e \<or> e = AddressNotFoundError"
  shows "\<exists>q'. choose_geolocation E input q w = (Inr q', w)"
  using set_maxmind_total [OF assms]
  by (auto simp: choose_geolocation_def split: prod.split option.split)

lemma initialize_returns:
  assumes "w_reader w" and "\<And>ip e. e_city E ip = Inl e \<Longrightarrow> is_ValueError e \<or> e = AddressNotFoundError"
  shows "\<exists>q. initialize_from_http_request E rq w = (Inr q, w)"
proof -
  have "\<exists>q'. set_geolocation E rq q w = (Inr q', w)" for q
  proof -
    have "\<exists>q1. choose_geolocation E (get_user_defined_lat_lon rq)
        ((set_appengine_geolocation rq q)\<lparr>ud_city := rq_args rq CITY, ud_country := Some (arg_or [] COUNTRY rq)\<rparr>) w
        = (Inr q1, w)" by (rule choose_geolocation_total [OF assms(1)]) (rule assms(2))
    then show ?thesis by (auto simp: set_geolocation_def Let_def)
  qed
  note geo = this
  define q1 where "q1 = set_response_format rq (new_query\<lparr>lq_tool_id := hd (split_on CHR ''/'' (strip_char CHR ''/'' (rq_path rq))),
                        lq_path := rq_path rq\<rparr>)"
  obtain q2 where q2: "set_ip_address rq q1 = Inr q2" unfolding set_ip_address_total by blast
  obtain q3 where "set_geolocation E rq (set_path_qs rq (set_user_agent rq (set_tool_address_family rq q2))) w = (Inr q3, w)"
    using geo by blast
  then show ?thesis
    using q2 by (simp add: initialize_from_http_request_def Let_def q1_def)
qed

section \<open>Properties\<close>

definition in_range :: "real \<Rightarrow> pyfloat \<Rightarrow> bool" where
  "in_range b x \<longleftrightarrow> x = NaN \<or> (\<exists>r. x = Fin r \<and> \<bar>r\<bar> \<le> b)"

text \<open>A position taken from the arguments has both coordinates or none, and a coordinate is within
  its bound or NaN; an infinite one is refused.\<close>

theorem user_position_in_range:
  "get_user_defined_lat_lon rq = (None, None) \<or>
   (\<exists>a b. get_user_defined_lat_lon rq = (Some a, Some b) \<and> in_range 90 a \<and> in_range 180 b)"
  using lat_lon_cases [of rq] fl_range_finite unfolding in_range_def by metis

text \<open>The arguments \<open>lat=nan&lon=nan\<close> pass the range check: neither comparison with NaN holds, and
  the position of the query is not a number.\<close>

theorem nan_position_accepted:
  assumes "rq_args rq LATITUDE = Some ''nan''" and "rq_args rq LONGITUDE = Some ''nan''"
  shows "get_user_defined_lat_lon rq = (Some NaN, Some NaN)"
  using assms by (simp add: get_user_defined_lat_lon_def truthy_def py_float_nan fl_gt_def
      MAX_LATITUDE_ABSOLUTE_def MAX_LONGITUDE_ABSOLUTE_def)

definition plain_request :: "(string \<times> string) list \<Rightarrow> request" where
  "plain_request args = \<lparr>rq_path = ''/ndt'', rq_path_qs = ''/ndt'', rq_args = map_of args,
     rq_headers = Map.empty, rq_remote_addr = Some ''1.2.3.4'', rq_scheme = ''http''\<rparr>"

theorem nan_position_accepted_witness:
  "get_user_defined_lat_lon (plain_request [(''lat'', ''nan''), (''lon'', ''nan'')]) = (Some NaN, Some NaN)"
  by (rule nan_position_accepted) (simp_all add: plain_request_def LATITUDE_def LONGITUDE_def)

text \<open>the policy of a query is always one of the six, \<open>metro\<close> only with a metro and \<open>country\<close> only
  with a country of the user's; nothing else of the query changes.\<close>

theorem set_policy_valid:
  "\<exists>p. set_policy rq q = q\<lparr>lq_policy := Some p\<rparr> \<and>
     (p \<in> {POLICY_GEO, POLICY_GEO_OPTIONS, POLICY_RANDOM, POLICY_ALL} \<or>
      p = POLICY_METRO \<and> (\<exists>m. lq_metro q = Some m) \<or>
      p = POLICY_COUNTRY \<and> truthy (ud_country q))"
proof -
  define ok where "ok p \<longleftrightarrow> p \<in> {POLICY_GEO, POLICY_GEO_OPTIONS, POLICY_RANDOM, POLICY_ALL} \<or>
      p = POLICY_METRO \<and> (\<exists>m. lq_metro q = Some m) \<or> p = POLICY_COUNTRY \<and> truthy (ud_country q)" for p
  define R where "R x \<longleftrightarrow> (\<exists>p. x = q\<lparr>lq_policy := Some p\<rparr> \<and> ok p)" for x
  have some: "R (q\<lparr>lq_policy := p\<rparr>)" if "\<exists>s. p = Some s \<and> ok s" for p
    using that by (auto simp: R_def)
  have ite: "R (if c then x else y)" if "c \<Longrightarrow> R x" "\<not> c \<Longrightarrow> R y" for c x y
    using that by simp
  have set: "R (q\<lparr>lq_policy := if c then x else y\<rparr>)"
    if "c \<Longrightarrow> R (q\<lparr>lq_policy := x\<rparr>)" "\<not> c \<Longrightarrow> R (q\<lparr>lq_policy := y\<rparr>)" for c x y
    using that by simp
  have fixed: "ok POLICY_GEO" "ok POLICY_GEO_OPTIONS" "ok POLICY_RANDOM" "ok POLICY_ALL"
    "ok (get_default_policy q)" "lq_metro q \<noteq> None \<Longrightarrow> ok POLICY_METRO"
    "truthy (ud_country q) \<Longrightarrow> ok POLICY_COUNTRY"
    by (auto simp: ok_def get_default_policy_def)
  have "R (set_policy rq q)"
    unfolding set_policy_def Let_def by (intro ite set some) (use fixed in blast)+
  then show ?thesis by (simp add: R_def ok_def)
qed





text \<open>a client signature fits in a memcache key of 250 characters as long as the address has at most
  208: the resource is cut to what is left for it (at least 40), then the user agent to the rest.\<close>

theorem client_signature_fits:
  assumes "length (the (lq_ip_address q)) \<le> 208"
  shows "length (calculate_client_signature q) \<le> 250"
proof (cases "truthy (lq_ip_address q) \<and> lq_path_qs q \<noteq> []")
  case True
  define ip where "ip = the (lq_ip_address q)"
  define m where "m = 250 - int (length ip) - int (length (lq_path_qs q)) - 2"
  define k where "k = (if m < 40 then 40 else m)"
  define res where "res = (if int (length (lq_path_qs q)) > k then slice_to k (lq_path_qs q) else lq_path_qs q)"
  define u where "u = 250 - int (length ip) - int (length res) - 2"
  define ua where "ua = (if int (length (lq_user_agent q)) > u then slice_to u (lq_user_agent q) else lq_user_agent q)"
  have ip: "length ip \<le> 208" using assms by (simp add: ip_def)
  have k: "40 \<le> k" "k \<le> 40 \<or> k = m" by (auto simp: k_def)
  have "int (length res) \<le> k" using k(1) by (auto simp: res_def slice_to_def)
  then have "0 \<le> u" using k ip by (auto simp: u_def m_def)
  then have "int (length ua) \<le> u" by (auto simp: ua_def slice_to_def)
  moreover have "calculate_client_signature q = ip @ ''#'' @ ua @ ''#'' @ res"
    using True unfolding calculate_client_signature_def Let_def
      ip_def [symmetric] m_def [symmetric] k_def [symmetric] res_def [symmetric] u_def [symmetric] ua_def [symmetric]
    by simp
  ultimately show ?thesis unfolding u_def by simp
next
  case False
  then show ?thesis unfolding calculate_client_signature_def by (simp only: if_False) simp
qed

theorem client_signature_fits_witness:
  "length (calculate_client_signature (new_query\<lparr>lq_ip_address := Some ''1.2.3.4'', lq_path_qs := ''/ndt''\<rparr>)) \<le> 250"
  by (rule client_signature_fits) simp

text \<open>The limit can be exceeded: \<open>::\<close> followed by any number of zeros is a valid address, so a client
  can name one longer than 250 characters.\<close>

theorem client_signature_overflow:
  "\<exists>ip. is_valid_ip (Some ip) = Inr True \<and>
     250 < length (calculate_client_signature (new_query\<lparr>lq_ip_address := Some ip, lq_path_qs := ''/ndt''\<rparr>))"
proof (intro exI conjI)
  let ?ip = "''::'' @ replicate 300 CHR ''0''"
  show "is_valid_ip (Some ?ip) = Inr True"
    using valid_ip_long [of 300] by (simp add: is_valid_ip_total)
  show "250 < length (calculate_client_signature (new_query\<lparr>lq_ip_address := Some ?ip, lq_path_qs := ''/ndt''\<rparr>))"
    by (simp add: calculate_client_signature_def truthy_def Let_def)
qed

end
