(* ===== verification/Fetcher.thy ===== *)
theory Fetcher
  imports Model "HOL-Library.List_Lexorder" "HOL-Library.Char_ord"
begin

text \<open>
  \<open>db/sliver_tool_fetcher.py\<close>: the filters, and the fetchers that answer a set of criteria from
  the memcache, from the datastore, or from the first of the two that has an answer. Strings are
  compared as Python compares them, byte by byte (\<open>List_Lexorder\<close>).
\<close>

section \<open>Filters\<close>

definition status_attrs :: "string option \<Rightarrow> (sliver_tool \<Rightarrow> string) list" where
  "status_attrs address_family =
     (if address_family = Some ADDRESS_FAMILY_IPv4 then [st_status_ipv4]
      else if address_family = Some ADDRESS_FAMILY_IPv6 then [st_status_ipv6]
      else [st_status_ipv4, st_status_ipv6])"

definition filter_by_status :: "string option \<Rightarrow> string \<Rightarrow> sliver_tool list \<Rightarrow> sliver_tool list" where
  "filter_by_status address_family status tools =
     filter (\<lambda>tool. list_ex (\<lambda>attr. attr tool = status) (status_attrs address_family)) tools"

definition filter_by_country :: "string \<Rightarrow> sliver_tool list \<Rightarrow> sliver_tool list" where
  "filter_by_country country tools = filter (\<lambda>t. st_country t = Some country) tools"

text \<open>
  The loop of \<open>_filter_choose_one_host_per_site\<close>: the dict \<open>sites\<close>, the counters (2 for a site
  not counted yet), and the random source.
\<close>

definition min_by_fqdn :: "sliver_tool \<Rightarrow> sliver_tool \<Rightarrow> sliver_tool" where
  "min_by_fqdn a b = (if st_fqdn b < st_fqdn a then b else a)"

type_synonym choice_state = "(string \<times> sliver_tool) list \<times> (string \<Rightarrow> nat) \<times> rng"

definition choose_step :: "sliver_tool \<Rightarrow> choice_state \<Rightarrow> choice_state" where
  "choose_step t st = (case st of (sites, counter, r) \<Rightarrow>
     (let s = st_site_id t in
      case map_of sites s of
        None \<Rightarrow> (kv_set s t sites, counter, r)
      | Some cur \<Rightarrow>
          if st_roundrobin t = Some True then
            (let (u, r') = uniform01 r
             in (if u < 1 / real (counter s) then kv_set s t sites else sites,
                 counter(s := counter s + 1), r'))
          else (kv_set s (min_by_fqdn cur t) sites, counter, r)))"

definition choose_loop :: "sliver_tool list \<Rightarrow> choice_state \<Rightarrow> choice_state" where
  "choose_loop tools st = fold choose_step tools st"

definition filter_choose_one_host_per_site ::
    "env \<Rightarrow> sliver_tool list \<Rightarrow> (world, sliver_tool list) act" where
  "filter_choose_one_host_per_site E tools =
     liftRng (\<lambda>r. case choose_loop tools ([], \<lambda>_. 2, r) of
        (sites, _, r') \<Rightarrow> (map snd (dict_order (e_hash E) sites), r'))"

definition find_site_ids_for_metro :: "string \<Rightarrow> world \<Rightarrow> string list" where
  "find_site_ids_for_metro metro w =
     map si_site_id (filter (\<lambda>s. metro \<in> set (si_metro s)) (db_sites w))"

section \<open>Criteria and fetchers\<close>

record tool_properties =
  tp_tool_id :: string
  tp_status :: "string option"
  tp_all_slivers :: bool
  tp_address_family :: "string option"
  tp_metro :: "string option"
  tp_country :: "string option"

text \<open>\<open>if x:\<close> for a string that may be \<open>None\<close>.\<close>

definition is_set :: "string option \<Rightarrow> bool" where
  "is_set x \<longleftrightarrow> x \<noteq> None \<and> x \<noteq> Some []"

definition apply_status :: "tool_properties \<Rightarrow> sliver_tool list \<Rightarrow> sliver_tool list" where
  "apply_status tp tools =
     (case tp_status tp of
        Some (c # s) \<Rightarrow> filter_by_status (tp_address_family tp) (c # s) tools
      | _ \<Rightarrow> tools)"

definition apply_country :: "tool_properties \<Rightarrow> sliver_tool list \<Rightarrow> sliver_tool list" where
  "apply_country tp tools =
     (case tp_country tp of Some (c # s) \<Rightarrow> filter_by_country (c # s) tools | _ \<Rightarrow> tools)"

definition one_per_site :: "env \<Rightarrow> tool_properties \<Rightarrow> sliver_tool list \<Rightarrow> (world, sliver_tool list) act" where
  "one_per_site E tp tools =
     (if tp_all_slivers tp then retA tools else filter_choose_one_host_per_site E tools)"

definition fetch_memcache :: "env \<Rightarrow> tool_properties \<Rightarrow> (world, sliver_tool list) act" where
  "fetch_memcache E tp w =
     (if is_set (tp_metro tp) then (Inr [], w)
      else case mc_tools w (tp_tool_id tp) of
        None \<Rightarrow> (Inr [], w)
      | Some sliver_tools \<Rightarrow>
          if sliver_tools = [] then (Inr [], w)
          else one_per_site E tp (apply_country tp (apply_status tp sliver_tools)) w)"

definition gql_sliver_tools :: "tool_properties \<Rightarrow> world \<Rightarrow> sliver_tool list" where
  "gql_sliver_tools tp w =
     (let site_ids = (case tp_metro tp of Some (c # m) \<Rightarrow> Some (find_site_ids_for_metro (c # m) w) | _ \<Rightarrow> None)
      in filter (\<lambda>t. st_tool_id t = tp_tool_id tp
            \<and> (case site_ids of None \<Rightarrow> True | Some ids \<Rightarrow> st_site_id t \<in> set ids)
            \<and> (is_set (tp_country tp) \<longrightarrow> st_country t = tp_country tp))
          (db_sliver_tools w))"

definition fetch_datastore :: "env \<Rightarrow> tool_properties \<Rightarrow> (world, sliver_tool list) act" where
  "fetch_datastore E tp w = one_per_site E tp (apply_status tp (gql_sliver_tools tp w)) w"

definition fetch_tools :: "env \<Rightarrow> tool_properties \<Rightarrow> (world, sliver_tool list) act" where
  "fetch_tools E tp = bindA (fetch_memcache E tp) (\<lambda>results.
     if results \<noteq> [] then retA results else fetch_datastore E tp)"

section \<open>One host per site\<close>

definition site_choice :: "sliver_tool list \<Rightarrow> (string \<times> sliver_tool) list \<Rightarrow> bool" where
  "site_choice seen sites \<longleftrightarrow> distinct (map fst sites) \<and> fst ` set sites = st_site_id ` set seen \<and>
     (\<forall>(s, t) \<in> set sites. t \<in> set seen \<and> st_site_id t = s)"

lemma site_choice_set:
  assumes "site_choice seen sites" and "x \<in> insert t (set seen)" and "st_site_id x = st_site_id t"
    and "site_choice seen sites"
  shows "site_choice (seen @ [t]) (kv_set (st_site_id t) x sites)"
  using assms unfolding site_choice_def
  by (auto simp: keys_kv_set distinct_kv_set dest!: set_kv_set)

lemma site_choice_keep:
  "site_choice seen sites \<Longrightarrow> st_site_id t \<in> fst ` set sites \<Longrightarrow> site_choice (seen @ [t]) sites"
  unfolding site_choice_def by (auto simp: insert_absorb)

lemma choose_step_choice:
  assumes inv: "site_choice seen (fst st)"
  shows "site_choice (seen @ [t]) (fst (choose_step t st))"
proof -
  obtain sites counter r where st: "st = (sites, counter, r)" by (cases st)
  let ?s = "st_site_id t"
  have inv: "site_choice seen sites" using inv by (simp add: st)
  note set = site_choice_set [OF inv _ _ inv]
  show ?thesis
  proof (cases "map_of sites ?s")
    case None
    then show ?thesis using set [of t t] by (simp add: st choose_step_def)
  next
    case (Some cur)
    then have cur: "(?s, cur) \<in> set sites" by (rule map_of_SomeD)
    then have mem: "cur \<in> set seen" "st_site_id cur = ?s" using inv by (auto simp: site_choice_def)
    have "?s \<in> fst ` set sites" using cur by force
    then have keep: "site_choice (seen @ [t]) sites" by (rule site_choice_keep [OF inv])
    have "site_choice (seen @ [t]) (kv_set ?s (min_by_fqdn cur t) sites)"
      using mem by (intro set) (auto simp: min_by_fqdn_def)
    then show ?thesis using Some keep set [of t t]
      by (simp add: st choose_step_def Let_def split: prod.split)
  qed
qed

lemma choose_loop_choice:
  "site_choice seen (fst st) \<Longrightarrow> site_choice (seen @ ts) (fst (choose_loop ts st))"
proof (induction ts arbitrary: seen st)
  case (Cons t ts)
  from Cons.IH [OF choose_step_choice [OF Cons.prems, of t]] show ?case
    by (simp add: choose_loop_def)
qed (simp add: choose_loop_def)

lemma choose_result:
  obtains r ts where "filter_choose_one_host_per_site E tools w = (Inr ts, w\<lparr>w_rng := r\<rparr>)"
    and "set ts \<subseteq> set tools" and "distinct (map st_site_id ts)"
    and "st_site_id ` set ts = st_site_id ` set tools"
proof -
  obtain sites counter r where run: "choose_loop tools ([], \<lambda>_. 2, w_rng w) = (sites, counter, r)"
    by (cases "choose_loop tools ([], \<lambda>_. 2, w_rng w)")
  define d where "d = dict_order (e_hash E) sites"
  have "site_choice [] (fst ([], \<lambda>_. 2 :: nat, w_rng w))" by (simp add: site_choice_def)
  from choose_loop_choice [OF this, of tools] run have inv: "site_choice tools sites" by simp
  have "mset d = mset sites" by (simp add: d_def)
  then have dd: "distinct (map fst d)" using inv by (metis mset_map distinct_count_atmost_1 site_choice_def mset_eq_imp_distinct_iff)
  have set_d: "set d = set sites" by (simp add: d_def)
  have ids: "map st_site_id (map snd d) = map fst d"
    using inv set_d by (auto simp: site_choice_def)
  show thesis
  proof (rule that [of "map snd d" r])
    show "filter_choose_one_host_per_site E tools w = (Inr (map snd d), w\<lparr>w_rng := r\<rparr>)"
      by (simp add: filter_choose_one_host_per_site_def liftRng_def run d_def)
    show "set (map snd d) \<subseteq> set tools" using inv set_d by (auto simp: site_choice_def)
    show "distinct (map st_site_id (map snd d))" unfolding ids by (rule dd)
    have "st_site_id ` set (map snd d) = fst ` set d" using ids by (metis set_map)
    then show "st_site_id ` set (map snd d) = st_site_id ` set tools"
      using inv set_d by (simp add: site_choice_def)
  qed
qed

section \<open>The contract of a fetcher\<close>

text \<open>What a tool must satisfy to be an answer, the tool id apart.\<close>

definition criteria :: "tool_properties \<Rightarrow> world \<Rightarrow> sliver_tool \<Rightarrow> bool" where
  "criteria tp w t \<longleftrightarrow>
     (is_set (tp_status tp) \<longrightarrow>
        list_ex (\<lambda>attr. Some (attr t) = tp_status tp) (status_attrs (tp_address_family tp))) \<and>
     (is_set (tp_country tp) \<longrightarrow> st_country t = tp_country tp) \<and>
     (is_set (tp_metro tp) \<longrightarrow> st_site_id t \<in> set (find_site_ids_for_metro (the (tp_metro tp)) w))"

lemma criteria_rng [simp]: "criteria tp (w\<lparr>w_rng := r\<rparr>) t = criteria tp w t"
  by (simp add: criteria_def find_site_ids_for_metro_def)

text \<open>
  A source answers from a stock of tools: it always returns, changes nothing but the random
  source, returns matching tools of its stock, covers every site that has one, and returns one
  per site unless all slivers are wanted.
\<close>

definition answer_ok :: "tool_properties \<Rightarrow> sliver_tool set \<Rightarrow> sliver_tool list \<Rightarrow> bool" where
  "answer_ok tp S ts \<longleftrightarrow> set ts \<subseteq> S \<and> st_site_id ` set ts = st_site_id ` S \<and>
     (if tp_all_slivers tp then set ts = S else distinct (map st_site_id ts))"

lemma answer_ok_empty: "answer_ok tp S ts \<Longrightarrow> ts = [] \<longleftrightarrow> S = {}"
  by (auto simp: answer_ok_def)

locale tool_source =
  fixes fetch :: "tool_properties \<Rightarrow> (world, sliver_tool list) act"
    and stock :: "tool_properties \<Rightarrow> world \<Rightarrow> sliver_tool set"
  assumes answers: "\<exists>r ts. fetch tp w = (Inr ts, w\<lparr>w_rng := r\<rparr>) \<and>
      answer_ok tp {t \<in> stock tp w. criteria tp w t} ts"
    and stock_rng: "stock tp (w\<lparr>w_rng := r\<rparr>) = stock tp w"
begin

lemma fetch_cases:
  obtains r ts where "fetch tp w = (Inr ts, w\<lparr>w_rng := r\<rparr>)"
    and "answer_ok tp {t \<in> stock tp w. criteria tp w t} ts"
  using answers [of tp w] by blast

lemma fetch_answer:
  assumes "fetch tp w = (Inr ts, w')"
  shows "answer_ok tp {t \<in> stock tp w. criteria tp w t} ts" and "\<exists>r. w' = w\<lparr>w_rng := r\<rparr>"
  using fetch_cases [of tp w] assms by auto

lemma fetch_empty_iff:
  assumes "fetch tp w = (Inr ts, w')"
  shows "ts = [] \<longleftrightarrow> (\<forall>t \<in> stock tp w. \<not> criteria tp w t)"
  using answer_ok_empty [OF fetch_answer(1) [OF assms]] by auto

end

text \<open>Two sources, the second asked when the first has no answer.\<close>

definition first_of :: "('p \<Rightarrow> (world, 'a list) act) \<Rightarrow> ('p \<Rightarrow> (world, 'a list) act) \<Rightarrow> 'p \<Rightarrow> (world, 'a list) act" where
  "first_of f g p = bindA (f p) (\<lambda>results. if results \<noteq> [] then retA results else g p)"

definition either_stock ::
    "(tool_properties \<Rightarrow> world \<Rightarrow> sliver_tool set) \<Rightarrow> (tool_properties \<Rightarrow> world \<Rightarrow> sliver_tool set) \<Rightarrow>
     tool_properties \<Rightarrow> world \<Rightarrow> sliver_tool set" where
  "either_stock s1 s2 tp w = (if \<exists>t \<in> s1 tp w. criteria tp w t then s1 tp w else s2 tp w)"

locale fallback_source = primary: tool_source f1 s1 + secondary: tool_source f2 s2
  for f1 s1 f2 s2
begin

lemma fallback_answers:
  "\<exists>r ts. first_of f1 f2 tp w = (Inr ts, w\<lparr>w_rng := r\<rparr>) \<and>
      answer_ok tp {t \<in> either_stock s1 s2 tp w. criteria tp w t} ts"
proof -
  obtain r ts where f1: "f1 tp w = (Inr ts, w\<lparr>w_rng := r\<rparr>)"
    and ts: "answer_ok tp {t \<in> s1 tp w. criteria tp w t} ts"
    by (rule primary.fetch_cases)
  note empty = primary.fetch_empty_iff [OF f1]
  show ?thesis
  proof (cases "ts = []")
    case False
    then have "first_of f1 f2 tp w = (Inr ts, w\<lparr>w_rng := r\<rparr>)" using f1 by (simp add: first_of_def)
    moreover have "either_stock s1 s2 tp w = s1 tp w" using False empty by (simp add: either_stock_def)
    ultimately show ?thesis using ts by auto
  next
    case True
    then have stock: "either_stock s1 s2 tp w = s2 tp w" using empty by (simp add: either_stock_def)
    obtain r' ts' where f2: "f2 tp (w\<lparr>w_rng := r\<rparr>) = (Inr ts', w\<lparr>w_rng := r, w_rng := r'\<rparr>)"
      and ts': "answer_ok tp {t \<in> s2 tp (w\<lparr>w_rng := r\<rparr>). criteria tp (w\<lparr>w_rng := r\<rparr>) t} ts'"
      by (rule secondary.fetch_cases)
    have "first_of f1 f2 tp w = (Inr ts', w\<lparr>w_rng := r'\<rparr>)" using f1 True f2 by (simp add: first_of_def)
    then show ?thesis using ts' unfolding stock secondary.stock_rng criteria_rng by blast
  qed
qed

lemma fallback_stock_rng: "either_stock s1 s2 tp (w\<lparr>w_rng := r\<rparr>) = either_stock s1 s2 tp w"
  by (simp add: either_stock_def primary.stock_rng secondary.stock_rng)

end

sublocale fallback_source \<subseteq> either: tool_source "first_of f1 f2" "either_stock s1 s2"
  by unfold_locales (rule fallback_answers, rule fallback_stock_rng)

section \<open>The memcache, the datastore and both are sources\<close>

definition stock_memcache :: "tool_properties \<Rightarrow> world \<Rightarrow> sliver_tool set" where
  "stock_memcache tp w =
     (if is_set (tp_metro tp) then {}
      else case mc_tools w (tp_tool_id tp) of None \<Rightarrow> {} | Some ts \<Rightarrow> set ts)"

definition stock_datastore :: "tool_properties \<Rightarrow> world \<Rightarrow> sliver_tool set" where
  "stock_datastore tp w = {t \<in> set (db_sliver_tools w). st_tool_id t = tp_tool_id tp}"

lemma set_apply_status:
  "set (apply_status tp ts) = {t \<in> set ts. is_set (tp_status tp) \<longrightarrow>
     list_ex (\<lambda>attr. Some (attr t) = tp_status tp) (status_attrs (tp_address_family tp))}"
  by (auto simp: apply_status_def filter_by_status_def is_set_def split: option.splits list.splits)

lemma set_apply_country:
  "set (apply_country tp ts) = {t \<in> set ts. is_set (tp_country tp) \<longrightarrow> st_country t = tp_country tp}"
  by (auto simp: apply_country_def filter_by_country_def is_set_def split: option.splits list.splits)

lemma set_gql_sliver_tools:
  "set (gql_sliver_tools tp w) = {t \<in> stock_datastore tp w.
     (is_set (tp_metro tp) \<longrightarrow> st_site_id t \<in> set (find_site_ids_for_metro (the (tp_metro tp)) w)) \<and>
     (is_set (tp_country tp) \<longrightarrow> st_country t = tp_country tp)}"
  by (auto simp: gql_sliver_tools_def stock_datastore_def is_set_def Let_def split: option.splits list.splits)

lemma one_per_site_answers:
  "\<exists>r ts. one_per_site E tp tools w = (Inr ts, w\<lparr>w_rng := r\<rparr>) \<and> answer_ok tp (set tools) ts"
proof (cases "tp_all_slivers tp")
  case True
  have "one_per_site E tp tools w = (Inr tools, w\<lparr>w_rng := w_rng w\<rparr>)"
    using True by (simp add: one_per_site_def)
  moreover have "answer_ok tp (set tools) tools" using True by (simp add: answer_ok_def)
  ultimately show ?thesis by blast
next
  case False
  obtain r ts where "filter_choose_one_host_per_site E tools w = (Inr ts, w\<lparr>w_rng := r\<rparr>)"
    "set ts \<subseteq> set tools" "distinct (map st_site_id ts)" "st_site_id ` set ts = st_site_id ` set tools"
    by (rule choose_result)
  with False show ?thesis by (intro exI conjI) (auto simp: one_per_site_def answer_ok_def)
qed

lemma no_answer: "\<exists>r ts. (Inr [], w) = (Inr ts, w\<lparr>w_rng := r\<rparr>) \<and> answer_ok tp {} ts"
  by (intro exI [of _ "w_rng w"] exI [of _ "[]"]) (simp add: answer_ok_def)

lemma fetch_memcache_answers:
  "\<exists>r ts. fetch_memcache E tp w = (Inr ts, w\<lparr>w_rng := r\<rparr>) \<and>
     answer_ok tp {t \<in> stock_memcache tp w. criteria tp w t} ts"
proof (cases "is_set (tp_metro tp)")
  case True
  then show ?thesis using no_answer by (simp add: fetch_memcache_def stock_memcache_def)
next
  case metro: False
  show ?thesis
  proof (cases "mc_tools w (tp_tool_id tp)")
    case None
    with metro show ?thesis using no_answer by (simp add: fetch_memcache_def stock_memcache_def)
  next
    case (Some cached)
    show ?thesis
    proof (cases "cached = []")
      case True
      with metro Some show ?thesis using no_answer by (simp add: fetch_memcache_def stock_memcache_def)
    next
      case False
      have "set (apply_country tp (apply_status tp cached)) = {t \<in> stock_memcache tp w. criteria tp w t}"
        using metro Some by (auto simp: set_apply_country set_apply_status criteria_def stock_memcache_def)
      then show ?thesis using metro Some False
          one_per_site_answers [of E tp "apply_country tp (apply_status tp cached)" w]
        by (simp add: fetch_memcache_def)
    qed
  qed
qed

lemma fetch_datastore_answers:
  "\<exists>r ts. fetch_datastore E tp w = (Inr ts, w\<lparr>w_rng := r\<rparr>) \<and>
     answer_ok tp {t \<in> stock_datastore tp w. criteria tp w t} ts"
proof -
  have "set (apply_status tp (gql_sliver_tools tp w)) = {t \<in> stock_datastore tp w. criteria tp w t}"
    by (auto simp: set_apply_status set_gql_sliver_tools criteria_def)
  then show ?thesis
    using one_per_site_answers [of E tp "apply_status tp (gql_sliver_tools tp w)" w]
    by (simp add: fetch_datastore_def)
qed

interpretation memcache: tool_source "fetch_memcache E" stock_memcache for E
  by unfold_locales (rule fetch_memcache_answers, simp add: stock_memcache_def)

interpretation datastore: tool_source "fetch_datastore E" stock_datastore for E
  by unfold_locales (rule fetch_datastore_answers, simp add: stock_datastore_def)

lemma fetch_tools_first_of: "fetch_tools E = first_of (fetch_memcache E) (fetch_datastore E)"
  by (rule ext) (simp add: fetch_tools_def first_of_def)

text \<open>The tools a fetch can return: those of the memcache if one of them matches, else those of
  the datastore.\<close>

definition stock_tools :: "tool_properties \<Rightarrow> world \<Rightarrow> sliver_tool set" where
  "stock_tools = either_stock stock_memcache stock_datastore"

interpretation cached: fallback_source "fetch_memcache E" stock_memcache "fetch_datastore E" stock_datastore
  for E
  by unfold_locales

interpretation tools: tool_source "fetch_tools E" stock_tools for E
  unfolding fetch_tools_first_of stock_tools_def by (rule cached.either.tool_source_axioms)

section \<open>Which host of a site is chosen\<close>

lemma choose_step_other: "st_site_id t \<noteq> s \<Longrightarrow> map_of (fst (choose_step t st)) s = map_of (fst st) s"
  by (cases st) (auto simp: choose_step_def Let_def map_of_kv_set split: option.split prod.split)

lemma choose_step_min:
  assumes "st_roundrobin t \<noteq> Some True"
  shows "map_of (fst (choose_step t st)) (st_site_id t) =
    Some (case map_of (fst st) (st_site_id t) of None \<Rightarrow> t | Some cur \<Rightarrow> min_by_fqdn cur t)"
  using assms by (cases st) (auto simp: choose_step_def Let_def map_of_kv_set split: option.split)

lemma min_by_fqdn_le: "st_fqdn (min_by_fqdn a b) \<le> st_fqdn a" "st_fqdn (min_by_fqdn a b) \<le> st_fqdn b"
  by (auto simp: min_by_fqdn_def)

lemma choose_loop_min:
  assumes "\<forall>t \<in> set ts. st_site_id t = s \<longrightarrow> st_roundrobin t \<noteq> Some True"
    and "map_of (fst (choose_loop ts st)) s = Some m"
  shows "(\<forall>t \<in> set ts. st_site_id t = s \<longrightarrow> st_fqdn m \<le> st_fqdn t) \<and>
    (\<forall>cur. map_of (fst st) s = Some cur \<longrightarrow> st_fqdn m \<le> st_fqdn cur)"
  using assms
proof (induction ts arbitrary: st)
  case (Cons t ts)
  have run: "choose_loop (t # ts) st = choose_loop ts (choose_step t st)" by (simp add: choose_loop_def)
  with Cons have ih: "(\<forall>t \<in> set ts. st_site_id t = s \<longrightarrow> st_fqdn m \<le> st_fqdn t) \<and>
      (\<forall>cur. map_of (fst (choose_step t st)) s = Some cur \<longrightarrow> st_fqdn m \<le> st_fqdn cur)" by auto
  show ?case
  proof (cases "st_site_id t = s")
    case False
    with ih show ?thesis by (simp add: choose_step_other)
  next
    case True
    with Cons.prems have "st_roundrobin t \<noteq> Some True" by simp
    with True ih have "st_fqdn m \<le> st_fqdn (case map_of (fst st) s of None \<Rightarrow> t | Some cur \<Rightarrow> min_by_fqdn cur t)"
      by (auto simp: choose_step_min)
    then show ?thesis using True ih min_by_fqdn_le by (fastforce split: option.splits intro: order_trans)
  qed
qed (simp add: choose_loop_def)

definition hits :: "rng \<Rightarrow> nat \<Rightarrow> nat set" where
  "hits r n = {i. 1 \<le> i \<and> i \<le> n \<and> unit_of (r !! (i - 1)) < 1 / real (i + 1)}"

lemma finite_hits [simp]: "finite (hits r n)"
  by (rule finite_subset [of _ "{..n}"]) (auto simp: hits_def)

lemma hits_Suc:
  "hits r (Suc n) = (if unit_of (r !! n) < 1 / real (n + 2) then insert (Suc n) (hits r n) else hits r n)"
proof (rule set_eqI)
  fix i
  have "i \<le> Suc n \<longleftrightarrow> i \<le> n \<or> i = Suc n" by (rule le_Suc_eq)
  moreover have "real (Suc n + 1) = real (n + 2)" by simp
  ultimately show "i \<in> hits r (Suc n) \<longleftrightarrow>
      i \<in> (if unit_of (r !! n) < 1 / real (n + 2) then insert (Suc n) (hits r n) else hits r n)"
    unfolding hits_def by (cases "i = Suc n") (simp_all split: if_split)
qed

lemma hits_0 [simp]: "hits r 0 = {}"
  by (auto simp: hits_def)

lemma Max_hits_le: "Max (insert 0 (hits r n)) \<le> n"
  by (subst Max_le_iff) (auto simp: hits_def)

lemma Max_hits_Suc:
  "Max (insert 0 (hits r (Suc n))) =
     (if unit_of (r !! n) < 1 / real (n + 2) then Suc n else Max (insert 0 (hits r n)))"
proof (cases "unit_of (r !! n) < 1 / real (n + 2)")
  case True
  have "Max (insert 0 (hits r (Suc n))) = max (Suc n) (Max (insert 0 (hits r n)))"
    using True by (simp only: hits_Suc if_True insert_commute [of 0]) (rule Max_insert, auto)
  also have "\<dots> = Suc n" by (rule max_absorb1) (rule le_SucI, rule Max_hits_le)
  finally show ?thesis using True by simp
qed (simp add: hits_Suc)

lemma choose_loop_reservoir:
  assumes "\<forall>t \<in> set ts. st_site_id t = st_site_id t0 \<and> st_roundrobin t = Some True"
  shows "\<exists>counter. choose_loop (t0 # ts) ([], \<lambda>_. 2, r) =
    ([(st_site_id t0, (t0 # ts) ! Max (insert 0 (hits r (length ts))))], counter, sdrop (length ts) r) \<and>
    counter (st_site_id t0) = length ts + 2"
  using assms
proof (induction ts rule: rev_induct)
  case Nil
  then show ?case by (simp add: choose_loop_def choose_step_def)
next
  case (snoc t ts)
  define k where "k = Max (insert 0 (hits r (length ts)))"
  have le: "k \<le> length ts" unfolding k_def by (rule Max_hits_le)
  from snoc obtain counter where run: "choose_loop (t0 # ts) ([], \<lambda>_. 2, r) =
      ([(st_site_id t0, (t0 # ts) ! k)], counter, sdrop (length ts) r)"
    and c: "counter (st_site_id t0) = length ts + 2" by (auto simp: k_def)
  have t: "st_site_id t = st_site_id t0" "st_roundrobin t = Some True" using snoc.prems by auto
  have "choose_loop (t0 # ts @ [t]) ([], \<lambda>_. 2, r) =
      choose_step t (choose_loop (t0 # ts) ([], \<lambda>_. 2, r))" by (simp add: choose_loop_def)
  moreover have "(t0 # ts @ [t]) ! k = (t0 # ts) ! k"
    using le by (metis append_Cons le_imp_less_Suc length_Cons nth_append)
  moreover have "uniform01 (sdrop (length ts) r) = (unit_of (r !! length ts), sdrop (Suc (length ts)) r)"
    by (simp add: uniform01_def sdrop_simps flip: sdrop_stl)
  ultimately show ?case using c t
    by (simp add: run choose_step_def Max_hits_Suc nth_append Let_def flip: k_def)
qed

section \<open>Properties\<close>

text \<open>C9: a fetch always returns, changes nothing but the random source, and answers from one stock
  (the memcache if it has a matching tool, else the datastore) with tools that meet every
  criterion, covering each site that has one; unless all slivers are wanted it returns one tool
  per site.\<close>

theorem fetch_tools_answers:
  "\<exists>r ts. fetch_tools E tp w = (Inr ts, w\<lparr>w_rng := r\<rparr>) \<and>
     answer_ok tp {t \<in> stock_tools tp w. criteria tp w t} ts"
  by (rule tools.fetch_cases) blast

text \<open>in a site without round robin, the chosen host is the one with the least name.\<close>

theorem chosen_host_least:
  assumes "filter_choose_one_host_per_site E tools w = (Inr ts, w')" and "m \<in> set ts"
    and "\<forall>t \<in> set tools. st_site_id t = st_site_id m \<longrightarrow> st_roundrobin t \<noteq> Some True"
  shows "\<forall>t \<in> set tools. st_site_id t = st_site_id m \<longrightarrow> st_fqdn m \<le> st_fqdn t"
proof -
  obtain sites counter r where run: "choose_loop tools ([], \<lambda>_. 2, w_rng w) = (sites, counter, r)"
    by (cases "choose_loop tools ([], \<lambda>_. 2, w_rng w)")
  have "site_choice [] (fst ([], \<lambda>_. 2 :: nat, w_rng w))" by (simp add: site_choice_def)
  from choose_loop_choice [OF this, of tools] run have inv: "site_choice tools sites" by simp
  have "ts = map snd (dict_order (e_hash E) sites)"
    using assms(1) by (simp add: filter_choose_one_host_per_site_def liftRng_def run)
  then obtain s where s: "(s, m) \<in> set sites" using assms(2) by auto
  then have "s = st_site_id m" "map_of sites s = Some m"
    using inv by (auto simp: site_choice_def)
  then show ?thesis using choose_loop_min [OF assms(3)] run by (metis fst_conv)
qed

theorem chosen_host_least_witness:
  "st_fqdn (sample_sliver ''ndt'' ''ath01'' ''a'') \<le> st_fqdn (sample_sliver ''ndt'' ''ath01'' ''b'')"
proof -
  let ?a = "sample_sliver ''ndt'' ''ath01'' ''a''" and ?b = "sample_sliver ''ndt'' ''ath01'' ''b''"
  have "filter_choose_one_host_per_site idle_env [?b, ?a] idle_world = (Inr [?a], idle_world)"
    by (simp add: filter_choose_one_host_per_site_def liftRng_def choose_loop_def choose_step_def
        min_by_fqdn_def sample_sliver_def dict_order_def idle_world_def less_char_def Let_def)
  from chosen_host_least [OF this, of ?a] show ?thesis by (simp add: sample_sliver_def)
qed

text \<open>a round-robin site is sampled by reservoir: after \<open>n\<close> hosts of the site the choice is the last
  host whose draw fell below one over its position, and the first host if there is none.\<close>

theorem round_robin_reservoir:
  assumes "\<forall>t \<in> set ts. st_site_id t = st_site_id t0 \<and> st_roundrobin t = Some True"
  shows "filter_choose_one_host_per_site E (t0 # ts) w =
    (Inr [(t0 # ts) ! Max (insert 0 (hits (w_rng w) (length ts)))],
     w\<lparr>w_rng := sdrop (length ts) (w_rng w)\<rparr>)"
proof -
  obtain counter where "choose_loop (t0 # ts) ([], \<lambda>_. 2, w_rng w) =
    ([(st_site_id t0, (t0 # ts) ! Max (insert 0 (hits (w_rng w) (length ts))))], counter,
     sdrop (length ts) (w_rng w))" using choose_loop_reservoir [OF assms, of "w_rng w"] by blast
  then show ?thesis
    by (simp add: filter_choose_one_host_per_site_def liftRng_def dict_order_def)
qed

theorem round_robin_reservoir_witness:
  "filter_choose_one_host_per_site idle_env [sample_sliver ''ndt'' ''ath01'' ''b'',
       (sample_sliver ''ndt'' ''ath01'' ''a'')\<lparr>st_roundrobin := Some True\<rparr>] idle_world =
     (Inr [(sample_sliver ''ndt'' ''ath01'' ''a'')\<lparr>st_roundrobin := Some True\<rparr>],
      idle_world\<lparr>w_rng := sdrop 1 zero_rng\<rparr>)"
proof -
  have "Max (insert 0 (hits zero_rng 1)) = 1"
    using Max_hits_Suc [of zero_rng 0] by (simp add: zero_rng_def unit_of_def)
  then show ?thesis
    using round_robin_reservoir [of "[(sample_sliver ''ndt'' ''ath01'' ''a'')\<lparr>st_roundrobin := Some True\<rparr>]"
        "sample_sliver ''ndt'' ''ath01'' ''b''" idle_env idle_world]
    by (simp add: sample_sliver_def idle_world_def)
qed

end
