(* ===== verification/Distance.thy ===== *)
theory Distance
  imports Constants PyFloat
begin

text \<open>
  \<open>util/distance.py\<close>: the haversine formula, on real numbers (rounding is not modelled). The
  \<open>math\<close> functions raise \<open>ValueError\<close> on an infinite argument and pass a NaN on.
\<close>

definition atan2 :: "real \<Rightarrow> real \<Rightarrow> real" where
  "atan2 y x =
     (if 0 < x then arctan (y / x)
      else if x < 0 then (if 0 \<le> y then arctan (y / x) + pi else arctan (y / x) - pi)
      else if 0 < y then pi / 2 else if y < 0 then - (pi / 2) else 0)"

definition radians :: "real \<Rightarrow> real" where
  "radians x = x * pi / 180"

definition haversine :: "real \<Rightarrow> real \<Rightarrow> real \<Rightarrow> real \<Rightarrow> real" where
  "haversine lat1 lon1 lat2 lon2 =
     (let dlat = radians (lat2 - lat1);
          dlon = radians (lon2 - lon1);
          a = sin (dlat / 2) * sin (dlat / 2) + cos (radians lat1) * cos (radians lat2) * sin (dlon / 2) * sin (dlon / 2);
          c = 2 * atan2 (sqrt a) (sqrt (1 - a))
      in EARTH_RADIUS * c)"

definition is_inf :: "pyfloat \<Rightarrow> bool" where
  "is_inf x \<longleftrightarrow> x = PInf \<or> x = NInf"

definition distance :: "pyfloat \<Rightarrow> pyfloat \<Rightarrow> pyfloat \<Rightarrow> pyfloat \<Rightarrow> pyfloat res" where
  "distance lat1 lon1 lat2 lon2 =
     (if is_inf (fl_sub lat2 lat1) \<or> is_inf (fl_sub lon2 lon1) \<or> is_inf lat1 \<or> is_inf lat2
      then Inl ValueError
      else case (lat1, lon1, lat2, lon2) of
        (Fin a, Fin b, Fin c, Fin d) \<Rightarrow> Inr (Fin (haversine a b c d))
      | _ \<Rightarrow> Inr NaN)"

section \<open>The formula is the great-circle distance\<close>

definition central_cos :: "real \<Rightarrow> real \<Rightarrow> real \<Rightarrow> real \<Rightarrow> real" where
  "central_cos lat1 lon1 lat2 lon2 =
     sin (radians lat1) * sin (radians lat2) +
     cos (radians lat1) * cos (radians lat2) * cos (radians (lon2 - lon1))"

definition great_circle :: "real \<Rightarrow> real \<Rightarrow> real \<Rightarrow> real \<Rightarrow> real" where
  "great_circle lat1 lon1 lat2 lon2 = EARTH_RADIUS * arccos (central_cos lat1 lon1 lat2 lon2)"

lemma sin_half_squared: "sin (x / 2) * sin (x / 2) = (1 - cos x) / 2" for x :: real
  using cos_double_sin [of "x / 2"] by (simp add: power2_eq_square)

lemma cos_half_squared: "cos (x / 2) * cos (x / 2) = (1 + cos x) / 2" for x :: real
  using cos_double_cos [of "x / 2"] by (simp add: power2_eq_square)

lemma radians_diff: "radians (a - b) = radians a - radians b"
  by (simp add: radians_def field_simps)

lemma haversine_arg:
  "sin (radians (lat2 - lat1) / 2) * sin (radians (lat2 - lat1) / 2) +
   cos (radians lat1) * cos (radians lat2) * sin (radians (lon2 - lon1) / 2) * sin (radians (lon2 - lon1) / 2)
   = (1 - central_cos lat1 lon1 lat2 lon2) / 2"
proof -
  have s: "sin (x / 2) * sin (x / 2) = (1 - cos x) / 2" for x :: real by (rule sin_half_squared)
  have "k * sin (x / 2) * sin (x / 2) = k * ((1 - cos x) / 2)" for k x :: real
    by (simp only: mult.assoc s)
  then show ?thesis
    by (simp only: s central_cos_def radians_diff [of lat2 lat1] cos_diff) (simp add: field_simps)
qed

lemma central_cos_bounds: "\<bar>central_cos lat1 lon1 lat2 lon2\<bar> \<le> 1"
proof -
  define s1 s2 c1 c2 k where defs: "s1 = sin (radians lat1)" "s2 = sin (radians lat2)"
    "c1 = cos (radians lat1)" "c2 = cos (radians lat2)" "k = cos (radians (lon2 - lon1))"
  have u: "s1\<^sup>2 + c1\<^sup>2 = 1" "s2\<^sup>2 + c2\<^sup>2 = 1" by (simp_all add: defs)
  have am: "\<bar>x * y\<bar> \<le> (x\<^sup>2 + y\<^sup>2) / 2" for x y :: real
    using sum_squares_bound [of "\<bar>x\<bar>" "\<bar>y\<bar>"] by (simp add: abs_mult)
  have "\<bar>c1 * c2 * k\<bar> \<le> \<bar>c1 * c2\<bar>"
    using mult_left_le [of "\<bar>k\<bar>" "\<bar>c1 * c2\<bar>"] by (simp add: defs abs_mult)
  then have "\<bar>s1 * s2 + c1 * c2 * k\<bar> \<le> (s1\<^sup>2 + s2\<^sup>2) / 2 + (c1\<^sup>2 + c2\<^sup>2) / 2"
    using am [of s1 s2] am [of c1 c2] by linarith
  also have "(s1\<^sup>2 + s2\<^sup>2) / 2 + (c1\<^sup>2 + c2\<^sup>2) / 2 = ((s1\<^sup>2 + c1\<^sup>2) + (s2\<^sup>2 + c2\<^sup>2)) / 2"
    by (simp add: add_divide_distrib)
  also have "\<dots> = 1" unfolding u by simp
  finally have "\<bar>s1 * s2 + c1 * c2 * k\<bar> \<le> 1" .
  then show ?thesis by (simp only: central_cos_def defs)
qed

lemma atan2_half_angle:
  assumes "0 \<le> x" and "x \<le> pi"
  shows "atan2 (sin (x / 2)) (cos (x / 2)) = x / 2"
proof (cases "x = pi")
  case True
  then show ?thesis by (simp add: atan2_def)
next
  case False
  with assms have x: "- (pi / 2) < x / 2" "x / 2 < pi / 2" by auto
  then have "0 < cos (x / 2)" by (intro cos_gt_zero_pi) auto
  then show ?thesis using arctan_tan [OF x] by (simp add: atan2_def tan_def)
qed

lemma haversine_great_circle: "haversine lat1 lon1 lat2 lon2 = great_circle lat1 lon1 lat2 lon2"
proof -
  let ?d = "central_cos lat1 lon1 lat2 lon2"
  define x where "x = arccos ?d"
  have d: "-1 \<le> ?d" "?d \<le> 1" using central_cos_bounds [of lat1 lon1 lat2 lon2] by linarith+
  have x: "0 \<le> x" "x \<le> pi" "cos x = ?d"
    unfolding x_def using d by (auto intro: arccos_lbound arccos_ubound cos_arccos)
  have "0 \<le> sin (x / 2)" using x by (intro sin_ge_zero) auto
  then have s: "sqrt ((1 - ?d) / 2) = sin (x / 2)"
    using sin_half_squared [of x] x(3) by (metis real_sqrt_abs2 abs_of_nonneg)
  have "0 \<le> cos (x / 2)" using x by (intro cos_ge_zero) auto
  moreover have "1 - (1 - ?d) / 2 = (1 + ?d) / 2" by (simp add: divide_simps)
  ultimately have c: "sqrt (1 - (1 - ?d) / 2) = cos (x / 2)"
    using cos_half_squared [of x] x(3) by (metis real_sqrt_abs2 abs_of_nonneg)
  show ?thesis
    unfolding haversine_def Let_def haversine_arg s c atan2_half_angle [OF x(1,2)] great_circle_def
    by (simp add: x_def)
qed

lemma great_circle_bounds: "0 \<le> great_circle a b c d \<and> great_circle a b c d \<le> EARTH_RADIUS * pi"
proof -
  have "-1 \<le> central_cos a b c d" "central_cos a b c d \<le> 1"
    using central_cos_bounds [of a b c d] by linarith+
  then have "0 \<le> arccos (central_cos a b c d)" "arccos (central_cos a b c d) \<le> pi"
    by (auto intro: arccos_lbound arccos_ubound)
  then show ?thesis by (simp add: great_circle_def EARTH_RADIUS_def)
qed

lemma central_cos_commute: "central_cos a b c d = central_cos c d a b"
proof -
  have "radians (b - d) = - radians (d - b)" by (simp add: radians_def field_simps)
  then show ?thesis by (simp add: central_cos_def mult.commute)
qed

lemma central_cos_self: "central_cos a b a b = 1"
proof -
  have "radians (b - b) = 0" by (simp add: radians_def)
  then show ?thesis
    using sin_cos_squared_add [of "radians a"] by (simp add: central_cos_def power2_eq_square)
qed

lemma distance_Fin: "distance (Fin a) (Fin b) (Fin c) (Fin d) = Inr (Fin (great_circle a b c d))"
  by (simp add: distance_def is_inf_def haversine_great_circle)

section \<open>Properties\<close>


text \<open>Distance has a value for every pair of positions except those whose coordinates are infinite;
  a NaN coordinate gives NaN, never an exception.\<close>

theorem distance_error_iff:
  "(\<exists>e. distance a b c d = Inl e) \<longleftrightarrow>
     is_inf a \<or> is_inf c \<or> is_inf (fl_sub c a) \<or> is_inf (fl_sub d b)"
  by (auto simp: distance_def split: pyfloat.splits)

end
