(* ===== verification/Resolver.thy ===== *)
theory Resolver
  imports LookupQuery Fetcher Distance "HOL-Library.Multiset"
begin

text \<open>
  \<open>util/resolver.py\<close>: one resolver per policy, each answering a query with sliver tools or with
  \<open>None\<close>. The resolver objects are the values of a datatype that carry the client signature.
\<close>

section \<open>Candidates\<close>

definition tool_properties_from_query :: "lookup_query \<Rightarrow> tool_properties" where
  "tool_properties_from_query q =
     \<lparr>tp_tool_id = lq_tool_id q, tp_status = Some STATUS_ONLINE, tp_all_slivers = False,
      tp_address_family = (if truthy (lq_tool_address_family q) then lq_tool_address_family q else None),
      tp_metro = None, tp_country = None\<rparr>"

definition fetch_tools_with_properties :: "env \<Rightarrow> tool_properties \<Rightarrow> (world, sliver_tool list option) act" where
  "fetch_tools_with_properties E tp =
     bindA (fetch_tools E tp) (\<lambda>candidates. retA (if candidates = [] then None else Some candidates))"

datatype resolver =
    AllResolver string
  | GeoResolver string
  | GeoResolverWithOptions string
  | MetroResolver string
  | RandomResolver string
  | CountryResolver string

definition query_properties :: "resolver \<Rightarrow> lookup_query \<Rightarrow> tool_properties" where
  "query_properties R q =
     (let tp = tool_properties_from_query q in
      case R of
        MetroResolver _ \<Rightarrow> tp\<lparr>tp_metro := lq_metro q\<rparr>
      | CountryResolver _ \<Rightarrow> tp\<lparr>tp_country := lq_country q\<rparr>
      | _ \<Rightarrow> tp)"

definition get_matching_candidates :: "env \<Rightarrow> resolver \<Rightarrow> lookup_query \<Rightarrow> (world, sliver_tool list option) act" where
  "get_matching_candidates E R q = fetch_tools_with_properties E (query_properties R q)"

section \<open>Geographic resolution\<close>

definition site_keep_probability :: "(string \<times> real) list" where
  "site_keep_probability =
     [(''bom01'', 1/2), (''hnd01'', 1/5), (''lga1t'', 1/2), (''lis01'', 1/2), (''lju01'', 1/2),
      (''tnr01'', 1/2), (''tun01'', 1/2), (''vie01'', 1/2), (''yqm01'', 1/2), (''yul02'', 1/5),
      (''yvr01'', 1/5), (''ywg01'', 1/2), (''yyc02'', 1/2), (''yyz02'', 1/5)]"

definition keep_probability :: "string \<Rightarrow> real" where
  "keep_probability site_id =
     (case map_of site_keep_probability site_id of None \<Rightarrow> 1 | Some p \<Rightarrow> p)"

type_synonym distances = "(string \<times> pyfloat) list \<times> (pyfloat \<times> sliver_tool) list"

definition add_candidate :: "lookup_query \<Rightarrow> sliver_tool \<Rightarrow> distances \<Rightarrow> distances res" where
  "add_candidate q candidate ds =
     (case ds of (site_distances, tool_distances) \<Rightarrow>
        if st_site_id candidate \<in> fst ` set site_distances then Inr ds
        else bindR (distance (the (lq_latitude q)) (the (lq_longitude q))
                      (st_latitude candidate) (st_longitude candidate)) (\<lambda>d.
          Inr (kv_set (st_site_id candidate) d site_distances, tool_distances @ [(d, candidate)])))"

fun add_candidates :: "lookup_query \<Rightarrow> sliver_tool list \<Rightarrow> distances \<Rightarrow> (world, distances) act" where
  "add_candidates q [] ds = retA ds"
| "add_candidates q (c # cs) ds =
     bindA (liftRng uniform01) (\<lambda>u.
       if u < keep_probability (st_site_id c)
       then bindA (liftR (add_candidate q c ds)) (\<lambda>ds. add_candidates q cs ds)
       else add_candidates q cs ds)"

text \<open>\<open>tool_distances.sort(key=...)\<close>: a stable sort by \<open><\<close> on the distances.\<close>

fun insert_by_distance :: "pyfloat \<times> 'a \<Rightarrow> (pyfloat \<times> 'a) list \<Rightarrow> (pyfloat \<times> 'a) list" where
  "insert_by_distance x [] = [x]"
| "insert_by_distance x (y # ys) =
     (if fl_less (fst y) (fst x) then y # insert_by_distance x ys else x # y # ys)"

definition sort_by_distance :: "(pyfloat \<times> 'a) list \<Rightarrow> (pyfloat \<times> 'a) list" where
  "sort_by_distance xs = foldr insert_by_distance xs []"

text \<open>\<open>c.site_id[-1]\<close>\<close>

definition last_char :: "string \<Rightarrow> char res" where
  "last_char s = (if s = [] then Inl IndexError else Inr (last s))"

definition get_closest_n_candidates ::
    "env \<Rightarrow> string \<Rightarrow> resolver \<Rightarrow> nat \<Rightarrow> lookup_query \<Rightarrow> (world, sliver_tool list option) act" where
  "get_closest_n_candidates E client_signature R max_results q =
     bindA (get_matching_candidates E R q) (\<lambda>found.
     case found of
       None \<Rightarrow> retA None
     | Some candidates \<Rightarrow>
         if lq_latitude q = None \<or> lq_longitude q = None then
           bindA (liftRngR (sample candidates (min (length candidates) max_results))) (\<lambda>ts. retA (Some ts))
         else
           bindA (liftRng (shuffle candidates)) (\<lambda>candidates.
           bindA (getA (fetch_client_signature client_signature)) (\<lambda>prob.
           bindA (liftRng uniform01) (\<lambda>u.
           bindA (liftR (filterR (\<lambda>c. bindR (last_char (st_site_id c)) (\<lambda>l.
                    Inr (if fl_gt (Fin u) prob then l = CHR ''c'' else l \<noteq> CHR ''c''))) candidates)) (\<lambda>filtered.
           bindA (add_candidates q filtered ([], [])) (\<lambda>ds.
           retA (Some (take max_results (map snd (sort_by_distance (snd ds)))))))))))"

section \<open>Answers\<close>

definition choose_one :: "sliver_tool list option \<Rightarrow> (world, sliver_tool list option) act" where
  "choose_one found = (case found of
      None \<Rightarrow> retA None
    | Some candidates \<Rightarrow> bindA (liftRngR (choice candidates)) (\<lambda>t. retA (Some [t])))"

definition answer_query :: "env \<Rightarrow> resolver \<Rightarrow> lookup_query \<Rightarrow> (world, sliver_tool list option) act" where
  "answer_query E R q = (case R of
      AllResolver _ \<Rightarrow> get_matching_candidates E R q
    | GeoResolver s \<Rightarrow> get_closest_n_candidates E s R 1 q
    | GeoResolverWithOptions s \<Rightarrow> get_closest_n_candidates E s R 4 q
    | MetroResolver _ \<Rightarrow>
        if \<not> truthy (lq_metro q) then retA None
        else bindA (get_matching_candidates E R q) choose_one
    | RandomResolver _ \<Rightarrow> bindA (get_matching_candidates E R q) choose_one
    | CountryResolver _ \<Rightarrow>
        if \<not> truthy (lq_country q) then retA None
        else bindA (get_matching_candidates E R q) choose_one)"

definition new_resolver :: "string option \<Rightarrow> string \<Rightarrow> resolver" where
  "new_resolver policy client_signature =
     (if policy = Some POLICY_GEO then GeoResolver client_signature
      else if policy = Some POLICY_METRO then MetroResolver client_signature
      else if policy = Some POLICY_RANDOM then RandomResolver client_signature
      else if policy = Some POLICY_COUNTRY then CountryResolver client_signature
      else if policy = Some POLICY_GEO_OPTIONS then GeoResolverWithOptions client_signature
      else if policy = Some POLICY_ALL then AllResolver client_signature
      else RandomResolver client_signature)"

section \<open>Sorting\<close>

lemma mset_insert_by_distance: "mset (insert_by_distance x ys) = add_mset x (mset ys)"
  by (induction ys) auto

lemma mset_sort_by_distance: "mset (sort_by_distance xs) = mset xs"
  by (induction xs) (simp_all add: sort_by_distance_def mset_insert_by_distance)

lemma set_sort_by_distance [simp]: "set (sort_by_distance xs) = set xs"
  using mset_sort_by_distance by (metis set_mset_mset)

definition dist_le :: "pyfloat \<times> 'a \<Rightarrow> pyfloat \<times> 'a \<Rightarrow> bool" where
  "dist_le x y \<longleftrightarrow> \<not> fl_less (fst y) (fst x)"

lemma insert_by_distance_sorted:
  assumes "\<forall>p \<in> insert x (set ys). \<exists>r. fst p = Fin r" and "sorted_wrt dist_le ys"
  shows "sorted_wrt dist_le (insert_by_distance x ys)"
  using assms
proof (induction ys)
  case (Cons y ys)
  have set: "set (insert_by_distance x ys) = insert x (set ys)"
    using mset_insert_by_distance [of x ys] by (metis set_mset_mset set_mset_add_mset_insert)
  have fin: "\<And>p. p \<in> insert x (set (y # ys)) \<Longrightarrow> \<exists>r. fst p = Fin r" using Cons.prems by blast
  obtain a where a: "fst x = Fin a" using fin by blast
  obtain b where b: "fst y = Fin b" using fin by fastforce
  show ?case
  proof (cases "fl_less (fst y) (fst x)")
    case True
    then have "dist_le y x" using a b by (simp add: dist_le_def)
    with True Cons show ?thesis by (simp add: set)
  next
    case False
    have "dist_le x z" if "z \<in> set ys" for z
    proof -
      obtain c where c: "fst z = Fin c" using fin [of z] \<open>z \<in> set ys\<close> by auto
      have "dist_le y z" using Cons.prems(2) that by simp
      with False a b c show ?thesis by (simp add: dist_le_def)
    qed
    with False Cons show ?thesis by (simp add: dist_le_def)
  qed
qed simp

lemma sort_by_distance_sorted:
  "\<forall>p \<in> set xs. \<exists>r. fst p = Fin r \<Longrightarrow> sorted_wrt dist_le (sort_by_distance xs)"
proof (induction xs)
  case (Cons x xs)
  have "sort_by_distance (x # xs) = insert_by_distance x (sort_by_distance xs)"
    by (simp add: sort_by_distance_def)
  with Cons show ?case by (simp add: insert_by_distance_sorted)
qed (simp add: sort_by_distance_def)

section \<open>Candidates are what was asked for\<close>

lemma distinct_map_submset:
  assumes "mset ys \<subseteq># mset xs" and "distinct (map f xs)"
  shows "distinct (map f ys)"
proof -
  have sub: "mset (map f ys) \<subseteq># mset (map f xs)"
    using assms(1) by (simp add: image_mset_subseteq_mono)
  have le: "count (mset (map f ys)) a \<le> 1" for a
  proof -
    have "count (mset (map f ys)) a \<le> count (mset (map f xs)) a" using sub by (rule mset_subset_eq_count)
    also have "\<dots> \<le> 1" using assms(2) by (simp add: distinct_count_atmost_1 del: mset_map)
    finally show ?thesis .
  qed
  have "count (mset (map f ys)) a = (if a \<in> set (map f ys) then 1 else 0)" for a
  proof (cases "a \<in> set (map f ys)")
    case True
    then have "0 < count (mset (map f ys)) a" by (simp add: count_greater_zero_iff del: mset_map)
    then have "count (mset (map f ys)) a = 1" using le [of a] by linarith
    with True show ?thesis by (simp only: if_True)
  next
    case False
    then have "count (mset (map f ys)) a = 0" by (simp only: count_mset_0_iff not_False_eq_True)
    then show ?thesis by (simp only: if_not_P [OF False])
  qed
  then show ?thesis by (simp only: distinct_count_atmost_1) simp
qed

lemma filterR_submset: "filterR p xs = Inr ys \<Longrightarrow> mset ys \<subseteq># mset xs"
proof (induction xs arbitrary: ys)
  case (Cons x xs)
  then obtain zs where "filterR p xs = Inr zs" "ys = x # zs \<or> ys = zs"
    by (auto simp: bindR_Inr_iff split: if_splits)
  with Cons.IH show ?case by (auto intro: subset_mset.order_trans)
qed simp

lemma submset_set: "mset ys \<subseteq># mset xs \<Longrightarrow> set ys \<subseteq> set xs"
  by (metis set_mset_mono set_mset_mset)

text \<open>The stock of tools that meet the criteria of a resolver for a query.\<close>

definition wanted :: "resolver \<Rightarrow> lookup_query \<Rightarrow> world \<Rightarrow> sliver_tool set" where
  "wanted R q w = {t \<in> stock_tools (query_properties R q) w. criteria (query_properties R q) w t}"

lemma query_properties_fields:
  "tp_all_slivers (query_properties R q) = False"
  "tp_status (query_properties R q) = Some STATUS_ONLINE"
  "tp_tool_id (query_properties R q) = lq_tool_id q"
  "tp_address_family (query_properties R q) =
     (if truthy (lq_tool_address_family q) then lq_tool_address_family q else None)"
  by (cases R; simp add: query_properties_def tool_properties_from_query_def Let_def)+

lemma candidates_cases:
  obtains r where "get_matching_candidates E R q w = (Inr None, w\<lparr>w_rng := r\<rparr>)" "wanted R q w = {}"
  | r ts where "get_matching_candidates E R q w = (Inr (Some ts), w\<lparr>w_rng := r\<rparr>)"
      "ts \<noteq> []" "set ts \<subseteq> wanted R q w" "distinct (map st_site_id ts)"
      "st_site_id ` set ts = st_site_id ` wanted R q w"
proof -
  obtain r ts where f: "fetch_tools E (query_properties R q) w = (Inr ts, w\<lparr>w_rng := r\<rparr>)"
    and ok: "answer_ok (query_properties R q) (wanted R q w) ts"
    using tools.answers [of E "query_properties R q" w] unfolding wanted_def by blast
  show thesis
  proof (cases "ts = []")
    case True
    then have "get_matching_candidates E R q w = (Inr None, w\<lparr>w_rng := r\<rparr>)"
      using f by (simp add: get_matching_candidates_def fetch_tools_with_properties_def)
    moreover have "wanted R q w = {}" using answer_ok_empty [OF ok] True by simp
    ultimately show thesis by (rule that(1))
  next
    case False
    then have "get_matching_candidates E R q w = (Inr (Some ts), w\<lparr>w_rng := r\<rparr>)"
      using f by (simp add: get_matching_candidates_def fetch_tools_with_properties_def)
    moreover have "set ts \<subseteq> wanted R q w" "distinct (map st_site_id ts)"
      "st_site_id ` set ts = st_site_id ` wanted R q w"
      using ok by (simp_all add: answer_ok_def query_properties_fields)
    ultimately show thesis using False by (intro that(2))
  qed
qed

text \<open>The loop that collects the distances.\<close>

lemma liftRng_run: "liftRng f w = (Inr (fst (f (w_rng w))), w\<lparr>w_rng := snd (f (w_rng w))\<rparr>)"
  by (simp add: liftRng_def split: prod.split)

lemma liftRngR_run: "liftRngR f w = (fst (f (w_rng w)), w\<lparr>w_rng := snd (f (w_rng w))\<rparr>)"
  by (simp add: liftRngR_def split: prod.split)

lemma add_candidates_world: "\<exists>r. snd (add_candidates q cs ds w) = w\<lparr>w_rng := r\<rparr>"
proof (induction cs arbitrary: ds w)
  case Nil
  have "w = w\<lparr>w_rng := w_rng w\<rparr>" by simp
  then show ?case by (metis act_run(1) add_candidates.simps(1) snd_conv)
next
  case (Cons c cs)
  define w1 where "w1 = w\<lparr>w_rng := snd (uniform01 (w_rng w))\<rparr>"
  have ih: "\<exists>r. snd (add_candidates q cs ds' w1) = w\<lparr>w_rng := r\<rparr>" for ds'
    using Cons.IH [of ds' w1] by (auto simp: w1_def)
  show ?case
  proof (cases "add_candidate q c ds")
    case (Inl e)
    then show ?thesis using ih [of ds] by (auto simp: bindA_def liftRng_run w1_def)
  next
    case (Inr ds')
    then show ?thesis using ih [of ds] ih [of ds'] by (auto simp: bindA_def liftRng_run w1_def)
  qed
qed

definition measured :: "lookup_query \<Rightarrow> pyfloat \<times> sliver_tool \<Rightarrow> bool" where
  "measured q p \<longleftrightarrow> distance (the (lq_latitude q)) (the (lq_longitude q))
     (st_latitude (snd p)) (st_longitude (snd p)) = Inr (fst p)"

lemma add_candidates_result:
  assumes "add_candidates q cs ds w = (Inr ds', w')"
  shows "\<exists>new. snd ds' = snd ds @ new \<and> mset (map snd new) \<subseteq># mset cs \<and> (\<forall>p \<in> set new. measured q p)"
  using assms
proof (induction cs arbitrary: ds w)
  case (Cons c cs)
  obtain u w1 where u: "liftRng uniform01 w = (Inr u, w1)" by (simp add: liftRng_run)
  have skip: ?case if "add_candidates q cs ds w1 = (Inr ds', w')"
  proof -
    from Cons.IH [OF that] obtain new where new: "snd ds' = snd ds @ new"
      "mset (map snd new) \<subseteq># mset cs" "\<forall>p \<in> set new. measured q p" by blast
    have "mset cs \<subseteq># mset (c # cs)" by simp
    with new(2) have "mset (map snd new) \<subseteq># mset (c # cs)" by (rule subset_mset.order_trans)
    with new show ?thesis by blast
  qed
  show ?case
  proof (cases "u < keep_probability (st_site_id c)")
    case False
    with Cons.prems u skip show ?thesis by simp
  next
    case True
    with Cons.prems u obtain ds1 where ds1: "add_candidate q c ds = Inr ds1"
      and rest: "add_candidates q cs ds1 w1 = (Inr ds', w')"
      by (auto simp: bindA_Inr_iff)
    show ?thesis
    proof (cases "st_site_id c \<in> fst ` set (fst ds)")
      case True
      with ds1 rest skip show ?thesis by (auto simp: add_candidate_def split: prod.splits)
    next
      case False
      with ds1 obtain d where d: "snd ds1 = snd ds @ [(d, c)]" "measured q (d, c)"
        by (auto simp: add_candidate_def measured_def bindR_Inr_iff split: prod.splits)
      from Cons.IH [OF rest] obtain new where "snd ds' = snd ds1 @ new"
        "mset (map snd new) \<subseteq># mset cs" "\<forall>p \<in> set new. measured q p" by blast
      with d have "snd ds' = snd ds @ ((d, c) # new)" "mset (map snd ((d, c) # new)) \<subseteq># mset (c # cs)"
        "\<forall>p \<in> set ((d, c) # new). measured q p" by auto
      then show ?thesis by blast
    qed
  qed
qed simp

section \<open>The contract of a resolver\<close>

text \<open>
  A resolver changes nothing but the random source; it answers with wanted tools, at most
  \<open>limit\<close> of them if it has one, no two of one site; and it gives no answer when no tool is
  wanted.
\<close>

locale resolver_contract =
  fixes answer :: "lookup_query \<Rightarrow> (world, sliver_tool list option) act"
    and target :: "lookup_query \<Rightarrow> world \<Rightarrow> sliver_tool set"
    and limit :: "nat option"
  assumes answer_world: "\<exists>r. snd (answer q w) = w\<lparr>w_rng := r\<rparr>"
    and answer_sound: "answer q w = (Inr (Some ts), w') \<Longrightarrow>
      set ts \<subseteq> target q w \<and> distinct (map st_site_id ts) \<and> (\<forall>n. limit = Some n \<longrightarrow> length ts \<le> n)"
    and answer_empty: "target q w = {} \<Longrightarrow> fst (answer q w) = Inr None"
begin

lemma answer_in_target: "answer q w = (Inr (Some ts), w') \<Longrightarrow> t \<in> set ts \<Longrightarrow> t \<in> target q w"
  using answer_sound by blast

lemma answer_distinct: "answer q w = (Inr (Some ts), w') \<Longrightarrow> distinct ts"
  using answer_sound by (auto simp: distinct_map)

lemma answer_database: "answer q w = (r, w') \<Longrightarrow> db_sliver_tools w' = db_sliver_tools w"
  using answer_world [of q w] by auto

end

lemma choose_one_cases:
  "choose_one None w = (Inr None, w)"
  "cs \<noteq> [] \<Longrightarrow> \<exists>t \<in> set cs. choose_one (Some cs) w = (Inr (Some [t]), w\<lparr>w_rng := stl (w_rng w)\<rparr>)"
proof -
  show "choose_one None w = (Inr None, w)" by (simp add: choose_one_def)
  assume "cs \<noteq> []"
  then obtain t where "t \<in> set cs" "choice cs (w_rng w) = (Inr t, stl (w_rng w))"
    using choice_mem by blast
  then show "\<exists>t \<in> set cs. choose_one (Some cs) w = (Inr (Some [t]), w\<lparr>w_rng := stl (w_rng w)\<rparr>)"
    by (intro bexI [of _ t]) (simp_all add: choose_one_def liftRngR_run)
qed

definition answer_fine :: "sliver_tool set \<Rightarrow> nat option \<Rightarrow> world \<Rightarrow> sliver_tool list option res \<times> world \<Rightarrow> bool" where
  "answer_fine S limit w p \<longleftrightarrow> (\<exists>r. snd p = w\<lparr>w_rng := r\<rparr>) \<and>
     (\<forall>ts. fst p = Inr (Some ts) \<longrightarrow> set ts \<subseteq> S \<and> distinct (map st_site_id ts) \<and>
        (\<forall>n. limit = Some n \<longrightarrow> length ts \<le> n)) \<and>
     (S = {} \<longrightarrow> fst p = Inr None)"

lemma world_rng_ex [simp]: "\<exists>r'. w\<lparr>w_rng := r\<rparr> = w\<lparr>w_rng := r'\<rparr>"
  by blast

lemma answer_fine_none: "answer_fine S l w (Inr None, w)"
  by (auto simp: answer_fine_def intro: exI [of _ "w_rng w"])

lemma one_of_fine:
  "answer_fine (wanted R q w) (Some 1) w (bindA (get_matching_candidates E R q) choose_one w)"
proof (cases rule: candidates_cases [of E R q w])
  case (1 r)
  then show ?thesis by (auto simp: choose_one_cases answer_fine_def)
next
  case (2 r ts)
  define w1 where "w1 = w\<lparr>w_rng := r\<rparr>"
  obtain t where "t \<in> set ts" "choose_one (Some ts) w1 = (Inr (Some [t]), w1\<lparr>w_rng := stl (w_rng w1)\<rparr>)"
    using choose_one_cases(2) [OF 2(2)] by blast
  with 2 show ?thesis by (auto simp: answer_fine_def simp flip: w1_def) (simp add: w1_def)
qed

lemma all_fine: "answer_fine (wanted R q w) None w (get_matching_candidates E R q w)"
  by (cases rule: candidates_cases [of E R q w]) (auto simp: answer_fine_def)

text \<open>The geographic resolvers.\<close>

lemma bind_rng: "bindA (liftRng f) g w = g (fst (f (w_rng w))) (w\<lparr>w_rng := snd (f (w_rng w))\<rparr>)"
  by (simp add: bindA_def liftRng_run)

lemma bind_get: "bindA (getA f) g w = g (f w) w"
  by simp

lemma geo_run:
  assumes "get_matching_candidates E R q w = (Inr (Some ts), w\<lparr>w_rng := r\<rparr>)"
    and "lq_latitude q \<noteq> None" and "lq_longitude q \<noteq> None"
    and "get_closest_n_candidates E s R n q w = (res, w')"
  shows "(\<exists>r'. w' = w\<lparr>w_rng := r'\<rparr>) \<and> (\<forall>x. res = Inr x \<longrightarrow>
    (\<exists>ds. mset (map snd ds) \<subseteq># mset ts \<and> (\<forall>p \<in> set ds. measured q p) \<and>
       x = Some (take n (map snd (sort_by_distance ds)))))"
proof -
  define r1 where "r1 = snd (shuffle ts r)"
  define cs where "cs = fst (shuffle ts r)"
  define prob where "prob = fetch_client_signature s (w\<lparr>w_rng := r1\<rparr>)"
  define u where "u = fst (uniform01 r1)"
  define w2 where "w2 = w\<lparr>w_rng := snd (uniform01 r1)\<rparr>"
  define p where "p = (\<lambda>c :: sliver_tool. bindR (last_char (st_site_id c)) (\<lambda>l.
      Inr (if fl_gt (Fin u) prob then l = CHR ''c'' else l \<noteq> CHR ''c'')))"
  have run: "get_closest_n_candidates E s R n q w = bindA (liftR (filterR p cs)) (\<lambda>filtered.
      bindA (add_candidates q filtered ([], [])) (\<lambda>ds.
        retA (Some (take n (map snd (sort_by_distance (snd ds))))))) w2"
  proof -
    have first: "bindA (get_matching_candidates E R q) f w = f (Some ts) (w\<lparr>w_rng := r\<rparr>)" for f :: "sliver_tool list option \<Rightarrow> (world, sliver_tool list option) act"
      by (simp add: bindA_def assms(1))
    have pos: "(lq_latitude q = None \<or> lq_longitude q = None) = False" using assms(2,3) by simp
    show ?thesis
      unfolding get_closest_n_candidates_def first option.case pos if_False
        bind_rng bind_get p_def u_def prob_def cs_def r1_def w2_def
      by simp
  qed
  have cs: "mset cs = mset ts" unfolding cs_def by (rule mset_shuffle)
  show ?thesis
  proof (cases "filterR p cs")
    case (Inl e)
    with run assms(4) show ?thesis by (auto simp: w2_def)
  next
    case (Inr fs)
    then have fs: "mset fs \<subseteq># mset ts" using filterR_submset [of p cs fs] cs by simp
    obtain res1 w3 where add: "add_candidates q fs ([], []) w2 = (res1, w3)" by fastforce
    obtain r3 where w3: "w3 = w\<lparr>w_rng := r3\<rparr>"
      using add_candidates_world [of q fs "([], [])" w2] add by (auto simp: w2_def)
    show ?thesis
    proof (cases res1)
      case (Inl e)
      with run Inr add assms(4) w3 show ?thesis by auto
    next
      case ok: (Inr ds)
      from add_candidates_result [OF add [unfolded ok]] obtain new where new: "snd ds = new"
        "mset (map snd new) \<subseteq># mset fs" "\<forall>p \<in> set new. measured q p" by auto
      have "mset (map snd new) \<subseteq># mset ts" using new(2) fs by (rule subset_mset.order_trans)
      moreover have "res = Inr (Some (take n (map snd (sort_by_distance new))))" "w' = w3"
        using run Inr add ok assms(4) new(1) by auto
      ultimately show ?thesis using new(3) w3 by blast
    qed
  qed
qed

lemma geo_run_none:
  assumes "get_matching_candidates E R q w = (Inr None, w\<lparr>w_rng := r\<rparr>)"
  shows "get_closest_n_candidates E s R n q w = (Inr None, w\<lparr>w_rng := r\<rparr>)"
  by (simp add: get_closest_n_candidates_def bindA_def assms)

lemma geo_run_unplaced:
  assumes "get_matching_candidates E R q w = (Inr (Some ts), w\<lparr>w_rng := r\<rparr>)"
    and "lq_latitude q = None \<or> lq_longitude q = None"
  shows "get_closest_n_candidates E s R n q w =
    (case sample ts (min (length ts) n) r of
       (Inr ys, r') \<Rightarrow> (Inr (Some ys), w\<lparr>w_rng := r'\<rparr>) | (Inl e, r') \<Rightarrow> (Inl e, w\<lparr>w_rng := r'\<rparr>))"
  using assms(2)
  by (simp add: get_closest_n_candidates_def bindA_def assms(1) liftRngR_def split: prod.split sum.split)

lemma take_submset: "mset (take n xs) \<subseteq># mset xs"
  using append_take_drop_id [of n xs] by (metis mset_append mset_subset_eq_add_left)

lemma geo_fine: "answer_fine (wanted R q w) (Some n) w (get_closest_n_candidates E s R n q w)"
proof (cases rule: candidates_cases [of E R q w])
  case (1 r)
  then show ?thesis by (auto simp: geo_run_none answer_fine_def)
next
  case (2 r ts)
  have nonempty: "wanted R q w \<noteq> {}" using 2 by auto
  have fine: "set ys \<subseteq> wanted R q w \<and> distinct (map st_site_id ys)" if "mset ys \<subseteq># mset ts" for ys
    using submset_set [OF that] distinct_map_submset [OF that 2(4)] 2(3) by blast
  show ?thesis
  proof (cases "lq_latitude q = None \<or> lq_longitude q = None")
    case True
    obtain res r' where smp: "sample ts (min (length ts) n) r = (res, r')" by fastforce
    show ?thesis
    proof (cases res)
      case (Inl e)
      then show ?thesis using nonempty by (simp add: geo_run_unplaced [OF 2(1) True] smp answer_fine_def)
    next
      case (Inr ys)
      with smp have "length ys = min (length ts) n \<and> mset ys \<subseteq># mset ts" using sample_sound by blast
      with fine Inr nonempty show ?thesis
        by (simp add: geo_run_unplaced [OF 2(1) True] smp answer_fine_def)
    qed
  next
    case False
    obtain res w' where run: "get_closest_n_candidates E s R n q w = (res, w')" by fastforce
    from False have "lq_latitude q \<noteq> None" "lq_longitude q \<noteq> None" by auto
    note geo = geo_run [OF 2(1) this run]
    have "set ys \<subseteq> wanted R q w \<and> distinct (map st_site_id ys) \<and> length ys \<le> n" if "res = Inr (Some ys)" for ys
    proof -
      from geo that obtain ds where ds: "mset (map snd ds) \<subseteq># mset ts" "ys = take n (map snd (sort_by_distance ds))"
        by auto
      have "mset (map snd (sort_by_distance ds)) = mset (map snd ds)" by (simp add: mset_sort_by_distance)
      then have "mset ys \<subseteq># mset ts" using take_submset ds by (metis subset_mset.order_trans)
      with fine ds(2) show ?thesis by simp
    qed
    with geo nonempty show ?thesis unfolding run answer_fine_def by auto
  qed
qed

definition answer_limit :: "resolver \<Rightarrow> nat option" where
  "answer_limit R = (case R of
      AllResolver _ \<Rightarrow> None | GeoResolverWithOptions _ \<Rightarrow> Some 4 | _ \<Rightarrow> Some 1)"

lemma answer_query_fine: "answer_fine (wanted R q w) (answer_limit R) w (answer_query E R q w)"
proof (cases R)
  case (MetroResolver s)
  then show ?thesis using one_of_fine [of R q w E] answer_fine_none
    by (simp add: answer_query_def answer_limit_def)
next
  case (CountryResolver s)
  then show ?thesis using one_of_fine [of R q w E] answer_fine_none
    by (simp add: answer_query_def answer_limit_def)
next
  case (RandomResolver s)
  then show ?thesis using one_of_fine [of R q w E] by (simp add: answer_query_def answer_limit_def)
qed (use all_fine [of R q w E] geo_fine [of R q w] in \<open>simp_all add: answer_query_def answer_limit_def\<close>)

interpretation resolver: resolver_contract "answer_query E R" "wanted R" "answer_limit R" for E R
proof
  fix q w
  note fine = answer_query_fine [of R q w E, unfolded answer_fine_def]
  show "\<exists>r. snd (answer_query E R q w) = w\<lparr>w_rng := r\<rparr>" using fine by blast
  show "wanted R q w = {} \<Longrightarrow> fst (answer_query E R q w) = Inr None" using fine by blast
  fix ts w'
  assume "answer_query E R q w = (Inr (Some ts), w')"
  then show "set ts \<subseteq> wanted R q w \<and> distinct (map st_site_id ts) \<and>
      (\<forall>n. answer_limit R = Some n \<longrightarrow> length ts \<le> n)" using fine by (metis fst_conv)
qed

text \<open>What a wanted tool is.\<close>

definition family_online :: "string option \<Rightarrow> sliver_tool \<Rightarrow> bool" where
  "family_online family t \<longleftrightarrow>
     (if family = Some ADDRESS_FAMILY_IPv4 then st_status_ipv4 t = STATUS_ONLINE
      else if family = Some ADDRESS_FAMILY_IPv6 then st_status_ipv6 t = STATUS_ONLINE
      else st_status_ipv4 t = STATUS_ONLINE \<or> st_status_ipv6 t = STATUS_ONLINE)"

lemma wanted_online: "t \<in> wanted R q w \<Longrightarrow> family_online (lq_tool_address_family q) t"
proof -
  assume "t \<in> wanted R q w"
  then have "criteria (query_properties R q) w t" by (simp add: wanted_def)
  moreover have "is_set (Some STATUS_ONLINE)" by (simp add: is_set_def)
  ultimately have "list_ex (\<lambda>attr. attr t = STATUS_ONLINE)
      (status_attrs (tp_address_family (query_properties R q)))"
    by (simp add: criteria_def query_properties_fields)
  then show ?thesis
    by (auto simp: status_attrs_def family_online_def query_properties_fields truthy_def split: if_splits)
qed

lemma wanted_country: "t \<in> wanted (CountryResolver s) q w \<Longrightarrow> truthy (lq_country q) \<Longrightarrow> st_country t = lq_country q"
  by (simp add: wanted_def criteria_def query_properties_def Let_def is_set_def truthy_def)

lemma wanted_metro: "t \<in> wanted (MetroResolver s) q w \<Longrightarrow> truthy (lq_metro q) \<Longrightarrow>
    st_site_id t \<in> set (find_site_ids_for_metro (the (lq_metro q)) w)"
  by (simp add: wanted_def criteria_def query_properties_def Let_def is_set_def truthy_def)

section \<open>A client that is not limited, at a known place\<close>

definition near :: "lookup_query \<Rightarrow> sliver_tool \<Rightarrow> real" where
  "near q t = (case (lq_latitude q, lq_longitude q, st_latitude t, st_longitude t) of
      (Some (Fin a), Some (Fin b), Fin c, Fin d) \<Rightarrow> great_circle a b c d | _ \<Rightarrow> 0)"

definition placed :: "lookup_query \<Rightarrow> bool" where
  "placed q \<longleftrightarrow> (\<exists>a b. lq_latitude q = Some (Fin a) \<and> lq_longitude q = Some (Fin b))"

definition located :: "sliver_tool \<Rightarrow> bool" where
  "located t \<longleftrightarrow> (\<exists>c d. st_latitude t = Fin c \<and> st_longitude t = Fin d) \<and> st_site_id t \<noteq> []"

lemma distance_near:
  "placed q \<Longrightarrow> located t \<Longrightarrow> distance (the (lq_latitude q)) (the (lq_longitude q)) (st_latitude t) (st_longitude t)
    = Inr (Fin (near q t))"
  by (auto simp: placed_def located_def near_def distance_Fin)

lemma uniform_less_1: "fst (uniform01 r) < 1"
  using uniform01_range [of r] by simp

definition sites_match :: "distances \<Rightarrow> bool" where
  "sites_match ds \<longleftrightarrow> fst ` set (fst ds) = (\<lambda>p. st_site_id (snd p)) ` set (snd ds)"

lemma add_candidate_located:
  assumes "placed q" and "located c" and "sites_match ds"
  obtains ds' where "add_candidate q c ds = Inr ds'" and "sites_match ds'"
    and "st_site_id c \<in> (\<lambda>p. st_site_id (snd p)) ` set (snd ds')" and "set (snd ds) \<subseteq> set (snd ds')"
proof (cases "st_site_id c \<in> fst ` set (fst ds)")
  case True
  obtain sd td where "ds = (sd, td)" by (cases ds)
  with True have "add_candidate q c ds = Inr ds" by (simp add: add_candidate_def)
  then show thesis using that assms(3) True by (auto simp: sites_match_def)
next
  case False
  obtain sd td where ds: "ds = (sd, td)" by (cases ds)
  have "add_candidate q c ds = Inr (kv_set (st_site_id c) (Fin (near q c)) sd, td @ [(Fin (near q c), c)])"
    using False by (simp add: add_candidate_def ds distance_near [OF assms(1,2)])
  then show thesis
    by (rule that) (use assms(3) in \<open>auto simp: sites_match_def ds keys_kv_set\<close>)
qed

lemma add_candidates_complete:
  assumes "placed q" and "\<forall>c \<in> set cs. located c" and "sites_match ds"
  shows "\<exists>ds' w'. add_candidates q cs ds w = (Inr ds', w') \<and> set (snd ds) \<subseteq> set (snd ds') \<and>
    (\<forall>c \<in> set cs. keep_probability (st_site_id c) = 1 \<longrightarrow>
       st_site_id c \<in> (\<lambda>p. st_site_id (snd p)) ` set (snd ds'))"
  using assms(2,3)
proof (induction cs arbitrary: ds w)
  case (Cons c cs)
  define w1 where "w1 = w\<lparr>w_rng := snd (uniform01 (w_rng w))\<rparr>"
  define u where "u = fst (uniform01 (w_rng w))"
  have step: "add_candidates q (c # cs) ds w =
      (if u < keep_probability (st_site_id c)
       then bindA (liftR (add_candidate q c ds)) (\<lambda>ds. add_candidates q cs ds) w1
       else add_candidates q cs ds w1)"
    by (simp add: bind_rng u_def w1_def)
  show ?case
  proof (cases "u < keep_probability (st_site_id c)")
    case False
    then have "keep_probability (st_site_id c) \<noteq> 1" using uniform_less_1 by (auto simp: u_def)
    with False step Cons.IH [of ds w1] Cons.prems show ?thesis by auto
  next
    case True
    obtain ds1 where ds1: "add_candidate q c ds = Inr ds1" "sites_match ds1"
      "st_site_id c \<in> (\<lambda>p. st_site_id (snd p)) ` set (snd ds1)" "set (snd ds) \<subseteq> set (snd ds1)"
      using add_candidate_located [OF assms(1) _ Cons.prems(2), of c] Cons.prems(1) by auto
    from Cons.IH [of ds1 w1] Cons.prems(1) ds1(2) obtain ds' w' where
      ih: "add_candidates q cs ds1 w1 = (Inr ds', w')" "set (snd ds1) \<subseteq> set (snd ds')"
      "\<forall>c \<in> set cs. keep_probability (st_site_id c) = 1 \<longrightarrow>
         st_site_id c \<in> (\<lambda>p. st_site_id (snd p)) ` set (snd ds')" by auto
    have "add_candidates q (c # cs) ds w = (Inr ds', w')" using step True ds1(1) ih(1) by simp
    then show ?thesis using ih ds1 by (intro exI [of _ ds'] exI [of _ w']) auto
  qed
qed auto

lemma filterR_total_on:
  "\<forall>x \<in> set xs. p x = Inr (f x) \<Longrightarrow> filterR p xs = Inr (filter f xs)"
  by (rule filterR_total) blast

lemma geo_run_normal:
  assumes cands: "get_matching_candidates E R q w = (Inr (Some ts), w\<lparr>w_rng := r\<rparr>)"
    and q: "placed q" and t: "\<forall>t \<in> set ts. located t" and sig: "mc_requests w s = None"
  shows "\<exists>ds w'. get_closest_n_candidates E s R n q w = (Inr (Some (take n (map snd (sort_by_distance ds)))), w') \<and>
    (\<forall>p \<in> set ds. snd p \<in> set ts \<and> last (st_site_id (snd p)) \<noteq> CHR ''c'' \<and> fst p = Fin (near q (snd p))) \<and>
    (\<forall>c \<in> set ts. last (st_site_id c) \<noteq> CHR ''c'' \<and> keep_probability (st_site_id c) = 1 \<longrightarrow>
       st_site_id c \<in> (\<lambda>p. st_site_id (snd p)) ` set ds)"
proof -
  define cs where "cs = fst (shuffle ts r)"
  define u where "u = fst (uniform01 (snd (shuffle ts r)))"
  define w2 where "w2 = w\<lparr>w_rng := snd (uniform01 (snd (shuffle ts r)))\<rparr>"
  define p where "p = (\<lambda>c :: sliver_tool. bindR (last_char (st_site_id c)) (\<lambda>l. Inr (l \<noteq> CHR ''c'')))"
  have first: "bindA (get_matching_candidates E R q) f w = f (Some ts) (w\<lparr>w_rng := r\<rparr>)"
    for f :: "sliver_tool list option \<Rightarrow> (world, sliver_tool list option) act"
    by (simp add: bindA_def cands)
  have prob: "fetch_client_signature s (w\<lparr>w_rng := r'\<rparr>) = Fin 1" for r'
    by (simp add: fetch_client_signature_def sig)
  have pos: "(lq_latitude q = None \<or> lq_longitude q = None) = False" using q by (auto simp: placed_def)
  have "fl_gt (Fin u) (Fin 1) = False" using uniform_less_1 [of "snd (shuffle ts r)"] by (simp add: u_def)
  then have run: "get_closest_n_candidates E s R n q w = bindA (liftR (filterR p cs)) (\<lambda>filtered.
      bindA (add_candidates q filtered ([], [])) (\<lambda>ds.
        retA (Some (take n (map snd (sort_by_distance (snd ds))))))) w2"
    unfolding get_closest_n_candidates_def first option.case pos if_False bind_rng bind_get
      p_def u_def cs_def w2_def by (simp add: prob)
  have set_cs: "set cs = set ts" by (simp add: cs_def)
  define fs where "fs = filter (\<lambda>c. last (st_site_id c) \<noteq> CHR ''c'') cs"
  have fs: "filterR p cs = Inr fs" unfolding fs_def
    by (rule filterR_total) (use t set_cs in \<open>auto simp: p_def last_char_def located_def\<close>)
  have loc: "\<forall>c \<in> set fs. located c" using t set_cs by (simp add: fs_def)
  obtain ds w' where add: "add_candidates q fs ([], []) w2 = (Inr ds, w')"
    and all: "\<forall>c \<in> set fs. keep_probability (st_site_id c) = 1 \<longrightarrow>
      st_site_id c \<in> (\<lambda>p. st_site_id (snd p)) ` set (snd ds)"
    using add_candidates_complete [OF q loc, of "([], [])" w2] by (auto simp: sites_match_def)
  from add_candidates_result [OF add] have sub: "mset (map snd (snd ds)) \<subseteq># mset fs"
    and meas: "\<forall>p \<in> set (snd ds). measured q p" by auto
  have "snd p \<in> set ts \<and> last (st_site_id (snd p)) \<noteq> CHR ''c'' \<and> fst p = Fin (near q (snd p))"
    if "p \<in> set (snd ds)" for p
  proof -
    have "snd p \<in> set fs" using submset_set [OF sub] that by auto
    then show ?thesis using meas that loc distance_near [OF q, of "snd p"] set_cs
      by (auto simp: fs_def measured_def)
  qed
  moreover have "\<forall>c \<in> set ts. last (st_site_id c) \<noteq> CHR ''c'' \<and> keep_probability (st_site_id c) = 1 \<longrightarrow>
      st_site_id c \<in> (\<lambda>p. st_site_id (snd p)) ` set (snd ds)" using all set_cs by (auto simp: fs_def)
  ultimately show ?thesis using run fs add by (intro exI [of _ "snd ds"] exI [of _ w']) simp
qed

section \<open>What a resolver promises\<close>

text \<open>A site that the geographic policies always consider for a client that is not limited.\<close>

definition regular_site :: "string \<Rightarrow> bool" where
  "regular_site s \<longleftrightarrow> last s \<noteq> CHR ''c'' \<and> keep_probability s = 1"

text \<open>The position of a tool is that of its site.\<close>

definition sites_placed :: "sliver_tool set \<Rightarrow> bool" where
  "sites_placed S \<longleftrightarrow> (\<forall>t \<in> S. located t \<and> (\<forall>u \<in> S. st_site_id u = st_site_id t \<longrightarrow>
     st_latitude u = st_latitude t \<and> st_longitude u = st_longitude t))"

lemma sites_placed_near:
  "sites_placed S \<Longrightarrow> t \<in> S \<Longrightarrow> u \<in> S \<Longrightarrow> st_site_id u = st_site_id t \<Longrightarrow> near q u = near q t"
  unfolding sites_placed_def near_def by metis

text \<open>The sorted candidates of an answer, as tools with their distances.\<close>

lemma closest_of_sorted:
  assumes fin: "\<forall>p \<in> set ds. fst p = Fin (near q (snd p))"
  defines "all \<equiv> map snd (sort_by_distance ds)"
  shows "sorted_wrt (\<lambda>a b. near q a \<le> near q b) all"
    and "set all = snd ` set ds"
proof -
  have "\<forall>p \<in> set ds. \<exists>r. fst p = Fin r" using fin by blast
  then have "sorted_wrt dist_le (sort_by_distance ds)" by (rule sort_by_distance_sorted)
  then have "sorted_wrt (\<lambda>p p'. near q (snd p) \<le> near q (snd p')) (sort_by_distance ds)"
    by (rule sorted_wrt_mono_rel [rotated]) (use fin in \<open>auto simp: dist_le_def\<close>)
  then show "sorted_wrt (\<lambda>a b. near q a \<le> near q b) all" by (simp add: all_def sorted_wrt_map)
  show "set all = snd ` set ds" by (simp add: all_def)
qed

lemma sorted_wrt_take_rest:
  assumes "sorted_wrt P xs" and "x \<in> set (take n xs)" and "y \<in> set xs" and "y \<notin> set (take n xs)"
  shows "P x y"
proof -
  have "set xs = set (take n xs) \<union> set (drop n xs)" by (metis append_take_drop_id set_append)
  then have "y \<in> set (drop n xs)" using assms(3,4) by blast
  moreover have "sorted_wrt P (take n xs @ drop n xs)" using assms(1) by simp
  ultimately show ?thesis using assms(2) unfolding sorted_wrt_append by blast
qed

lemma geo_closest:
  assumes q: "placed q" and S: "sites_placed (wanted R q w)" "wanted R q w \<noteq> {}"
    and sig: "mc_requests w s = None"
  shows "\<exists>ts w'. get_closest_n_candidates E s R n q w = (Inr (Some ts), w') \<and>
    set ts \<subseteq> {t \<in> wanted R q w. last (st_site_id t) \<noteq> CHR ''c''} \<and>
    sorted_wrt (\<lambda>a b. near q a \<le> near q b) ts \<and>
    (\<forall>c \<in> wanted R q w. regular_site (st_site_id c) \<longrightarrow> st_site_id c \<in> st_site_id ` set ts \<or>
       (length ts = n \<and> (\<forall>t \<in> set ts. near q t \<le> near q c)))"
proof (cases rule: candidates_cases [of E R q w])
  case (1 r)
  with S(2) show ?thesis by simp
next
  case (2 r ts)
  have loc: "\<forall>t \<in> set ts. located t" using S(1) 2(3) by (auto simp: sites_placed_def)
  obtain ds w' where run: "get_closest_n_candidates E s R n q w =
      (Inr (Some (take n (map snd (sort_by_distance ds)))), w')"
    and sound: "\<forall>p \<in> set ds. snd p \<in> set ts \<and> last (st_site_id (snd p)) \<noteq> CHR ''c'' \<and> fst p = Fin (near q (snd p))"
    and compl: "\<forall>c \<in> set ts. last (st_site_id c) \<noteq> CHR ''c'' \<and> keep_probability (st_site_id c) = 1 \<longrightarrow>
       st_site_id c \<in> (\<lambda>p. st_site_id (snd p)) ` set ds"
    using geo_run_normal [OF 2(1) q loc sig, of n] by blast
  define all where "all = map snd (sort_by_distance ds)"
  have fin: "\<forall>p \<in> set ds. fst p = Fin (near q (snd p))" using sound by blast
  have sorted: "sorted_wrt (\<lambda>a b. near q a \<le> near q b) all" and set_all: "set all = snd ` set ds"
    unfolding all_def using closest_of_sorted [OF fin] by auto
  have "st_site_id c \<in> st_site_id ` set (take n all) \<or>
      (length (take n all) = n \<and> (\<forall>t \<in> set (take n all). near q t \<le> near q c))"
    if c: "c \<in> wanted R q w" "regular_site (st_site_id c)" for c
  proof -
    obtain d where d: "d \<in> set ts" "st_site_id d = st_site_id c" using c(1) 2(5) by (metis imageE imageI)
    then have "st_site_id d \<in> (\<lambda>p. st_site_id (snd p)) ` set ds" using c(2) bspec [OF compl d(1)] by (simp add: regular_site_def)
    then obtain p where p: "p \<in> set ds" "st_site_id (snd p) = st_site_id d" by auto
    then have all: "snd p \<in> set all" and mem: "snd p \<in> wanted R q w" using set_all sound 2(3) by auto
    have near: "near q (snd p) = near q c" using sites_placed_near [OF S(1) c(1) mem] p(2) d(2) by simp
    show ?thesis
    proof (cases "snd p \<in> set (take n all)")
      case True
      then show ?thesis using p(2) d(2) by (metis imageI)
    next
      case False
      then have "n < length all" using all by (metis leI take_all)
      moreover have "near q t \<le> near q c" if "t \<in> set (take n all)" for t
        using sorted_wrt_take_rest [OF sorted that all False] near by simp
      ultimately show ?thesis by simp
    qed
  qed
  moreover have "set (take n all) \<subseteq> {t \<in> wanted R q w. last (st_site_id t) \<noteq> CHR ''c''}"
    using set_take_subset [of n all] set_all sound 2(3) by auto
  moreover have "sorted_wrt (\<lambda>a b. near q a \<le> near q b) (take n all)" using sorted by (rule sorted_wrt_take)
  ultimately show ?thesis using run unfolding all_def by blast
qed

section \<open>Properties\<close>

text \<open>C3: whatever the policy, a resolver changes nothing but the random source, and the tools it answers
  with are of the tool asked for (or cached for it), online for the address family asked for, of
  distinct sites and no more than its limit.\<close>

theorem answers_are_wanted:
  "\<exists>r x. answer_query E R q w = (x, w\<lparr>w_rng := r\<rparr>) \<and>
     (case x of
        Inr (Some ts) \<Rightarrow>
          set ts \<subseteq> {t. (t \<in> set (db_sliver_tools w) \<and> st_tool_id t = lq_tool_id q \<or>
                        t \<in> set (case mc_tools w (lq_tool_id q) of None \<Rightarrow> [] | Some cached \<Rightarrow> cached)) \<and>
                      family_online (lq_tool_address_family q) t} \<and>
          distinct (map st_site_id ts) \<and>
          (case answer_limit R of None \<Rightarrow> True | Some n \<Rightarrow> length ts \<le> n)
      | _ \<Rightarrow> True)"
proof -
  obtain x w' where run: "answer_query E R q w = (x, w')" by fastforce
  obtain r where w': "w' = w\<lparr>w_rng := r\<rparr>" using resolver.answer_world [of E R q w] run by auto
  show ?thesis
  proof (cases "\<exists>ts. x = Inr (Some ts)")
    case True
    then obtain ts where ts: "x = Inr (Some ts)" by blast
    have "t \<in> {t. (t \<in> set (db_sliver_tools w) \<and> st_tool_id t = lq_tool_id q \<or>
        t \<in> set (case mc_tools w (lq_tool_id q) of None \<Rightarrow> [] | Some cached \<Rightarrow> cached)) \<and>
        family_online (lq_tool_address_family q) t}" if "t \<in> set ts" for t
    proof -
      have t: "t \<in> wanted R q w" using resolver.answer_in_target [OF run [unfolded ts] that] .
      then have "t \<in> stock_tools (query_properties R q) w" by (simp add: wanted_def)
      then show ?thesis using wanted_online [OF t]
        by (auto simp: stock_tools_def either_stock_def stock_memcache_def stock_datastore_def
            query_properties_fields split: if_splits option.splits)
    qed
    then show ?thesis using resolver.answer_sound [OF run [unfolded ts]] run w' ts
      by (auto split: option.split)
  qed (use run w' in \<open>auto split: sum.split option.split\<close>)
qed


text \<open>A datastore of two tools, asked from where they are.\<close>

lemma wanted_datastore:
  assumes "mc_tools w (lq_tool_id q) = None" and "lq_tool_address_family q = None"
    and "R = GeoResolver s \<or> R = GeoResolverWithOptions s \<or> R = RandomResolver s"
  shows "wanted R q w = {t \<in> set (db_sliver_tools w). st_tool_id t = lq_tool_id q \<and> family_online None t}"
proof -
  have tp: "query_properties R q = tool_properties_from_query q"
    using assms(3) by (auto simp: query_properties_def Let_def)
  have "stock_tools (query_properties R q) w = {t \<in> set (db_sliver_tools w). st_tool_id t = lq_tool_id q}"
    using assms(1) by (simp add: tp stock_tools_def either_stock_def stock_memcache_def stock_datastore_def
        tool_properties_from_query_def is_set_def)
  moreover have "criteria (query_properties R q) w t = family_online None t" for t
    using assms(2) by (simp add: tp criteria_def is_set_def tool_properties_from_query_def truthy_def
        status_attrs_def family_online_def)
  ultimately show ?thesis by (auto simp: wanted_def)
qed

definition two_sites :: "string \<Rightarrow> string \<Rightarrow> world" where
  "two_sites a b = idle_world\<lparr>db_sliver_tools := [sample_sliver ''ndt'' a ''x'', sample_sliver ''ndt'' b ''y'']\<rparr>"

definition query_at_zero :: lookup_query where
  "query_at_zero = new_query\<lparr>lq_tool_id := ''ndt'', lq_latitude := Some (Fin 0), lq_longitude := Some (Fin 0)\<rparr>"

lemma sample_sliver_fields [simp]:
  "st_site_id (sample_sliver i s f) = s"
  "st_tool_id (sample_sliver i s f) = i"
  "st_status_ipv4 (sample_sliver i s f) = STATUS_ONLINE"
  "st_latitude (sample_sliver i s f) = Fin 0"
  "st_longitude (sample_sliver i s f) = Fin 0"
  by (simp_all add: sample_sliver_def)

lemma two_sites_wanted:
  assumes "R = GeoResolver s \<or> R = GeoResolverWithOptions s \<or> R = RandomResolver s"
  shows "wanted R query_at_zero (two_sites a b) = {sample_sliver ''ndt'' a ''x'', sample_sliver ''ndt'' b ''y''}"
proof -
  have "mc_tools (two_sites a b) (lq_tool_id query_at_zero) = None" "lq_tool_address_family query_at_zero = None"
    by (simp_all add: two_sites_def query_at_zero_def new_query_def idle_world_def)
  from wanted_datastore [OF this assms] have "wanted R query_at_zero (two_sites a b) =
      set (filter (\<lambda>t. st_tool_id t = lq_tool_id query_at_zero \<and> family_online None t) (db_sliver_tools (two_sites a b)))"
    by (simp only: set_filter)
  also have "\<dots> = {sample_sliver ''ndt'' a ''x'', sample_sliver ''ndt'' b ''y''}"
    by (simp add: two_sites_def query_at_zero_def family_online_def)
  finally show ?thesis .
qed

lemma two_sites_placed:
  assumes "R = GeoResolver s \<or> R = GeoResolverWithOptions s" and "a \<noteq> []" and "b \<noteq> []"
  shows "placed query_at_zero" and "sites_placed (wanted R query_at_zero (two_sites a b))"
    and "wanted R query_at_zero (two_sites a b) \<noteq> {}" and "mc_requests (two_sites a b) s = None"
proof -
  have R: "R = GeoResolver s \<or> R = GeoResolverWithOptions s \<or> R = RandomResolver s" using assms(1) by blast
  have "sites_placed {sample_sliver ''ndt'' a ''x'', sample_sliver ''ndt'' b ''y''}"
    unfolding sites_placed_def located_def using assms(2,3) by simp
  then show "sites_placed (wanted R query_at_zero (two_sites a b))" unfolding two_sites_wanted [OF R] .
  show "wanted R query_at_zero (two_sites a b) \<noteq> {}" unfolding two_sites_wanted [OF R] by simp
  show "placed query_at_zero" by (simp add: placed_def query_at_zero_def)
  show "mc_requests (two_sites a b) s = None" by (simp add: two_sites_def idle_world_def)
qed

lemma not_c_sites:
  "last ''ath01'' \<noteq> CHR ''c''" "last ''ath0c'' = CHR ''c''" "last ''lga1c'' = CHR ''c''" "regular_site ''ath01''"
  by (simp_all add: regular_site_def keep_probability_def site_keep_probability_def)


text \<open>Where only \<open>c\<close> sites have the tool, the geographic policies answer such a client with an empty
  list, not with \<open>None\<close>.\<close>

theorem geo_empty_answer:
  assumes "R = GeoResolver s \<or> R = GeoResolverWithOptions s"
    and "placed q" and "sites_placed (wanted R q w)" and "wanted R q w \<noteq> {}"
    and "mc_requests w s = None" and "\<forall>t \<in> wanted R q w. last (st_site_id t) = CHR ''c''"
  shows "fst (answer_query E R q w) = Inr (Some [])"
proof -
  obtain n where "answer_query E R q = get_closest_n_candidates E s R n q"
    using assms(1) by (auto simp: answer_query_def)
  then obtain ts w' where "answer_query E R q w = (Inr (Some ts), w')"
    "set ts \<subseteq> {t \<in> wanted R q w. last (st_site_id t) \<noteq> CHR ''c''}"
    using geo_closest [OF assms(2-5), of E n] by auto
  moreover from this(2) assms(6) have "ts = []" by (cases ts) auto
  ultimately show ?thesis by simp
qed

theorem geo_empty_answer_witness:
  "fst (answer_query idle_env (GeoResolver []) query_at_zero (two_sites ''lga1c'' ''ath0c'')) = Inr (Some [])"
proof (rule geo_empty_answer)
  show "GeoResolver [] = GeoResolver [] \<or> GeoResolver [] = GeoResolverWithOptions []" by simp
  have "GeoResolver [] = GeoResolver [] \<or> GeoResolver [] = GeoResolverWithOptions []" "''lga1c'' \<noteq> []" "''ath0c'' \<noteq> []"
    by simp_all
  note placed = two_sites_placed [OF this]
  show "placed query_at_zero" by (rule placed(1))
  show "sites_placed (wanted (GeoResolver []) query_at_zero (two_sites ''lga1c'' ''ath0c''))" by (rule placed(2))
  show "wanted (GeoResolver []) query_at_zero (two_sites ''lga1c'' ''ath0c'') \<noteq> {}" by (rule placed(3))
  show "mc_requests (two_sites ''lga1c'' ''ath0c'') [] = None" by (rule placed(4))
  show "\<forall>t \<in> wanted (GeoResolver []) query_at_zero (two_sites ''lga1c'' ''ath0c''). last (st_site_id t) = CHR ''c''"
    using not_c_sites by (simp add: two_sites_wanted)
qed

text \<open>the random, metro and country policies never raise. Random gives no answer exactly when no tool
  is wanted; metro and country answer with one tool of the metro or country of the query, and give
  no answer only without a metro or country in the query or a tool there.\<close>

theorem one_tool_policies:
  "(if wanted (RandomResolver s) q w = {} then fst (answer_query E (RandomResolver s) q w) = Inr None
    else \<exists>t. fst (answer_query E (RandomResolver s) q w) = Inr (Some [t]) \<and> t \<in> wanted (RandomResolver s) q w) \<and>
   (if lq_metro q \<in> {None, Some []} \<or> wanted (MetroResolver s) q w = {}
    then fst (answer_query E (MetroResolver s) q w) = Inr None
    else \<exists>t si. fst (answer_query E (MetroResolver s) q w) = Inr (Some [t]) \<and>
      si \<in> set (db_sites w) \<and> si_site_id si = st_site_id t \<and> the (lq_metro q) \<in> set (si_metro si)) \<and>
   (if lq_country q \<in> {None, Some []} \<or> wanted (CountryResolver s) q w = {}
    then fst (answer_query E (CountryResolver s) q w) = Inr None
    else \<exists>t. fst (answer_query E (CountryResolver s) q w) = Inr (Some [t]) \<and> st_country t = lq_country q)"
proof -
  have one: "\<exists>t. fst (bindA (get_matching_candidates E R q) choose_one w) = Inr (Some [t]) \<and> t \<in> wanted R q w"
    if "wanted R q w \<noteq> {}" for R
  proof (cases rule: candidates_cases [of E R q w])
    case (2 r ts)
    obtain t where "t \<in> set ts" "choose_one (Some ts) (w\<lparr>w_rng := r\<rparr>) = (Inr (Some [t]), w\<lparr>w_rng := r, w_rng := stl r\<rparr>)"
      using choose_one_cases(2) [OF 2(2), of "w\<lparr>w_rng := r\<rparr>"] by auto
    with 2 show ?thesis by auto
  qed (use that in simp)
  have random: "answer_query E (RandomResolver s) q = bindA (get_matching_candidates E (RandomResolver s) q) choose_one"
    by (simp add: answer_query_def)
  have metro: "answer_query E (MetroResolver s) q =
      (if lq_metro q \<in> {None, Some []} then retA None else bindA (get_matching_candidates E (MetroResolver s) q) choose_one)"
    by (simp add: answer_query_def truthy_def)
  have country: "answer_query E (CountryResolver s) q =
      (if lq_country q \<in> {None, Some []} then retA None else bindA (get_matching_candidates E (CountryResolver s) q) choose_one)"
    by (simp add: answer_query_def truthy_def)
  have 1: "if wanted (RandomResolver s) q w = {} then fst (answer_query E (RandomResolver s) q w) = Inr None
    else \<exists>t. fst (answer_query E (RandomResolver s) q w) = Inr (Some [t]) \<and> t \<in> wanted (RandomResolver s) q w"
    using one [of "RandomResolver s"] resolver.answer_empty [of "RandomResolver s" q w E] by (simp add: random)
  have 2: "if lq_metro q \<in> {None, Some []} \<or> wanted (MetroResolver s) q w = {}
    then fst (answer_query E (MetroResolver s) q w) = Inr None
    else \<exists>t si. fst (answer_query E (MetroResolver s) q w) = Inr (Some [t]) \<and>
      si \<in> set (db_sites w) \<and> si_site_id si = st_site_id t \<and> the (lq_metro q) \<in> set (si_metro si)"
  proof (cases "lq_metro q \<in> {None, Some []} \<or> wanted (MetroResolver s) q w = {}")
    case True
    then show ?thesis using resolver.answer_empty [of "MetroResolver s" q w E] by (auto simp: metro)
  next
    case False
    then obtain t where t: "fst (answer_query E (MetroResolver s) q w) = Inr (Some [t])" "t \<in> wanted (MetroResolver s) q w"
      using one [of "MetroResolver s"] by (auto simp: metro)
    then have "st_site_id t \<in> set (find_site_ids_for_metro (the (lq_metro q)) w)"
      using wanted_metro [OF t(2)] False by (auto simp: truthy_def)
    with t(1) False show ?thesis by (auto simp: find_site_ids_for_metro_def)
  qed
  have 3: "if lq_country q \<in> {None, Some []} \<or> wanted (CountryResolver s) q w = {}
    then fst (answer_query E (CountryResolver s) q w) = Inr None
    else \<exists>t. fst (answer_query E (CountryResolver s) q w) = Inr (Some [t]) \<and> st_country t = lq_country q"
  proof (cases "lq_country q \<in> {None, Some []} \<or> wanted (CountryResolver s) q w = {}")
    case True
    then show ?thesis using resolver.answer_empty [of "CountryResolver s" q w E] by (auto simp: country)
  next
    case False
    then obtain t where t: "fst (answer_query E (CountryResolver s) q w) = Inr (Some [t])" "t \<in> wanted (CountryResolver s) q w"
      using one [of "CountryResolver s"] by (auto simp: country)
    with wanted_country [OF t(2)] False show ?thesis by (auto simp: truthy_def)
  qed
  from 1 2 3 show ?thesis by blast
qed

end
