(* ===== verification/ReverseProxy.thy ===== *)
theory ReverseProxy
  imports LookupQuery
begin

text \<open>
  \<open>util/reverse_proxy.py\<close>: the probability with which the requests for an experiment are answered
  by another server, read through the memcache, and the URL such a request is forwarded to.
\<close>

section \<open>The probability of an experiment\<close>

definition default_reverse_proxy :: reverse_proxy_probability where
  "default_reverse_proxy = \<lparr>rp_name = ''default'', rp_probability = Fin 0, rp_url = ''https://mlab-ns.appspot.com''\<rparr>"

text \<open>The loop over all records, each of which is cached for 1800 seconds.\<close>

fun refresh_proxies :: "env \<Rightarrow> string \<Rightarrow> reverse_proxy_probability list \<Rightarrow> reverse_proxy_probability option \<Rightarrow>
    (world, reverse_proxy_probability option) act" where
  "refresh_proxies E experiment [] found = retA found"
| "refresh_proxies E experiment (prob # probs) found =
     (let found = (if experiment = rp_name prob then Some prob else found)
      in bindA (mc_set_proxy E (rp_name prob) prob 1800) (\<lambda>_. refresh_proxies E experiment probs found))"

definition get_reverse_proxy :: "env \<Rightarrow> string \<Rightarrow> (world, reverse_proxy_probability) act" where
  "get_reverse_proxy E experiment w =
     (case mc_get_proxy experiment w of
        Some p \<Rightarrow> (Inr p, w)
      | None \<Rightarrow>
          bindA (refresh_proxies E experiment (db_reverse_proxies w) None) (\<lambda>found.
            retA (case found of Some p \<Rightarrow> p | None \<Rightarrow> with_name experiment default_reverse_proxy)) w)"

section \<open>The URL\<close>

text \<open>The draw against the probability, and the URL: \<open>'%f' % None\<close> is a \<open>TypeError\<close>.\<close>

definition proxy_url :: "reverse_proxy_probability \<Rightarrow> real \<Rightarrow> lookup_query \<Rightarrow> string res" where
  "proxy_url rdp u q =
     (if fl_gt (Fin u) (rp_probability rdp) then Inr []
      else case (lq_latitude q, lq_longitude q) of
          (Some lat, Some lon) \<Rightarrow>
            Inr (rp_url rdp @ lq_path_qs q @ (if contains ''?'' (lq_path_qs q) then ''&'' else ''?'') @
                 ''lat='' @ fmt_fixed 6 lat @ ''&lon='' @ fmt_fixed 6 lon)
        | _ \<Rightarrow> Inl TypeError)"

definition try_reverse_proxy_url :: "env \<Rightarrow> lookup_query \<Rightarrow> (world, string) act" where
  "try_reverse_proxy_url E q =
     (if lq_path q \<noteq> ''/ndt_ssl'' \<and> lq_path q \<noteq> ''/ndt7'' then retA []
      else bindA (get_reverse_proxy E (strip_char CHR ''/'' (lq_path q))) (\<lambda>rdp.
           bindA (liftRng uniform01) (\<lambda>u. liftR (proxy_url rdp u q))))"

section \<open>What the cache and the datastore say\<close>

text \<open>The record of an experiment: the cached one, else the last of its name, else the default.\<close>

definition stored_proxy :: "string \<Rightarrow> reverse_proxy_probability list \<Rightarrow> reverse_proxy_probability option" where
  "stored_proxy x ps = find (\<lambda>p. rp_name p = x) (rev ps)"

definition proxy_of :: "string \<Rightarrow> world \<Rightarrow> reverse_proxy_probability" where
  "proxy_of x w = (case mc_get_proxy x w of
      Some p \<Rightarrow> p
    | None \<Rightarrow> (case stored_proxy x (db_reverse_proxies w) of
        Some p \<Rightarrow> p | None \<Rightarrow> with_name x default_reverse_proxy))"

lemma stored_proxy_simps [simp]:
  "stored_proxy x [] = None"
  "stored_proxy x (ps @ [p]) = (if rp_name p = x then Some p else stored_proxy x ps)"
  by (simp_all add: stored_proxy_def)

lemma find_append: "find P (xs @ ys) = (case find P xs of None \<Rightarrow> find P ys | Some x \<Rightarrow> Some x)"
  by (induction xs) auto

lemma stored_proxy_Cons:
  "stored_proxy x (p # ps) = (case stored_proxy x ps of Some y \<Rightarrow> Some y | None \<Rightarrow> if rp_name p = x then Some p else None)"
  by (simp add: stored_proxy_def find_append split: option.split)

lemma world_proxy_ex [simp]: "\<exists>m'. w\<lparr>mc_reverse_proxy := m\<rparr> = w\<lparr>mc_reverse_proxy := m'\<rparr>"
  by blast

lemma refresh_proxies_run:
  "\<exists>m. refresh_proxies E x ps found w =
     (Inr (case stored_proxy x ps of Some p \<Rightarrow> Some p | None \<Rightarrow> found), w\<lparr>mc_reverse_proxy := m\<rparr>) \<and>
     m x = (case stored_proxy x ps of
        None \<Rightarrow> mc_reverse_proxy w x
      | Some p \<Rightarrow> if e_mc_ok E MEMCACHE_NAMESPACE_REVERSE_PROXY x then Some (p, w_now w + 1800) else mc_reverse_proxy w x)"
proof (induction ps arbitrary: found w)
  case Nil
  show ?case by (intro exI [of _ "mc_reverse_proxy w"]) simp
next
  case (Cons p ps)
  define f where "f = (if x = rp_name p then Some p else found)"
  define m1 where "m1 = (if e_mc_ok E MEMCACHE_NAMESPACE_REVERSE_PROXY (rp_name p)
    then (mc_reverse_proxy w)(rp_name p := Some (p, w_now w + 1800)) else mc_reverse_proxy w)"
  define w1 where "w1 = w\<lparr>mc_reverse_proxy := m1\<rparr>"
  have "mc_set_proxy E (rp_name p) p 1800 w = (Inr (e_mc_ok E MEMCACHE_NAMESPACE_REVERSE_PROXY (rp_name p)), w1)"
    by (simp add: mc_set_proxy_def w1_def m1_def)
  then have run: "refresh_proxies E x (p # ps) found w = refresh_proxies E x ps f w1"
    by (simp add: f_def Let_def)
  from Cons.IH [of f w1] obtain m where
    m: "refresh_proxies E x ps f w1 = (Inr (case stored_proxy x ps of Some p \<Rightarrow> Some p | None \<Rightarrow> f), w1\<lparr>mc_reverse_proxy := m\<rparr>)"
    and mx: "m x = (case stored_proxy x ps of
        None \<Rightarrow> mc_reverse_proxy w1 x
      | Some p \<Rightarrow> if e_mc_ok E MEMCACHE_NAMESPACE_REVERSE_PROXY x then Some (p, w_now w1 + 1800) else mc_reverse_proxy w1 x)"
    by blast
  show ?case
  proof (intro exI [of _ m] conjI)
    show "refresh_proxies E x (p # ps) found w =
        (Inr (case stored_proxy x (p # ps) of Some p \<Rightarrow> Some p | None \<Rightarrow> found), w\<lparr>mc_reverse_proxy := m\<rparr>)"
      using m unfolding run by (simp add: stored_proxy_Cons f_def w1_def split: option.split)
    show "m x = (case stored_proxy x (p # ps) of
        None \<Rightarrow> mc_reverse_proxy w x
      | Some p \<Rightarrow> if e_mc_ok E MEMCACHE_NAMESPACE_REVERSE_PROXY x then Some (p, w_now w + 1800) else mc_reverse_proxy w x)"
      using mx by (auto simp: stored_proxy_Cons w1_def m1_def split: option.split)
  qed
qed

lemma get_reverse_proxy_run:
  "\<exists>m. get_reverse_proxy E x w = (Inr (proxy_of x w), w\<lparr>mc_reverse_proxy := m\<rparr>) \<and>
     proxy_of x (w\<lparr>mc_reverse_proxy := m\<rparr>) = proxy_of x w"
proof (cases "mc_get_proxy x w")
  case (Some p)
  have "w = w\<lparr>mc_reverse_proxy := mc_reverse_proxy w\<rparr>" by simp
  then show ?thesis using Some by (intro exI [of _ "mc_reverse_proxy w"]) (simp add: get_reverse_proxy_def proxy_of_def)
next
  case None
  obtain m where m: "refresh_proxies E x (db_reverse_proxies w) None w =
      (Inr (case stored_proxy x (db_reverse_proxies w) of Some p \<Rightarrow> Some p | None \<Rightarrow> None), w\<lparr>mc_reverse_proxy := m\<rparr>)"
    and mx: "m x = (case stored_proxy x (db_reverse_proxies w) of
        None \<Rightarrow> mc_reverse_proxy w x
      | Some p \<Rightarrow> if e_mc_ok E MEMCACHE_NAMESPACE_REVERSE_PROXY x then Some (p, w_now w + 1800) else mc_reverse_proxy w x)"
    using refresh_proxies_run by blast
  have "get_reverse_proxy E x w = (Inr (proxy_of x w), w\<lparr>mc_reverse_proxy := m\<rparr>)"
    using None m by (simp add: get_reverse_proxy_def proxy_of_def split: option.split)
  moreover have "proxy_of x (w\<lparr>mc_reverse_proxy := m\<rparr>) = proxy_of x w"
    using None mx by (auto simp: proxy_of_def mc_get_proxy_def split: option.splits if_splits prod.splits)
  ultimately show ?thesis by blast
qed

definition proxied_path :: "lookup_query \<Rightarrow> bool" where
  "proxied_path q \<longleftrightarrow> lq_path q = ''/ndt_ssl'' \<or> lq_path q = ''/ndt7''"

definition experiment_of :: "lookup_query \<Rightarrow> string" where
  "experiment_of q = strip_char CHR ''/'' (lq_path q)"

lemma try_proxied:
  assumes "proxied_path q"
  shows "\<exists>m. try_reverse_proxy_url E q w =
    (proxy_url (proxy_of (experiment_of q) w) (fst (uniform01 (w_rng w))) q,
     w\<lparr>mc_reverse_proxy := m, w_rng := snd (uniform01 (w_rng w))\<rparr>)"
proof -
  obtain m where get: "get_reverse_proxy E (experiment_of q) w = (Inr (proxy_of (experiment_of q) w), w\<lparr>mc_reverse_proxy := m\<rparr>)"
    using get_reverse_proxy_run by blast
  have rng: "liftRng uniform01 (w\<lparr>mc_reverse_proxy := m\<rparr>) =
      (Inr (fst (uniform01 (w_rng w))), w\<lparr>mc_reverse_proxy := m, w_rng := snd (uniform01 (w_rng w))\<rparr>)"
    by (simp add: liftRng_def split: prod.split)
  have "\<not> (lq_path q \<noteq> ''/ndt_ssl'' \<and> lq_path q \<noteq> ''/ndt7'')" using assms by (simp add: proxied_path_def)
  then show ?thesis
    unfolding try_reverse_proxy_url_def experiment_of_def [symmetric] if_not_P [OF \<open>\<not> _\<close>]
    using get rng by (intro exI [of _ m]) simp
qed

lemma try_not_proxied: "\<not> proxied_path q \<Longrightarrow> try_reverse_proxy_url E q w = (Inr [], w)"
  by (simp add: try_reverse_proxy_url_def proxied_path_def)

lemma try_world: "\<exists>m r. snd (try_reverse_proxy_url E q w) = w\<lparr>mc_reverse_proxy := m, w_rng := r\<rparr>"
proof (cases "proxied_path q")
  case True
  then show ?thesis using try_proxied [of q E w] by (metis snd_conv)
next
  case False
  have "w = w\<lparr>mc_reverse_proxy := mc_reverse_proxy w, w_rng := w_rng w\<rparr>" by simp
  then show ?thesis using try_not_proxied [OF False] by (metis snd_conv)
qed

section \<open>Properties\<close>


text \<open>C21: a request for \<open>/ndt_ssl\<close> or \<open>/ndt7\<close> at a known place is forwarded exactly when the draw does not
  exceed the probability of its experiment, to the URL of the record with the position added to the
  query string; at an unknown place the same draws raise \<open>TypeError\<close>; no other request is forwarded.\<close>

theorem proxied_requests:
  "fst (try_reverse_proxy_url E q w) =
     (let rdp = proxy_of (experiment_of q) w
      in if proxied_path q \<and> \<not> fl_gt (Fin (fst (uniform01 (w_rng w)))) (rp_probability rdp)
         then (if lq_latitude q = None \<or> lq_longitude q = None then Inl TypeError
               else Inr (rp_url rdp @ lq_path_qs q @ (if contains ''?'' (lq_path_qs q) then ''&'' else ''?'') @
                 ''lat='' @ fmt_fixed 6 (the (lq_latitude q)) @ ''&lon='' @ fmt_fixed 6 (the (lq_longitude q))))
         else Inr [])"
proof (cases "proxied_path q")
  case True
  then obtain m where "try_reverse_proxy_url E q w =
    (proxy_url (proxy_of (experiment_of q) w) (fst (uniform01 (w_rng w))) q,
     w\<lparr>mc_reverse_proxy := m, w_rng := snd (uniform01 (w_rng w))\<rparr>)" using try_proxied by blast
  with True show ?thesis
    by (cases "lq_latitude q"; cases "lq_longitude q") (simp_all add: Let_def proxy_url_def)
qed (simp add: try_not_proxied Let_def)

text \<open>A probability of 0 does not switch forwarding off: on the draw 0.0, which \<open>random.uniform\<close> can
  return, the request is forwarded to the default URL, the service itself.\<close>

theorem zero_probability_forwards:
  "fst (try_reverse_proxy_url idle_env
      (new_query\<lparr>lq_path := ''/ndt7'', lq_path_qs := ''/ndt7'', lq_latitude := Some (Fin 0), lq_longitude := Some (Fin 0)\<rparr>)
      idle_world) =
   Inr ''https://mlab-ns.appspot.com/ndt7?lat=0.000000&lon=0.000000''"
proof -
  let ?q = "new_query\<lparr>lq_path := ''/ndt7'', lq_path_qs := ''/ndt7'', lq_latitude := Some (Fin 0), lq_longitude := Some (Fin 0)\<rparr>"
  have path: "proxied_path ?q" by (simp add: proxied_path_def)
  have draw: "fst (uniform01 (w_rng idle_world)) = 0"
    by (simp add: idle_world_def zero_rng_def uniform01_def unit_of_def)
  have rdp: "rp_probability (proxy_of x idle_world) = Fin 0"
    "rp_url (proxy_of x idle_world) = ''https://mlab-ns.appspot.com''" for x
    by (simp_all add: proxy_of_def mc_get_proxy_def idle_world_def with_name_def default_reverse_proxy_def)
  have zero: "show_nat 0 = ''0''" by (subst show_nat.simps) (simp add: digit_char_def)
  have pad: "pad_left 6 ''0'' = ''000000''" by (simp add: pad_left_def numeral_eq_Suc)
  have fmt: "fmt_fixed 6 (Fin 0) = ''0.000000''"
    using round_half_even_of_int [of 0] by (simp add: fmt_fixed_def zero pad)
  obtain m where "try_reverse_proxy_url idle_env ?q idle_world =
    (proxy_url (proxy_of (experiment_of ?q) idle_world) (fst (uniform01 (w_rng idle_world))) ?q,
     idle_world\<lparr>mc_reverse_proxy := m, w_rng := snd (uniform01 (w_rng idle_world))\<rparr>)"
    using try_proxied [OF path] by blast
  then show ?thesis by (simp add: proxy_url_def draw rdp fmt starts_with_def)
qed

end
