(* ===== verification/Response.thy ===== *)
theory Response
  imports Model
begin

text \<open>
  \<open>util/util.py\<close> and the response object the handlers write to. Of webapp's response the code uses
  the headers (a later assignment of a header replaces it), the status, \<open>error\<close> (set the status,
  drop what was written), \<open>redirect\<close> (status 302, drop what was written, header \<open>Location\<close>; the
  server completes a relative URL) and \<open>out.write\<close>.
\<close>

section \<open>The response object\<close>

definition resp_header :: "string \<Rightarrow> string \<Rightarrow> (world, unit) act" where
  "resp_header k v = modA (\<lambda>w. w\<lparr>w_response := (w_response w)\<lparr>re_headers := kv_set k v (re_headers (w_response w))\<rparr>\<rparr>)"

definition resp_status :: "nat \<Rightarrow> (world, unit) act" where
  "resp_status n = modA (\<lambda>w. w\<lparr>w_response := (w_response w)\<lparr>re_status := n\<rparr>\<rparr>)"

definition resp_write :: "chunk list \<Rightarrow> (world, unit) act" where
  "resp_write cs = modA (\<lambda>w. w\<lparr>w_response := (w_response w)\<lparr>re_body := re_body (w_response w) @ cs\<rparr>\<rparr>)"

definition resp_error :: "nat \<Rightarrow> (world, unit) act" where
  "resp_error n = modA (\<lambda>w. w\<lparr>w_response := (w_response w)\<lparr>re_status := n, re_body := []\<rparr>\<rparr>)"

definition resp_redirect :: "string \<Rightarrow> (world, unit) act" where
  "resp_redirect uri = modA (\<lambda>w. w\<lparr>w_response := (w_response w)\<lparr>re_status := 302, re_body := [],
     re_headers := kv_set ''Location'' uri (re_headers (w_response w))\<rparr>\<rparr>)"

section \<open>\<open>util/util.py\<close>\<close>

definition send_no_content :: "(world, unit) act" where
  "send_no_content =
     seqA (resp_header ''Access-Control-Allow-Origin'' ''*'')
    (seqA (resp_header ''Content-Type'' ''application/json'')
          (resp_status 204))"

definition send_not_found :: "string \<Rightarrow> (world, unit) act" where
  "send_not_found output_type =
     seqA (resp_error 404)
       (if output_type = FORMAT_JSON
        then seqA (resp_header ''Content-Type'' ''application/json'')
                  (resp_write [Dumped (JObj [(''status_code'', JStr ''404 Not found'')])])
        else resp_write [Rendered ''not_found.html'' []])"

definition send_server_error :: "string \<Rightarrow> (world, unit) act" where
  "send_server_error output_type =
     seqA (resp_error 500)
       (if output_type = FORMAT_JSON
        then seqA (resp_header ''Content-Type'' ''application/json'')
                  (resp_write [Dumped (JObj [(''status_code'', JStr ''500 Internal Server Error'')])])
        else resp_write [Rendered ''not_found.html'' []])"

definition send_success :: "string \<Rightarrow> (world, unit) act" where
  "send_success output_type =
     (if output_type = FORMAT_JSON
      then seqA (resp_header ''Content-Type'' ''application/json'')
                (resp_write [Dumped (JObj [(''status_code'', JStr ''200 OK'')])])
      else resp_write [Text ''<html> Success! </html>''])"

section \<open>Only the response\<close>

text \<open>An action that always returns, and touches nothing but the response.\<close>

definition responds :: "(world, unit) act \<Rightarrow> bool" where
  "responds m \<longleftrightarrow> (\<forall>w. \<exists>r. m w = (Inr (), w\<lparr>w_response := r\<rparr>))"

lemma world_response_ex [simp]: "\<exists>r'. w\<lparr>w_response := r\<rparr> = w\<lparr>w_response := r'\<rparr>"
  by blast

lemma responds_seqA [intro]: "responds m \<Longrightarrow> responds n \<Longrightarrow> responds (seqA m n)"
proof (unfold responds_def, rule allI)
  fix w
  assume m: "\<forall>w. \<exists>r. m w = (Inr (), w\<lparr>w_response := r\<rparr>)" and n: "\<forall>w. \<exists>r. n w = (Inr (), w\<lparr>w_response := r\<rparr>)"
  obtain r where r: "m w = (Inr (), w\<lparr>w_response := r\<rparr>)" using m by blast
  obtain r' where "n (w\<lparr>w_response := r\<rparr>) = (Inr (), w\<lparr>w_response := r, w_response := r'\<rparr>)" using n by blast
  with r show "\<exists>r. seqA m n w = (Inr (), w\<lparr>w_response := r\<rparr>)" by simp
qed

lemma responds_basic [simp, intro]:
  "responds (resp_header k v)" "responds (resp_status n)" "responds (resp_write cs)"
  "responds (resp_error n)" "responds (resp_redirect uri)"
  by (simp_all add: responds_def resp_header_def resp_status_def resp_write_def resp_error_def resp_redirect_def)

lemma responds_retA [simp, intro]: "responds (retA ())"
proof -
  have "w = w\<lparr>w_response := w_response w\<rparr>" for w :: world by simp
  then show ?thesis unfolding responds_def by (metis act_run(1))
qed

lemma responds_util [simp, intro]:
  "responds send_no_content" "responds (send_not_found t)" "responds (send_server_error t)" "responds (send_success t)"
  by (auto simp: send_no_content_def send_not_found_def send_server_error_def send_success_def)

lemma responds_run: "responds m \<Longrightarrow> \<exists>r. m w = (Inr (), w\<lparr>w_response := r\<rparr>)"
  by (simp add: responds_def)

lemmas resp_run = resp_header_def resp_status_def resp_write_def resp_error_def resp_redirect_def

lemma send_status:
  "re_status (w_response (snd (send_no_content w))) = 204"
  "re_status (w_response (snd (send_not_found t w))) = 404"
  "re_status (w_response (snd (send_server_error t w))) = 500"
  "re_status (w_response (snd (send_success t w))) = re_status (w_response w)"
  by (simp_all add: send_no_content_def send_not_found_def send_server_error_def send_success_def resp_run seqA_def)

end
