(* ===== verification/Lookup.thy ===== *)
theory Lookup
  imports Resolver ReverseProxy Response
begin

text \<open>
  \<open>handlers/lookup.py\<close>: a lookup reads a query off the request, may forward it to another server,
  asks the resolver of its policy and renders the answer in the format asked for. The lines that
  are logged under a tag (\<open>[lookup]\<close>, \<open>[reverse_proxy]\<close>, ...) are read by other programs and are
  part of the model; the untagged messages are not.
\<close>

section \<open>The parts of a response\<close>

definition create_tool_url :: "string \<Rightarrow> string \<Rightarrow> string" where
  "create_tool_url fqdn http_port = ''http://'' @ fqdn @ '':'' @ http_port"

text \<open>\<open>'%s' % x\<close> for a string that may be \<open>None\<close>.\<close>

definition str_opt :: "string option \<Rightarrow> string" where
  "str_opt x = (case x of None \<Rightarrow> ''None'' | Some s \<Rightarrow> s)"

definition sliver_fqdn :: "lookup_query \<Rightarrow> sliver_tool \<Rightarrow> string" where
  "sliver_fqdn q t = rewrite (st_fqdn t) (lq_tool_address_family q) (Some (st_tool_id t))"

section \<open>Response formats\<close>

text \<open>\<open>bt\<close>: one line \<open>city, country|fqdn\<close> per tool; adding \<open>None\<close> to a string is a \<open>TypeError\<close>.\<close>

definition bt_line :: "lookup_query \<Rightarrow> sliver_tool \<Rightarrow> string res" where
  "bt_line q t = (case (st_city t, st_country t) of
      (Some city, Some country) \<Rightarrow> Inr (city @ '', '' @ country @ ''|'' @ sliver_fqdn q t @ [newline])
    | _ \<Rightarrow> Inl TypeError)"

definition send_bt_response :: "sliver_tool list \<Rightarrow> lookup_query \<Rightarrow> (world, unit) act" where
  "send_bt_response sliver_tools q =
     bindA (liftR (mapR (bt_line q) sliver_tools)) (\<lambda>lines.
       seqA (resp_header ''Access-Control-Allow-Origin'' ''*'')
      (seqA (resp_header ''Content-Type'' ''text/html'')
            (resp_write [Text (concat lines)])))"

text \<open>\<open>json\<close>: the addresses of a tool, then its object.\<close>

definition sliver_ips :: "lookup_query \<Rightarrow> sliver_tool \<Rightarrow> string list" where
  "sliver_ips q t =
     (if lq_tool_address_family q = Some ADDRESS_FAMILY_IPv4 then [st_sliver_ipv4 t]
      else if lq_tool_address_family q = Some ADDRESS_FAMILY_IPv6 then [st_sliver_ipv6 t]
      else (if st_status_ipv4 t = STATUS_ONLINE then [st_sliver_ipv4 t] else []) @
           (if st_status_ipv6 t = STATUS_ONLINE then [st_sliver_ipv6 t] else []))"

definition js_opt :: "string option \<Rightarrow> json" where
  "js_opt x = (case x of None \<Rightarrow> JNull | Some s \<Rightarrow> JStr s)"

definition sliver_object :: "lookup_query \<Rightarrow> sliver_tool \<Rightarrow> bool \<Rightarrow> json" where
  "sliver_object q t show_extra =
     (let fqdn = sliver_fqdn q t
      in JObj ((if truthy (st_http_port t) then [(''url'', JStr (create_tool_url fqdn (the (st_http_port t))))] else []) @
               (if truthy (st_server_port t) then [(''port'', JStr (the (st_server_port t)))] else []) @
               [(''fqdn'', JStr fqdn), (''ip'', JArr (map JStr (sliver_ips q t))), (''site'', JStr (st_site_id t)),
                (''city'', js_opt (st_city t)), (''country'', js_opt (st_country t))] @
               (if show_extra then [(''tool_extra'', js_opt (st_tool_extra t))] else [])))"

text \<open>
  The loop: \<open>tool\<close> is the \<open>Tool\<close> entity, looked up while it is \<open>None\<close>; \<open>None.show_tool_extra\<close> is an
  \<open>AttributeError\<close>. The text so far is a list of pieces, empty exactly when the string is.
\<close>

fun json_loop :: "lookup_query \<Rightarrow> sliver_tool list \<Rightarrow> tool option \<Rightarrow> chunk list \<Rightarrow> (world, chunk list) act" where
  "json_loop q [] found json_data = retA json_data"
| "json_loop q (t # ts) found json_data =
     bindA (getA (\<lambda>w. case found of None \<Rightarrow> get_tool_from_tool_id (st_tool_id t) w | Some x \<Rightarrow> Some x)) (\<lambda>found.
     bindA (liftR (if truthy (st_tool_extra t)
                   then (case found of None \<Rightarrow> Inl AttributeError | Some x \<Rightarrow> Inr (tl_show_tool_extra x = Some True))
                   else Inr False)) (\<lambda>show_extra.
     json_loop q ts found
       (json_data @ (if json_data \<noteq> [] then [Text '',''] else []) @ [Dumped (sliver_object q t show_extra)])))"

definition send_json_response :: "sliver_tool list \<Rightarrow> lookup_query \<Rightarrow> (world, unit) act" where
  "send_json_response sliver_tools q =
     bindA (json_loop q sliver_tools None []) (\<lambda>json_data.
       let json_data = (if length sliver_tools > 1 then [Text ''[''] @ json_data @ [Text '']''] else json_data)
       in if json_data \<noteq> []
          then seqA (resp_header ''Access-Control-Allow-Origin'' ''*'')
              (seqA (resp_header ''Content-Type'' ''application/json'')
                    (resp_write json_data))
          else send_no_content)"

text \<open>\<open>html\<close>: the template is given the tools; the model names the fields it can show.\<close>

definition sliver_record :: "sliver_tool \<Rightarrow> json" where
  "sliver_record t = JObj
     [(''tool_id'', JStr (st_tool_id t)), (''slice_id'', JStr (st_slice_id t)), (''site_id'', JStr (st_site_id t)),
      (''server_id'', JStr (st_server_id t)), (''server_port'', js_opt (st_server_port t)),
      (''http_port'', js_opt (st_http_port t)), (''tool_extra'', js_opt (st_tool_extra t)), (''fqdn'', JStr (st_fqdn t)),
      (''sliver_ipv4'', JStr (st_sliver_ipv4 t)), (''sliver_ipv6'', JStr (st_sliver_ipv6 t)),
      (''status_ipv4'', JStr (st_status_ipv4 t)), (''status_ipv6'', JStr (st_status_ipv6 t)),
      (''latitude'', JFloat (st_latitude t)), (''longitude'', JFloat (st_longitude t)),
      (''city'', js_opt (st_city t)), (''country'', js_opt (st_country t))]"

definition send_html_response :: "sliver_tool list \<Rightarrow> lookup_query \<Rightarrow> (world, unit) act" where
  "send_html_response sliver_tools q =
     seqA (resp_header ''Access-Control-Allow-Origin'' ''*'')
          (resp_write [Rendered ''mlabns/templates/lookup_response.html''
             [(''records'', JArr (map sliver_record sliver_tools))]])"

definition send_redirect_response :: "sliver_tool list \<Rightarrow> lookup_query \<Rightarrow> (world, unit) act" where
  "send_redirect_response sliver_tools q =
     (case sliver_tools of
        [] \<Rightarrow> raiseA IndexError
      | t # _ \<Rightarrow>
          if truthy (st_http_port t)
          then resp_redirect (create_tool_url (sliver_fqdn q t) (the (st_http_port t)))
          else send_not_found FORMAT_HTML)"

text \<open>Forwarding: the headers are set one by one before the body is written.\<close>

definition send_proxy_response :: "env \<Rightarrow> string \<Rightarrow> (world, bool) act" where
  "send_proxy_response E url =
     catchA
       (bindA (liftR (e_urlopen E url)) (\<lambda>(body, content_type).
          seqA (resp_header ''Cache-Control'' ''no-cache'')
         (seqA (resp_header ''Access-Control-Allow-Origin'' ''*'')
         (seqA (resp_header ''Connection'' ''close'')
         (seqA (resp_header ''Content-Type'' content_type)
         (seqA (resp_write [Text body]) (retA True)))))))
       (\<lambda>e. if is_URLError e then Some (retA False) else None)"

text \<open>\<open>map\<close>: one tool among its candidates. No path of the handler gets here (see \<open>lookup_get\<close>).\<close>

definition site_dict :: "sliver_tool \<Rightarrow> (string \<times> json) list" where
  "site_dict t =
     [(''site_id'', JStr (st_site_id t)), (''city'', js_opt (st_city t)), (''country'', js_opt (st_country t)),
      (''latitude'', JFloat (st_latitude t)), (''longitude'', JFloat (st_longitude t))]"

definition js_float_opt :: "pyfloat option \<Rightarrow> json" where
  "js_float_opt x = (case x of None \<Rightarrow> JNull | Some f \<Rightarrow> JFloat f)"

definition send_map_response :: "sliver_tool \<Rightarrow> lookup_query \<Rightarrow> sliver_tool list \<Rightarrow> (world, unit) act" where
  "send_map_response t q candidates =
     (let fqdn = sliver_fqdn q t;
          destination_info =
            (if truthy (st_http_port t)
             then (let url = create_tool_url fqdn (the (st_http_port t))
                   in ''<a class='' @ [CHR 0x22] @ ''footer'' @ [CHR 0x22] @ '' href='' @ url @ ''>'' @ url @ ''</a>'')
             else fqdn);
          info = ''<div id=siteShortInfo><h2>'' @ str_opt (st_city t) @ '', '' @ str_opt (st_country t) @ ''</h2>'' @
                 destination_info @ ''</div>'';
          destination = JObj (site_dict t @ [(''info'', JStr info)]);
          sites = JArr (map (JObj \<circ> site_dict) (filter (\<lambda>c. st_site_id c \<noteq> st_site_id t) candidates));
          user = JObj [(''city'', js_opt (lq_city q)), (''country'', js_opt (lq_country q)),
                       (''latitude'', js_float_opt (lq_latitude q)), (''longitude'', js_float_opt (lq_longitude q))]
      in resp_write [Rendered ''mlabns/templates/lookup_map.html''
           [(''sites'', sites), (''user'', user), (''destination'', destination)]])"

section \<open>The log\<close>

definition sliver_tool_info :: "lookup_query \<Rightarrow> sliver_tool \<Rightarrow> string" where
  "sliver_tool_info q t =
     ''('' @ join_with '' '' [st_slice_id t, st_server_id t, st_sliver_ipv4 t, st_sliver_ipv6 t, st_fqdn t, sliver_fqdn q t,
       st_site_id t, str_opt (st_city t), str_opt (st_country t), fl_str (st_latitude t), fl_str (st_longitude t)] @ '') ''"

definition log_request :: "request \<Rightarrow> lookup_query \<Rightarrow> sliver_tool list \<Rightarrow> (world, unit) act" where
  "log_request rq q sliver_tools =
     bindA (getA w_now) (\<lambda>now.
       logA (''[lookup]'' @ join_with '','' [str_opt (lq_tool_address_family q), str_opt (lq_ip_address q),
         (case rq_headers rq ''User-Agent'' of None \<Rightarrow> [] | Some ua \<Rightarrow> ua),
         concat (map (sliver_tool_info q) sliver_tools),
         lq_tool_id q, str_opt (lq_policy q), lq_response_format q, str_opt (lq_geolocation_type q),
         str_opt (lq_metro q), fl_str (Fin now),
         (case lq_distance q of None \<Rightarrow> ''None'' | Some d \<Rightarrow> fl_str d)]))"

text \<open>
  The comparison of the two geolocations, for \<open>ndt_ssl\<close> clients that App Engine placed. The time
  between the two clock readings is 0 in the model.
\<close>

definition log_location :: "env \<Rightarrow> request \<Rightarrow> lookup_query \<Rightarrow> sliver_tool list \<Rightarrow> (world, unit) act" where
  "log_location E rq q sliver_tools =
     (case sliver_tools of
        [] \<Rightarrow> retA ()
      | t # _ \<Rightarrow>
          if lq_tool_id q \<noteq> ''ndt_ssl'' \<or> lq_geolocation_type q \<noteq> Some GEOLOCATION_APP_ENGINE then retA ()
          else
            seqA (logA (''[client.country],'' @ str_opt (lq_country q)))
           (bindA (set_maxmind_geolocation E (lq_ip_address q) None None q) (\<lambda>(found, q).
              if \<not> found then retA ()
              else bindA (liftR (case (gae_latitude q, gae_longitude q, mm_latitude q, mm_longitude q) of
                     (Some a, Some b, Some c, Some d) \<Rightarrow> distance a b c d | _ \<Rightarrow> Inl TypeError)) (\<lambda>difference.
                seqA (logA (''[server.distance],'' @ join_with '','' [rq_scheme rq, lq_tool_id q, st_site_id t,
                        str_opt (st_country t), str_opt (st_city t),
                        (if gae_country q = mm_country q then ''True'' else ''False''), fl_str difference]))
                     (logA ''[log_location.delay],0.0'')))))"

section \<open>The handler\<close>

definition lookup_post :: "(world, unit) act" where
  "lookup_post = send_not_found FORMAT_HTML"

text \<open>Whether the request was forwarded, that is, is done.\<close>

definition forward_request :: "env \<Rightarrow> lookup_query \<Rightarrow> (world, bool) act" where
  "forward_request E q =
     bindA (try_reverse_proxy_url E q) (\<lambda>url.
       if url = [] then retA False
       else bindA (send_proxy_response E url) (\<lambda>success.
         if success
         then seqA (logA (''[reverse_proxy],true,'' @ url @ '','' @ strip_char CHR ''/'' (lq_path q))) (retA True)
         else retA False))"

text \<open>No answer: the tool is known and has no capacity, or it is not known.\<close>

definition send_no_answer :: "lookup_query \<Rightarrow> (world, unit) act" where
  "send_no_answer q =
     bindA (getA (is_valid_tool (lq_tool_id q))) (\<lambda>valid.
       if valid then send_no_content else send_not_found (lq_response_format q))"

text \<open>An answer in the format asked for. The resolvers have no method \<open>get_candidates\<close>.\<close>

definition send_answer :: "lookup_query \<Rightarrow> sliver_tool list \<Rightarrow> (world, unit) act" where
  "send_answer q sliver_tools =
     (if lq_response_format q = FORMAT_JSON then send_json_response sliver_tools q
      else if lq_response_format q = FORMAT_HTML then send_html_response sliver_tools q
      else if lq_response_format q = FORMAT_REDIRECT then send_redirect_response sliver_tools q
      else if lq_response_format q = FORMAT_BT then send_bt_response sliver_tools q
      else if lq_response_format q = FORMAT_MAP then raiseA AttributeError
      else send_json_response sliver_tools q)"

definition lookup_get :: "env \<Rightarrow> request \<Rightarrow> (world, unit) act" where
  "lookup_get E rq =
     bindA (initialize_from_http_request E rq) (\<lambda>q.
     bindA (forward_request E q) (\<lambda>forwarded.
     if forwarded then retA ()
     else bindA (answer_query E (new_resolver (lq_policy q) (calculate_client_signature q)) q) (\<lambda>answer.
       case answer of
         None \<Rightarrow> send_no_answer q
       | Some sliver_tools \<Rightarrow>
           seqA (send_answer q sliver_tools)
          (seqA (log_location E rq q sliver_tools)
                (log_request rq q sliver_tools)))))"

section \<open>What a lookup can change\<close>

text \<open>The cache of proxy records, the random source, the MaxMind reader, the log and the response.\<close>

definition lookup_frame :: "world \<Rightarrow> world \<Rightarrow> bool" where
  "lookup_frame w w' \<longleftrightarrow> (\<exists>m r b l s.
     w' = w\<lparr>mc_reverse_proxy := m, w_rng := r, w_reader := b, w_log := l, w_response := s\<rparr>)"

lemma lookup_frameI: "w' = w\<lparr>mc_reverse_proxy := m, w_rng := r, w_reader := b, w_log := l, w_response := s\<rparr> \<Longrightarrow> lookup_frame w w'"
  unfolding lookup_frame_def by blast

lemma lookup_frame_refl: "lookup_frame w w"
  by (rule lookup_frameI [where m = "mc_reverse_proxy w" and r = "w_rng w" and b = "w_reader w" and l = "w_log w" and s = "w_response w"]) simp

lemma lookup_frame_trans: "lookup_frame w w' \<Longrightarrow> lookup_frame w' w'' \<Longrightarrow> lookup_frame w w''"
  unfolding lookup_frame_def by (elim exE) (simp, blast)

lemma reflp_lookup_frame [frame]: "reflp lookup_frame"
  by (rule reflpI) (rule lookup_frame_refl)

lemma transp_lookup_frame [frame]: "transp lookup_frame"
  by (rule transpI) (rule lookup_frame_trans)

lemma lookup_frame_single [simp]:
  "lookup_frame w (w\<lparr>w_rng := r\<rparr>)" "lookup_frame w (w\<lparr>w_reader := b\<rparr>)"
  "lookup_frame w (w\<lparr>w_response := s\<rparr>)" "lookup_frame w (w\<lparr>w_log := l\<rparr>)"
  "lookup_frame w (w\<lparr>mc_reverse_proxy := m, w_rng := r\<rparr>)"
      apply (rule lookup_frameI [where m = "mc_reverse_proxy w" and r = "r" and b = "w_reader w" and l = "w_log w" and s = "w_response w"]; simp)
     apply (rule lookup_frameI [where m = "mc_reverse_proxy w" and r = "w_rng w" and b = "b" and l = "w_log w" and s = "w_response w"]; simp)
    apply (rule lookup_frameI [where m = "mc_reverse_proxy w" and r = "w_rng w" and b = "w_reader w" and l = "w_log w" and s = "s"]; simp)
   apply (rule lookup_frameI [where m = "mc_reverse_proxy w" and r = "w_rng w" and b = "w_reader w" and l = "l" and s = "w_response w"]; simp)
  apply (rule lookup_frameI [where m = "m" and r = "r" and b = "w_reader w" and l = "w_log w" and s = "w_response w"]; simp)
  done

lemma responds_frame [frame]: "responds m \<Longrightarrow> keepsA lookup_frame m"
  by (rule keepsAI) (metis responds_run snd_conv lookup_frame_single(3))

lemma logA_frame [frame]: "keepsA lookup_frame (logA l)"
  by (rule keepsAI) (simp add: logA_def)

lemmas frame_rules = keepsA_bindA [OF transp_lookup_frame] keepsA_seqA [OF transp_lookup_frame]
  keepsA_catchA [OF transp_lookup_frame] keepsA_basic [OF reflp_lookup_frame] logA_frame
  responds_basic [THEN responds_frame] responds_util [THEN responds_frame]

lemma reader_frame [frame]: "keepsA lookup_frame (get_ip_geolocation E ip)"
proof (rule keepsAI)
  fix w
  obtain b where "snd (get_ip_geolocation E ip w) = w\<lparr>w_reader := b\<rparr>" using ip_geolocation_world by blast
  then show "lookup_frame w (snd (get_ip_geolocation E ip w))" by simp
qed

lemma maxmind_frame [frame]: "keepsA lookup_frame (set_maxmind_geolocation E ip co ci q)"
  unfolding set_maxmind_geolocation_def
  by (intro frame_rules) (auto intro: frame_rules reader_frame split: option.split)

lemma initialize_frame [frame]: "keepsA lookup_frame (initialize_from_http_request E rq)"
proof -
  have "keepsA lookup_frame (choose_geolocation E input q)" for input q
    unfolding choose_geolocation_def set_maxmind_def
    by (auto intro!: frame_rules maxmind_frame split: prod.split option.split)
  then show ?thesis
    unfolding initialize_from_http_request_def set_geolocation_def Let_def by (intro frame_rules)
qed

lemma forward_frame [frame]: "keepsA lookup_frame (forward_request E q)"
proof -
  have "keepsA lookup_frame (try_reverse_proxy_url E q)"
    by (rule keepsAI) (metis try_world lookup_frame_single(5))
  moreover have "keepsA lookup_frame (send_proxy_response E url)" for url
    unfolding send_proxy_response_def
    by (intro frame_rules) (auto intro!: frame_rules split: if_splits)
  ultimately show ?thesis unfolding forward_request_def by (auto intro!: frame_rules)
qed

lemma answer_frame [frame]: "keepsA lookup_frame (answer_query E R q)"
proof (rule keepsAI)
  fix w
  obtain r where "snd (answer_query E R q w) = w\<lparr>w_rng := r\<rparr>" using resolver.answer_world by blast
  then show "lookup_frame w (snd (answer_query E R q w))" by simp
qed

lemma json_loop_frame [frame]: "keepsA lookup_frame (json_loop q ts found cs)"
proof (induction ts arbitrary: found cs)
  case (Cons t ts)
  show ?case unfolding json_loop.simps by (intro frame_rules Cons.IH)
qed (simp add: frame_rules)

lemma send_answer_frame [frame]: "keepsA lookup_frame (send_answer q ts)"
  unfolding send_answer_def send_json_response_def send_html_response_def send_redirect_response_def send_bt_response_def
  by (auto simp: Let_def intro!: frame_rules json_loop_frame split: list.split)

lemma log_frames [frame]: "keepsA lookup_frame (log_location E rq q ts)" "keepsA lookup_frame (log_request rq q ts)"
  unfolding log_location_def log_request_def
  by (auto intro!: frame_rules maxmind_frame split: list.split prod.split)

lemma lookup_get_frame: "keepsA lookup_frame (lookup_get E rq)"
  unfolding lookup_get_def send_no_answer_def
  by (auto intro!: frame_rules initialize_frame forward_frame answer_frame send_answer_frame log_frames split: option.split)

section \<open>The JSON body\<close>

fun commas :: "chunk list \<Rightarrow> chunk list" where
  "commas [] = []"
| "commas [c] = [c]"
| "commas (c # d # cs) = c # Text '','' # commas (d # cs)"

lemma commas_snoc: "commas (cs @ [c]) = (if cs = [] then [c] else commas cs @ [Text '','', c])"
  by (induction cs rule: commas.induct) auto

lemma commas_empty_iff [simp]: "commas cs = [] \<longleftrightarrow> cs = []"
  by (cases cs rule: commas.cases) auto

definition show_extra_of :: "tool \<Rightarrow> sliver_tool \<Rightarrow> bool" where
  "show_extra_of x t \<longleftrightarrow> truthy (st_tool_extra t) \<and> tl_show_tool_extra x = Some True"

lemma json_loop_run:
  assumes "\<forall>t \<in> set ts. get_tool_from_tool_id (st_tool_id t) w = Some x" and "found = None \<or> found = Some x"
  shows "json_loop q ts found (commas cs) w =
    (Inr (commas (cs @ map (\<lambda>t. Dumped (sliver_object q t (show_extra_of x t))) ts)), w)"
  using assms
proof (induction ts arbitrary: found cs)
  case (Cons t ts)
  let ?c = "Dumped (sliver_object q t (show_extra_of x t))"
  have found: "(case found of None \<Rightarrow> get_tool_from_tool_id (st_tool_id t) w | Some x \<Rightarrow> Some x) = Some x"
    using Cons.prems by auto
  have extra: "(if truthy (st_tool_extra t) then Inr (tl_show_tool_extra x = Some True) else Inr False) = (Inr (show_extra_of x t) :: bool res)"
    by (simp add: show_extra_of_def)
  have "json_loop q (t # ts) found (commas cs) w = json_loop q ts (Some x) (commas (cs @ [?c])) w"
    using found extra by (simp add: commas_snoc show_extra_of_def)
  also have "\<dots> = (Inr (commas ((cs @ [?c]) @ map (\<lambda>t. Dumped (sliver_object q t (show_extra_of x t))) ts)), w)"
    using Cons.prems by (intro Cons.IH) auto
  finally show ?case by simp
qed simp

section \<open>From the request to the answer\<close>

lemma set_policy_keeps [simp]:
  "lq_path (set_policy rq q) = lq_path q" "lq_tool_id (set_policy rq q) = lq_tool_id q"
  by (simp_all add: set_policy_def Let_def)

lemma apply_geolocation_keeps [simp]:
  "lq_path (apply_geolocation q) = lq_path q" "lq_tool_id (apply_geolocation q) = lq_tool_id q"
  by (simp_all add: apply_geolocation_def)

lemma set_appengine_keeps [simp]:
  "lq_path (set_appengine_geolocation rq q) = lq_path q" "lq_tool_id (set_appengine_geolocation rq q) = lq_tool_id q"
  by (simp_all add: set_appengine_geolocation_def Let_def split: option.split sum.split list.split)

lemma choose_geolocation_keeps:
  assumes "choose_geolocation E input q w = (Inr q', w')"
  shows "lq_path q' = lq_path q \<and> lq_tool_id q' = lq_tool_id q"
proof -
  have mm: "lq_path q' = lq_path p \<and> lq_tool_id q' = lq_tool_id p"
    if "set_maxmind E ip co ci p w = (Inr q', w')" for ip co ci p
    using set_maxmind_run(1) [OF that] by auto
  from assms mm show ?thesis
    by (auto simp: choose_geolocation_def split: prod.splits option.splits if_splits dest!: mm)
qed

lemma initialize_keeps:
  assumes "initialize_from_http_request E rq w = (Inr q, w')"
  shows "lq_path q = rq_path rq" and "lq_tool_id q = hd (split_on CHR ''/'' (strip_char CHR ''/'' (rq_path rq)))"
proof -
  define q1 where "q1 = set_response_format rq
      (new_query\<lparr>lq_tool_id := hd (split_on CHR ''/'' (strip_char CHR ''/'' (rq_path rq))), lq_path := rq_path rq\<rparr>)"
  have q1: "lq_path q1 = rq_path rq" "lq_tool_id q1 = hd (split_on CHR ''/'' (strip_char CHR ''/'' (rq_path rq)))"
    by (simp_all add: q1_def set_response_format_def Let_def)
  obtain q2 where ip: "set_ip_address rq q1 = Inr q2" and q2: "lq_path q2 = lq_path q1" "lq_tool_id q2 = lq_tool_id q1"
    by (simp add: set_ip_address_total)
  define q3 where "q3 = set_path_qs rq (set_user_agent rq (set_tool_address_family rq q2))"
  have q3: "lq_path q3 = lq_path q2" "lq_tool_id q3 = lq_tool_id q2"
    by (simp_all add: q3_def set_path_qs_def set_user_agent_def set_tool_address_family_def Let_def)
  from assms have "bindA (set_geolocation E rq q3) (\<lambda>q. retA (set_policy rq (q\<lparr>lq_metro := rq_args rq METRO\<rparr>))) w = (Inr q, w')"
    by (simp add: initialize_from_http_request_def Let_def q1_def [symmetric] ip q3_def)
  then obtain q4 where q4: "set_geolocation E rq q3 w = (Inr q4, w')" and q: "q = set_policy rq (q4\<lparr>lq_metro := rq_args rq METRO\<rparr>)"
    by (auto simp: bindA_Inr_iff)
  define q5 where "q5 = (set_appengine_geolocation rq q3)\<lparr>ud_city := rq_args rq CITY, ud_country := Some (arg_or [] COUNTRY rq)\<rparr>"
  from q4 obtain q6 where "choose_geolocation E (get_user_defined_lat_lon rq) q5 w = (Inr q6, w')" "q4 = apply_geolocation q6"
    by (auto simp: set_geolocation_def Let_def bindA_Inr_iff q5_def)
  then have "lq_path q4 = lq_path q3 \<and> lq_tool_id q4 = lq_tool_id q3"
    using choose_geolocation_keeps [of E "get_user_defined_lat_lon rq" q5 w q6 w'] by (simp add: q5_def)
  then show "lq_path q = rq_path rq" "lq_tool_id q = hd (split_on CHR ''/'' (strip_char CHR ''/'' (rq_path rq)))"
    using q q1 q2 q3 by simp_all
qed

text \<open>The handler, once the request is read and not forwarded.\<close>

lemma lookup_get_run:
  assumes "initialize_from_http_request E rq w = (Inr q, w1)" and "\<not> proxied_path q"
    and "answer_query E (new_resolver (lq_policy q) (calculate_client_signature q)) q w1 = (Inr answer, w2)"
  shows "lookup_get E rq w = (case answer of
      None \<Rightarrow> send_no_answer q w2
    | Some ts \<Rightarrow> seqA (send_answer q ts) (seqA (log_location E rq q ts) (log_request rq q ts)) w2)"
proof -
  have first: "bindA (initialize_from_http_request E rq) f w = f q w1" for f :: "lookup_query \<Rightarrow> (world, unit) act"
    by (simp add: bindA_def assms(1))
  have "forward_request E q w1 = (Inr False, w1)"
    by (simp add: forward_request_def bindA_def try_not_proxied [OF assms(2)])
  then have second: "bindA (forward_request E q) f w1 = f False w1" for f :: "bool \<Rightarrow> (world, unit) act"
    by (simp add: bindA_def)
  have third: "bindA (answer_query E (new_resolver (lq_policy q) (calculate_client_signature q)) q) f w1 = f answer w2"
    for f :: "sliver_tool list option \<Rightarrow> (world, unit) act"
    by (simp add: bindA_def assms(3))
  show ?thesis unfolding lookup_get_def first second third if_False by (simp split: option.split)
qed

lemma wanted_nothing:
  "mc_tools w (lq_tool_id q) = None \<Longrightarrow> db_sliver_tools w = [] \<Longrightarrow> wanted R q w = {}"
  by (simp add: wanted_def stock_tools_def either_stock_def stock_memcache_def stock_datastore_def query_properties_fields)

section \<open>Properties\<close>

text \<open>C10: a lookup never writes to the datastore, and of the caches only to the one of the proxy records,
  whether it returns or raises.\<close>

theorem lookup_keeps_data:
  "\<exists>m r b l s. snd (lookup_get E rq w) =
     w\<lparr>mc_reverse_proxy := m, w_rng := r, w_reader := b, w_log := l, w_response := s\<rparr>"
  using keepsAD [OF lookup_get_frame, of w E rq] unfolding lookup_frame_def .

text \<open>C12: the JSON response to a lookup with an answer is one object per tool, in the order of the answer,
  separated by commas, in brackets when there are several; the extra field is shown only when it is
  there and its tool allows it; the status is left as it was and the content type is JSON.\<close>

theorem json_response_objects:
  assumes "ts \<noteq> []" and "\<forall>t \<in> set ts. get_tool_from_tool_id (st_tool_id t) w = Some x"
  shows "\<exists>hs. send_json_response ts q w = (Inr (), w\<lparr>w_response := (w_response w)\<lparr>re_headers := hs,
      re_body := re_body (w_response w) @
        (let body = commas (map (\<lambda>t. Dumped (sliver_object q t (show_extra_of x t))) ts)
         in if length ts > 1 then [Text ''[''] @ body @ [Text '']''] else body)\<rparr>\<rparr>) \<and>
    map_of hs ''Content-Type'' = Some ''application/json''"
proof -
  let ?body = "commas (map (\<lambda>t. Dumped (sliver_object q t (show_extra_of x t))) ts)"
  have loop: "json_loop q ts None [] w = (Inr ?body, w)"
    using json_loop_run [OF assms(2), of None q "[]"] by simp
  define data where "data = (if length ts > 1 then [Text ''[''] @ ?body @ [Text '']''] else ?body)"
  define hs where "hs = kv_set ''Content-Type'' ''application/json''
      (kv_set ''Access-Control-Allow-Origin'' ''*'' (re_headers (w_response w)))"
  have first: "bindA (json_loop q ts None []) f w = f ?body w" for f :: "chunk list \<Rightarrow> (world, unit) act"
    by (simp add: bindA_def loop)
  have ne: "data \<noteq> []" using assms(1) by (simp add: data_def)
  have "send_json_response ts q w = seqA (resp_header ''Access-Control-Allow-Origin'' ''*'')
      (seqA (resp_header ''Content-Type'' ''application/json'') (resp_write data)) w"
    unfolding send_json_response_def first Let_def data_def [symmetric] if_P [OF ne] ..
  also have "\<dots> = (Inr (), w\<lparr>w_response := (w_response w)\<lparr>re_headers := hs, re_body := re_body (w_response w) @ data\<rparr>\<rparr>)"
    by (simp add: resp_run hs_def)
  finally have run: "send_json_response ts q w =
      (Inr (), w\<lparr>w_response := (w_response w)\<lparr>re_headers := hs, re_body := re_body (w_response w) @ data\<rparr>\<rparr>)" .
  have "map_of hs ''Content-Type'' = Some ''application/json''" by (simp add: hs_def map_of_kv_set)
  then show ?thesis unfolding Let_def data_def [symmetric] by (intro exI [of _ hs] conjI run)
qed

definition sample_tool :: "string \<Rightarrow> tool" where
  "sample_tool i = \<lparr>tl_slice_id = ''iupui_ndt'', tl_tool_id = i, tl_server_port = None, tl_http_port = None,
     tl_show_tool_extra = None, tl_status_source = Some ''nagios''\<rparr>"

theorem json_response_objects_witness:
  "\<exists>w'. send_json_response [sample_sliver ''ndt'' ''ath01'' ''x'', sample_sliver ''ndt'' ''lga01'' ''y''] new_query
      (idle_world\<lparr>db_tools := [sample_tool ''ndt'']\<rparr>) = (Inr (), w') \<and>
    length (re_body (w_response w')) = 5"
proof -
  let ?w = "idle_world\<lparr>db_tools := [sample_tool ''ndt'']\<rparr>"
  let ?ts = "[sample_sliver ''ndt'' ''ath01'' ''x'', sample_sliver ''ndt'' ''lga01'' ''y'']"
  have "\<forall>t \<in> set ?ts. get_tool_from_tool_id (st_tool_id t) ?w = Some (sample_tool ''ndt'')"
    by (simp add: get_tool_from_tool_id_def sample_tool_def)
  then show ?thesis
    using json_response_objects [of ?ts ?w "sample_tool ''ndt''" new_query]
    by (auto simp: idle_world_def empty_response_def)
qed



end
