(* ===== verification/Registration.thy ===== *)
theory Registration
  imports Response Names
begin

text \<open>
  \<open>handlers/update.py\<close>, first part: the registration of sites (\<open>SiteRegistrationHandler\<close>) and the
  update of the addresses of slivers (\<open>IPUpdateHandler\<close>), both from JSON files fetched by URL.
  Assigning a value to a datastore property validates it and raises \<open>BadValueError\<close>
  (\<open>e_string_ok\<close> says which strings a \<open>StringProperty\<close> takes).
\<close>

section \<open>Property validation\<close>

definition string_property :: "env \<Rightarrow> json \<Rightarrow> string option res" where
  "string_property E v = (case v of
      JStr s \<Rightarrow> if e_string_ok E s then Inr (Some s) else Inl BadValueError
    | JNull \<Rightarrow> Inr None
    | _ \<Rightarrow> Inl BadValueError)"

definition boolean_property :: "json \<Rightarrow> bool option res" where
  "boolean_property v = (case v of JBool b \<Rightarrow> Inr (Some b) | JNull \<Rightarrow> Inr None | _ \<Rightarrow> Inl BadValueError)"

definition string_list_property :: "json \<Rightarrow> string list res" where
  "string_list_property v = (case v of
      JArr xs \<Rightarrow> mapR (\<lambda>x. case x of JStr s \<Rightarrow> Inr s | _ \<Rightarrow> Inl BadValueError) xs
    | _ \<Rightarrow> Inl BadValueError)"

section \<open>Sites\<close>

definition SITE_FIELD :: string where "SITE_FIELD = ''site''"
definition METRO_FIELD :: string where "METRO_FIELD = ''metro''"
definition CITY_FIELD :: string where "CITY_FIELD = ''city''"
definition COUNTRY_FIELD :: string where "COUNTRY_FIELD = ''country''"
definition LAT_FIELD :: string where "LAT_FIELD = ''latitude''"
definition LON_FIELD :: string where "LON_FIELD = ''longitude''"
definition ROUNDROBIN_FIELD :: string where "ROUNDROBIN_FIELD = ''roundrobin''"

definition REQUIRED_FIELDS :: "string list" where
  "REQUIRED_FIELDS = [SITE_FIELD, METRO_FIELD, CITY_FIELD, COUNTRY_FIELD, LAT_FIELD, LON_FIELD, ROUNDROBIN_FIELD]"

lemmas site_field_defs = SITE_FIELD_def METRO_FIELD_def CITY_FIELD_def COUNTRY_FIELD_def LAT_FIELD_def
  LON_FIELD_def ROUNDROBIN_FIELD_def REQUIRED_FIELDS_def

fun has_fields :: "string list \<Rightarrow> json \<Rightarrow> bool res" where
  "has_fields [] site = Inr True"
| "has_fields (f # fs) site = bindR (js_in f site) (\<lambda>b. if b then has_fields fs site else Inr False)"

text \<open>A value that is not a string cannot be matched.\<close>

definition is_production_site_js :: "env \<Rightarrow> json \<Rightarrow> bool res" where
  "is_production_site_js E v = (case v of JStr s \<Rightarrow> is_production_site (e_site_regex E) s | _ \<Rightarrow> Inl TypeError)"

definition is_valid_site :: "env \<Rightarrow> json \<Rightarrow> bool res" where
  "is_valid_site E site =
     bindR (has_fields REQUIRED_FIELDS site) (\<lambda>complete.
     if \<not> complete then Inr False
     else bindR (js_get SITE_FIELD site) (is_production_site_js E))"

text \<open>Building the \<open>Site\<close> entity from a site object whose coordinates are known.\<close>

definition site_entity :: "env \<Rightarrow> json \<Rightarrow> pyfloat \<Rightarrow> pyfloat \<Rightarrow> int \<Rightarrow> site res" where
  "site_entity E site lat_long lon_long now =
     bindR (bindR (js_get SITE_FIELD site) (string_property E)) (\<lambda>site_id.
     bindR (bindR (js_get CITY_FIELD site) (string_property E)) (\<lambda>city.
     bindR (bindR (js_get COUNTRY_FIELD site) (string_property E)) (\<lambda>country.
     bindR (bindR (js_get METRO_FIELD site) string_list_property) (\<lambda>metro.
     bindR (bindR (js_get ROUNDROBIN_FIELD site) boolean_property) (\<lambda>rr.
     case site_id of
       None \<Rightarrow> Inl BadValueError
     | Some i \<Rightarrow> Inr \<lparr>si_site_id = i, si_city = city, si_country = country, si_latitude = lat_long,
                     si_longitude = lon_long, si_metro = metro, si_registration_timestamp = now,
                     si_roundrobin = rr, si_when = 0\<rparr>)))))"

definition site_coordinates :: "json \<Rightarrow> (pyfloat \<times> pyfloat) res" where
  "site_coordinates site =
     bindR (bindR (js_get LAT_FIELD site) js_float) (\<lambda>lat_long.
     bindR (bindR (js_get LON_FIELD site) js_float) (\<lambda>lon_long. Inr (lat_long, lon_long)))"

definition update_site :: "env \<Rightarrow> json \<Rightarrow> (world, bool) act" where
  "update_site E site =
     (case site_coordinates site of
        Inl e \<Rightarrow> if is_ValueError e then retA False else raiseA e
      | Inr (lat_long, lon_long) \<Rightarrow>
          bindA (getA timestamp) (\<lambda>now.
          bindA (liftR (site_entity E site lat_long lon_long now)) (\<lambda>s.
          catchA (seqA (put_site E s) (retA True))
            (\<lambda>e. if e = TransactionFailedError then Some (retA False) else None))))"

section \<open>Addresses of slivers\<close>

text \<open>A name that is not a string cannot be parsed.\<close>

definition js_string :: "json \<Rightarrow> string res" where
  "js_string v = (case v of JStr s \<Rightarrow> Inr s | _ \<Rightarrow> Inl TypeError)"

text \<open>\<open>ip or 'off'\<close>, then the assignment if it differs from what is stored.\<close>

definition new_ip :: "env \<Rightarrow> json \<Rightarrow> string \<Rightarrow> string res" where
  "new_ip E v old =
     (let v = (if js_true v then v else JStr NO_IP_ADDRESS)
      in case v of
           JStr s \<Rightarrow> if s = old then Inr old else if e_string_ok E s then Inr s else Inl BadValueError
         | _ \<Rightarrow> Inl BadValueError)"

definition set_sliver_tool :: "env \<Rightarrow> sliver_tool \<Rightarrow> json \<Rightarrow> json \<Rightarrow> bool option \<Rightarrow> string \<Rightarrow> (bool \<times> sliver_tool) res" where
  "set_sliver_tool E sliver_tool ipv4 ipv6 rr fqdn =
     bindR (new_ip E ipv4 (st_sliver_ipv4 sliver_tool)) (\<lambda>v4.
     bindR (new_ip E ipv6 (st_sliver_ipv6 sliver_tool)) (\<lambda>v6.
     if st_fqdn sliver_tool \<noteq> fqdn \<and> \<not> e_string_ok E fqdn then Inl BadValueError
     else Inr (st_sliver_ipv4 sliver_tool \<noteq> v4 \<or> st_sliver_ipv6 sliver_tool \<noteq> v6 \<or>
               st_roundrobin sliver_tool \<noteq> rr \<or> st_fqdn sliver_tool \<noteq> fqdn,
               sliver_tool\<lparr>st_sliver_ipv4 := v4, st_sliver_ipv6 := v6, st_roundrobin := rr, st_fqdn := fqdn\<rparr>)))"

definition put_sliver_tool :: "env \<Rightarrow> sliver_tool \<Rightarrow> (world, unit) act" where
  "put_sliver_tool E sliver_tool =
     catchA (put_sliver E sliver_tool) (\<lambda>e. if e = TransactionFailedError then Some (retA ()) else None)"

definition sliver_key :: "string \<Rightarrow> string \<Rightarrow> string \<Rightarrow> string \<Rightarrow> string" where
  "sliver_key tool_id slice_id server_id site_id = join_with ''-'' [tool_id, slice_id, server_id, site_id]"

definition initialize_sliver_tool :: "env \<Rightarrow> tool \<Rightarrow> site \<Rightarrow> string \<Rightarrow> string \<Rightarrow> int \<Rightarrow> sliver_tool res" where
  "initialize_sliver_tool E slice_tool si server_id fqdn now =
     (if \<not> e_string_ok E fqdn then Inl BadValueError
      else Inr \<lparr>st_key = sliver_key (tl_tool_id slice_tool) (tl_slice_id slice_tool) server_id (si_site_id si),
        st_tool_id = tl_tool_id slice_tool, st_slice_id = tl_slice_id slice_tool, st_site_id = si_site_id si,
        st_server_id = server_id, st_server_port = tl_server_port slice_tool, st_http_port = tl_http_port slice_tool,
        st_tool_extra = Some [], st_fqdn = fqdn, st_sliver_ipv4 = NO_IP_ADDRESS, st_sliver_ipv6 = NO_IP_ADDRESS,
        st_status_ipv4 = STATUS_OFFLINE, st_status_ipv6 = STATUS_OFFLINE, st_update_request_timestamp = now,
        st_latitude = si_latitude si, st_longitude = si_longitude si, st_city = si_city si,
        st_country = si_country si, st_roundrobin = si_roundrobin si, st_when = 0\<rparr>)"

text \<open>
  One tool of one row. \<open>slivertools\<close> is the list that was fetched at the start; the entity that is
  found in it is changed in place, so later rows see the change. An entity that is not in it is
  made anew for each row.
\<close>

definition update_sliver ::
    "env \<Rightarrow> json \<Rightarrow> json \<Rightarrow> string \<Rightarrow> string \<Rightarrow> string \<Rightarrow> site \<Rightarrow> tool \<Rightarrow> sliver_tool list \<Rightarrow> (world, sliver_tool list) act" where
  "update_sliver E ipv4 ipv6 fqdn slice_id server_id si slice_tool slivertools =
     (let sliver_tool_id = sliver_key (tl_tool_id slice_tool) slice_id server_id (si_site_id si);
          store = (\<lambda>updated st rest. if updated then seqA (put_sliver_tool E st) (retA rest) else retA rest)
      in case filter (\<lambda>st. st_key st = sliver_tool_id) slivertools of
           [] \<Rightarrow>
             bindA (getA timestamp) (\<lambda>now.
             bindA (liftR (initialize_sliver_tool E slice_tool si server_id fqdn now)) (\<lambda>st.
             bindA (liftR (set_sliver_tool E st ipv4 ipv6 (si_roundrobin si) fqdn)) (\<lambda>(updated, st).
             store updated st slivertools)))
         | [st] \<Rightarrow>
             bindA (liftR (set_sliver_tool E st ipv4 ipv6 (si_roundrobin si) fqdn)) (\<lambda>(updated, st).
             store updated st (map (\<lambda>x. if st_key x = sliver_tool_id then st else x) slivertools))
         | _ \<Rightarrow> retA slivertools)"

fun update_slivers ::
    "env \<Rightarrow> json \<Rightarrow> json \<Rightarrow> string \<Rightarrow> string \<Rightarrow> string \<Rightarrow> site \<Rightarrow> tool list \<Rightarrow> sliver_tool list \<Rightarrow> (world, sliver_tool list) act" where
  "update_slivers E ipv4 ipv6 fqdn slice_id server_id si [] slivertools = retA slivertools"
| "update_slivers E ipv4 ipv6 fqdn slice_id server_id si (slice_tool # slice_tools) slivertools =
     bindA (update_sliver E ipv4 ipv6 fqdn slice_id server_id si slice_tool slivertools)
       (update_slivers E ipv4 ipv6 fqdn slice_id server_id si slice_tools)"

definition update_row :: "env \<Rightarrow> site list \<Rightarrow> tool list \<Rightarrow> json \<Rightarrow> sliver_tool list \<Rightarrow> (world, sliver_tool list) act" where
  "update_row E sites tools row slivertools =
     bindA (liftR (js_get ''hostname'' row)) (\<lambda>hostname.
     bindA (liftR (js_get ''ipv4'' row)) (\<lambda>ipv4.
     bindA (liftR (js_get ''ipv6'' row)) (\<lambda>ipv6.
     bindA (liftR (js_string hostname)) (\<lambda>fqdn.
     bindA (liftR (is_production_slice (e_site_regex E) (e_machine_regex E) fqdn)) (\<lambda>production.
     if \<not> production then retA slivertools
     else case get_slice_site_server_ids fqdn of
         (Some slice_id, Some site_id, Some server_id) \<Rightarrow>
           (case filter (\<lambda>s. si_site_id s = site_id) sites of
              [] \<Rightarrow> retA slivertools
            | si # _ \<Rightarrow>
                update_slivers E ipv4 ipv6 fqdn slice_id server_id si
                  (filter (\<lambda>t. tl_slice_id t = slice_id) tools) slivertools)
       | _ \<Rightarrow> retA slivertools)))))"

fun update_rows :: "env \<Rightarrow> site list \<Rightarrow> tool list \<Rightarrow> json list \<Rightarrow> sliver_tool list \<Rightarrow> (world, unit) act" where
  "update_rows E sites tools [] slivertools = retA ()"
| "update_rows E sites tools (row # rows) slivertools =
     bindA (update_row E sites tools row slivertools) (update_rows E sites tools rows)"

text \<open>
  \<open>urllib2.urlopen(None)\<close> raises \<open>AttributeError\<close>. The handler is no \<open>RequestHandler\<close>: it has no
  method \<open>error\<close>, so \<open>util.send_not_found(self)\<close> raises \<open>AttributeError\<close>.
\<close>

definition fetch_url :: "env \<Rightarrow> string option \<Rightarrow> string res" where
  "fetch_url E url = (case url of
      None \<Rightarrow> Inl AttributeError
    | Some u \<Rightarrow> bindR (e_urlopen E u) (\<lambda>(body, content_type). Inr body))"

definition ip_update :: "env \<Rightarrow> (world, unit) act" where
  "ip_update E =
     (case fetch_url E (e_hostnames_url E) of
        Inl e \<Rightarrow> if e = HTTPError then raiseA AttributeError else raiseA e
      | Inr raw_json \<Rightarrow>
          (case json_loads raw_json of
             Inl e \<Rightarrow> if e = TypeError \<or> is_ValueError e then raiseA AttributeError else raiseA e
           | Inr v \<Rightarrow>
               bindA (getA db_sites) (\<lambda>sites.
               bindA (getA db_tools) (\<lambda>tools.
               bindA (getA db_sliver_tools) (\<lambda>slivertools.
               bindA (liftR (js_iter v)) (\<lambda>rows.
               update_rows E sites tools rows slivertools))))))"

section \<open>The registration handler\<close>

text \<open>
  Every valid site is new or unchanged, so each is written; a site that fails is skipped.
\<close>

fun valid_sites :: "env \<Rightarrow> json list \<Rightarrow> json list res" where
  "valid_sites E [] = Inr []"
| "valid_sites E (site # sites) =
     bindR (is_valid_site E site) (\<lambda>valid.
     bindR (valid_sites E sites) (\<lambda>rest. Inr (if valid then site # rest else rest)))"

fun update_sites :: "env \<Rightarrow> json list \<Rightarrow> (world, unit) act" where
  "update_sites E [] = retA ()"
| "update_sites E (site # sites) = bindA (update_site E site) (\<lambda>_. update_sites E sites)"

definition site_registration_get :: "env \<Rightarrow> (world, unit) act" where
  "site_registration_get E =
     (case bindR (fetch_url E (e_locations_url E)) json_loads of
        Inl e \<Rightarrow> if e = HTTPError \<or> e = TypeError \<or> is_ValueError e then send_not_found FORMAT_HTML else raiseA e
      | Inr sites_json \<Rightarrow>
          bindA (liftR (js_iter sites_json)) (\<lambda>sites.
          bindA (liftR (valid_sites E sites)) (\<lambda>valid.
          seqA (update_sites E valid)
         (seqA (ip_update E)
               (send_success FORMAT_JSON)))))"

section \<open>The datastore stays well-formed\<close>

definition wf_sliver :: "sliver_tool \<Rightarrow> bool" where
  "wf_sliver t \<longleftrightarrow> st_status_ipv4 t \<in> {STATUS_ONLINE, STATUS_OFFLINE} \<and> st_status_ipv6 t \<in> {STATUS_ONLINE, STATUS_OFFLINE} \<and>
     st_key t = sliver_key (st_tool_id t) (st_slice_id t) (st_server_id t) (st_site_id t)"

definition wf_db :: "world \<Rightarrow> bool" where
  "wf_db w \<longleftrightarrow> distinct (map si_site_id (db_sites w)) \<and> distinct (map st_key (db_sliver_tools w)) \<and>
     (\<forall>t \<in> set (db_sliver_tools w). wf_sliver t)"

definition production_id :: "env \<Rightarrow> string \<Rightarrow> bool" where
  "production_id E s \<longleftrightarrow> is_production_site (e_site_regex E) s = Inr True"

text \<open>Nothing is removed, and only production sites are added.\<close>

definition db_grows :: "env \<Rightarrow> world \<Rightarrow> world \<Rightarrow> bool" where
  "db_grows E w w' \<longleftrightarrow> si_site_id ` set (db_sites w) \<subseteq> si_site_id ` set (db_sites w') \<and>
     si_site_id ` set (db_sites w') \<subseteq> si_site_id ` set (db_sites w) \<union> Collect (production_id E) \<and>
     st_key ` set (db_sliver_tools w) \<subseteq> st_key ` set (db_sliver_tools w')"

lemma db_grows_refl: "reflp (db_grows E)"
  by (rule reflpI) (simp add: db_grows_def)

lemma db_grows_trans: "transp (db_grows E)"
proof (rule transpI)
  fix a b c
  assume "db_grows E a b" and "db_grows E b c"
  moreover have "C \<subseteq> A \<union> P" if "C \<subseteq> B \<union> P" "B \<subseteq> A \<union> P" for A B C P :: "string set"
    using that by blast
  ultimately show "db_grows E a c" unfolding db_grows_def by (metis subset_trans)
qed

lemmas safe_rules = safeA_basic [OF db_grows_refl] safeA_bindA [OF db_grows_trans]
  safeA_seqA [OF db_grows_trans] safeA_catchA [OF db_grows_trans]

lemma put_site_safe:
  assumes "production_id E (si_site_id s)"
  shows "safeA wf_db (db_grows E) (put_site E s) (\<lambda>_. True)"
proof (rule safeAI)
  fix w
  assume "wf_db w"
  then have "wf_db (w\<lparr>db_sites := put_by si_site_id s' (db_sites w)\<rparr>)" for s'
    by (simp add: wf_db_def distinct_put_by)
  moreover have "db_grows E w (w\<lparr>db_sites := put_by si_site_id (s\<lparr>si_when := w_now w\<rparr>) (db_sites w)\<rparr>)"
    using assms by (auto simp: db_grows_def keys_put_by)
  ultimately show "wf_db (snd (put_site E s w)) \<and> db_grows E w (snd (put_site E s w)) \<and>
      (\<forall>x. fst (put_site E s w) = Inr x \<longrightarrow> True)"
    using \<open>wf_db w\<close> reflpD [OF db_grows_refl] by (simp add: put_site_def)
qed

lemma put_sliver_safe:
  assumes "wf_sliver t"
  shows "safeA wf_db (db_grows E) (put_sliver E t) (\<lambda>_. True)"
proof (rule safeAI)
  fix w
  assume w: "wf_db w"
  have "wf_sliver (t\<lparr>st_when := w_now w\<rparr>)" using assms by (simp add: wf_sliver_def)
  then have "\<forall>x \<in> set (put_by st_key (t\<lparr>st_when := w_now w\<rparr>) (db_sliver_tools w)). wf_sliver x"
    using w set_put_by unfolding wf_db_def by metis
  then have "wf_db (w\<lparr>db_sliver_tools := put_by st_key (t\<lparr>st_when := w_now w\<rparr>) (db_sliver_tools w)\<rparr>)"
    using w by (simp add: wf_db_def distinct_put_by)
  moreover have "db_grows E w (w\<lparr>db_sliver_tools := put_by st_key (t\<lparr>st_when := w_now w\<rparr>) (db_sliver_tools w)\<rparr>)"
    by (auto simp: db_grows_def keys_put_by)
  ultimately show "wf_db (snd (put_sliver E t w)) \<and> db_grows E w (snd (put_sliver E t w)) \<and>
      (\<forall>x. fst (put_sliver E t w) = Inr x \<longrightarrow> True)"
    using w reflpD [OF db_grows_refl] by (simp add: put_sliver_def)
qed

lemma put_sliver_tool_safe: "wf_sliver t \<Longrightarrow> safeA wf_db (db_grows E) (put_sliver_tool E t) (\<lambda>_. True)"
  unfolding put_sliver_tool_def by (rule safe_rules) (auto intro: put_sliver_safe safe_rules split: if_splits)

lemma set_sliver_tool_wf:
  "set_sliver_tool E t v4 v6 rr f = Inr (u, t') \<Longrightarrow> wf_sliver t \<Longrightarrow> wf_sliver t' \<and> st_key t' = st_key t"
  by (auto simp: set_sliver_tool_def bindR_Inr_iff wf_sliver_def split: if_splits)

lemma initialize_sliver_tool_wf: "initialize_sliver_tool E slice_tool si sv f now = Inr t \<Longrightarrow> wf_sliver t"
  by (auto simp: initialize_sliver_tool_def wf_sliver_def split: if_splits)

lemma update_sliver_safe:
  assumes "\<forall>t \<in> set slivertools. wf_sliver t"
  shows "safeA wf_db (db_grows E) (update_sliver E v4 v6 f sl sv si slice_tool slivertools) (\<lambda>ts. \<forall>t \<in> set ts. wf_sliver t)"
proof -
  let ?Q = "\<lambda>ts. \<forall>t \<in> set ts. wf_sliver t"
  have store: "safeA wf_db (db_grows E) (if updated then seqA (put_sliver_tool E st) (retA rest) else retA rest) ?Q"
    if "wf_sliver st" "?Q rest" for updated st rest
    using that by (auto intro!: safe_rules put_sliver_tool_safe)
  have set: "safeA wf_db (db_grows E) (liftR (set_sliver_tool E st v4 v6 rr f)) (\<lambda>p. wf_sliver (snd p))"
    if "wf_sliver st" for st rr
    using that by (intro safe_rules) (auto dest: set_sliver_tool_wf)
  define k where "k = sliver_key (tl_tool_id slice_tool) sl sv (si_site_id si)"
  consider "filter (\<lambda>st. st_key st = k) slivertools = []"
    | st where "filter (\<lambda>st. st_key st = k) slivertools = [st]"
    | a b cs where "filter (\<lambda>st. st_key st = k) slivertools = a # b # cs" by (metis list.exhaust)
  then show ?thesis
  proof cases
    case 1
    have init: "safeA wf_db (db_grows E) (liftR (initialize_sliver_tool E slice_tool si sv f now)) wf_sliver" for now
      by (intro safe_rules) (auto dest: initialize_sliver_tool_wf)
    have now: "safeA wf_db (db_grows E) (getA timestamp) (\<lambda>_. True)" by (intro safe_rules) simp
    show ?thesis using 1 assms
      by (simp add: update_sliver_def k_def [symmetric] Let_def)
        (auto intro!: safeA_bindA [OF db_grows_trans, OF now] safeA_bindA [OF db_grows_trans, OF init]
          safeA_bindA [OF db_grows_trans, OF set] store)
  next
    case (2 st)
    then have "st \<in> set (filter (\<lambda>st. st_key st = k) slivertools)" by simp
    then have st: "wf_sliver st" using assms by simp
    show ?thesis using 2 assms
      by (simp add: update_sliver_def k_def [symmetric] Let_def)
        (auto intro!: safeA_bindA [OF db_grows_trans, OF set [OF st]] store)
  next
    case 3
    then show ?thesis using assms by (simp add: update_sliver_def k_def [symmetric] Let_def safe_rules)
  qed
qed

lemma update_slivers_safe:
  "\<forall>t \<in> set slivertools. wf_sliver t \<Longrightarrow>
   safeA wf_db (db_grows E) (update_slivers E v4 v6 f sl sv si slice_tools slivertools) (\<lambda>ts. \<forall>t \<in> set ts. wf_sliver t)"
proof (induction slice_tools arbitrary: slivertools)
  case (Cons t ts)
  show ?case unfolding update_slivers.simps
    by (rule safeA_bindA [OF db_grows_trans update_sliver_safe [OF Cons.prems] Cons.IH])
qed (simp add: safe_rules)

lemma update_row_safe:
  assumes "\<forall>t \<in> set slivertools. wf_sliver t"
  shows "safeA wf_db (db_grows E) (update_row E sites tools row slivertools) (\<lambda>ts. \<forall>t \<in> set ts. wf_sliver t)"
proof -
  have lift: "safeA wf_db (db_grows E) (liftR r) (\<lambda>_. True)" for r :: "'b res" by (intro safe_rules) simp
  have skip: "safeA wf_db (db_grows E) (retA slivertools) (\<lambda>ts. \<forall>t \<in> set ts. wf_sliver t)"
    using assms by (simp add: safe_rules)
  show ?thesis unfolding update_row_def
    by (auto intro!: safeA_bindA [OF db_grows_trans, OF lift] skip update_slivers_safe [OF assms]
        split: prod.split option.split list.split)
qed

lemma update_rows_safe:
  "\<forall>t \<in> set slivertools. wf_sliver t \<Longrightarrow> safeA wf_db (db_grows E) (update_rows E sites tools rows slivertools) (\<lambda>_. True)"
proof (induction rows arbitrary: slivertools)
  case (Cons r rs)
  show ?case unfolding update_rows.simps
    by (rule safeA_bindA [OF db_grows_trans update_row_safe [OF Cons.prems] Cons.IH])
qed (simp add: safe_rules)

lemma ip_update_safe: "safeA wf_db (db_grows E) (ip_update E) (\<lambda>_. True)"
proof -
  have get: "safeA wf_db (db_grows E) (getA g) (\<lambda>_. True)" for g :: "world \<Rightarrow> 'b" by (intro safe_rules) simp
  have slivers: "safeA wf_db (db_grows E) (getA db_sliver_tools) (\<lambda>ts. \<forall>t \<in> set ts. wf_sliver t)"
    by (intro safe_rules) (simp add: wf_db_def)
  have lift: "safeA wf_db (db_grows E) (liftR r) (\<lambda>_. True)" for r :: "'b res" by (intro safe_rules) simp
  have body: "safeA wf_db (db_grows E) (bindA (getA db_sites) (\<lambda>sites. bindA (getA db_tools) (\<lambda>tools.
      bindA (getA db_sliver_tools) (\<lambda>slivertools. bindA (liftR (js_iter v)) (\<lambda>rows.
        update_rows E sites tools rows slivertools))))) (\<lambda>_. True)" for v
    by (rule safeA_bindA [OF db_grows_trans get], rule safeA_bindA [OF db_grows_trans get],
        rule safeA_bindA [OF db_grows_trans slivers], rule safeA_bindA [OF db_grows_trans lift], rule update_rows_safe)
  show ?thesis unfolding ip_update_def by (auto split: sum.split intro!: safe_rules(2) body)
qed

lemma site_entity_id:
  assumes "is_valid_site E site = Inr True" and "site_entity E site lat lon now = Inr s"
  shows "production_id E (si_site_id s)"
proof -
  from assms(1) obtain v where v: "js_get SITE_FIELD site = Inr v" "is_production_site_js E v = Inr True"
    by (auto simp: is_valid_site_def bindR_Inr_iff split: if_splits)
  then obtain i where i: "v = JStr i" "is_production_site (e_site_regex E) i = Inr True"
    by (auto simp: is_production_site_js_def split: json.splits)
  have "si_site_id s = i" using assms(2) v(1) i(1)
    by (auto simp: site_entity_def bindR_Inr_iff string_property_def split: if_splits option.splits)
  with i(2) show ?thesis by (simp add: production_id_def)
qed

lemma update_site_safe:
  assumes "is_valid_site E site = Inr True"
  shows "safeA wf_db (db_grows E) (update_site E site) (\<lambda>_. True)"
proof -
  have now: "safeA wf_db (db_grows E) (getA timestamp) (\<lambda>_. True)" by (intro safe_rules) simp
  have ent: "safeA wf_db (db_grows E) (liftR (site_entity E site lat lon t)) (\<lambda>s. production_id E (si_site_id s))" for lat lon t
    by (intro safe_rules) (rule site_entity_id [OF assms])
  have put: "safeA wf_db (db_grows E) (catchA (seqA (put_site E s) (retA True))
      (\<lambda>e. if e = TransactionFailedError then Some (retA False) else None)) (\<lambda>_. True)"
    if "production_id E (si_site_id s)" for s
    using that by (intro safe_rules put_site_safe) (auto intro: safe_rules split: if_splits)
  show ?thesis unfolding update_site_def
    by (auto split: sum.split prod.split intro!: safe_rules(1,2) safeA_bindA [OF db_grows_trans, OF now]
        safeA_bindA [OF db_grows_trans, OF ent] put)
qed

lemma valid_sites_valid: "valid_sites E sites = Inr vs \<Longrightarrow> \<forall>v \<in> set vs. is_valid_site E v = Inr True"
  by (induction sites arbitrary: vs) (auto simp: bindR_Inr_iff split: if_splits)

lemma update_sites_safe:
  "\<forall>v \<in> set vs. is_valid_site E v = Inr True \<Longrightarrow> safeA wf_db (db_grows E) (update_sites E vs) (\<lambda>_. True)"
proof (induction vs)
  case (Cons v vs)
  then have "safeA wf_db (db_grows E) (update_site E v) (\<lambda>_. True)" by (simp add: update_site_safe)
  with Cons show ?case by (auto intro: safeA_bindA [OF db_grows_trans])
qed (simp add: safe_rules)

lemma responds_safe:
  assumes "responds m"
  shows "safeA wf_db (db_grows E) m (\<lambda>_. True)"
proof (rule safeAI)
  fix w
  assume "wf_db w"
  moreover obtain r where "m w = (Inr (), w\<lparr>w_response := r\<rparr>)" using responds_run [OF assms] by blast
  ultimately show "wf_db (snd (m w)) \<and> db_grows E w (snd (m w)) \<and> (\<forall>x. fst (m w) = Inr x \<longrightarrow> True)"
    by (simp add: wf_db_def db_grows_def)
qed

lemma site_registration_safe: "safeA wf_db (db_grows E) (site_registration_get E) (\<lambda>_. True)"
proof -
  have lift: "safeA wf_db (db_grows E) (liftR r) (\<lambda>_. True)" for r :: "'b res" by (intro safe_rules) simp
  have valid: "safeA wf_db (db_grows E) (liftR (valid_sites E sites)) (\<lambda>vs. \<forall>v \<in> set vs. is_valid_site E v = Inr True)" for sites
    by (intro safe_rules) (rule valid_sites_valid)
  have body: "safeA wf_db (db_grows E) (bindA (liftR (js_iter v)) (\<lambda>sites. bindA (liftR (valid_sites E sites)) (\<lambda>valid.
      seqA (update_sites E valid) (seqA (ip_update E) (send_success FORMAT_JSON))))) (\<lambda>_. True)" for v
    by (rule safeA_bindA [OF db_grows_trans lift], rule safeA_bindA [OF db_grows_trans valid])
      (intro safeA_seqA [OF db_grows_trans] update_sites_safe ip_update_safe responds_util [THEN responds_safe])
  show ?thesis unfolding site_registration_get_def
    by (auto split: sum.split intro!: safe_rules(2) responds_util [THEN responds_safe] body)
qed

section \<open>A row is recorded\<close>

definition ip_or_off :: "string \<Rightarrow> string" where
  "ip_or_off a = (if a = [] then NO_IP_ADDRESS else a)"

text \<open>What the row of a sliver leaves in its entity.\<close>

definition row_fields :: "string \<Rightarrow> string \<Rightarrow> bool option \<Rightarrow> string \<Rightarrow> sliver_tool \<Rightarrow> bool" where
  "row_fields a b rr fqdn t \<longleftrightarrow> st_sliver_ipv4 t = ip_or_off a \<and> st_sliver_ipv6 t = ip_or_off b \<and>
     st_roundrobin t = rr \<and> st_fqdn t = fqdn"

definition same_sliver :: "sliver_tool \<Rightarrow> sliver_tool \<Rightarrow> bool" where
  "same_sliver s t \<longleftrightarrow> s\<lparr>st_when := 0\<rparr> = t\<lparr>st_when := 0\<rparr>"

text \<open>The list in memory and the datastore agree, except on the time of the last write.\<close>

definition in_step :: "sliver_tool list \<Rightarrow> world \<Rightarrow> bool" where
  "in_step ts w \<longleftrightarrow> distinct (map st_key ts) \<and>
     (\<forall>t \<in> set ts. \<exists>t'. get_by st_key (st_key t) (db_sliver_tools w) = Some t' \<and> same_sliver t' t)"

definition all_writable :: "env \<Rightarrow> bool" where
  "all_writable E \<longleftrightarrow> (\<forall>k. e_put_ok E k) \<and> (\<forall>s. e_string_ok E s)"

lemma same_sliver_fields: "same_sliver s t \<Longrightarrow> row_fields a b rr f s = row_fields a b rr f t"
  unfolding same_sliver_def row_fields_def
  by (metis sliver_tool.ext_inject sliver_tool.surjective sliver_tool.update_convs(20))

lemma new_ip_writable: "all_writable E \<Longrightarrow> new_ip E (JStr a) old = Inr (ip_or_off a)"
  by (auto simp: new_ip_def Let_def ip_or_off_def all_writable_def)

lemma set_sliver_tool_writable:
  assumes "all_writable E"
  shows "\<exists>t'. set_sliver_tool E t (JStr a) (JStr b) rr f = Inr (\<not> row_fields a b rr f t, t') \<and>
    row_fields a b rr f t' \<and> st_key t' = st_key t \<and> (row_fields a b rr f t \<longrightarrow> t' = t)"
  using assms
  by (intro exI [of _ "t\<lparr>st_sliver_ipv4 := ip_or_off a, st_sliver_ipv6 := ip_or_off b, st_roundrobin := rr, st_fqdn := f\<rparr>"])
    (auto simp: set_sliver_tool_def new_ip_writable row_fields_def all_writable_def)

lemma put_sliver_tool_run:
  assumes "all_writable E"
  shows "put_sliver_tool E t w = (Inr (), w\<lparr>db_sliver_tools := put_by st_key (t\<lparr>st_when := w_now w\<rparr>) (db_sliver_tools w)\<rparr>)"
  using assms by (simp add: put_sliver_tool_def put_sliver_def all_writable_def)

definition store_updated :: "env \<Rightarrow> bool \<Rightarrow> sliver_tool \<Rightarrow> sliver_tool list \<Rightarrow> (world, sliver_tool list) act" where
  "store_updated E updated st rest = (if updated then seqA (put_sliver_tool E st) (retA rest) else retA rest)"

lemma store_updated_run:
  assumes "all_writable E" and "row_fields a b rr f t"
    and "\<not> updated \<longrightarrow> (\<exists>t'. get_by st_key (st_key t) (db_sliver_tools w) = Some t' \<and> same_sliver t' t)"
  shows "\<exists>w' t'. store_updated E updated t rest w = (Inr rest, w') \<and>
    get_by st_key (st_key t) (db_sliver_tools w') = Some t' \<and> same_sliver t' t \<and>
    (\<forall>k. k \<noteq> st_key t \<longrightarrow> get_by st_key k (db_sliver_tools w') = get_by st_key k (db_sliver_tools w))"
proof (cases updated)
  case True
  have "same_sliver (t\<lparr>st_when := w_now w\<rparr>) t" by (simp add: same_sliver_def)
  then show ?thesis using True
    by (simp add: store_updated_def put_sliver_tool_run [OF assms(1)] get_put_by)
next
  case False
  with assms(3) show ?thesis by (simp add: store_updated_def)
qed

lemma update_sliver_step:
  fixes x :: tool and si :: site and sl sv :: string
  assumes E: "all_writable E" and step: "in_step ts w"
    and some_ip: "ip_or_off a \<noteq> NO_IP_ADDRESS \<or> ip_or_off b \<noteq> NO_IP_ADDRESS"
  defines "k \<equiv> sliver_key (tl_tool_id x) sl sv (si_site_id si)"
  assumes slice: "tl_slice_id x = sl"
  shows "\<exists>ts' w' t. update_sliver E (JStr a) (JStr b) f sl sv si x ts w = (Inr ts', w') \<and> in_step ts' w' \<and>
    get_by st_key k (db_sliver_tools w') = Some t \<and> row_fields a b (si_roundrobin si) f t \<and>
    (\<forall>k'. k' \<noteq> k \<longrightarrow> get_by st_key k' (db_sliver_tools w') = get_by st_key k' (db_sliver_tools w))"
proof -
  let ?P = "row_fields a b (si_roundrobin si) f"
  have dist: "distinct (map st_key ts)" using step by (simp add: in_step_def)
  show ?thesis
  proof (cases "k \<in> st_key ` set ts")
    case False
    then have none: "filter (\<lambda>st. st_key st = k) ts = []" by (auto simp: filter_empty_conv)
    obtain t0 where t0: "initialize_sliver_tool E x si sv f (timestamp w) = Inr t0" "st_key t0 = k" "\<not> ?P t0"
      using E some_ip slice by (auto simp: initialize_sliver_tool_def all_writable_def k_def row_fields_def)
    obtain t1 where t1: "set_sliver_tool E t0 (JStr a) (JStr b) (si_roundrobin si) f = Inr (True, t1)" "?P t1" "st_key t1 = k"
      using set_sliver_tool_writable [OF E, of t0 a b "si_roundrobin si" f] t0(2,3) by auto
    have run: "update_sliver E (JStr a) (JStr b) f sl sv si x ts w = store_updated E True t1 ts w"
      by (simp add: update_sliver_def k_def [symmetric] none t0(1) t1(1) store_updated_def Let_def)
    obtain w' t' where w': "store_updated E True t1 ts w = (Inr ts, w')" "get_by st_key k (db_sliver_tools w') = Some t'"
      "same_sliver t' t1" "\<forall>k'. k' \<noteq> k \<longrightarrow> get_by st_key k' (db_sliver_tools w') = get_by st_key k' (db_sliver_tools w)"
      using store_updated_run [OF E t1(2), of True w ts] t1(3) by auto
    have "in_step ts w'" using step w'(4) False unfolding in_step_def by (metis imageI)
    moreover have "?P t'" using same_sliver_fields [OF w'(3)] t1(2) by simp
    ultimately show ?thesis unfolding run using w'(1,2,4) by blast
  next
    case True
    then obtain t0 where t0: "t0 \<in> set ts" "st_key t0 = k" by auto
    have "filter (\<lambda>st. st_key st = k) ts = [t0]" using t0 dist
    proof (induction ts)
      case (Cons y ys)
      then show ?case by (cases "y = t0") (auto simp: filter_empty_conv image_iff)
    qed simp
    note one = this
    obtain t1 where t1: "set_sliver_tool E t0 (JStr a) (JStr b) (si_roundrobin si) f = Inr (\<not> ?P t0, t1)" "?P t1"
      "st_key t1 = k" "?P t0 \<longrightarrow> t1 = t0"
      using set_sliver_tool_writable [OF E, of t0 a b "si_roundrobin si" f] t0(2) by auto
    define ts1 where "ts1 = map (\<lambda>y. if st_key y = k then t1 else y) ts"
    have run: "update_sliver E (JStr a) (JStr b) f sl sv si x ts w = store_updated E (\<not> ?P t0) t1 ts1 w"
      by (simp add: update_sliver_def k_def [symmetric] one t1(1) store_updated_def Let_def ts1_def)
    have old: "\<not> \<not> ?P t0 \<longrightarrow> (\<exists>t'. get_by st_key (st_key t1) (db_sliver_tools w) = Some t' \<and> same_sliver t' t1)"
      using step t0 t1(3,4) unfolding in_step_def by metis
    obtain w' t' where w': "store_updated E (\<not> ?P t0) t1 ts1 w = (Inr ts1, w')" "get_by st_key k (db_sliver_tools w') = Some t'"
      "same_sliver t' t1" "\<forall>k'. k' \<noteq> k \<longrightarrow> get_by st_key k' (db_sliver_tools w') = get_by st_key k' (db_sliver_tools w)"
      using store_updated_run [OF E t1(2) old, of ts1] t1(3) by auto
    have "map st_key ts1 = map st_key ts" using t1(3) by (auto simp: ts1_def)
    moreover have "\<exists>t''. get_by st_key (st_key y) (db_sliver_tools w') = Some t'' \<and> same_sliver t'' y" if "y \<in> set ts1" for y
    proof (cases "st_key y = k")
      case True
      then have "y = t1" using that t1(3) by (auto simp: ts1_def split: if_splits)
      with w' True show ?thesis by auto
    next
      case False
      then have "y \<in> set ts" using that t1(3) by (auto simp: ts1_def split: if_splits)
      with step False w'(4) show ?thesis unfolding in_step_def by metis
    qed
    ultimately have "in_step ts1 w'" using dist by (simp add: in_step_def)
    moreover have "?P t'" using same_sliver_fields [OF w'(3)] t1(2) by simp
    ultimately show ?thesis unfolding run using w'(1,2,4) by blast
  qed
qed

lemma sliver_key_inj: "sliver_key i sl sv si = sliver_key j sl sv si \<longleftrightarrow> i = j"
  by (simp add: sliver_key_def)

lemma update_slivers_step:
  assumes E: "all_writable E" and some_ip: "ip_or_off a \<noteq> NO_IP_ADDRESS \<or> ip_or_off b \<noteq> NO_IP_ADDRESS"
  shows "\<lbrakk>in_step ts w; \<forall>x \<in> set xs. tl_slice_id x = sl\<rbrakk> \<Longrightarrow>
    \<exists>ts' w'. update_slivers E (JStr a) (JStr b) f sl sv si xs ts w = (Inr ts', w') \<and>
      (\<forall>x \<in> set xs. \<exists>t. get_by st_key (sliver_key (tl_tool_id x) sl sv (si_site_id si)) (db_sliver_tools w') = Some t \<and>
          row_fields a b (si_roundrobin si) f t) \<and>
      (\<forall>k. k \<notin> (\<lambda>x. sliver_key (tl_tool_id x) sl sv (si_site_id si)) ` set xs \<longrightarrow>
          get_by st_key k (db_sliver_tools w') = get_by st_key k (db_sliver_tools w))"
proof (induction xs arbitrary: ts w)
  case (Cons x xs)
  let ?k = "\<lambda>x. sliver_key (tl_tool_id x) sl sv (si_site_id si)"
  obtain ts1 w1 t where one: "update_sliver E (JStr a) (JStr b) f sl sv si x ts w = (Inr ts1, w1)" "in_step ts1 w1"
    "get_by st_key (?k x) (db_sliver_tools w1) = Some t" "row_fields a b (si_roundrobin si) f t"
    "\<forall>k'. k' \<noteq> ?k x \<longrightarrow> get_by st_key k' (db_sliver_tools w1) = get_by st_key k' (db_sliver_tools w)"
    using update_sliver_step [OF E Cons.prems(1) some_ip, of x sl f sv si] Cons.prems(2) by auto
  obtain ts2 w2 where rest: "update_slivers E (JStr a) (JStr b) f sl sv si xs ts1 w1 = (Inr ts2, w2)"
    "\<forall>x \<in> set xs. \<exists>t. get_by st_key (?k x) (db_sliver_tools w2) = Some t \<and> row_fields a b (si_roundrobin si) f t"
    "\<forall>k. k \<notin> ?k ` set xs \<longrightarrow> get_by st_key k (db_sliver_tools w2) = get_by st_key k (db_sliver_tools w1)"
    using Cons.IH [OF one(2)] Cons.prems(2) by auto
  have run: "update_slivers E (JStr a) (JStr b) f sl sv si (x # xs) ts w = (Inr ts2, w2)"
    using one(1) rest(1) by simp
  have "\<exists>t. get_by st_key (?k x) (db_sliver_tools w2) = Some t \<and> row_fields a b (si_roundrobin si) f t"
    using rest(2,3) one(3,4) by (cases "?k x \<in> ?k ` set xs") (auto simp: sliver_key_inj)
  with run rest one(5) show ?case by (intro exI [of _ ts2] exI [of _ w2]) auto
qed simp

lemma in_step_db: "distinct (map st_key (db_sliver_tools w)) \<Longrightarrow> in_step (db_sliver_tools w) w"
  by (auto simp: in_step_def get_by_iff same_sliver_def)

section \<open>Properties\<close>

text \<open>C7: registering sites keeps the datastore well-formed, whether it returns or raises: one entity per
  site and per sliver, statuses online or offline, keys made of the ids; nothing is removed, and a
  site is only added if its name is that of a production site.\<close>

theorem registration_keeps_db:
  assumes "wf_db w"
  shows "wf_db (snd (site_registration_get E w)) \<and> db_grows E w (snd (site_registration_get E w))"
  using safeAD(1,2) [OF site_registration_safe assms] by blast

theorem registration_keeps_db_witness:
  "wf_db (snd (site_registration_get idle_env idle_world)) \<and> db_grows idle_env idle_world (snd (site_registration_get idle_env idle_world))"
  by (rule registration_keeps_db) (simp add: wf_db_def idle_world_def)

text \<open>C6: when every write succeeds, a row of the host file leaves each tool of its slice with the
  addresses of the row (\<open>off\<close> for an empty one), its host name and the round-robin flag of the site;
  a sliver that was not known is added if the row has an address for it.\<close>

theorem host_row_recorded:
  assumes "all_writable E" and "wf_db w"
    and "js_get ''hostname'' row = Inr (JStr fqdn)" and "js_get ''ipv4'' row = Inr (JStr a)" and "js_get ''ipv6'' row = Inr (JStr b)"
    and "is_production_slice (e_site_regex E) (e_machine_regex E) fqdn = Inr True"
    and "get_slice_site_server_ids fqdn = (Some sl, Some (si_site_id si), Some sv)"
    and "si \<in> set (db_sites w)" and "x \<in> set (db_tools w)" and "tl_slice_id x = sl"
    and "ip_or_off a \<noteq> NO_IP_ADDRESS \<or> ip_or_off b \<noteq> NO_IP_ADDRESS"
  shows "\<exists>ts w' t. update_row E (db_sites w) (db_tools w) row (db_sliver_tools w) w = (Inr ts, w') \<and>
    get_by st_key (sliver_key (tl_tool_id x) sl sv (si_site_id si)) (db_sliver_tools w') = Some t \<and>
    row_fields a b (si_roundrobin si) fqdn t"
proof -
  obtain si' rest where hd: "filter (\<lambda>s. si_site_id s = si_site_id si) (db_sites w) = si' # rest"
    using assms(8) by (cases "filter (\<lambda>s. si_site_id s = si_site_id si) (db_sites w)") (auto simp: filter_empty_conv)
  then have "si' \<in> set (filter (\<lambda>s. si_site_id s = si_site_id si) (db_sites w))" by simp
  then have "si' \<in> set (db_sites w) \<and> si_site_id si' = si_site_id si" by simp
  then have si: "si' = si" using assms(2,8) by (metis wf_db_def distinct_map inj_onD)
  let ?xs = "filter (\<lambda>t. tl_slice_id t = sl) (db_tools w)"
  have "in_step (db_sliver_tools w) w" using assms(2) by (simp add: wf_db_def in_step_db)
  then obtain ts w' where run: "update_slivers E (JStr a) (JStr b) fqdn sl sv si ?xs (db_sliver_tools w) w = (Inr ts, w')"
    and all: "\<forall>x \<in> set ?xs. \<exists>t. get_by st_key (sliver_key (tl_tool_id x) sl sv (si_site_id si)) (db_sliver_tools w') = Some t \<and>
          row_fields a b (si_roundrobin si) fqdn t"
    using update_slivers_step [OF assms(1,11), of "db_sliver_tools w" w ?xs sl fqdn sv si] by auto
  have "update_row E (db_sites w) (db_tools w) row (db_sliver_tools w) w = (Inr ts, w')"
    using run by (simp add: update_row_def assms(3-7) js_string_def hd si)
  moreover have "x \<in> set ?xs" using assms(9,10) by simp
  ultimately show ?thesis using all by blast
qed

definition ath01_site :: site where
  "ath01_site = \<lparr>si_site_id = ''ath01'', si_city = Some ''Athens'', si_country = Some ''GR'', si_latitude = Fin 0,
     si_longitude = Fin 0, si_metro = [''ath''], si_registration_timestamp = 0, si_roundrobin = Some False, si_when = 0\<rparr>"

definition ndt_tool :: tool where
  "ndt_tool = \<lparr>tl_slice_id = ''iupui_ndt'', tl_tool_id = ''ndt'', tl_server_port = None, tl_http_port = None,
     tl_show_tool_extra = None, tl_status_source = Some ''nagios''\<rparr>"

definition ath01_world :: world where
  "ath01_world = idle_world\<lparr>db_sites := [ath01_site], db_tools := [ndt_tool]\<rparr>"

definition ath01_row :: json where
  "ath01_row = JObj [(''hostname'', JStr ath01_host), (''ipv4'', JStr ''1.2.3.4''), (''ipv6'', JStr [])]"

theorem host_row_recorded_witness:
  "\<exists>ts w' t. update_row idle_env [ath01_site] [ndt_tool] ath01_row [] ath01_world = (Inr ts, w') \<and>
     get_by st_key ''ndt-iupui_ndt-mlab3-ath01'' (db_sliver_tools w') = Some t \<and>
     row_fields ''1.2.3.4'' [] (Some False) ath01_host t"
proof -
  have "wf_db ath01_world" by (simp add: wf_db_def ath01_world_def idle_world_def)
  moreover have "all_writable idle_env" by (simp add: all_writable_def idle_env_def)
  moreover have "is_production_slice (e_site_regex idle_env) (e_machine_regex idle_env) ath01_host = Inr True"
    using ath01_production by (simp add: idle_env_def)
  moreover have "get_slice_site_server_ids ath01_host = (Some ''iupui_ndt'', Some (si_site_id ath01_site), Some ''mlab3'')"
    by (simp add: ath01_ids ath01_site_def)
  ultimately show ?thesis
    using host_row_recorded [of idle_env ath01_world ath01_row ath01_host "''1.2.3.4''" "[]" "''iupui_ndt''" ath01_site "''mlab3''" ndt_tool]
    by (simp add: ath01_row_def js_get_def ath01_world_def idle_world_def ndt_tool_def ip_or_off_def NO_IP_ADDRESS_def
        sliver_key_def ath01_site_def)
qed

text \<open>When the host file cannot be fetched or is no JSON, reporting it fails: the updater is not a
  request handler, and \<open>send_not_found\<close> finds no method \<open>error\<close> on it.\<close>

theorem host_file_failure_raises:
  assumes "e_hostnames_url E = Some u"
    and "e_urlopen E u = Inl HTTPError \<or> (\<exists>body ct. e_urlopen E u = Inr (body, ct) \<and> json_loads body = Inl ValueError)"
  shows "ip_update E w = (Inl AttributeError, w)"
  using assms by (auto simp: ip_update_def fetch_url_def is_ValueError_def)

theorem host_file_failure_raises_witness:
  "ip_update (idle_env\<lparr>e_hostnames_url := Some ''u'', e_urlopen := \<lambda>_. Inl HTTPError\<rparr>) idle_world = (Inl AttributeError, idle_world)"
  by (rule host_file_failure_raises) simp_all

end
