(* ===== verification/Admin.thy ===== *)
theory Admin
  imports Lookup Registration
begin

text \<open>
  \<open>handlers/admin.py\<close>: the pages of the administrator, with \<open>handlers/docs.py\<close> and
  \<open>handlers/privacy.py\<close>, which redirect to documents. In the context of a template a datetime is
  its time in seconds, and the text \<open>simplejson.dumps\<close> makes of a value is that value.
\<close>

section \<open>Queries in an order\<close>

text \<open>\<open>ORDER BY tool_id DESC\<close>: entities with the same tool come in the order of their keys.\<close>

definition by_tool_id :: "sliver_tool list \<Rightarrow> sliver_tool list" where
  "by_tool_id ts = rev (sort_key st_tool_id (rev (sort_key st_key ts)))"

definition by_site_id :: "site list \<Rightarrow> site list" where
  "by_site_id ss = rev (sort_key si_site_id ss)"

section \<open>The pages of records\<close>

definition admin_links :: "(string \<times> json) list" where
  "admin_links = [(''privacy_doc_url'', JStr PRIVACY_DOC_URL), (''design_doc_url'', JStr DESIGN_DOC_URL)]"

definition sliver_tool_row :: "sliver_tool \<Rightarrow> json" where
  "sliver_tool_row t = JArr
     [JStr (st_tool_id t), JStr (st_site_id t), JStr (st_slice_id t), JStr (st_server_id t), JStr (st_status_ipv4 t),
      JStr (st_status_ipv6 t), JStr (st_sliver_ipv4 t), JStr (st_sliver_ipv6 t), JFloat (Fin (st_when t))]"

definition sliver_tool_view :: "(world, unit) act" where
  "sliver_tool_view =
     bindA (getA (\<lambda>w. by_tool_id (db_sliver_tools w))) (\<lambda>sliver_tools.
       resp_write [Rendered ''mlabns/templates/sliver_tool.html''
         ([(''records'', JArr (map sliver_tool_row sliver_tools)),
           (''headers'', JArr (map JStr [''Tool'', ''Site'', ''Slice'', ''Server'', ''Status IPv4'', ''Status IPv6'',
              ''Sliver IPv4'', ''Sliver IPv6'', ''When'']))] @ admin_links)])"

definition site_row :: "site \<Rightarrow> json" where
  "site_row s = JArr [JStr (si_site_id s), js_opt (si_city s), js_opt (si_country s), JFloat (si_latitude s),
     JFloat (si_longitude s), JArr (map JStr (si_metro s)), JFloat (Fin (si_when s))]"

definition site_view :: "(world, unit) act" where
  "site_view =
     bindA (getA (\<lambda>w. by_site_id (db_sites w))) (\<lambda>sites.
       resp_write [Rendered ''mlabns/templates/site.html''
         ([(''records'', JArr (map site_row sites)),
           (''headers'', JArr (map JStr [''Site ID'', ''City'', ''Country'', ''Latitude'', ''Longitude'', ''Metro'', ''When'']))]
          @ admin_links)])"

section \<open>Dates\<close>

text \<open>The civil date of a day, counted from 1 January 1970.\<close>

definition civil :: "int \<Rightarrow> int \<times> int \<times> int" where
  "civil day =
     (let z = day + 719468;
          doe = z mod 146097;
          yoe = (doe - doe div 1460 + doe div 36524 - doe div 146096) div 365;
          doy = doe - (365 * yoe + yoe div 4 - yoe div 100);
          mp = (5 * doy + 2) div 153;
          m = (if mp < 10 then mp + 3 else mp - 9)
      in (yoe + z div 146097 * 400 + (if m \<le> 2 then 1 else 0), m, doy - (153 * mp + 2) div 5 + 1))"

definition two_digits :: "int \<Rightarrow> string" where
  "two_digits n = (if n < 10 then ''0'' else []) @ show_int n"

text \<open>\<open>when.strftime('%Y-%m-%d %H:%M:%S')\<close>, in UTC.\<close>

definition time_string :: "real \<Rightarrow> string" where
  "time_string t =
     (case civil (\<lfloor>t\<rfloor> div 86400) of (y, m, d) \<Rightarrow>
        (let s = \<lfloor>t\<rfloor> mod 86400
         in show_int y @ ''-'' @ two_digits m @ ''-'' @ two_digits d @ '' '' @
            two_digits (s div 3600) @ '':'' @ two_digits (s div 60 mod 60) @ '':'' @ two_digits (s mod 60)))"

section \<open>The map\<close>

text \<open>\<open>site_dict\<close>: the slivers of a site are appended to its entry, which \<open>sites_per_city\<close> shares.\<close>

type_synonym site_entries = "(string \<times> site \<times> json list) list"

type_synonym city_entries = "(string option \<times> json list) list"

definition site_info :: "site \<Rightarrow> json list \<Rightarrow> json" where
  "site_info s ts = JObj [(''site_id'', JStr (si_site_id s)), (''city'', js_opt (si_city s)), (''country'', js_opt (si_country s)),
     (''latitude'', JFloat (si_latitude s)), (''longitude'', JFloat (si_longitude s)), (''sliver_tools'', JArr ts)]"

definition enter_site :: "site \<Rightarrow> site_entries \<times> city_entries \<Rightarrow> site_entries \<times> city_entries" where
  "enter_site s p = (case p of (by_site, sites_per_city) \<Rightarrow>
     (put_by fst (si_site_id s, s, []) by_site, put_by fst (si_city s, []) sites_per_city))"

definition map_sliver_info :: "string \<Rightarrow> sliver_tool \<Rightarrow> json" where
  "map_sliver_info address_family t = JObj
     [(''slice_id'', JStr (st_slice_id t)), (''tool_id'', JStr (st_tool_id t)), (''server_id'', JStr (st_server_id t)),
      (''status'', JStr (if address_family = ''ipv4'' then st_status_ipv4 t else st_status_ipv6 t)),
      (''timestamp'', JStr (time_string (st_when t)))]"

definition enter_sliver :: "env \<Rightarrow> string \<Rightarrow> sliver_tool \<Rightarrow> site_entries \<Rightarrow> site_entries res" where
  "enter_sliver E address_family t by_site =
     bindR (is_production_slice (e_site_regex E) (e_machine_regex E) (st_fqdn t)) (\<lambda>ok.
       if \<not> ok then Inr by_site
       else case map_of by_site (st_site_id t) of
           None \<Rightarrow> Inl KeyError
         | Some (s, ts) \<Rightarrow>
             Inr (put_by fst (st_site_id t, s, ts @ [map_sliver_info address_family t]) by_site))"

fun enter_slivers :: "env \<Rightarrow> string \<Rightarrow> sliver_tool list \<Rightarrow> site_entries \<Rightarrow> site_entries res" where
  "enter_slivers E f [] d = Inr d"
| "enter_slivers E f (t # ts) d = bindR (enter_sliver E f t d) (enter_slivers E f ts)"

fun group_cities :: "site_entries \<Rightarrow> city_entries \<Rightarrow> city_entries res" where
  "group_cities [] c = Inr c"
| "group_cities ((i, s, ts) # d) c =
     (case map_of c (si_city s) of
        None \<Rightarrow> Inl KeyError
      | Some infos \<Rightarrow> group_cities d (put_by fst (si_city s, infos @ [site_info s ts]) c))"

definition get_sites_info :: "env \<Rightarrow> site list \<Rightarrow> sliver_tool list \<Rightarrow> string \<Rightarrow> city_entries res" where
  "get_sites_info E sites sliver_tools address_family =
     (case fold enter_site (by_site_id sites) ([], []) of (by_site, sites_per_city) \<Rightarrow>
        bindR (enter_slivers E address_family sliver_tools by_site) (\<lambda>by_site.
          group_cities (dict_order (e_hash E) by_site) sites_per_city))"

text \<open>A \<open>None\<close> key is dumped as \<open>null\<close>.\<close>

definition city_object :: "city_entries \<Rightarrow> json" where
  "city_object c = JObj (map (\<lambda>(city, infos). (case city of None \<Rightarrow> ''null'' | Some s \<Rightarrow> s, JArr infos)) c)"

text \<open>
  The memcache is read in the default namespace, where only the configurations are: an entry there
  is no list of slivers. A query is never false, so no map is missing.
\<close>

definition map_view :: "env \<Rightarrow> string \<Rightarrow> string \<Rightarrow> (world, unit) act" where
  "map_view E tool_id address_family =
     bindA (getA (\<lambda>w. mc_default w tool_id)) (\<lambda>cached.
     bindA (if tool_id = ''all'' then getA (\<lambda>w. by_tool_id (db_sliver_tools w))
            else case cached of
                Some _ \<Rightarrow> raiseA TypeError
              | None \<Rightarrow> getA (\<lambda>w. by_tool_id (filter (\<lambda>t. st_tool_id t = tool_id) (db_sliver_tools w)))) (\<lambda>sliver_tools.
     bindA (getA db_sites) (\<lambda>sites.
     bindA (liftR (get_sites_info E sites sliver_tools address_family)) (\<lambda>cities.
       resp_write [Rendered ''mlabns/templates/map_view.html''
         ([(''cities'', city_object cities), (''tool_id'', JStr tool_id), (''server_regex'', js_opt (e_machine_text E)),
           (''address_family'', JStr address_family)] @ admin_links)]))))"

section \<open>The handlers\<close>

datatype admin_page =
    RedirectPage string
  | SitesPage
  | SliverToolsPage
  | MapPage string string

definition valid_paths :: "(string \<times> admin_page) list" where
  "valid_paths =
     [([], RedirectPage ''/admin/map/ipv4/all''),
      (''/admin'', RedirectPage ''/admin/map/ipv4/all''),
      (''/admin/sites'', SitesPage),
      (''/admin/sliver_tools'', SliverToolsPage),
      (''/admin/map'', RedirectPage ''/admin/map/ipv4/all''),
      (''/admin/map/ipv4'', RedirectPage ''/admin/map/ipv4/all''),
      (''/admin/map/ipv4/all'', MapPage ''all'' ''ipv4''),
      (''/admin/map/ipv4/mobiperf'', MapPage ''mobiperf'' ''ipv4''),
      (''/admin/map/ipv4/neubot'', MapPage ''neubot'' ''ipv4''),
      (''/admin/map/ipv4/ndt'', MapPage ''ndt'' ''ipv4''),
      (''/admin/map/ipv6'', MapPage ''all'' ''ipv6''),
      (''/admin/map/ipv6/all'', MapPage ''all'' ''ipv6''),
      (''/admin/map/ipv6/mobiperf'', MapPage ''mobiperf'' ''ipv6''),
      (''/admin/map/ipv6/neubot'', MapPage ''neubot'' ''ipv6''),
      (''/admin/map/ipv6/ndt'', MapPage ''ndt'' ''ipv6'')]"

fun show_page :: "env \<Rightarrow> admin_page \<Rightarrow> (world, unit) act" where
  "show_page E (RedirectPage uri) = resp_redirect uri"
| "show_page E SitesPage = site_view"
| "show_page E SliverToolsPage = sliver_tool_view"
| "show_page E (MapPage tool_id address_family) = map_view E tool_id address_family"

definition admin_post :: "(world, unit) act" where
  "admin_post = send_not_found FORMAT_HTML"

definition admin_get :: "env \<Rightarrow> request \<Rightarrow> (world, unit) act" where
  "admin_get E rq =
     (case map_of valid_paths (rstrip_by (\<lambda>c. c = CHR ''/'') (rq_path rq)) of
        None \<Rightarrow> send_not_found FORMAT_HTML
      | Some page \<Rightarrow> show_page E page)"

definition docs_post :: "(world, unit) act" where
  "docs_post = send_not_found FORMAT_HTML"

definition docs_get :: "(world, unit) act" where
  "docs_get = resp_redirect DESIGN_DOC_URL"

definition privacy_post :: "(world, unit) act" where
  "privacy_post = send_not_found FORMAT_HTML"

definition privacy_get :: "(world, unit) act" where
  "privacy_get = resp_redirect PRIVACY_DOC_URL"

section \<open>The map as a comprehension\<close>

lemma put_by_fresh: "key e \<notin> key ` set xs \<Longrightarrow> put_by key e xs = xs @ [e]"
  by (induction xs) auto

lemma map_of_put_by: "map_of (put_by fst (k, v) xs) = (map_of xs)(k \<mapsto> v)"
  by (induction xs) (auto simp: fun_eq_iff)

definition entry_of :: "(site \<Rightarrow> json list) \<Rightarrow> site \<Rightarrow> string \<times> site \<times> json list" where
  "entry_of g s = (si_site_id s, s, g s)"

lemma entry_of_fst [simp]: "fst (entry_of g s) = si_site_id s" "fst \<circ> entry_of g = si_site_id"
  by (simp_all add: entry_of_def comp_def)

lemma map_of_entries:
  "distinct (map si_site_id ss) \<Longrightarrow> s \<in> set ss \<Longrightarrow> map_of (map (entry_of g) ss) (si_site_id s) = Some (s, g s)"
  by (rule map_of_is_SomeI) (auto simp: entry_of_def comp_def)

lemma fold_enter_site:
  "distinct (map si_site_id (pre @ ss)) \<Longrightarrow>
   \<exists>c'. fold enter_site ss (map (entry_of (\<lambda>_. [])) pre, c) = (map (entry_of (\<lambda>_. [])) (pre @ ss), c') \<and>
     map_of c' = (\<lambda>city. if city \<in> si_city ` set ss then Some [] else map_of c city)"
proof (induction ss arbitrary: pre c)
  case (Cons s ss)
  have fresh: "si_site_id s \<notin> fst ` set (map (entry_of (\<lambda>_. [])) pre)" using Cons.prems by (auto simp: entry_of_def)
  then have step: "enter_site s (map (entry_of (\<lambda>_. [])) pre, c) =
      (map (entry_of (\<lambda>_. [])) (pre @ [s]), put_by fst (si_city s, []) c)"
    by (simp add: enter_site_def put_by_fresh entry_of_def)
  show ?case using Cons.IH [of "pre @ [s]" "put_by fst (si_city s, []) c"] Cons.prems step
    by (auto simp: map_of_put_by fun_eq_iff)
qed (simp add: fun_eq_iff)


definition on_map :: "env \<Rightarrow> sliver_tool \<Rightarrow> bool res" where
  "on_map E t = is_production_slice (e_site_regex E) (e_machine_regex E) (st_fqdn t)"

definition shown_slivers :: "env \<Rightarrow> string \<Rightarrow> sliver_tool list \<Rightarrow> site \<Rightarrow> json list" where
  "shown_slivers E f ts s =
     map (map_sliver_info f) (filter (\<lambda>t. on_map E t = Inr True \<and> st_site_id t = si_site_id s) ts)"

lemma enter_slivers_shown:
  assumes "distinct (map si_site_id ss)" and "\<forall>t \<in> set ts. \<exists>b. on_map E t = Inr b"
    and "\<forall>t \<in> set ts. on_map E t = Inr True \<longrightarrow> st_site_id t \<in> si_site_id ` set ss"
  shows "enter_slivers E f ts (map (entry_of g) ss) = Inr (map (entry_of (\<lambda>s. g s @ shown_slivers E f ts s)) ss)"
  using assms
proof (induction ts arbitrary: g)
  case (Cons t ts)
  obtain b where b: "on_map E t = Inr b" using Cons.prems(2) by auto
  show ?case
  proof (cases b)
    case False
    have "enter_sliver E f t (map (entry_of g) ss) = Inr (map (entry_of g) ss)"
      using b False by (simp add: enter_sliver_def on_map_def)
    then show ?thesis using Cons b False by (simp add: shown_slivers_def)
  next
    case True
    then obtain s where s: "s \<in> set ss" "st_site_id t = si_site_id s" using Cons.prems(3) b by auto
    define g' where "g' = (\<lambda>x. g x @ (if si_site_id x = si_site_id s then [map_sliver_info f t] else []))"
    have "put_by fst (si_site_id s, s, g s @ [map_sliver_info f t]) (map (entry_of g) ss) =
        map (\<lambda>e. if fst e = si_site_id s then (si_site_id s, s, g s @ [map_sliver_info f t]) else e) (map (entry_of g) ss)"
      using Cons.prems(1) s(1) by (subst put_by_map) (auto simp: image_image)
    also have "\<dots> = map (entry_of g') ss"
    proof -
      have "x = s" if "x \<in> set ss" "si_site_id x = si_site_id s" for x
        using Cons.prems(1) s(1) that by (auto simp: distinct_map dest: inj_onD)
      then show ?thesis by (auto simp: entry_of_def g'_def)
    qed
    finally have "enter_sliver E f t (map (entry_of g) ss) = Inr (map (entry_of g') ss)"
      using b True map_of_entries [OF Cons.prems(1) s(1), of g] by (simp add: enter_sliver_def on_map_def s(2))
    moreover have "(\<lambda>x. g' x @ shown_slivers E f ts x) = (\<lambda>x. g x @ shown_slivers E f (t # ts) x)"
      using b True by (auto simp: g'_def shown_slivers_def s(2) fun_eq_iff)
    ultimately show ?thesis using Cons.IH [of g'] Cons.prems by simp
  qed
qed (simp add: shown_slivers_def)

lemma group_cities_run:
  "\<forall>x \<in> set d. map_of c (si_city (fst (snd x))) \<noteq> None \<Longrightarrow>
   \<exists>c'. group_cities d c = Inr c' \<and> map_of c' = (\<lambda>city. map_option (\<lambda>infos. infos @
     map (\<lambda>x. site_info (fst (snd x)) (snd (snd x))) (filter (\<lambda>x. si_city (fst (snd x)) = city) d)) (map_of c city))"
proof (induction d arbitrary: c)
  case Nil
  then show ?case by (simp add: option.map_ident)
next
  case (Cons x d)
  obtain i s ts where x: "x = (i, s, ts)" by (cases x)
  obtain infos where infos: "map_of c (si_city s) = Some infos" using Cons.prems by (auto simp: x)
  let ?c = "put_by fst (si_city s, infos @ [site_info s ts]) c"
  have "\<forall>x \<in> set d. map_of ?c (si_city (fst (snd x))) \<noteq> None" using Cons.prems by (simp add: map_of_put_by)
  from Cons.IH [OF this] obtain c' where c': "group_cities d ?c = Inr c'" "map_of c' = (\<lambda>city. map_option (\<lambda>infos. infos @
     map (\<lambda>x. site_info (fst (snd x)) (snd (snd x))) (filter (\<lambda>x. si_city (fst (snd x)) = city) d)) (map_of ?c city))" by blast
  show ?case using c' infos by (simp add: x map_of_put_by fun_eq_iff)
qed

section \<open>The administrator changes nothing\<close>

definition reply_only :: "world \<Rightarrow> world \<Rightarrow> bool" where
  "reply_only w w' \<longleftrightarrow> (\<exists>r. w' = w\<lparr>w_response := r\<rparr>)"

lemma reflp_reply_only: "reflp reply_only"
proof (rule reflpI)
  fix w
  show "reply_only w w" unfolding reply_only_def by (rule exI [of _ "w_response w"]) simp
qed

lemma transp_reply_only: "transp reply_only"
  by (rule transpI) (auto simp: reply_only_def)

lemma responds_reply: "responds m \<Longrightarrow> keepsA reply_only m"
  by (rule keepsAI) (metis responds_run snd_conv reply_only_def)

lemmas reply_rules = keepsA_bindA [OF transp_reply_only] keepsA_basic [OF reflp_reply_only]
  responds_basic [THEN responds_reply] responds_util [THEN responds_reply]

lemma admin_reply: "keepsA reply_only (admin_get E rq)"
proof -
  have "keepsA reply_only (map_view E tool_id f)" for tool_id f
    unfolding map_view_def by (intro reply_rules) (auto intro!: reply_rules split: option.split)
  then have "keepsA reply_only (show_page E page)" for page
    by (cases page) (auto simp: site_view_def sliver_tool_view_def intro!: reply_rules)
  then show ?thesis unfolding admin_get_def by (auto intro!: reply_rules split: option.split)
qed

section \<open>Properties\<close>

text \<open>the map has an entry for each city of a site, with the sites of the city in the order of the dict, and
  for each site the production slivers of the site in the order of the query: no sliver is lost, none
  is shown twice, and none is shown under a site that is not its own.\<close>

theorem map_shows_each_sliver:
  assumes "distinct (map si_site_id sites)" and "\<forall>t \<in> set ts. \<exists>b. on_map E t = Inr b"
    and "\<forall>t \<in> set ts. on_map E t = Inr True \<longrightarrow> st_site_id t \<in> si_site_id ` set sites"
  shows "\<exists>c. get_sites_info E sites ts f = Inr c \<and>
    map_of c = (\<lambda>city. if city \<in> si_city ` set sites
      then Some (map (\<lambda>s. site_info s (shown_slivers E f ts s))
        (filter (\<lambda>s. si_city s = city) (sort_key (\<lambda>s. e_hash E (si_site_id s)) (by_site_id sites)))) else None)"
proof -
  let ?ss = "by_site_id sites"
  have ss: "set ?ss = set sites" "distinct (map si_site_id ?ss)"
    using assms(1) by (simp_all add: by_site_id_def distinct_map rev_map)
  obtain c0 where enter: "fold enter_site ?ss ([], []) = (map (entry_of (\<lambda>_. [])) ?ss, c0)"
    "map_of c0 = (\<lambda>city. if city \<in> si_city ` set sites then Some [] else map_of [] city)"
    using fold_enter_site [of "[]" ?ss "[]"] ss by auto
  define d where "d = map (entry_of (shown_slivers E f ts)) (sort_key (\<lambda>s. e_hash E (si_site_id s)) ?ss)"
  have slivers: "enter_slivers E f ts (map (entry_of (\<lambda>_. [])) ?ss) = Inr (map (entry_of (shown_slivers E f ts)) ?ss)"
    using enter_slivers_shown [OF ss(2) assms(2), of f "\<lambda>_. []"] assms(3) ss(1) by simp
  have order: "dict_order (e_hash E) (map (entry_of (shown_slivers E f ts)) ?ss) = d"
    by (simp add: dict_order_def d_def sort_key_map comp_def)
  have "\<forall>x \<in> set d. map_of c0 (si_city (fst (snd x))) \<noteq> None" by (auto simp: d_def entry_of_def enter(2) ss(1))
  then obtain c where c: "group_cities d c0 = Inr c" "map_of c = (\<lambda>city. map_option (\<lambda>infos. infos @
      map (\<lambda>x. site_info (fst (snd x)) (snd (snd x))) (filter (\<lambda>x. si_city (fst (snd x)) = city) d)) (map_of c0 city))"
    using group_cities_run by blast
  have "get_sites_info E sites ts f = Inr c" by (simp add: get_sites_info_def enter(1) slivers order c(1))
  moreover have "map_of c = (\<lambda>city. if city \<in> si_city ` set sites
      then Some (map (\<lambda>s. site_info s (shown_slivers E f ts s))
        (filter (\<lambda>s. si_city s = city) (sort_key (\<lambda>s. e_hash E (si_site_id s)) ?ss))) else None)"
    by (simp add: c(2) enter(2) fun_eq_iff d_def filter_map comp_def entry_of_def)
  ultimately show ?thesis by blast
qed

theorem map_shows_each_sliver_witness:
  "\<exists>c. get_sites_info idle_env [ath01_site] [sample_sliver ''ndt'' ''ath01'' ath01_host] ''ipv4'' = Inr c \<and>
     map_of c (Some ''Athens'') =
       Some [site_info ath01_site [map_sliver_info ''ipv4'' (sample_sliver ''ndt'' ''ath01'' ath01_host)]]"
proof -
  let ?t = "sample_sliver ''ndt'' ''ath01'' ath01_host"
  have ok: "on_map idle_env ?t = Inr True" using ath01_production by (simp add: on_map_def idle_env_def sample_sliver_def)
  have site: "si_site_id ath01_site = ''ath01''" "si_city ath01_site = Some ''Athens''" by (simp_all add: ath01_site_def)
  have sliver: "st_site_id ?t = ''ath01''" by (simp add: sample_sliver_def)
  have "\<forall>t \<in> set [?t]. \<exists>b. on_map idle_env t = Inr b" using ok by auto
  from map_shows_each_sliver [OF _ this, of "[ath01_site]" "''ipv4''"]
  obtain c where "get_sites_info idle_env [ath01_site] [?t] ''ipv4'' = Inr c"
    "map_of c (Some ''Athens'') = Some (map (\<lambda>s. site_info s (shown_slivers idle_env ''ipv4'' [?t] s))
       (filter (\<lambda>s. si_city s = Some ''Athens'') (sort_key (\<lambda>s. e_hash idle_env (si_site_id s)) (by_site_id [ath01_site]))))"
    using site sliver by auto
  then show ?thesis using ok site sliver by (auto simp: shown_slivers_def by_site_id_def)
qed

text \<open>The pages of the administrator, the map included, change nothing but the response.\<close>

theorem admin_changes_nothing: "\<exists>r. snd (admin_get E rq w) = w\<lparr>w_response := r\<rparr>"
  using keepsAD [OF admin_reply, of w E rq] by (simp add: reply_only_def)

text \<open>The map of all tools fails when one sliver is of a site that the datastore does not have.\<close>

lemma map_of_unknown_site:
  assumes "on_map E t = Inr True" and "st_site_id t \<notin> si_site_id ` set sites"
  shows "get_sites_info E sites [t] f = Inl KeyError"
proof -
  have keys: "fst ` set (fst (fold enter_site ss p)) = si_site_id ` set ss \<union> fst ` set (fst p)" for ss p
    by (induction ss arbitrary: p) (auto simp: enter_site_def keys_put_by split: prod.splits)
  obtain d c where dc: "fold enter_site (by_site_id sites) ([], []) = (d, c)" by fastforce
  then have "st_site_id t \<notin> fst ` set d" using keys [of "by_site_id sites" "([], [])"] assms(2) by (simp add: by_site_id_def)
  then have "map_of d (st_site_id t) = None" by (simp add: map_of_eq_None_iff)
  then show ?thesis using assms(1) by (simp add: get_sites_info_def dc enter_sliver_def on_map_def)
qed

end
