(* ===== verification/StatusSources.thy ===== *)
theory StatusSources
  imports Model
begin

text \<open>
  \<open>util/nagios_status.py\<close> and \<open>util/prometheus_status.py\<close>: the two monitoring systems that tell
  which slivers are up. Both answer for a tool and an address family with a dict from the fqdn of
  a sliver to its status and an extra text, or with \<open>None\<close>. The services behind the URLs are outside
  the program: \<open>e_open opener url\<close> is what opening the URL with an authenticating opener gives.
\<close>

type_synonym slice_status = "(string \<times> (string \<times> string)) list"

text \<open>\<open>NagiosSliceInfo\<close> and \<open>PrometheusSliceInfo\<close>.\<close>

record slice_info =
  sl_slice_url :: string
  sl_tool_id :: string
  sl_address_family :: string

section \<open>Nagios\<close>

definition authenticate_nagios :: "credentials \<Rightarrow> opener" where
  "authenticate_nagios n =
     \<lparr>op_scheme = HTTPDigestAuth, op_uri = cr_url n, op_user = cr_username n, op_password = cr_password n\<rparr>"

text \<open>\<open>re.split(r'\s+', s, maxsplit=n)\<close>\<close>

fun split_ws :: "nat \<Rightarrow> string \<Rightarrow> string list" where
  "split_ws 0 s = [s]"
| "split_ws (Suc n) s =
     (let rest = dropWhile (\<lambda>c. \<not> is_space c) s
      in if rest = [] then [s]
         else takeWhile (\<lambda>c. \<not> is_space c) s # split_ws n (dropWhile is_space rest))"

definition nagios_parse_sliver_tool_status :: "string \<Rightarrow> (string \<times> string \<times> string) res" where
  "nagios_parse_sliver_tool_status status =
     (case split_ws 3 (strip status) of
        [slice_fqdn, state, _, tool_extra] \<Rightarrow> Inr (hd (split_on CHR ''/'' slice_fqdn), state, tool_extra)
      | _ \<Rightarrow> Inl StatusUnparseableError)"

definition nagios_get_slice_info :: "string \<Rightarrow> string \<Rightarrow> string \<Rightarrow> slice_info" where
  "nagios_get_slice_info nagios_base_url tool_id address_family =
     \<lparr>sl_slice_url = nagios_base_url @ ''?show_state=1&service_name='' @ tool_id @ address_family @ ''&plugin_output=1'',
      sl_tool_id = tool_id, sl_address_family = address_family\<rparr>"

definition nagios_line :: "string \<Rightarrow> slice_status \<Rightarrow> slice_status res" where
  "nagios_line line status =
     (case nagios_parse_sliver_tool_status line of
        Inr (fqdn, state, tool_extra) \<Rightarrow>
          Inr (kv_set fqdn (if state = NAGIOS_SERVICE_STATUS_OK then STATUS_ONLINE else STATUS_OFFLINE, tool_extra) status)
      | Inl e \<Rightarrow> if e = StatusUnparseableError then Inr status else Inl e)"

fun status_loop :: "('a \<Rightarrow> slice_status \<Rightarrow> slice_status res) \<Rightarrow> 'a list \<Rightarrow> slice_status \<Rightarrow> slice_status res" where
  "status_loop step [] status = Inr status"
| "status_loop step (x # xs) status = bindR (step x status) (status_loop step xs)"

definition nagios_lines :: "string \<Rightarrow> string list" where
  "nagios_lines raw = filter (\<lambda>x. \<not> isspace x) (split_on newline (strip_char newline raw))"

definition nagios_get_slice_status :: "env \<Rightarrow> opener \<Rightarrow> string \<Rightarrow> slice_status option res" where
  "nagios_get_slice_status E opener url =
     (case e_open E opener url of
        Inl e \<Rightarrow> if e = HTTPError then Inr None else Inl e
      | Inr raw \<Rightarrow>
          if nagios_lines raw = [] then Inr None
          else bindR (status_loop nagios_line (nagios_lines raw) []) (\<lambda>s. Inr (Some s)))"

section \<open>Prometheus: the queries\<close>

text \<open>The text of a query after \<open>textwrap.dedent\<close>, by lines; their last lines are shared.\<close>

definition text_lines :: "string list \<Rightarrow> string" where
  "text_lines ls = concat (map (\<lambda>l. l @ [newline]) ls)"

definition ndt_machine_checks :: "string list" where
  \<open>ndt_machine_checks =
     [''    label_replace(((node_filesystem_size_bytes{cluster="platform-cluster", mountpoint="/cache/data"} -'',
      ''      node_filesystem_avail_bytes{cluster="platform-cluster", mountpoint="/cache/data"}) /'',
      ''        node_filesystem_size_bytes{cluster="platform-cluster", mountpoint="/cache/data"}),'',
      ''        "experiment", "ndt.iupui", "", "") < bool 0.95 OR'',
      ''    label_replace(kube_node_spec_taint{cluster="platform-cluster", key="lame-duck"},'',
      ''      "experiment", "ndt.iupui", "", "") != bool 1 OR'',
      ''    lame_duck_experiment{cluster="platform-cluster"} != bool 1 OR'',
      ''    label_replace(gmx_machine_maintenance, "experiment", "ndt.iupui", "", "") != bool 1'',
      '')'']\<close>

definition neubot_machine_checks :: "string list" where
  \<open>neubot_machine_checks =
     [''    label_replace(kube_node_spec_taint{cluster="platform-cluster", key="lame-duck"},'',
      ''      "experiment", "neubot.mlab", "", "") != bool 1 OR'',
      ''    label_replace(gmx_machine_maintenance, "experiment", "neubot.mlab", "", "") != bool 1'',
      '')'']\<close>

definition query_ndt :: string where
  \<open>query_ndt = text_lines (
     [''min by (experiment, machine) ('',
      ''    probe_success{service="ndt_raw"} OR'',
      ''    script_success{service="ndt5_client"} OR''] @
     ndt_machine_checks)\<close>

definition query_ndt_ipv6 :: string where
  \<open>query_ndt_ipv6 = text_lines (
     [''min by (experiment, machine) ('',
      ''    probe_success{service="ndt_raw_ipv6"} OR'',
      ''    script_success{service="ndt5_client"} OR''] @
     ndt_machine_checks)\<close>

definition query_ndt_ssl :: string where
  \<open>query_ndt_ssl = text_lines (
     [''min by (experiment, machine) ('',
      ''    probe_success{service="ndt_ssl"} OR'',
      ''    script_success{service="ndt5_client"} OR''] @
     ndt_machine_checks)\<close>

definition query_ndt_ssl_ipv6 :: string where
  \<open>query_ndt_ssl_ipv6 = text_lines (
     [''min by (experiment, machine) ('',
      ''    probe_success{service="ndt_ssl_ipv6"} OR'',
      ''    script_success{service="ndt5_client"} OR''] @
     ndt_machine_checks)\<close>

definition query_ndt7 :: string where
  \<open>query_ndt7 = text_lines (
     [''min by (experiment, machine) ('',
      ''    probe_success{service="ndt7"} OR''] @
     ndt_machine_checks)\<close>

definition query_ndt7_ipv6 :: string where
  \<open>query_ndt7_ipv6 = text_lines (
     [''min by (experiment, machine) ('',
      ''    probe_success{service="ndt7_ipv6"} OR''] @
     ndt_machine_checks)\<close>

definition query_neubot :: string where
  \<open>query_neubot = text_lines (
     [''min by (experiment, machine) ('',
      ''    probe_success{service="neubot"} OR'',
      ''    probe_success{service="neubot_tls"} OR''] @
     neubot_machine_checks)\<close>

definition query_neubot_ipv6 :: string where
  \<open>query_neubot_ipv6 = text_lines (
     [''min by (experiment, machine) ('',
      ''    probe_success{service="neubot_ipv6"} OR'',
      ''    probe_success{service="neubot_tls_ipv6"} OR''] @
     neubot_machine_checks)\<close>

definition QUERIES :: "(string \<times> string) list" where
  "QUERIES = [(''ndt'', query_ndt),
     (''ndt_ipv6'', query_ndt_ipv6),
     (''ndt_ssl'', query_ndt_ssl),
     (''ndt_ssl_ipv6'', query_ndt_ssl_ipv6),
     (''ndt7'', query_ndt7),
     (''ndt7_ipv6'', query_ndt7_ipv6),
     (''neubot'', query_neubot),
     (''neubot_ipv6'', query_neubot_ipv6)]"

definition authenticate_prometheus :: "credentials \<Rightarrow> opener" where
  "authenticate_prometheus p =
     \<lparr>op_scheme = HTTPBasicAuth, op_uri = cr_url p, op_user = cr_username p, op_password = cr_password p\<rparr>"

text \<open>\<open>urllib.quote_plus\<close>\<close>

definition url_safe :: "char \<Rightarrow> bool" where
  "url_safe c \<longleftrightarrow> is_lower c \<or> is_upper c \<or> is_digit c \<or> c \<in> {CHR ''_'', CHR ''.'', CHR ''-''}"

definition upper_hex :: "nat \<Rightarrow> char" where
  "upper_hex d = char_of (if d < 10 then 48 + d else 55 + d)"

definition quote_char :: "char \<Rightarrow> string" where
  "quote_char c =
     (if c = CHR '' '' then ''+''
      else if url_safe c then [c]
      else [CHR ''%'', upper_hex (ord c div 16), upper_hex (ord c mod 16)])"

definition quote_plus :: "string \<Rightarrow> string" where
  "quote_plus s = concat (map quote_char s)"

section \<open>Prometheus: the status\<close>

definition js_replace_dots :: "json \<Rightarrow> string res" where
  "js_replace_dots v = (case v of JStr s \<Rightarrow> Inr (replace_all ''.'' ''-'' s) | _ \<Rightarrow> Inl AttributeError)"

definition js_concat :: "string \<Rightarrow> json \<Rightarrow> string res" where
  "js_concat s v = (case v of JStr t \<Rightarrow> Inr (s @ t) | _ \<Rightarrow> Inl TypeError)"

text \<open>The guard of \<open>parse_sliver_tool_status\<close>, with the short-circuits of \<open>or\<close>.\<close>

definition status_recognized :: "json \<Rightarrow> bool res" where
  "status_recognized status =
     bindR (js_in ''value'' status) (\<lambda>has_value.
     if \<not> has_value then Inr False
     else bindR (js_get ''metric'' status) (\<lambda>metric.
          bindR (js_in ''experiment'' metric) (\<lambda>has_experiment.
          if \<not> has_experiment then Inr False
          else js_in ''machine'' metric)))"

definition prometheus_parse_sliver_tool_status :: "json \<Rightarrow> (string \<times> json \<times> string) res" where
  "prometheus_parse_sliver_tool_status status =
     bindR (status_recognized status) (\<lambda>ok.
     if \<not> ok then Inl StatusUnparseableError
     else bindR (js_get ''metric'' status) (\<lambda>metric.
          bindR (bindR (js_get ''experiment'' metric) js_replace_dots) (\<lambda>experiment.
          bindR (js_get ''machine'' metric) (\<lambda>machine.
          bindR (js_concat (experiment @ ''-'') machine) (\<lambda>sliver_fqdn.
          bindR (bindR (js_get ''value'' status) (js_nth 1)) (\<lambda>state.
          Inr (sliver_fqdn, state, PROMETHEUS_TOOL_EXTRA)))))))"

definition prometheus_get_slice_info :: "string \<Rightarrow> string \<Rightarrow> string \<Rightarrow> slice_info option" where
  "prometheus_get_slice_info prometheus_base_url tool_id address_family =
     (case map_of QUERIES (tool_id @ address_family) of
        None \<Rightarrow> None
      | Some query \<Rightarrow>
          Some \<lparr>sl_slice_url = prometheus_base_url @ quote_plus query, sl_tool_id = tool_id,
                sl_address_family = address_family\<rparr>)"

definition prometheus_line :: "json \<Rightarrow> slice_status \<Rightarrow> slice_status res" where
  "prometheus_line status results =
     (case prometheus_parse_sliver_tool_status status of
        Inr (fqdn, state, tool_extra) \<Rightarrow>
          Inr (kv_set fqdn (if state = JStr PROMETHEUS_SERVICE_STATUS_OK then STATUS_ONLINE else STATUS_OFFLINE, tool_extra) results)
      | Inl e \<Rightarrow> if e = StatusUnparseableError then Inr results else Inl e)"

definition prometheus_get_slice_status :: "env \<Rightarrow> opener \<Rightarrow> string \<Rightarrow> slice_status option res" where
  "prometheus_get_slice_status E opener url =
     (case e_open E opener url of
        Inl e \<Rightarrow> if e = HTTPError then Inr None else Inl e
      | Inr raw_data \<Rightarrow>
          (case json_loads raw_data of
             Inl _ \<Rightarrow> Inr None
           | Inr statuses \<Rightarrow>
               bindR (js_get ''status'' statuses) (\<lambda>st.
               if st = JStr ''error'' then bindR (js_get ''error'' statuses) (\<lambda>_. Inr None)
               else bindR (bindR (bindR (js_get ''data'' statuses) (js_get ''result'')) js_iter) (\<lambda>results.
                    bindR (status_loop prometheus_line results []) (\<lambda>s. Inr (Some s))))))"

section \<open>The contract of a monitoring system\<close>

definition wf_status :: "slice_status \<Rightarrow> bool" where
  "wf_status s \<longleftrightarrow> distinct (map fst s) \<and> (\<forall>x \<in> set s. fst (snd x) \<in> {STATUS_ONLINE, STATUS_OFFLINE})"

lemma wf_status_Nil [simp]: "wf_status []"
  by (simp add: wf_status_def)

lemma wf_status_set: "wf_status s \<Longrightarrow> st \<in> {STATUS_ONLINE, STATUS_OFFLINE} \<Longrightarrow> wf_status (kv_set f (st, x) s)"
  unfolding wf_status_def by (auto simp: distinct_kv_set dest!: set_kv_set)

lemma wf_status_lookup: "wf_status s \<Longrightarrow> map_of s f = Some (st, x) \<Longrightarrow> st \<in> {STATUS_ONLINE, STATUS_OFFLINE}"
  unfolding wf_status_def by (metis fst_conv map_of_SomeD snd_conv)

lemma status_loop_wf:
  assumes "\<And>x s s'. step x s = Inr s' \<Longrightarrow> wf_status s \<Longrightarrow> wf_status s'"
  shows "status_loop step xs s = Inr s' \<Longrightarrow> wf_status s \<Longrightarrow> wf_status s'"
  by (induction xs arbitrary: s) (auto simp: bindR_Inr_iff dest: assms)

text \<open>
  A monitoring system, asked through an opener, answers nothing or a dict without repeated keys
  that calls each sliver online or offline.
\<close>

locale status_source =
  fixes get_status :: "opener \<Rightarrow> string \<Rightarrow> slice_status option res"
  assumes answer_wf: "get_status opener url = Inr (Some s) \<Longrightarrow> wf_status s"
begin

lemma known_status: "get_status opener url = Inr (Some s) \<Longrightarrow> map_of s f = Some (st, x) \<Longrightarrow>
    st = STATUS_ONLINE \<or> st = STATUS_OFFLINE"
  using wf_status_lookup [OF answer_wf] by blast

lemma answer_functional: "get_status opener url = Inr (Some s) \<Longrightarrow> (f, a) \<in> set s \<Longrightarrow> (f, b) \<in> set s \<Longrightarrow> a = b"
  using answer_wf by (fastforce simp: wf_status_def dest: eq_key_imp_eq_value)

end

lemma nagios_line_wf: "nagios_line x s = Inr s' \<Longrightarrow> wf_status s \<Longrightarrow> wf_status s'"
  by (auto simp: nagios_line_def wf_status_set split: sum.splits if_splits)

lemma prometheus_line_wf: "prometheus_line x s = Inr s' \<Longrightarrow> wf_status s \<Longrightarrow> wf_status s'"
  by (auto simp: prometheus_line_def wf_status_set split: sum.splits if_splits)

lemma nagios_loop_wf: "status_loop nagios_line xs [] = Inr s \<Longrightarrow> wf_status s"
  using status_loop_wf [of nagios_line xs "[]" s] nagios_line_wf wf_status_Nil by blast

lemma prometheus_loop_wf: "status_loop prometheus_line xs [] = Inr s \<Longrightarrow> wf_status s"
  using status_loop_wf [of prometheus_line xs "[]" s] prometheus_line_wf wf_status_Nil by blast

interpretation nagios: status_source "nagios_get_slice_status E" for E
  by unfold_locales
    (auto simp: nagios_get_slice_status_def bindR_Inr_iff split: sum.splits if_splits intro: nagios_loop_wf)

interpretation prometheus: status_source "prometheus_get_slice_status E" for E
  by unfold_locales
    (auto simp: prometheus_get_slice_status_def bindR_Inr_iff split: sum.splits if_splits intro: prometheus_loop_wf)

section \<open>Reading a Nagios report\<close>

text \<open>An entry of a report: host, service, state, state type and output of the check.\<close>

type_synonym report_entry = "string \<times> string \<times> string \<times> string \<times> string"

definition word_of :: "string \<Rightarrow> bool" where
  "word_of s \<longleftrightarrow> s \<noteq> [] \<and> list_all (\<lambda>c. \<not> is_space c) s"

definition wf_entry :: "report_entry \<Rightarrow> bool" where
  "wf_entry e = (case e of (host, service, state, type, out) \<Rightarrow>
     word_of host \<and> CHR ''/'' \<notin> set host \<and> word_of service \<and> word_of state \<and> word_of type \<and>
     out \<noteq> [] \<and> \<not> is_space (hd out) \<and> \<not> is_space (last out) \<and> newline \<notin> set out)"

definition report_line :: "report_entry \<Rightarrow> string" where
  "report_line e = (case e of (host, service, state, type, out) \<Rightarrow>
     host @ CHR ''/'' # service @ CHR '' '' # state @ CHR '' '' # type @ CHR '' '' # out)"

lemma space_char [simp]: "is_space (CHR '' '')" "is_space newline"
  by (simp_all add: is_space_def ord_def newline_char)

lemma split_ws_word:
  assumes "list_all (\<lambda>c. \<not> is_space c) a" and "s \<noteq> []" and "\<not> is_space (hd s)"
  shows "split_ws (Suc n) (a @ CHR '' '' # s) = a # split_ws n s"
proof -
  have all: "\<And>c. c \<in> set a \<Longrightarrow> \<not> is_space c" using assms(1) by (auto simp: list_all_iff)
  have "dropWhile (\<lambda>c. \<not> is_space c) (a @ CHR '' '' # s) = CHR '' '' # s"
    by (rule dropWhile_append_stop) (use all in auto)
  moreover have "takeWhile (\<lambda>c. \<not> is_space c) (a @ CHR '' '' # s) = a"
    by (rule takeWhile_append_stop) (use all in auto)
  moreover have "dropWhile is_space s = s" using assms(2,3) by (cases s) auto
  ultimately show ?thesis by (simp add: Let_def)
qed

lemma word_hd: "word_of s \<Longrightarrow> \<not> is_space (hd (s @ t))" "word_of s \<Longrightarrow> s @ t \<noteq> []"
  by (cases s; simp add: word_of_def)+

lemma parse_report_line:
  assumes "wf_entry (host, service, state, type, out)"
  shows "nagios_parse_sliver_tool_status (report_line (host, service, state, type, out)) = Inr (host, state, out)"
proof -
  have w: "word_of host" "word_of service" "word_of state" "word_of type" "CHR ''/'' \<notin> set host"
    and o: "out \<noteq> []" "\<not> is_space (hd out)" "\<not> is_space (last out)"
    using assms by (simp_all add: wf_entry_def)
  let ?name = "host @ CHR ''/'' # service"
  let ?line = "report_line (host, service, state, type, out)"
  have line: "?line = ?name @ CHR '' '' # state @ CHR '' '' # type @ CHR '' '' # out" by (simp add: report_line_def)
  have "strip ?line = ?line" unfolding strip_def line
    by (rule strip_by_id) (use w(1) o in \<open>auto simp: word_of_def hd_append list_all_iff\<close>)
  moreover have "split_ws 3 ?line = [?name, state, type, out]"
  proof -
    have slash: "\<not> is_space (CHR ''/'')" by (simp add: is_space_def ord_def)
    have name: "list_all (\<lambda>c. \<not> is_space c) ?name" using w slash by (simp add: word_of_def)
    have s: "list_all (\<lambda>c. \<not> is_space c) state" "list_all (\<lambda>c. \<not> is_space c) type" using w by (simp_all add: word_of_def)
    have "split_ws 3 ?line = ?name # split_ws 2 (state @ CHR '' '' # type @ CHR '' '' # out)"
      unfolding line numeral_3_eq_3 numeral_2_eq_2 by (rule split_ws_word [OF name word_hd(2,1) [OF w(3)]])
    also have "split_ws 2 (state @ CHR '' '' # type @ CHR '' '' # out) = state # split_ws 1 (type @ CHR '' '' # out)"
      unfolding numeral_2_eq_2 One_nat_def by (rule split_ws_word [OF s(1) word_hd(2,1) [OF w(4)]])
    also have "split_ws 1 (type @ CHR '' '' # out) = type # split_ws 0 out"
      unfolding One_nat_def by (rule split_ws_word [OF s(2) o(1,2)])
    finally show ?thesis by simp
  qed
  moreover have "hd (split_on CHR ''/'' ?name) = host" using w(5) by (simp add: split_on_append)
  ultimately show ?thesis by (simp add: nagios_parse_sliver_tool_status_def)
qed

lemma report_line_text:
  assumes "wf_entry e"
  shows "report_line e \<noteq> []" "newline \<notin> set (report_line e)" "\<not> is_space (hd (report_line e))"
    "\<not> is_space (last (report_line e))" "\<not> isspace (report_line e)"
proof -
  obtain host service state type out where e: "e = (host, service, state, type, out)" by (cases e) auto
  have w: "word_of host" "word_of service" "word_of state" "word_of type"
    and o: "out \<noteq> []" "\<not> is_space (last out)" "newline \<notin> set out"
    using assms by (simp_all add: wf_entry_def e)
  have nl: "newline \<notin> set x" if "word_of x" for x using that by (auto simp: word_of_def list_all_iff)
  have "newline \<noteq> CHR ''/''" "newline \<noteq> CHR '' ''" by (simp_all add: newline_char)
  then show "newline \<notin> set (report_line e)" using nl [OF w(1)] nl [OF w(2)] nl [OF w(3)] nl [OF w(4)] o(3)
    by (simp add: report_line_def e)
  show "report_line e \<noteq> []" by (simp add: report_line_def e)
  show hd: "\<not> is_space (hd (report_line e))" unfolding e report_line_def prod.case by (rule word_hd(1) [OF w(1)])
  show "\<not> is_space (last (report_line e))" using o by (simp add: report_line_def e)
  show "\<not> isspace (report_line e)" using hd \<open>report_line e \<noteq> []\<close> by (cases "report_line e") (auto simp: isspace_def)
qed

lemma join_last: "xs \<noteq> [] \<Longrightarrow> last xs \<noteq> [] \<Longrightarrow> last (join_with [c] xs) = last (last xs)"
proof (induction xs rule: induct_list012)
  case (3 x y zs)
  have "join_with [c] (y # zs) \<noteq> []" using 3(4) by (cases zs) auto
  with 3 show ?case by (simp add: join_with_Cons)
qed auto

lemma join_hd: "xs \<noteq> [] \<Longrightarrow> hd xs \<noteq> [] \<Longrightarrow> hd (join_with sep xs) = hd (hd xs) \<and> join_with sep xs \<noteq> []"
  by (cases xs; cases "tl xs") (auto simp: join_with_Cons)

lemma nagios_lines_report:
  assumes "es \<noteq> []" and "\<forall>e \<in> set es. wf_entry e"
  shows "nagios_lines (join_with [newline] (map report_line es)) = map report_line es"
proof -
  let ?ls = "map report_line es"
  have ne: "?ls \<noteq> []" using assms(1) by simp
  have l: "last ?ls \<noteq> []" "hd ?ls \<noteq> []" "\<not> is_space (last (last ?ls))" "\<not> is_space (hd (hd ?ls))"
    using assms report_line_text by (auto simp: last_map hd_map)
  have "strip_char newline (join_with [newline] ?ls) = join_with [newline] ?ls"
    unfolding strip_char_def
  proof (rule strip_by_id)
    show "join_with [newline] ?ls \<noteq> []" using join_hd [OF ne l(2)] by blast
    show "\<not> hd (join_with [newline] ?ls) = newline" using join_hd [OF ne l(2), of "[newline]"] l(4) space_char(2) by metis
    show "\<not> last (join_with [newline] ?ls) = newline" using join_last [OF ne l(1), of newline] l(3) space_char(2) by metis
  qed
  moreover have "split_on newline (join_with [newline] ?ls) = ?ls"
    by (rule split_join) (use assms report_line_text(2) ne in auto)
  moreover have "filter (\<lambda>x. \<not> isspace x) ?ls = ?ls"
    using assms report_line_text(5) by (simp add: filter_id_conv)
  ultimately show ?thesis by (simp add: nagios_lines_def)
qed

definition entry_status :: "report_entry \<Rightarrow> slice_status \<Rightarrow> slice_status" where
  "entry_status e s = (case e of (host, service, state, type, out) \<Rightarrow>
     kv_set host (if state = NAGIOS_SERVICE_STATUS_OK then STATUS_ONLINE else STATUS_OFFLINE, out) s)"

lemma status_loop_report:
  "\<forall>e \<in> set es. wf_entry e \<Longrightarrow> status_loop nagios_line (map report_line es) s = Inr (fold entry_status es s)"
proof (induction es arbitrary: s)
  case (Cons e es)
  obtain host service state type out where e: "e = (host, service, state, type, out)" by (cases e) auto
  have "nagios_line (report_line e) s = Inr (entry_status e s)"
    using Cons.prems parse_report_line [of host service state type out] by (simp add: nagios_line_def entry_status_def e)
  with Cons show ?case by simp
qed simp

section \<open>Quoting\<close>

text \<open>\<open>urllib.unquote_plus\<close>, the decoder at the other end.\<close>

fun unquote_plus :: "string \<Rightarrow> string" where
  "unquote_plus (c # s) =
     (if c = CHR ''+'' then CHR '' '' # unquote_plus s
      else if c = CHR ''%'' then
        (case s of a # b # t \<Rightarrow> char_of (16 * hex_val a + hex_val b) # unquote_plus t | _ \<Rightarrow> c # unquote_plus s)
      else c # unquote_plus s)"
| "unquote_plus [] = []"

lemma hex_val_upper_hex: "d < 16 \<Longrightarrow> hex_val (upper_hex d) = d"
  by (auto simp: hex_val_def upper_hex_def is_digit_def)

lemma unquote_char: "unquote_plus (quote_char c @ s) = c # unquote_plus s"
proof -
  have safe: "c \<noteq> CHR ''+'' \<and> c \<noteq> CHR ''%''" if "url_safe c"
    using that by (auto simp: url_safe_def char_defs)
  have "ord c < 256" by (simp add: ord_def)
  then have "hex_val (upper_hex (ord c div 16)) = ord c div 16" "hex_val (upper_hex (ord c mod 16)) = ord c mod 16"
    by (simp_all add: hex_val_upper_hex)
  then have code: "char_of (16 * hex_val (upper_hex (ord c div 16)) + hex_val (upper_hex (ord c mod 16))) = c"
    by (simp add: ord_def)
  show ?thesis using safe code by (simp add: quote_char_def)
qed

lemma unquote_quote: "unquote_plus (quote_plus s) = s"
  by (induction s) (simp_all add: quote_plus_def unquote_char)

definition one_line_env :: env where
  "one_line_env = idle_env\<lparr>e_open := \<lambda>_ _. Inr (join_with [newline] (map report_line [(''h'', ''ndt'', ''0'', ''1'', ''ok'')]))\<rparr>"

lemma wf_one_line: "\<forall>e \<in> set [(''h'', ''ndt'', ''0'', ''1'', ''ok'')]. wf_entry e"
  by (simp add: wf_entry_def word_of_def is_space_def ord_def newline_char)

definition sample_opener :: opener where
  "sample_opener = \<lparr>op_scheme = HTTPDigestAuth, op_uri = ''u'', op_user = ''a'', op_password = ''b''\<rparr>"

lemma one_line_report: "nagios_get_slice_status one_line_env c url = Inr (Some [(''h'', (STATUS_ONLINE, ''ok''))])"
  using nagios_lines_report [OF _ wf_one_line] status_loop_report [OF wf_one_line, of "[]"]
  by (simp add: one_line_env_def nagios_get_slice_status_def entry_status_def NAGIOS_SERVICE_STATUS_OK_def)

section \<open>Properties\<close>

text \<open>C15: a report of well-formed lines is read back entry by entry: each host gets the status its state
  stands for and the output of its check, a later line for the same host replacing an earlier one.\<close>

theorem nagios_report_read_back:
  assumes "e_open E opener url = Inr (join_with [newline] (map report_line es))"
    and "es \<noteq> []" and "\<forall>e \<in> set es. wf_entry e"
  shows "nagios_get_slice_status E opener url = Inr (Some (fold entry_status es []))"
  using assms nagios_lines_report [OF assms(2,3)] status_loop_report [OF assms(3), of "[]"]
  by (simp add: nagios_get_slice_status_def)

theorem nagios_report_read_back_witness:
  "nagios_get_slice_status one_line_env sample_opener ''u'' = Inr (Some [(''h'', (STATUS_ONLINE, ''ok''))])"
proof -
  have "nagios_get_slice_status one_line_env sample_opener ''u'' = Inr (Some (fold entry_status [(''h'', ''ndt'', ''0'', ''1'', ''ok'')] []))"
    by (rule nagios_report_read_back [OF _ _ wf_one_line]) (simp_all add: one_line_env_def)
  then show ?thesis by (simp add: entry_status_def NAGIOS_SERVICE_STATUS_OK_def)
qed

text \<open>An empty report is not told apart from a report on no sliver: the empty string is not blank for
  \<open>isspace\<close>, so the answer is an empty dict and never the \<open>None\<close> of the documentation.\<close>

theorem nagios_empty_report:
  assumes "e_open E opener url = Inr (replicate n newline)"
  shows "nagios_get_slice_status E opener url = Inr (Some [])"
proof -
  have "strip_char newline (replicate n newline) = []"
    by (simp add: strip_char_def strip_by_def)
  then have lines: "nagios_lines (replicate n newline) = [[]]" by (simp add: nagios_lines_def isspace_def)
  have "nagios_parse_sliver_tool_status [] = Inl StatusUnparseableError"
    by (simp add: nagios_parse_sliver_tool_status_def strip_def strip_by_def numeral_3_eq_3)
  then show ?thesis by (simp add: nagios_get_slice_status_def assms lines nagios_line_def)
qed

theorem nagios_empty_report_witness:
  "nagios_get_slice_status (idle_env\<lparr>e_open := \<lambda>_ _. Inr []\<rparr>) sample_opener ''u'' = Inr (Some [])"
  by (rule nagios_empty_report [of _ _ _ 0]) simp

text \<open>Prometheus is asked the query that is written for the tool and the address family, and only
  tools that have one: decoding the query string of the URL gives its text back.\<close>

theorem prometheus_query_delivered:
  "case prometheus_get_slice_info base tool_id family of
     None \<Rightarrow> tool_id @ family \<notin> fst ` set QUERIES
   | Some i \<Rightarrow> take (length base) (sl_slice_url i) = base \<and>
       (tool_id @ family, unquote_plus (drop (length base) (sl_slice_url i))) \<in> set QUERIES \<and>
       sl_tool_id i = tool_id \<and> sl_address_family i = family"
proof (cases "map_of QUERIES (tool_id @ family)")
  case None
  then have "tool_id @ family \<notin> fst ` set QUERIES" by (simp add: map_of_eq_None_iff)
  with None show ?thesis by (simp add: prometheus_get_slice_info_def)
next
  case (Some query)
  then show ?thesis using map_of_SomeD [OF Some] by (simp add: prometheus_get_slice_info_def unquote_quote)
qed



end
