(* ===== verification/StatusUpdate.thy ===== *)
theory StatusUpdate
  imports Fetcher StatusSources Registration ReverseProxy
begin

text \<open>
  \<open>handlers/update.py\<close>, second part: the update of the status of slivers from Nagios or Prometheus
  (\<open>StatusUpdateHandler\<close>), and the handlers that reload the MaxMind database, count the client
  signatures and warm an instance up.
\<close>

section \<open>One sliver\<close>

definition IPV6_UNKNOWN :: string where
  "IPV6_UNKNOWN = PROMETHEUS_TOOL_EXTRA @ '' (Family '' @ [CHR 0x22] @ ''_ipv6'' @ [CHR 0x22] @ '' for sliver not known by monitoring).''"

definition apply_ipv4_status :: "env \<Rightarrow> string \<times> string \<Rightarrow> sliver_tool \<Rightarrow> sliver_tool res" where
  "apply_ipv4_status E p t =
     (case p of (status, tool_extra) \<Rightarrow>
        if st_sliver_ipv4 t = NO_IP_ADDRESS
        then Inr (if st_status_ipv4 t = STATUS_ONLINE then t\<lparr>st_status_ipv4 := STATUS_OFFLINE\<rparr> else t)
        else if st_status_ipv4 t \<noteq> status \<or> st_tool_extra t \<noteq> Some tool_extra
        then (if e_string_ok E tool_extra
              then Inr (t\<lparr>st_status_ipv4 := status, st_tool_extra := Some tool_extra\<rparr>) else Inl BadValueError)
        else Inr t)"

definition apply_ipv6_status :: "env \<Rightarrow> string \<times> string \<Rightarrow> sliver_tool \<Rightarrow> sliver_tool res" where
  "apply_ipv6_status E p t =
     (case p of (status, tool_extra) \<Rightarrow>
        if st_sliver_ipv6 t = NO_IP_ADDRESS
        then Inr (if st_status_ipv6 t = STATUS_ONLINE then t\<lparr>st_status_ipv6 := STATUS_OFFLINE\<rparr> else t)
        else if st_status_ipv6 t \<noteq> status \<or> st_tool_extra t \<noteq> Some tool_extra
        then (if e_string_ok E tool_extra
              then Inr (t\<lparr>st_status_ipv6 := status, st_tool_extra := Some tool_extra\<rparr>) else Inl BadValueError)
        else Inr t)"

text \<open>
  One turn of the loop. A sliver that monitoring does not know is entered as offline into the dict
  for \<open>_ipv6\<close>, and passed on as it is otherwise; an unexpected family drops the sliver.
\<close>

definition status_step :: "env \<Rightarrow> string \<Rightarrow> int \<Rightarrow> sliver_tool \<Rightarrow> slice_status \<times> sliver_tool list \<Rightarrow>
    (slice_status \<times> sliver_tool list) res" where
  "status_step E family now t st =
     (case st of (slice_status, updated) \<Rightarrow>
        (let set_status = (\<lambda>slice_status p.
               if family = [] then bindR (apply_ipv4_status E p t) (\<lambda>t.
                 Inr (slice_status, updated @ [t\<lparr>st_update_request_timestamp := now\<rparr>]))
               else if family = ''_ipv6'' then bindR (apply_ipv6_status E p t) (\<lambda>t.
                 Inr (slice_status, updated @ [t\<lparr>st_update_request_timestamp := now\<rparr>]))
               else Inr (slice_status, updated))
         in case map_of slice_status (st_fqdn t) of
              Some p \<Rightarrow> set_status slice_status p
            | None \<Rightarrow>
                if family = ''_ipv6''
                then set_status (kv_set (st_fqdn t) (STATUS_OFFLINE, IPV6_UNKNOWN) slice_status) (STATUS_OFFLINE, IPV6_UNKNOWN)
                else Inr (slice_status, updated @ [t])))"

fun status_steps :: "env \<Rightarrow> string \<Rightarrow> int \<Rightarrow> sliver_tool list \<Rightarrow> slice_status \<times> sliver_tool list \<Rightarrow>
    (slice_status \<times> sliver_tool list) res" where
  "status_steps E family now [] st = Inr st"
| "status_steps E family now (t # ts) st = bindR (status_step E family now t st) (status_steps E family now ts)"

section \<open>One tool\<close>

definition all_slivers_of :: "string \<Rightarrow> tool_properties" where
  "all_slivers_of tool_id = \<lparr>tp_tool_id = tool_id, tp_status = None, tp_all_slivers = True,
     tp_address_family = None, tp_metro = None, tp_country = None\<rparr>"

definition store_statuses :: "env \<Rightarrow> string \<Rightarrow> sliver_tool list \<Rightarrow> (world, unit) act" where
  "store_statuses E tool_id updated =
     (if updated = [] then retA ()
      else seqA (catchA (put_slivers E updated) (\<lambda>e. if e = TransactionFailedError then Some (retA ()) else None))
                (bindA (mc_set_tools E tool_id updated) (\<lambda>_. retA ())))"

definition update_sliver_tools_status :: "env \<Rightarrow> slice_status \<Rightarrow> string \<Rightarrow> string \<Rightarrow> (world, unit) act" where
  "update_sliver_tools_status E slice_status tool_id family =
     bindA (fetch_datastore E (all_slivers_of tool_id)) (\<lambda>sliver_tools.
     bindA (getA timestamp) (\<lambda>now.
     bindA (liftR (status_steps E family now sliver_tools (slice_status, []))) (\<lambda>(_, updated).
     store_statuses E tool_id updated)))"

section \<open>The handler\<close>

text \<open>\<open>if slice_status:\<close> holds for a dict with an entry.\<close>

definition apply_slice_status :: "env \<Rightarrow> slice_info \<Rightarrow> slice_status option \<Rightarrow> (world, unit) act" where
  "apply_slice_status E i answer =
     (case answer of
        Some (x # xs) \<Rightarrow> update_sliver_tools_status E (x # xs) (sl_tool_id i) (sl_address_family i)
      | _ \<Rightarrow> retA ())"

definition check_family :: "env \<Rightarrow> credentials option \<Rightarrow> credentials option \<Rightarrow> string \<Rightarrow> tool \<Rightarrow> string \<Rightarrow> (world, unit) act" where
  "check_family E prometheus_config nagios_config tool_id x address_family =
     (if tl_status_source x = Some ''prometheus'' then
        (case prometheus_config of
           None \<Rightarrow> retA ()
         | Some c \<Rightarrow>
             (case prometheus_get_slice_info (cr_url c) tool_id address_family of
                None \<Rightarrow> retA ()
              | Some i \<Rightarrow> bindA (liftR (prometheus_get_slice_status E (authenticate_prometheus c) (sl_slice_url i)))
                            (apply_slice_status E i)))
      else if tl_status_source x = Some ''nagios'' then
        (case nagios_config of
           None \<Rightarrow> retA ()
         | Some c \<Rightarrow>
             (let i = nagios_get_slice_info (cr_url c) tool_id address_family
              in bindA (liftR (nagios_get_slice_status E (authenticate_nagios c) (sl_slice_url i)))
                   (apply_slice_status E i)))
      else retA ())"

definition check_tool :: "env \<Rightarrow> credentials option \<Rightarrow> credentials option \<Rightarrow> string \<Rightarrow> (world, unit) act" where
  "check_tool E prometheus_config nagios_config tool_id =
     bindA (getA (get_tool_from_tool_id tool_id)) (\<lambda>found.
     case found of
       None \<Rightarrow> raiseA AttributeError
     | Some x \<Rightarrow> forA (check_family E prometheus_config nagios_config tool_id x) [[], ''_ipv6''])"

definition status_update_get :: "env \<Rightarrow> (world, unit) act" where
  "status_update_get E =
     bindA (getA (get_status_source_deps ''prometheus'')) (\<lambda>prometheus_deps.
     bindA (get_prometheus_config E) (\<lambda>prometheus_config.
     bindA (getA (get_status_source_deps ''nagios'')) (\<lambda>nagios_deps.
     bindA (get_nagios_config E) (\<lambda>nagios_config.
     if (prometheus_deps \<noteq> [] \<and> prometheus_config = None) \<and> (nagios_deps \<noteq> [] \<and> nagios_config = None)
     then send_not_found FORMAT_HTML
     else bindA (getA get_all_tool_ids) (\<lambda>tool_ids.
          seqA (forA (check_tool E prometheus_config nagios_config) tool_ids)
               (send_success FORMAT_JSON))))))"

section \<open>The other handlers\<close>

definition reload_maxmind_get :: "env \<Rightarrow> (world, unit) act" where
  "reload_maxmind_get E =
     bindA (liftR (get_database_file E)) (\<lambda>_. bindA (get_geo_reader E) (\<lambda>_. retA ()))"

text \<open>The two counters are what the handler logs.\<close>

definition count_signatures :: "world \<Rightarrow> nat \<times> nat" where
  "count_signatures w =
     fold (\<lambda>k (found, missing). if mc_requests w k \<noteq> None then (found + 1, missing) else (found, missing + 1))
       (db_requests w) (0, 0)"

definition count_request_signatures_get :: "(world, unit) act" where
  "count_request_signatures_get =
     bindA (getA count_signatures) (\<lambda>(found, missing).
       logA (''Client signatures from datastore; found_in: '' @ show_nat found @
             '' missing_from: '' @ show_nat missing @ '' memcache''))"

text \<open>\<open>get_reverse_proxy()\<close> lacks its argument.\<close>

definition warmup_get :: "(world, unit) act" where
  "warmup_get = raiseA TypeError"

section \<open>The loop as a map\<close>

text \<open>What monitoring says of a host, for a family.\<close>

definition status_entry :: "string \<Rightarrow> slice_status \<Rightarrow> string \<Rightarrow> (string \<times> string) option" where
  "status_entry family s fqdn = (case map_of s fqdn of
      Some p \<Rightarrow> Some p
    | None \<Rightarrow> if family = ''_ipv6'' then Some (STATUS_OFFLINE, IPV6_UNKNOWN) else None)"

text \<open>The sliver after the check: \<open>family\<close> is empty for IPv4.\<close>

definition monitored :: "string \<Rightarrow> int \<Rightarrow> slice_status \<Rightarrow> sliver_tool \<Rightarrow> sliver_tool" where
  "monitored family now s t = (case status_entry family s (st_fqdn t) of
      None \<Rightarrow> t
    | Some (status, extra) \<Rightarrow>
        (if family = ''_ipv6''
         then (if st_sliver_ipv6 t = NO_IP_ADDRESS
               then t\<lparr>st_status_ipv6 := (if st_status_ipv6 t = STATUS_ONLINE then STATUS_OFFLINE else st_status_ipv6 t)\<rparr>
               else t\<lparr>st_status_ipv6 := status, st_tool_extra := Some extra\<rparr>)
         else (if st_sliver_ipv4 t = NO_IP_ADDRESS
               then t\<lparr>st_status_ipv4 := (if st_status_ipv4 t = STATUS_ONLINE then STATUS_OFFLINE else st_status_ipv4 t)\<rparr>
               else t\<lparr>st_status_ipv4 := status, st_tool_extra := Some extra\<rparr>))
        \<lparr>st_update_request_timestamp := now\<rparr>)"

definition family_ok :: "string \<Rightarrow> bool" where
  "family_ok family \<longleftrightarrow> family = [] \<or> family = ''_ipv6''"

lemma apply_status_writable:
  assumes "all_writable E"
  shows "apply_ipv4_status E (status, extra) t = Inr (if st_sliver_ipv4 t = NO_IP_ADDRESS
      then t\<lparr>st_status_ipv4 := (if st_status_ipv4 t = STATUS_ONLINE then STATUS_OFFLINE else st_status_ipv4 t)\<rparr>
      else t\<lparr>st_status_ipv4 := status, st_tool_extra := Some extra\<rparr>)"
    and "apply_ipv6_status E (status, extra) t = Inr (if st_sliver_ipv6 t = NO_IP_ADDRESS
      then t\<lparr>st_status_ipv6 := (if st_status_ipv6 t = STATUS_ONLINE then STATUS_OFFLINE else st_status_ipv6 t)\<rparr>
      else t\<lparr>st_status_ipv6 := status, st_tool_extra := Some extra\<rparr>)"
  using assms by (auto simp: apply_ipv4_status_def apply_ipv6_status_def all_writable_def)

lemma status_step_writable:
  assumes "all_writable E" and "family_ok family"
  shows "\<exists>s'. status_step E family now t (s, updated) = Inr (s', updated @ [monitored family now s t]) \<and>
    status_entry family s' = status_entry family s"
proof (cases "map_of s (st_fqdn t)")
  case None
  show ?thesis
  proof (cases "family = ''_ipv6''")
    case True
    let ?s' = "kv_set (st_fqdn t) (STATUS_OFFLINE, IPV6_UNKNOWN) s"
    have "status_entry family ?s' = status_entry family s"
      using None True by (auto simp: status_entry_def map_of_kv_set fun_eq_iff)
    then show ?thesis using None True
      by (intro exI [of _ ?s']) (simp add: status_step_def apply_status_writable [OF assms(1)] monitored_def status_entry_def)
  next
    case False
    then show ?thesis using None by (simp add: status_step_def monitored_def status_entry_def)
  qed
next
  case (Some p)
  obtain status extra where p: "p = (status, extra)" by (cases p)
  show ?thesis using Some assms(2)
    by (auto simp: p status_step_def Let_def apply_status_writable [OF assms(1)] monitored_def status_entry_def family_ok_def)
qed

lemma status_steps_writable:
  assumes "all_writable E" and "family_ok family"
  shows "\<exists>s'. status_steps E family now ts (s, updated) = Inr (s', updated @ map (monitored family now s) ts)"
proof (induction ts arbitrary: s updated)
  case (Cons t ts)
  obtain s1 where s1: "status_step E family now t (s, updated) = Inr (s1, updated @ [monitored family now s t])"
    "status_entry family s1 = status_entry family s" using status_step_writable [OF assms] by blast
  have "monitored family now s1 = monitored family now s" by (simp add: fun_eq_iff monitored_def s1(2))
  then show ?case using Cons.IH [of s1 "updated @ [monitored family now s t]"] s1(1) by simp
qed simp

lemma monitored_key [simp]: "st_key (monitored family now s t) = st_key t" "st_tool_id (monitored family now s t) = st_tool_id t"
  by (simp_all add: monitored_def split: option.split prod.split)

lemma fetch_all_slivers:
  "fetch_datastore E (all_slivers_of i) w = (Inr (filter (\<lambda>t. st_tool_id t = i) (db_sliver_tools w)), w)"
  by (simp add: fetch_datastore_def all_slivers_of_def one_per_site_def apply_status_def gql_sliver_tools_def is_set_def)

section \<open>Only statuses change\<close>

text \<open>A sliver without what monitoring says of it.\<close>

definition identity_of :: "sliver_tool \<Rightarrow> sliver_tool" where
  "identity_of t = t\<lparr>st_status_ipv4 := [], st_status_ipv6 := [], st_tool_extra := None,
     st_update_request_timestamp := 0, st_when := 0\<rparr>"

definition status_only :: "world \<Rightarrow> world \<Rightarrow> bool" where
  "status_only w w' \<longleftrightarrow> map identity_of (db_sliver_tools w') = map identity_of (db_sliver_tools w) \<and>
     db_sites w' = db_sites w \<and> db_tools w' = db_tools w"

lemma status_only_refl: "reflp status_only"
  by (rule reflpI) (simp add: status_only_def)

lemma status_only_trans: "transp status_only"
  by (rule transpI) (simp add: status_only_def)

lemma identity_key: "identity_of s = identity_of t \<Longrightarrow> st_key s = st_key t"
proof -
  assume "identity_of s = identity_of t"
  then have "st_key (identity_of s) = st_key (identity_of t)" by simp
  then show ?thesis by (simp add: identity_of_def)
qed

lemma map_identity_keys: "map identity_of xs = map identity_of ys \<Longrightarrow> map st_key xs = map st_key ys"
proof -
  have keys: "map st_key xs = map st_key (map identity_of xs)" for xs by (simp add: identity_of_def)
  assume "map identity_of xs = map identity_of ys"
  then show ?thesis using keys [of xs] keys [of ys] by (simp only:)
qed

lemma apply_status_identity:
  "apply_ipv4_status E p t = Inr t' \<Longrightarrow> wf_sliver t \<Longrightarrow> fst p \<in> {STATUS_ONLINE, STATUS_OFFLINE} \<Longrightarrow>
     wf_sliver t' \<and> identity_of t' = identity_of t"
  "apply_ipv6_status E p t = Inr t' \<Longrightarrow> wf_sliver t \<Longrightarrow> fst p \<in> {STATUS_ONLINE, STATUS_OFFLINE} \<Longrightarrow>
     wf_sliver t' \<and> identity_of t' = identity_of t"
proof -
  assume run: "apply_ipv4_status E p t = Inr t'" and t: "wf_sliver t" and p: "fst p \<in> {STATUS_ONLINE, STATUS_OFFLINE}"
  from run have "t' = t \<or> t' = t\<lparr>st_status_ipv4 := STATUS_OFFLINE\<rparr> \<or>
      t' = t\<lparr>st_status_ipv4 := fst p, st_tool_extra := Some (snd p)\<rparr>"
    by (cases p) (auto simp only: apply_ipv4_status_def prod.case fst_conv snd_conv sum.inject sum.distinct split: if_splits)
  then show "wf_sliver t' \<and> identity_of t' = identity_of t"
    using t p by (elim disjE) (simp_all add: wf_sliver_def identity_of_def)
next
  assume run: "apply_ipv6_status E p t = Inr t'" and t: "wf_sliver t" and p: "fst p \<in> {STATUS_ONLINE, STATUS_OFFLINE}"
  from run have "t' = t \<or> t' = t\<lparr>st_status_ipv6 := STATUS_OFFLINE\<rparr> \<or>
      t' = t\<lparr>st_status_ipv6 := fst p, st_tool_extra := Some (snd p)\<rparr>"
    by (cases p) (auto simp only: apply_ipv6_status_def prod.case fst_conv snd_conv sum.inject sum.distinct split: if_splits)
  then show "wf_sliver t' \<and> identity_of t' = identity_of t"
    using t p by (elim disjE) (simp_all add: wf_sliver_def identity_of_def)
qed

lemma stamp_identity: "wf_sliver (t\<lparr>st_update_request_timestamp := n\<rparr>) = wf_sliver t"
  "identity_of (t\<lparr>st_update_request_timestamp := n\<rparr>) = identity_of t"
  "wf_sliver (t\<lparr>st_when := r\<rparr>) = wf_sliver t" "identity_of (t\<lparr>st_when := r\<rparr>) = identity_of t"
  by (simp_all add: wf_sliver_def identity_of_def)

lemma status_step_identity:
  assumes "status_step E family now t (s, updated) = Inr (s', updated')" and "family_ok family"
    and "wf_sliver t" and "wf_status s"
  shows "\<exists>t'. updated' = updated @ [t'] \<and> wf_sliver t' \<and> identity_of t' = identity_of t \<and> wf_status s'"
proof -
  define set_status where "set_status = (\<lambda>s p.
      if family = [] then bindR (apply_ipv4_status E p t) (\<lambda>t. Inr (s :: slice_status, updated @ [t\<lparr>st_update_request_timestamp := now\<rparr>]))
      else if family = ''_ipv6'' then bindR (apply_ipv6_status E p t) (\<lambda>t. Inr (s, updated @ [t\<lparr>st_update_request_timestamp := now\<rparr>]))
      else Inr (s, updated))"
  have set: "\<exists>t'. updated' = updated @ [t'] \<and> wf_sliver t' \<and> identity_of t' = identity_of t \<and> s' = s1"
    if "set_status s1 p = Inr (s', updated')" "fst p \<in> {STATUS_ONLINE, STATUS_OFFLINE}" for s1 p
  proof -
    from that(1) assms(2) obtain t' where "s' = s1" "updated' = updated @ [t'\<lparr>st_update_request_timestamp := now\<rparr>]"
      "apply_ipv4_status E p t = Inr t' \<or> apply_ipv6_status E p t = Inr t'"
      by (auto simp: set_status_def family_ok_def bindR_Inr_iff)
    moreover from this(3) have "wf_sliver t' \<and> identity_of t' = identity_of t"
      by (elim disjE) (erule apply_status_identity [OF _ assms(3) that(2)])+
    ultimately show ?thesis by (simp add: stamp_identity)
  qed
  have step: "status_step E family now t (s, updated) =
      (case map_of s (st_fqdn t) of
         Some p \<Rightarrow> set_status s p
       | None \<Rightarrow> if family = ''_ipv6''
           then set_status (kv_set (st_fqdn t) (STATUS_OFFLINE, IPV6_UNKNOWN) s) (STATUS_OFFLINE, IPV6_UNKNOWN)
           else Inr (s, updated @ [t]))"
    by (cases "map_of s (st_fqdn t)") (simp_all add: status_step_def set_status_def)
  show ?thesis
  proof (cases "map_of s (st_fqdn t)")
    case (Some p)
    then have "fst p \<in> {STATUS_ONLINE, STATUS_OFFLINE}" using wf_status_lookup [OF assms(4)] by (cases p) auto
    then show ?thesis using set [of s p] assms(1,4) Some step by auto
  next
    case None
    have "wf_status (kv_set (st_fqdn t) (STATUS_OFFLINE, IPV6_UNKNOWN) s)" using assms(4) by (simp add: wf_status_set)
    then show ?thesis using set [of "kv_set (st_fqdn t) (STATUS_OFFLINE, IPV6_UNKNOWN) s" "(STATUS_OFFLINE, IPV6_UNKNOWN)"]
        assms(1,3,4) None step by (auto split: if_splits)
  qed
qed

lemma status_steps_identity:
  "\<lbrakk>status_steps E family now ts (s, updated) = Inr (s', updated'); family_ok family; \<forall>t \<in> set ts. wf_sliver t; wf_status s\<rbrakk> \<Longrightarrow>
   \<exists>us. updated' = updated @ us \<and> (\<forall>u \<in> set us. wf_sliver u) \<and> map identity_of us = map identity_of ts"
proof (induction ts arbitrary: s updated)
  case (Cons t ts)
  obtain s1 updated1 where one: "status_step E family now t (s, updated) = Inr (s1, updated1)"
    and rest: "status_steps E family now ts (s1, updated1) = Inr (s', updated')"
    using Cons.prems(1) by (auto simp: bindR_Inr_iff)
  obtain t' where t': "updated1 = updated @ [t']" "wf_sliver t'" "identity_of t' = identity_of t" "wf_status s1"
    using status_step_identity [OF one Cons.prems(2)] Cons.prems(3,4) by auto
  obtain us where us: "updated' = updated1 @ us" "\<forall>u \<in> set us. wf_sliver u" "map identity_of us = map identity_of ts"
    using Cons.IH [OF rest Cons.prems(2) _ t'(4)] Cons.prems(3) by auto
  with t' show ?case by (intro exI [of _ "t' # us"]) simp
qed simp

lemma put_slivers_identity:
  assumes w: "wf_db w" and us: "\<forall>u \<in> set us. wf_sliver u"
    and ids: "map identity_of us = map identity_of (filter P (db_sliver_tools w))"
  shows "\<exists>r db'. put_slivers E us w = (r, w\<lparr>db_sliver_tools := db'\<rparr>) \<and> (r = Inr () \<or> r = Inl TransactionFailedError) \<and>
    map identity_of db' = map identity_of (db_sliver_tools w) \<and> (\<forall>t \<in> set db'. wf_sliver t)"
proof -
  let ?db = "db_sliver_tools w"
  define es where "es = map (\<lambda>st. st\<lparr>st_when := w_now w\<rparr>) (filter (\<lambda>st. e_put_ok E (st_key st)) us)"
  have db: "distinct (map st_key ?db)" "\<forall>t \<in> set ?db. wf_sliver t" using w by (simp_all add: wf_db_def)
  have keys: "map st_key us = map st_key (filter P ?db)" by (rule map_identity_keys [OF ids])
  then have "distinct (map st_key us)" using distinct_map_filter [OF db(1)] by simp
  then have dist: "distinct (map st_key es)"
    using distinct_map_filter [of st_key us "\<lambda>st. e_put_ok E (st_key st)"] by (simp add: es_def comp_def)
  have es_us: "\<exists>u \<in> set us. e = u\<lparr>st_when := w_now w\<rparr>" if "e \<in> set es" for e using that by (auto simp: es_def)
  have twin: "\<exists>x \<in> set ?db. identity_of e = identity_of x \<and> wf_sliver e" if e: "e \<in> set es" for e
  proof -
    obtain u where u: "u \<in> set us" "e = u\<lparr>st_when := w_now w\<rparr>" using es_us [OF e] by blast
    have "identity_of u \<in> set (map identity_of (filter P ?db))" unfolding ids [symmetric] using u(1) by simp
    then obtain x where "x \<in> set ?db" "identity_of u = identity_of x" by auto
    moreover have "identity_of e = identity_of u" "wf_sliver e" using u us by (simp_all add: stamp_identity)
    ultimately show ?thesis by (intro bexI [of _ x]) simp_all
  qed
  have sub: "st_key ` set es \<subseteq> st_key ` set ?db"
  proof (rule image_subsetI)
    fix e assume "e \<in> set es"
    then obtain x where "x \<in> set ?db" "identity_of e = identity_of x" using twin by blast
    then show "st_key e \<in> st_key ` set ?db" using identity_key [of e x] by (intro image_eqI [of _ _ x])
  qed
  define db' where "db' = fold (put_by st_key) es ?db"
  have db': "db' = map (\<lambda>x. case find (\<lambda>e. st_key e = st_key x) es of Some e \<Rightarrow> e | None \<Rightarrow> x) ?db"
    unfolding db'_def by (rule fold_put_by [OF db(1) dist sub])
  have elem: "identity_of (case find (\<lambda>e. st_key e = st_key x) es of Some e \<Rightarrow> e | None \<Rightarrow> x) = identity_of x \<and>
      wf_sliver (case find (\<lambda>e. st_key e = st_key x) es of Some e \<Rightarrow> e | None \<Rightarrow> x)" if x: "x \<in> set ?db" for x
  proof (cases "find (\<lambda>e. st_key e = st_key x) es")
    case None
    with x db(2) show ?thesis by simp
  next
    case (Some e)
    then have e: "e \<in> set es" "st_key e = st_key x" by (auto simp: find_Some_iff)
    obtain y where y: "y \<in> set ?db" "identity_of e = identity_of y" "wf_sliver e" using twin [OF e(1)] by blast
    then have "y = x" using e(2) identity_key x db(1) by (metis distinct_map inj_onD)
    with y Some show ?thesis by simp
  qed
  have "put_slivers E us w = (if list_all (\<lambda>st. e_put_ok E (st_key st)) us then Inr () else Inl TransactionFailedError,
      w\<lparr>db_sliver_tools := db'\<rparr>)"
    by (simp add: put_slivers_def db'_def es_def Let_def)
  moreover have "map identity_of db' = map identity_of ?db" "\<forall>t \<in> set db'. wf_sliver t"
    using elem by (auto simp: db')
  ultimately show ?thesis by auto
qed


section \<open>A check on every path\<close>

definition keeps_slivers :: "(world, 'a) act \<Rightarrow> ('a \<Rightarrow> bool) \<Rightarrow> bool" where
  "keeps_slivers m Q \<longleftrightarrow> safeA wf_db status_only m Q"

lemmas keeps_basic = safeA_basic [OF status_only_refl, where P = wf_db, folded keeps_slivers_def]

lemmas keeps_bindA = safeA_bindA [OF status_only_trans, where P = wf_db, folded keeps_slivers_def]

lemmas keeps_seqA = safeA_seqA [OF status_only_trans, where P = wf_db, folded keeps_slivers_def]

lemmas keeps_weaken = safeA_weaken [where P = wf_db and R = status_only, folded keeps_slivers_def]

text \<open>An operation that leaves the tables alone.\<close>

lemma keeps_tables:
  assumes "\<And>w. db_sites (snd (m w)) = db_sites w \<and> db_tools (snd (m w)) = db_tools w \<and>
    db_sliver_tools (snd (m w)) = db_sliver_tools w"
    and "\<And>w x. wf_db w \<Longrightarrow> fst (m w) = Inr x \<Longrightarrow> Q x"
  shows "keeps_slivers m Q"
  unfolding keeps_slivers_def using assms by (intro safeAI) (simp add: wf_db_def status_only_def)

lemma keeps_responds: "responds m \<Longrightarrow> keeps_slivers m (\<lambda>_. True)"
proof (rule keeps_tables)
  fix w assume "responds m"
  then obtain r where "m w = (Inr (), w\<lparr>w_response := r\<rparr>)" using responds_run by blast
  then show "db_sites (snd (m w)) = db_sites w \<and> db_tools (snd (m w)) = db_tools w \<and>
      db_sliver_tools (snd (m w)) = db_sliver_tools w" by simp
qed simp

lemma keeps_mc_set_tools: "keeps_slivers (mc_set_tools E k ts) (\<lambda>_. True)"
  by (rule keeps_tables) (simp_all add: mc_set_tools_def)

lemma keeps_config: "keeps_slivers (get_prometheus_config E) (\<lambda>_. True)" "keeps_slivers (get_nagios_config E) (\<lambda>_. True)"
  by (rule keeps_tables; simp add: get_prometheus_config_def get_nagios_config_def mc_set_default_def bindA_def retA_def split: option.split)+

lemma keeps_forA: "(\<And>x. x \<in> set xs \<Longrightarrow> keeps_slivers (f x) (\<lambda>_. True)) \<Longrightarrow> keeps_slivers (forA f xs) (\<lambda>_. True)"
  by (induction xs) (simp_all add: keeps_basic keeps_seqA)

text \<open>The writes of a check, on the slivers of the tool that were fetched from the same state.\<close>

lemma store_statuses_keeps:
  assumes w: "wf_db w" and us: "\<forall>u \<in> set us. wf_sliver u"
    and ids: "map identity_of us = map identity_of (filter P (db_sliver_tools w))"
  shows "wf_db (snd (store_statuses E tool_id us w)) \<and> status_only w (snd (store_statuses E tool_id us w))"
proof (cases "us = []")
  case True
  with w show ?thesis using reflpD [OF status_only_refl] by (simp add: store_statuses_def)
next
  case False
  obtain r db' where put: "put_slivers E us w = (r, w\<lparr>db_sliver_tools := db'\<rparr>)" "r = Inr () \<or> r = Inl TransactionFailedError"
    and db': "map identity_of db' = map identity_of (db_sliver_tools w)" "\<forall>t \<in> set db'. wf_sliver t"
    using put_slivers_identity [OF assms] by blast
  let ?w = "w\<lparr>db_sliver_tools := db'\<rparr>"
  have keys: "map st_key db' = map st_key (db_sliver_tools w)" by (rule map_identity_keys [OF db'(1)])
  then have w': "wf_db ?w" "status_only w ?w" using w db' by (simp_all add: wf_db_def status_only_def)
  have "store_statuses E tool_id us w = bindA (mc_set_tools E tool_id us) (\<lambda>_. retA ()) ?w"
    using False put by (auto simp: store_statuses_def seqA_def catchA_def)
  moreover have "wf_db (snd (mc_set_tools E tool_id us ?w)) \<and> status_only ?w (snd (mc_set_tools E tool_id us ?w))"
    using keeps_mc_set_tools w'(1) unfolding keeps_slivers_def safeA_def by blast
  moreover have "snd (bindA (mc_set_tools E tool_id us) (\<lambda>_. retA ()) ?w) = snd (mc_set_tools E tool_id us ?w)"
    by (simp add: mc_set_tools_def bindA_def retA_def)
  ultimately show ?thesis using transpD [OF status_only_trans w'(2)] by simp
qed

lemma update_status_keeps:
  assumes "family_ok family" and "wf_status s"
  shows "keeps_slivers (update_sliver_tools_status E s tool_id family) (\<lambda>_. True)"
  unfolding keeps_slivers_def
proof (rule safeAI)
  fix w assume w: "wf_db w"
  let ?ts = "filter (\<lambda>t. st_tool_id t = tool_id) (db_sliver_tools w)"
  let ?m = "update_sliver_tools_status E s tool_id family"
  show "wf_db (snd (?m w)) \<and> status_only w (snd (?m w)) \<and> (\<forall>x. fst (?m w) = Inr x \<longrightarrow> True)"
  proof (cases "status_steps E family (timestamp w) ?ts (s, [])")
    case (Inl e)
    then have "?m w = (Inl e, w)" by (simp add: update_sliver_tools_status_def fetch_all_slivers bindA_def getA_def liftR_def)
    then show ?thesis using w reflpD [OF status_only_refl] by simp
  next
    case (Inr r)
    obtain s' us where r: "r = (s', us)" by fastforce
    have run: "?m w = store_statuses E tool_id us w"
      using Inr by (simp add: r update_sliver_tools_status_def fetch_all_slivers bindA_def getA_def liftR_def)
    have "\<forall>t \<in> set ?ts. wf_sliver t" using w by (simp add: wf_db_def)
    then have "\<forall>u \<in> set us. wf_sliver u" "map identity_of us = map identity_of ?ts"
      using status_steps_identity [OF Inr [unfolded r] assms(1) _ assms(2)] by auto
    from store_statuses_keeps [OF w this] show ?thesis unfolding run by simp
  qed
qed

lemma check_family_keeps:
  assumes "address_family \<in> {[], ''_ipv6''}"
  shows "keeps_slivers (check_family E p n tool_id x address_family) (\<lambda>_. True)"
proof -
  have family: "family_ok address_family" using assms by (simp add: family_ok_def)
  have applied: "keeps_slivers (apply_slice_status E i a) (\<lambda>_. True)"
    if "\<And>s. a = Some s \<Longrightarrow> wf_status s" "sl_address_family i = address_family" for i a
    using that family update_status_keeps
    by (auto simp: apply_slice_status_def keeps_basic split: option.split list.split)
  have ask: "keeps_slivers (bindA (liftR r) (apply_slice_status E i)) (\<lambda>_. True)"
    if "\<And>s. r = Inr (Some s) \<Longrightarrow> wf_status s" "sl_address_family i = address_family" for r i
    by (rule keeps_bindA [where Q = "\<lambda>a. \<forall>s. a = Some s \<longrightarrow> wf_status s"])
      (use that in \<open>auto intro!: keeps_basic applied\<close>)
  have "sl_address_family (nagios_get_slice_info u tool_id address_family) = address_family" for u
    by (simp add: nagios_get_slice_info_def)
  moreover have "sl_address_family i = address_family" if "prometheus_get_slice_info u tool_id address_family = Some i" for u i
    using that by (auto simp: prometheus_get_slice_info_def split: option.splits)
  ultimately show ?thesis
    by (auto simp: check_family_def Let_def intro!: keeps_basic ask dest: nagios.answer_wf prometheus.answer_wf split: option.split)
qed

lemma check_tool_keeps: "keeps_slivers (check_tool E p n tool_id) (\<lambda>_. True)"
proof -
  have get: "keeps_slivers (getA (get_tool_from_tool_id tool_id)) (\<lambda>_. True)" by (rule keeps_basic) simp
  show ?thesis unfolding check_tool_def
    by (rule keeps_bindA [OF get]) (auto intro!: keeps_basic keeps_forA check_family_keeps split: option.split simp del: forA.simps)
qed

lemma status_update_keeps: "keeps_slivers (status_update_get E) (\<lambda>_. True)"
proof -
  have get: "keeps_slivers (getA g) (\<lambda>_. True)" for g :: "world \<Rightarrow> 'b" by (rule keeps_basic) simp
  show ?thesis unfolding status_update_get_def
    by (rule keeps_bindA [OF get], rule keeps_bindA [OF keeps_config(1)], rule keeps_bindA [OF get],
        rule keeps_bindA [OF keeps_config(2)])
      (auto intro!: keeps_responds [OF responds_util(2)] keeps_bindA [OF get] keeps_seqA keeps_forA check_tool_keeps
        keeps_responds [OF responds_util(4)])
qed

section \<open>A check as a map\<close>

lemma status_check_run:
  assumes "all_writable E" and "e_mc_ok E MEMCACHE_NAMESPACE_TOOLS tool_id" and "family_ok family" and "wf_db w"
    and "\<exists>t \<in> set (db_sliver_tools w). st_tool_id t = tool_id"
  shows "update_sliver_tools_status E s tool_id family w =
    (Inr (), w\<lparr>db_sliver_tools := map (\<lambda>t. if st_tool_id t = tool_id
                 then (monitored family (timestamp w) s t)\<lparr>st_when := w_now w\<rparr> else t) (db_sliver_tools w),
               mc_tools := (mc_tools w)(tool_id := Some (map (monitored family (timestamp w) s)
                 (filter (\<lambda>t. st_tool_id t = tool_id) (db_sliver_tools w))))\<rparr>)"
proof -
  let ?ts = "filter (\<lambda>t. st_tool_id t = tool_id) (db_sliver_tools w)"
  let ?us = "map (monitored family (timestamp w) s) ?ts"
  obtain s' where steps: "status_steps E family (timestamp w) ?ts (s, []) = Inr (s', ?us)"
    using status_steps_writable [OF assms(1,3), of "timestamp w" ?ts s "[]"] by auto
  have some: "?ts \<noteq> []" using assms(5) by (auto simp: filter_empty_conv)
  have ok: "filter (\<lambda>st. e_put_ok E (st_key st)) us = us" "list_all (\<lambda>st. e_put_ok E (st_key st)) us" for us
    using assms(1) by (simp_all add: all_writable_def list_all_iff)
  have "fold (put_by st_key) (map (\<lambda>t. (monitored family (timestamp w) s t)\<lparr>st_when := w_now w\<rparr>) ?ts) (db_sliver_tools w) =
      map (\<lambda>t. if st_tool_id t = tool_id then (monitored family (timestamp w) s t)\<lparr>st_when := w_now w\<rparr> else t) (db_sliver_tools w)"
    using assms(4) by (intro fold_put_by_filter) (simp_all add: wf_db_def)
  then have "put_slivers E ?us w = (Inr (), w\<lparr>db_sliver_tools := map (\<lambda>t. if st_tool_id t = tool_id
      then (monitored family (timestamp w) s t)\<lparr>st_when := w_now w\<rparr> else t) (db_sliver_tools w)\<rparr>)"
    by (simp only: put_slivers_def ok Let_def map_map comp_def if_True)
  then have "store_statuses E tool_id ?us w = (Inr (), w\<lparr>db_sliver_tools := map (\<lambda>t. if st_tool_id t = tool_id
      then (monitored family (timestamp w) s t)\<lparr>st_when := w_now w\<rparr> else t) (db_sliver_tools w),
      mc_tools := (mc_tools w)(tool_id := Some ?us)\<rparr>)"
    using some assms(2) by (simp add: store_statuses_def seqA_def catchA_def mc_set_tools_def bindA_def retA_def)
  moreover have "update_sliver_tools_status E s tool_id family w = store_statuses E tool_id ?us w"
    using steps by (simp add: update_sliver_tools_status_def fetch_all_slivers bindA_def getA_def liftR_def)
  ultimately show ?thesis by simp
qed

section \<open>Properties\<close>

text \<open>C5: the check of a tool is a map over the slivers of the tool, in the datastore as in the memcache: each
  gets what monitoring says of its host, a sliver without an address of the family is taken offline,
  and one that monitoring does not know is left alone for IPv4 and taken offline for IPv6.\<close>

theorem status_check_refines:
  assumes "all_writable E" and "e_mc_ok E MEMCACHE_NAMESPACE_TOOLS tool_id" and "family_ok family" and "wf_db w"
    and "\<exists>t \<in> set (db_sliver_tools w). st_tool_id t = tool_id"
  shows "update_sliver_tools_status E s tool_id family w =
    (Inr (), w\<lparr>db_sliver_tools := map (\<lambda>t. if st_tool_id t = tool_id
                 then (monitored family (timestamp w) s t)\<lparr>st_when := w_now w\<rparr> else t) (db_sliver_tools w),
               mc_tools := (mc_tools w)(tool_id := Some (map (monitored family (timestamp w) s)
                 (filter (\<lambda>t. st_tool_id t = tool_id) (db_sliver_tools w))))\<rparr>)"
  using assms by (rule status_check_run)

definition checked_sliver :: sliver_tool where
  "checked_sliver = (sample_sliver ''ndt'' ''ath01'' ''a'')\<lparr>st_key := sliver_key ''ndt'' ''iupui_ndt'' ''mlab1'' ''ath01''\<rparr>"

theorem status_check_refines_witness:
  "update_sliver_tools_status idle_env [(''h'', (STATUS_ONLINE, ''ok''))] ''ndt'' ''_ipv6''
     (idle_world\<lparr>db_sliver_tools := [checked_sliver]\<rparr>) =
   (Inr (), idle_world\<lparr>db_sliver_tools := [(monitored ''_ipv6'' (timestamp idle_world) [(''h'', (STATUS_ONLINE, ''ok''))]
        checked_sliver)\<lparr>st_when := w_now idle_world\<rparr>],
      mc_tools := (mc_tools idle_world)(''ndt'' := Some [monitored ''_ipv6'' (timestamp idle_world)
        [(''h'', (STATUS_ONLINE, ''ok''))] checked_sliver])\<rparr>)"
proof -
  let ?t = "checked_sliver"
  let ?w = "idle_world\<lparr>db_sliver_tools := [?t]\<rparr>"
  have t: "st_tool_id ?t = ''ndt''" by (simp add: checked_sliver_def sample_sliver_def)
  have "all_writable idle_env" "e_mc_ok idle_env MEMCACHE_NAMESPACE_TOOLS ''ndt''" by (simp_all add: all_writable_def idle_env_def)
  moreover have "family_ok ''_ipv6''" "timestamp ?w = timestamp idle_world" by (simp_all add: family_ok_def timestamp_def)
  moreover have "wf_db ?w" by (simp add: wf_db_def idle_world_def wf_sliver_def checked_sliver_def sample_sliver_def)
  ultimately show ?thesis using status_check_refines [of idle_env "''ndt''" "''_ipv6''" ?w] t by simp
qed

text \<open>C8: whatever monitoring answers and whichever write fails, the update of statuses removes, adds and
  renames nothing: sites and tools are as before, the slivers are as before but for status, tool
  extra and timestamps, and every status is still one of online and offline.\<close>

theorem status_update_keeps_slivers:
  assumes "wf_db w"
  shows "wf_db (snd (status_update_get E w)) \<and> status_only w (snd (status_update_get E w))"
  using status_update_keeps assms unfolding keeps_slivers_def safeA_def by blast

theorem status_update_keeps_slivers_witness:
  "wf_db (snd (status_update_get idle_env ath01_world)) \<and> status_only ath01_world (snd (status_update_get idle_env ath01_world))"
  by (rule status_update_keeps_slivers) (simp add: wf_db_def ath01_world_def idle_world_def)

text \<open>The two counters of the signature report are the signatures of the datastore that the memcache
  has, and those it does not have.\<close>

theorem signatures_counted:
  "count_signatures w = (length (filter (\<lambda>k. mc_requests w k \<noteq> None) (db_requests w)),
     length (filter (\<lambda>k. mc_requests w k = None) (db_requests w)))"
proof -
  have "fold (\<lambda>k (found, missing). if f k \<noteq> None then (found + 1, missing) else (found, missing + 1)) ks (a, b) =
      (a + length (filter (\<lambda>k. f k \<noteq> None) ks), b + length (filter (\<lambda>k. f k = None) ks))"
    for f :: "string \<Rightarrow> string option" and ks and a b :: nat
    by (induction ks arbitrary: a b) auto
  then show ?thesis by (simp add: count_signatures_def)
qed

end
