(* ===== verification/App.thy ===== *)
theory App
  imports Admin StatusUpdate
begin

text \<open>
  \<open>main.py\<close>: the routes and the handlers behind them, and what a sequence of requests can do to
  the state. A route is matched as a whole, the first that matches is taken, and a handler
  without a method for the verb answers with status 405.
\<close>

section \<open>Routes\<close>

datatype handler =
    AdminHandler
  | StatusUpdateHandler
  | SiteRegistrationHandler
  | CountRequestSignaturesHandler
  | ReloadMaxmindDb
  | PrivacyHandler
  | DocsHandler
  | WarmupHandler
  | LookupHandler

datatype verb = GET | POST

definition url_mapping :: "(rx \<times> handler) list" where
  "url_mapping =
     [(RLit ''/'', AdminHandler),
      (RSeq (RLit ''/admin'') (RStar RAny), AdminHandler),
      (RLit ''/cron/check_status'', StatusUpdateHandler),
      (RLit ''/cron/check_site'', SiteRegistrationHandler),
      (RLit ''/cron/count_request_signatures'', CountRequestSignaturesHandler),
      (RLit ''/reload_maxminddb'', ReloadMaxmindDb),
      (RLit ''/privacy'', PrivacyHandler),
      (RLit ''/docs'', DocsHandler),
      (RLit ''/_ah/warmup'', WarmupHandler),
      (RSeq (RLit ''/'') (RStar RAny), LookupHandler)]"

definition route_matches :: "rx \<Rightarrow> string \<Rightarrow> bool" where
  "route_matches r path \<longleftrightarrow> re_match False (RSeqs [RBol, r, REol]) path \<noteq> None"

definition dispatch :: "string \<Rightarrow> handler option" where
  "dispatch path = map_option snd (find (\<lambda>x. route_matches (fst x) path) url_mapping)"

fun handle :: "env \<Rightarrow> verb \<Rightarrow> request \<Rightarrow> handler \<Rightarrow> (world, unit) act" where
  "handle E GET rq AdminHandler = admin_get E rq"
| "handle E GET rq StatusUpdateHandler = status_update_get E"
| "handle E GET rq SiteRegistrationHandler = site_registration_get E"
| "handle E GET rq CountRequestSignaturesHandler = count_request_signatures_get"
| "handle E GET rq ReloadMaxmindDb = reload_maxmind_get E"
| "handle E GET rq PrivacyHandler = privacy_get"
| "handle E GET rq DocsHandler = docs_get"
| "handle E GET rq WarmupHandler = warmup_get"
| "handle E GET rq LookupHandler = lookup_get E rq"
| "handle E POST rq AdminHandler = admin_post"
| "handle E POST rq PrivacyHandler = privacy_post"
| "handle E POST rq DocsHandler = docs_post"
| "handle E POST rq LookupHandler = lookup_post"
| "handle E POST rq _ = resp_error 405"

definition fresh_response :: "world \<Rightarrow> world" where
  "fresh_response w = w\<lparr>w_response := empty_response\<rparr>"

definition serve :: "env \<Rightarrow> verb \<Rightarrow> request \<Rightarrow> world \<Rightarrow> unit res \<times> world" where
  "serve E v rq w =
     (case dispatch (rq_path rq) of
        None \<Rightarrow> resp_error 404 (fresh_response w)
      | Some h \<Rightarrow> handle E v rq h (fresh_response w))"

section \<open>Which path goes where\<close>

lemma rx_run_route_lit:
  "route_matches (RLit s) path \<longleftrightarrow> path = s \<or> path = s @ [newline]"
proof -
  have "route_matches (RLit s) path \<longleftrightarrow> (\<exists>t. path = s @ t \<and> (t = [] \<or> t = [newline]))"
    by (auto simp: route_matches_def re_match_def run_lit starts_with_iff split: list.splits)
  then show ?thesis by auto
qed

lemma route_prefix:
  assumes "newline \<notin> set path"
  shows "route_matches (RSeq (RLit s) (RStar RAny)) path \<longleftrightarrow> starts_with s path"
proof (cases "starts_with s path")
  case True
  then obtain t where path: "path = s @ t" by (auto simp: starts_with_iff)
  then have all: "takeWhile (\<lambda>c. c \<noteq> newline) t = t" using assms by (simp add: takeWhile_eq_all_conv) blast
  have "rx_run False (RSeqs [RBol, RSeq (RLit s) (RStar RAny), REol]) (0, path, []) \<noteq> []"
    by (simp add: path run_lit run_star_any all del: rx_run.simps(8))
  then show ?thesis using True by (auto simp: route_matches_def re_match_def split: list.splits)
next
  case False
  then show ?thesis by (simp add: route_matches_def re_match_def run_lit del: rx_run.simps(8))
qed


definition route_of :: "string \<Rightarrow> handler option" where
  "route_of path =
     (if path = ''/'' \<or> starts_with ''/admin'' path then Some AdminHandler
      else if path = ''/cron/check_status'' then Some StatusUpdateHandler
      else if path = ''/cron/check_site'' then Some SiteRegistrationHandler
      else if path = ''/cron/count_request_signatures'' then Some CountRequestSignaturesHandler
      else if path = ''/reload_maxminddb'' then Some ReloadMaxmindDb
      else if path = ''/privacy'' then Some PrivacyHandler
      else if path = ''/docs'' then Some DocsHandler
      else if path = ''/_ah/warmup'' then Some WarmupHandler
      else if starts_with ''/'' path then Some LookupHandler
      else None)"

lemma dispatch_route:
  assumes "newline \<notin> set path"
  shows "dispatch path = route_of path"
proof -
  have "path \<noteq> s @ [newline]" for s using assms by auto
  then have lit: "route_matches (RLit s) path \<longleftrightarrow> path = s" for s by (simp add: rx_run_route_lit)
  show ?thesis
    unfolding dispatch_def url_mapping_def find.simps fst_conv lit route_prefix [OF assms] route_of_def
    by simp
qed

section \<open>What a request can do\<close>

definition same_tables :: "world \<Rightarrow> world \<Rightarrow> bool" where
  "same_tables w w' \<longleftrightarrow> db_sites w' = db_sites w \<and> db_tools w' = db_tools w \<and> db_sliver_tools w' = db_sliver_tools w"

lemma same_tables_lookup: "same_tables w (snd (lookup_get E rq w))"
proof -
  have "lookup_frame w (snd (lookup_get E rq w))" by (rule keepsAD [OF lookup_get_frame])
  then show ?thesis by (auto simp: lookup_frame_def same_tables_def)
qed

lemma same_tables_admin: "same_tables w (snd (admin_get E rq w))"
proof -
  have "reply_only w (snd (admin_get E rq w))" by (rule keepsAD [OF admin_reply])
  then show ?thesis by (auto simp: reply_only_def same_tables_def)
qed

lemma same_tables_responds: "responds m \<Longrightarrow> same_tables w (snd (m w))"
  by (drule responds_run [where w = w]) (auto simp: same_tables_def)

lemma same_tables_others:
  "same_tables w (snd (count_request_signatures_get w))" "same_tables w (snd (warmup_get w))"
  by (auto simp: count_request_signatures_get_def warmup_get_def raiseA_def bindA_def getA_def logA_def modA_def same_tables_def
      split: prod.split)

lemma same_tables_reload: "same_tables w (snd (reload_maxmind_get E w))"
proof -
  obtain r w' where g: "get_geo_reader E w = (r, w')" by fastforce
  then have "w' = w \<or> w' = w\<lparr>w_reader := True\<rparr>" by (rule geo_reader_frame)
  then show ?thesis
    by (cases "get_database_file E"; cases r)
      (auto simp: reload_maxmind_get_def bindA_def liftR_def retA_def g same_tables_def)
qed

text \<open>
  What holds between the state before a request and the state after it: the tables stay well formed,
  tools are never touched, sites and slivers are never removed, and a site that is new is a production site.
\<close>

definition request_ok :: "env \<Rightarrow> world \<Rightarrow> world \<Rightarrow> bool" where
  "request_ok E w w' \<longleftrightarrow> wf_db w' \<and> db_grows E w w'"

lemma same_tables_ok: "wf_db w \<Longrightarrow> same_tables w w' \<Longrightarrow> request_ok E w w'"
  by (simp add: request_ok_def same_tables_def wf_db_def db_grows_def)

lemma status_only_ok:
  assumes "wf_db w'" and "status_only w w'"
  shows "request_ok E w w'"
proof -
  have "map st_key (db_sliver_tools w') = map st_key (db_sliver_tools w)"
    using assms(2) by (intro map_identity_keys) (simp add: status_only_def)
  then have "st_key ` set (db_sliver_tools w') = st_key ` set (db_sliver_tools w)" by (metis set_map)
  then show ?thesis using assms by (simp add: request_ok_def db_grows_def status_only_def)
qed

lemma handle_ok:
  assumes "wf_db w"
  shows "request_ok E w (snd (handle E v rq h w))"
proof -
  note same = same_tables_ok [OF assms]
  have site: "request_ok E w (snd (site_registration_get E w))"
    unfolding request_ok_def using safeAD(1,2) [OF site_registration_safe assms] by blast
  have status: "request_ok E w (snd (status_update_get E w))"
    using status_update_keeps assms status_only_ok unfolding keeps_slivers_def safeA_def by blast
  have answer: "responds m \<Longrightarrow> request_ok E w (snd (m w))" for m by (rule same [OF same_tables_responds])
  show ?thesis
    by (cases v; cases h)
      (simp_all add: site status same same_tables_lookup same_tables_admin same_tables_others same_tables_reload
        answer admin_post_def docs_post_def privacy_post_def lookup_post_def docs_get_def privacy_get_def)
qed

lemma wf_db_fresh [simp]: "wf_db (fresh_response w) = wf_db w"
  by (simp add: fresh_response_def wf_db_def)

lemma db_grows_fresh [simp]: "db_grows E (fresh_response w) w' = db_grows E w w'"
  by (simp add: fresh_response_def db_grows_def)

lemma serve_ok:
  assumes "wf_db w"
  shows "request_ok E w (snd (serve E v rq w))"
proof -
  have "request_ok E (fresh_response w) (snd (serve E v rq w))"
    using assms handle_ok [of "fresh_response w"]
    by (auto simp: serve_def intro!: same_tables_ok same_tables_responds split: option.split)
  then show ?thesis by (simp add: request_ok_def)
qed

section \<open>Runs of the application\<close>

text \<open>
  A step is a request, served by an instance whose services answer as they like (only the pattern of
  production sites is fixed), time passing, or an entry leaving the memcache.
\<close>

inductive app_step :: "rx option \<Rightarrow> world \<Rightarrow> world \<Rightarrow> bool" for site_regex where
  request: "e_site_regex E = site_regex \<Longrightarrow> app_step site_regex w (snd (serve E v rq w))"
| tick: "w_now w \<le> t \<Longrightarrow> app_step site_regex w (w\<lparr>w_now := t\<rparr>)"
| evict_tools: "app_step site_regex w (w\<lparr>mc_tools := (mc_tools w)(k := None)\<rparr>)"
| evict_proxy: "app_step site_regex w (w\<lparr>mc_reverse_proxy := (mc_reverse_proxy w)(k := None)\<rparr>)"
| new_instance: "app_step site_regex w (w\<lparr>w_reader := False, w_rng := r\<rparr>)"

inductive app_run :: "rx option \<Rightarrow> world \<Rightarrow> world \<Rightarrow> bool" for site_regex where
  app_refl: "app_run site_regex w w"
| app_next: "app_run site_regex w w' \<Longrightarrow> app_step site_regex w' w'' \<Longrightarrow> app_run site_regex w w''"

definition production_sites :: "rx option \<Rightarrow> string set" where
  "production_sites site_regex = {s. is_production_site site_regex s = Inr True}"

definition grows :: "rx option \<Rightarrow> world \<Rightarrow> world \<Rightarrow> bool" where
  "grows site_regex w w' \<longleftrightarrow> si_site_id ` set (db_sites w) \<subseteq> si_site_id ` set (db_sites w') \<and>
     si_site_id ` set (db_sites w') \<subseteq> si_site_id ` set (db_sites w) \<union> production_sites site_regex \<and>
     st_key ` set (db_sliver_tools w) \<subseteq> st_key ` set (db_sliver_tools w')"

lemma db_grows_iff: "e_site_regex E = site_regex \<Longrightarrow> db_grows E w w' = grows site_regex w w'"
  by (auto simp: db_grows_def grows_def production_id_def production_sites_def)

lemma grows_trans: "grows rx a b \<Longrightarrow> grows rx b c \<Longrightarrow> grows rx a c"
proof -
  assume "grows rx a b" and "grows rx b c"
  moreover have "C \<subseteq> A \<union> P" if "C \<subseteq> B \<union> P" "B \<subseteq> A \<union> P" for A B C P :: "string set"
    using that by blast
  ultimately show ?thesis unfolding grows_def by (meson order_trans)
qed

lemma app_step_ok:
  assumes "app_step site_regex w w'" and "wf_db w"
  shows "wf_db w' \<and> grows site_regex w w'"
  using assms(1)
proof cases
  case (request E v rq)
  then show ?thesis using serve_ok [OF assms(2)] db_grows_iff by (auto simp: request_ok_def)
qed (use assms(2) in \<open>auto simp: wf_db_def grows_def\<close>)

section \<open>A check, then a lookup\<close>

lemma monitored_online:
  assumes "st_status_ipv4 (monitored [] now s x) = STATUS_ONLINE"
  shows "case map_of s (st_fqdn x) of
      Some (status, _) \<Rightarrow> status = STATUS_ONLINE \<and> st_sliver_ipv4 x \<noteq> NO_IP_ADDRESS
    | None \<Rightarrow> st_status_ipv4 x = STATUS_ONLINE"
  using assms by (simp add: monitored_def status_entry_def STATUS_ONLINE_def STATUS_OFFLINE_def split: option.splits prod.splits if_splits)

lemma random_answer:
  assumes "wanted (RandomResolver sig) q w \<noteq> {}"
  shows "\<exists>t w'. answer_query E (RandomResolver sig) q w = (Inr (Some [t]), w') \<and> t \<in> wanted (RandomResolver sig) q w"
proof (cases rule: candidates_cases [of E "RandomResolver sig" q w])
  case (1 r)
  with assms show ?thesis by simp
next
  case (2 r ts)
  obtain t where t: "t \<in> set ts" "choose_one (Some ts) (w\<lparr>w_rng := r\<rparr>) = (Inr (Some [t]), w\<lparr>w_rng := r, w_rng := stl (w_rng (w\<lparr>w_rng := r\<rparr>))\<rparr>)"
    using choose_one_cases(2) [OF 2(2)] by blast
  have "answer_query E (RandomResolver sig) q w = choose_one (Some ts) (w\<lparr>w_rng := r\<rparr>)"
    by (simp add: answer_query_def bindA_def 2(1))
  then show ?thesis using t 2(3) by auto
qed

lemma wanted_cached:
  assumes "mc_tools w (lq_tool_id q) = Some ts" and "lq_tool_address_family q = Some ADDRESS_FAMILY_IPv4"
    and "\<exists>t \<in> set ts. st_status_ipv4 t = STATUS_ONLINE"
  shows "wanted (RandomResolver sig) q w = {t \<in> set ts. st_status_ipv4 t = STATUS_ONLINE}"
proof -
  have tp: "query_properties (RandomResolver sig) q = tool_properties_from_query q"
    by (simp add: query_properties_def)
  have truthy: "truthy (Some ADDRESS_FAMILY_IPv4)" by (simp add: truthy_def family_defs)
  have crit: "criteria (tool_properties_from_query q) w t \<longleftrightarrow> st_status_ipv4 t = STATUS_ONLINE" for t
    using assms(2) truthy by (simp add: criteria_def is_set_def tool_properties_from_query_def status_attrs_def)
  have "stock_memcache (tool_properties_from_query q) w = set ts"
    using assms(1) by (simp add: stock_memcache_def is_set_def tool_properties_from_query_def)
  then have "stock_tools (tool_properties_from_query q) w = set ts"
    using assms(3) by (simp add: stock_tools_def either_stock_def crit)
  then show ?thesis by (simp add: wanted_def tp crit)
qed

section \<open>Properties\<close>

text \<open>the order of the routes: the administrator takes the root and every path that starts with
  \<open>/admin\<close>, the jobs and the documents are reached by their exact paths, and every other path is a
  lookup; so a tool whose name starts with \<open>admin\<close> cannot be looked up.\<close>

theorem routes_in_order:
  assumes "newline \<notin> set path"
  shows "dispatch path = route_of path"
  using assms by (rule dispatch_route)

theorem routes_in_order_witness:
  "dispatch ''/administer'' = Some AdminHandler \<and> dispatch ''/ndt'' = Some LookupHandler"
proof -
  have "newline \<notin> set ''/administer''" "newline \<notin> set ''/ndt''" by (simp_all add: newline_char)
  then show ?thesis using routes_in_order by (simp add: route_of_def starts_with_def)
qed

text \<open>C1: whatever requests come, in any order and mixed with the passing of time and the eviction of memcache
  entries, and whatever the services they use answer: the tables stay well formed (keys unique, every
  sliver named after its tool, server and site, every status known), no site and no sliver disappears,
  and every site that appears is a production site.\<close>

theorem runs_keep_tables:
  "app_run site_regex w w' \<Longrightarrow> wf_db w \<Longrightarrow> wf_db w' \<and> grows site_regex w w'"
proof (induction rule: app_run.induct)
  case (app_next w w' w'')
  then show ?case using app_step_ok grows_trans by blast
qed (simp add: grows_def)

theorem runs_keep_tables_witness:
  "wf_db (snd (serve idle_env GET (plain_request []) idle_world)) \<and>
   grows (e_site_regex idle_env) idle_world (snd (serve idle_env GET (plain_request []) idle_world))"
proof -
  have "app_run (e_site_regex idle_env) idle_world (snd (serve idle_env GET (plain_request []) idle_world))"
    by (rule app_next [OF app_refl request]) simp
  moreover have "wf_db idle_world" by (simp add: wf_db_def idle_world_def)
  ultimately show ?thesis by (rule runs_keep_tables)
qed



end
