(* ===== verification/CompareInstances.thy ===== *)
theory CompareInstances
  imports Json PyRegex "HOL-Library.While_Combinator" "HOL-Library.Char_ord" "HOL-Library.List_Lexorder"
begin

text \<open>
  \<open>compare_instances.py\<close>, the script that compares the answers of two instances. \<open>argparse\<close> splits
  the command line; the model starts from the options it recognised, in order. \<open>compile\<close> is
  \<open>re.compile\<close> on a pattern the user gives, and \<open>web n url\<close> the body of the n-th request. The loop is a
  \<open>while_option\<close>: \<open>None\<close> is a run that never ends.
\<close>

section \<open>Options\<close>

text \<open>\<open>--samples\<close> has an integer default and no type: a value of the command line stays a string.\<close>

datatype samples = SInt int | SStr string

text \<open>Python 2 orders any two values: every integer is smaller than every string.\<close>

instantiation samples :: linorder
begin

fun less_eq_samples :: "samples \<Rightarrow> samples \<Rightarrow> bool" where
  "less_eq_samples (SInt a) (SInt b) = (a \<le> b)"
| "less_eq_samples (SInt _) (SStr _) = True"
| "less_eq_samples (SStr _) (SInt _) = False"
| "less_eq_samples (SStr s) (SStr t) = (s \<le> t)"

definition less_samples :: "samples \<Rightarrow> samples \<Rightarrow> bool" where
  "less_samples x y \<longleftrightarrow> x \<le> y \<and> \<not> y \<le> x"

instance
proof
  fix x y z :: samples
  show "(x < y) = (x \<le> y \<and> \<not> y \<le> x)" by (rule less_samples_def)
  show "x \<le> x" by (cases x) simp_all
  show "x \<le> y \<Longrightarrow> y \<le> z \<Longrightarrow> x \<le> z" by (cases x; cases y; cases z) simp_all
  show "x \<le> y \<Longrightarrow> y \<le> x \<Longrightarrow> x = y" by (cases x; cases y) simp_all
  show "x \<le> y \<or> y \<le> x" by (cases x; cases y) auto
qed

end

lemma samples_less [simp]: "SInt a < SInt b \<longleftrightarrow> a < b" "SInt a < SStr s"
  by (auto simp: less_samples_def)

record options =
  ar_instance_one_url :: string
  ar_instance_two_url :: string
  ar_tool_id :: string
  ar_samples :: samples
  ar_interval :: pyfloat
  ar_all_fields :: bool
  ar_infer_queueing :: bool
  ar_verbose :: bool
  ar_ignore_patterns :: "string list"

definition default_options :: options where
  "default_options = \<lparr>ar_instance_one_url = ''http://mlab-ns.appspot.com'',
     ar_instance_two_url = ''http://locate-dot-mlab-staging.appspot.com'', ar_tool_id = ''ndt'', ar_samples = SInt 60,
     ar_interval = Fin 60, ar_all_fields = False, ar_infer_queueing = False, ar_verbose = False, ar_ignore_patterns = []\<rparr>"

text \<open>One option and its values; \<open>argparse\<close> exits with status 2 when they do not fit.\<close>

definition set_option :: "string \<times> string list \<Rightarrow> options \<Rightarrow> options res" where
  "set_option opt args =
     (case opt of (dest, vals) \<Rightarrow>
        if dest = ''ignore_patterns'' then Inr (args\<lparr>ar_ignore_patterns := vals\<rparr>)
        else (case vals of
            [] \<Rightarrow>
              if dest = ''all_fields'' then Inr (args\<lparr>ar_all_fields := True\<rparr>)
              else if dest = ''infer_queueing'' then Inr (args\<lparr>ar_infer_queueing := True\<rparr>)
              else if dest = ''verbose'' then Inr (args\<lparr>ar_verbose := True\<rparr>)
              else Inl (SystemExit 2)
          | [v] \<Rightarrow>
              if dest = ''instance_one_url'' then Inr (args\<lparr>ar_instance_one_url := v\<rparr>)
              else if dest = ''instance_two_url'' then Inr (args\<lparr>ar_instance_two_url := v\<rparr>)
              else if dest = ''tool_id'' then Inr (args\<lparr>ar_tool_id := v\<rparr>)
              else if dest = ''samples'' then Inr (args\<lparr>ar_samples := SStr v\<rparr>)
              else if dest = ''interval'' then
                (case py_float v of Inl _ \<Rightarrow> Inl (SystemExit 2) | Inr x \<Rightarrow> Inr (args\<lparr>ar_interval := x\<rparr>))
              else Inl (SystemExit 2)
          | _ \<Rightarrow> Inl (SystemExit 2)))"

fun set_options :: "(string \<times> string list) list \<Rightarrow> options \<Rightarrow> options res" where
  "set_options [] args = Inr args"
| "set_options (x # xs) args = bindR (set_option x args) (set_options xs)"

definition parse_options :: "(string \<times> string list) list \<Rightarrow> options res" where
  "parse_options args = set_options args default_options"

section \<open>One instance\<close>

definition get_mlabns_status :: "string res \<Rightarrow> json res" where
  "get_mlabns_status answer =
     (case answer of
        Inl e \<Rightarrow> Inl (if e = HTTPError then SystemExit 1 else e)
      | Inr raw_data \<Rightarrow> (case json_loads raw_data of
            Inl e \<Rightarrow> Inl (if is_ValueError e then SystemExit 1 else e)
          | Inr v \<Rightarrow> Inr v))"

definition py_string :: "json \<Rightarrow> string res" where
  "py_string v = (case v of JStr s \<Rightarrow> Inr s | _ \<Rightarrow> Inl TypeError)"

fun matches_any :: "(string \<Rightarrow> rx res) \<Rightarrow> string list \<Rightarrow> json \<Rightarrow> bool res" where
  "matches_any compile [] status = Inr False"
| "matches_any compile (p # ps) status =
     bindR (js_get ''fqdn'' status) (\<lambda>v. bindR (compile p) (\<lambda>r. bindR (py_string v) (\<lambda>fqdn.
       if re_search False r fqdn \<noteq> None then Inr True else matches_any compile ps status)))"

fun filter_loop :: "(string \<Rightarrow> rx res) \<Rightarrow> options \<Rightarrow> json \<Rightarrow> nat \<Rightarrow> json list \<Rightarrow> json list res" where
  "filter_loop compile args results key [] = Inr []"
| "filter_loop compile args results key (status # rest) =
     bindR (matches_any compile (ar_ignore_patterns args) status) (\<lambda>matched.
       if matched then filter_loop compile args results (key + 1) rest
       else bindR (js_nth key results) (\<lambda>x. bindR (filter_loop compile args results (key + 1) rest) (\<lambda>xs. Inr (x # xs))))"

definition filter_results :: "(string \<Rightarrow> rx res) \<Rightarrow> json \<Rightarrow> options \<Rightarrow> json list res" where
  "filter_results compile results args = bindR (js_iter results) (filter_loop compile args results 0)"

section \<open>Queueing\<close>

definition rx_node_site :: rx where
  "rx_node_site = RSeqs [RGrp 1 (RSeq (RLit ''mlab'') (RCls [(CHR ''1'', CHR ''4'')])), RLit ''.'',
     RGrp 2 (RSeq (RTimes 3 (RCls [(CHR ''a'', CHR ''z'')])) (RTimes 2 (RCls [(CHR ''0'', CHR ''9'')])))]"

definition node_site :: "json \<Rightarrow> (string \<times> string) res" where
  "node_site r =
     bindR (js_get ''fqdn'' r) (\<lambda>v. bindR (py_string v) (\<lambda>fqdn.
       case re_search False rx_node_site fqdn of
         None \<Rightarrow> Inl AttributeError
       | Some m \<Rightarrow> Inr (the (rx_group m 1), the (rx_group m 2))))"

definition same_site :: "string \<Rightarrow> json \<Rightarrow> bool res" where
  "same_site r1_site s = bindR (js_get ''fqdn'' s) (js_in r1_site)"

fun infer_queueing :: "json list \<Rightarrow> json list \<Rightarrow> json list res" where
  "infer_queueing [] results2 = Inr []"
| "infer_queueing (result1 # rest) results2 =
     bindR (node_site result1) (\<lambda>(r1_node, r1_site).
     bindR (filterR (same_site r1_site) results2) (\<lambda>result2.
     case result2 of
       [] \<Rightarrow> Inl IndexError
     | x # _ \<Rightarrow>
         bindR (node_site x) (\<lambda>(r2_node, r2_site).
         bindR (infer_queueing rest results2) (\<lambda>munged.
           Inr ((if r1_site = r2_site \<and> r1_node < r2_node then result1 else x) # munged)))))"

section \<open>Comparison\<close>

text \<open>Lists and dicts cannot be hashed; numbers that are equal are one element of a set.\<close>

definition hashable :: "json \<Rightarrow> json res" where
  "hashable v = (case v of
      JArr _ \<Rightarrow> Inl TypeError
    | JObj _ \<Rightarrow> Inl TypeError
    | JBool b \<Rightarrow> Inr (JInt (if b then 1 else 0))
    | JFloat (Fin r) \<Rightarrow> Inr (if r = of_int \<lfloor>r\<rfloor> then JInt \<lfloor>r\<rfloor> else JFloat (Fin r))
    | _ \<Rightarrow> Inr v)"

definition convert_result :: "options \<Rightarrow> json \<Rightarrow> json list res" where
  "convert_result args result =
     (if ar_all_fields args
      then mapR (\<lambda>f. if f = ''ip'' then bindR (js_get f result) (js_nth 0) else js_get f result)
             [''city'', ''country'', ''fqdn'', ''ip'', ''site'', ''url'']
      else mapR (\<lambda>f. js_get f result) [''fqdn''])"

definition convert_results :: "json list \<Rightarrow> options \<Rightarrow> json list set res" where
  "convert_results results args =
     bindR (mapR (convert_result args) results) (\<lambda>items.
     bindR (mapR (mapR hashable) items) (\<lambda>keys. Inr (set keys)))"

record comparison =
  co_common :: "json list set"
  co_missing :: "json list set"
  co_extra :: "json list set"

definition compare_results :: "json list set \<Rightarrow> json list set \<Rightarrow> comparison" where
  "compare_results s1 s2 = \<lparr>co_common = s1 \<inter> s2, co_missing = s1 - s2, co_extra = s2 - s1\<rparr>"

section \<open>The loop\<close>

text \<open>
  A line of the output, with the numbers it formats, and the items that \<open>--verbose\<close> adds to the log.
  The counters are those of the loop; a line that cannot be computed is not printed.
\<close>

record metrics_row =
  mr_sample :: nat
  mr_common :: nat
  mr_missing :: nat
  mr_extra :: nat
  mr_pct_agree :: real
  mr_pct_disagree :: real
  mr_avg_common :: real
  mr_avg_missing :: real
  mr_avg_extra :: real
  mr_avg_pct_agree :: real
  mr_avg_pct_disagree :: real
  mr_logged :: "json list set \<times> json list set"

record metrics =
  mt_samples :: nat
  mt_common_total :: nat
  mt_missing_total :: nat
  mt_extra_total :: nat
  mt_denominator_total :: nat
  mt_rows :: "metrics_row list"

definition no_metrics :: metrics where
  "no_metrics = \<lparr>mt_samples = 0, mt_common_total = 0, mt_missing_total = 0, mt_extra_total = 0,
     mt_denominator_total = 0, mt_rows = []\<rparr>"

definition metrics_row :: "options \<Rightarrow> comparison \<Rightarrow> metrics \<Rightarrow> metrics_row" where
  "metrics_row args data m =
     (let common = card (co_common data); missing = card (co_missing data); extra = card (co_extra data);
          denominator = common + missing + extra
      in \<lparr>mr_sample = mt_samples m, mr_common = common, mr_missing = missing, mr_extra = extra,
          mr_pct_agree = common / denominator * 100, mr_pct_disagree = (missing + extra) / denominator * 100,
          mr_avg_common = mt_common_total m / mt_samples m, mr_avg_missing = mt_missing_total m / mt_samples m,
          mr_avg_extra = mt_extra_total m / mt_samples m,
          mr_avg_pct_agree = mt_common_total m / mt_denominator_total m * 100,
          mr_avg_pct_disagree = (mt_missing_total m + mt_extra_total m) / mt_denominator_total m * 100,
          mr_logged = (if ar_verbose args then (co_missing data, co_extra data) else ({}, {}))\<rparr>)"

text \<open>Counting a comparison and printing its line.\<close>

definition count_sample :: "options \<Rightarrow> comparison \<Rightarrow> metrics \<Rightarrow> metrics res" where
  "count_sample args data m =
     (let denominator = card (co_common data) + card (co_missing data) + card (co_extra data);
          m = m\<lparr>mt_samples := mt_samples m + 1,
                mt_common_total := mt_common_total m + card (co_common data),
                mt_missing_total := mt_missing_total m + card (co_missing data),
                mt_extra_total := mt_extra_total m + card (co_extra data),
                mt_denominator_total := mt_denominator_total m + denominator\<rparr>
      in if denominator = 0 then Inl ZeroDivisionError
         else Inr (m\<lparr>mt_rows := mt_rows m @ [metrics_row args data m]\<rparr>))"

definition instance_url :: "string \<Rightarrow> options \<Rightarrow> string" where
  "instance_url base args = base @ ''/'' @ ar_tool_id args @ ''?'' @ ''policy=all''"

definition sample_instances :: "(string \<Rightarrow> rx res) \<Rightarrow> (nat \<Rightarrow> string \<Rightarrow> string res) \<Rightarrow> options \<Rightarrow> nat \<Rightarrow> comparison res" where
  "sample_instances compile web args n =
     bindR (get_mlabns_status (web (2 * n) (instance_url (ar_instance_one_url args) args))) (\<lambda>results_one.
     bindR (filter_results compile results_one args) (\<lambda>results_one_filtered.
     bindR (get_mlabns_status (web (2 * n + 1) (instance_url (ar_instance_two_url args) args))) (\<lambda>results_two.
     bindR (filter_results compile results_two args) (\<lambda>results_two_filtered.
     bindR (if ar_infer_queueing args then infer_queueing results_one_filtered results_two_filtered
            else Inr results_two_filtered) (\<lambda>results_two_filtered.
     bindR (convert_results results_one_filtered args) (\<lambda>set_one.
     bindR (convert_results results_two_filtered args) (\<lambda>set_two.
       Inr (compare_results set_one set_two))))))))"

text \<open>\<open>time.sleep\<close> takes a finite number of seconds that is not negative.\<close>

definition sleep_result :: "pyfloat \<Rightarrow> exn option" where
  "sleep_result seconds = (case seconds of Fin r \<Rightarrow> if 0 \<le> r then None else Some IOError | _ \<Rightarrow> Some IOError)"

definition metrics_step :: "(string \<Rightarrow> rx res) \<Rightarrow> (nat \<Rightarrow> string \<Rightarrow> string res) \<Rightarrow> options \<Rightarrow>
    metrics \<times> exn option \<Rightarrow> metrics \<times> exn option" where
  "metrics_step compile web args st =
     (case bindR (sample_instances compile web args (mt_samples (fst st))) (\<lambda>data. count_sample args data (fst st)) of
        Inl e \<Rightarrow> (fst st, Some e)
      | Inr m \<Rightarrow> (m, sleep_result (ar_interval args)))"

text \<open>\<open>samples < args.samples\<close>.\<close>

definition samples_left :: "options \<Rightarrow> nat \<Rightarrow> bool" where
  "samples_left args n \<longleftrightarrow> SInt (int n) < ar_samples args"

definition get_metrics :: "(string \<Rightarrow> rx res) \<Rightarrow> (nat \<Rightarrow> string \<Rightarrow> string res) \<Rightarrow> options \<Rightarrow>
    (metrics \<times> exn option) option" where
  "get_metrics compile web args =
     while_option (\<lambda>(m, e). e = None \<and> samples_left args (mt_samples m)) (metrics_step compile web args) (no_metrics, None)"

definition compare_main :: "(string \<Rightarrow> rx res) \<Rightarrow> (nat \<Rightarrow> string \<Rightarrow> string res) \<Rightarrow> (string \<times> string list) list \<Rightarrow>
    (metrics \<times> exn option) option" where
  "compare_main compile web argv =
     (case parse_options argv of
        Inl e \<Rightarrow> Some (no_metrics, Some e)
      | Inr args \<Rightarrow> get_metrics compile web args)"

section \<open>Filters\<close>

lemma js_nth_iter:
  assumes "js_iter results = Inr (xs @ y # ys)" and "js_nth (length xs) results = Inr x"
  shows "x = y"
  using assms by (cases results) (auto simp: js_iter_def js_nth_def nth_append map_eq_append_conv split: if_splits)

lemma filter_loop_filter:
  assumes "js_iter results = Inr (xs @ ys)" and "filter_loop compile args results (length xs) ys = Inr zs"
  shows "zs = filter (\<lambda>s. matches_any compile (ar_ignore_patterns args) s = Inr False) ys \<and>
    (\<forall>s \<in> set ys. \<exists>b. matches_any compile (ar_ignore_patterns args) s = Inr b)"
  using assms
proof (induction ys arbitrary: xs zs)
  case (Cons y ys)
  have step: "js_iter results = Inr ((xs @ [y]) @ ys)" using Cons.prems(1) by simp
  obtain b where b: "matches_any compile (ar_ignore_patterns args) y = Inr b"
    using Cons.prems(2) by (auto simp: bindR_Inr_iff)
  show ?case
  proof (cases b)
    case True
    then have "filter_loop compile args results (length (xs @ [y])) ys = Inr zs" using Cons.prems(2) b by simp
    from Cons.IH [OF step this] show ?thesis using b True by auto
  next
    case False
    then obtain x zs' where x: "js_nth (length xs) results = Inr x" "zs = x # zs'"
      and rest: "filter_loop compile args results (length (xs @ [y])) ys = Inr zs'"
      using Cons.prems(2) b by (auto simp: bindR_Inr_iff)
    have "x = y" by (rule js_nth_iter [OF Cons.prems(1) x(1)])
    then show ?thesis using Cons.IH [OF step rest] b False x(2) by auto
  qed
qed simp

section \<open>Queueing keeps the sites\<close>

lemma filterR_head: "filterR p xs = Inr (x # ys) \<Longrightarrow> x \<in> set xs \<and> p x = Inr True"
  by (induction xs arbitrary: ys) (auto simp: bindR_Inr_iff split: if_splits)

lemma infer_queueing_sites:
  "infer_queueing results1 results2 = Inr out \<Longrightarrow>
   list_all2 (\<lambda>r1 x. x = r1 \<or> (x \<in> set results2 \<and> (\<exists>n site. node_site r1 = Inr (n, site) \<and> same_site site x = Inr True)))
     results1 out"
proof (induction results1 arbitrary: out)
  case (Cons r1 rest)
  obtain n site where n: "node_site r1 = Inr (n, site)" using Cons.prems by (auto simp: bindR_Inr_iff)
  obtain fs where fs: "filterR (same_site site) results2 = Inr fs" using Cons.prems n by (auto simp: bindR_Inr_iff)
  obtain x ys where x: "fs = x # ys" using Cons.prems n fs by (cases fs) simp_all
  obtain n2 site2 where n2: "node_site x = Inr (n2, site2)" using Cons.prems n fs x by (auto simp: bindR_Inr_iff)
  obtain munged where munged: "infer_queueing rest results2 = Inr munged" "out = (if site = site2 \<and> n < n2 then r1 else x) # munged"
    using Cons.prems n fs x n2 by (auto simp: bindR_Inr_iff)
  have "x \<in> set results2 \<and> same_site site x = Inr True" using filterR_head [of "same_site site" results2 x ys] fs x by simp
  then show ?case using munged n Cons.IH [OF munged(1)] by auto
qed simp

section \<open>The loop ends, or not\<close>

lemma count_sample_run: "count_sample args data m = Inr m' \<Longrightarrow> mt_samples m' = mt_samples m + 1"
  by (auto simp: count_sample_def Let_def split: if_splits)

lemma metrics_step_cases:
  "metrics_step compile web args (m, None) = (m', e) \<Longrightarrow> (m' = m \<and> e \<noteq> None) \<or> mt_samples m' = mt_samples m + 1"
  by (auto simp: metrics_step_def bindR_Inr_iff count_sample_run split: sum.splits)

lemma loop_measure:
  assumes "samples_left args (mt_samples m)" and "ar_samples args = SInt k" and "metrics_step compile web args (m, None) = (m', e)"
  shows "(if e = None then 1 + nat (k - int (mt_samples m')) else 0) < 1 + nat (k - int (mt_samples m))"
  using metrics_step_cases [OF assms(3)] assms(1,2) by (auto simp: samples_left_def)

section \<open>The numbers of a line\<close>

definition row_ok :: "metrics_row list \<Rightarrow> metrics_row \<Rightarrow> bool" where
  "row_ok before r \<longleftrightarrow> mr_sample r = length before + 1 \<and>
     0 \<le> mr_pct_agree r \<and> 0 \<le> mr_pct_disagree r \<and> mr_pct_agree r + mr_pct_disagree r = 100 \<and>
     0 \<le> mr_avg_pct_agree r \<and> 0 \<le> mr_avg_pct_disagree r \<and> mr_avg_pct_agree r + mr_avg_pct_disagree r = 100 \<and>
     mr_avg_common r = sum_list (map mr_common (before @ [r])) / mr_sample r \<and>
     mr_avg_missing r = sum_list (map mr_missing (before @ [r])) / mr_sample r \<and>
     mr_avg_extra r = sum_list (map mr_extra (before @ [r])) / mr_sample r"

definition metrics_ok :: "metrics \<Rightarrow> bool" where
  "metrics_ok m \<longleftrightarrow> mt_samples m = length (mt_rows m) \<and> mt_common_total m = sum_list (map mr_common (mt_rows m)) \<and>
     mt_missing_total m = sum_list (map mr_missing (mt_rows m)) \<and> mt_extra_total m = sum_list (map mr_extra (mt_rows m)) \<and>
     mt_denominator_total m = mt_common_total m + mt_missing_total m + mt_extra_total m \<and>
     (\<forall>before r after. mt_rows m = before @ r # after \<longrightarrow> row_ok before r)"

lemma percentages:
  assumes "a + b = d" and "d \<noteq> (0 :: nat)"
  shows "real a / real d * 100 + real b / real d * 100 = 100"
proof -
  have "real a / real d * 100 + real b / real d * 100 = real (a + b) / real d * 100"
    by (simp add: add_divide_distrib distrib_right)
  then show ?thesis using assms by simp
qed

lemma count_sample_ok:
  assumes "metrics_ok m" and "count_sample args data m = Inr m'"
  shows "metrics_ok m'"
proof -
  define c x e where "c = card (co_common data)" and "x = card (co_missing data)" and "e = card (co_extra data)"
  define m1 where "m1 = m\<lparr>mt_samples := mt_samples m + 1, mt_common_total := mt_common_total m + c,
      mt_missing_total := mt_missing_total m + x, mt_extra_total := mt_extra_total m + e,
      mt_denominator_total := mt_denominator_total m + (c + x + e)\<rparr>"
  define r where "r = metrics_row args data m1"
  have some: "c + x + e \<noteq> 0" and m': "m' = m1\<lparr>mt_rows := mt_rows m @ [r]\<rparr>"
    using assms(2) by (simp_all add: count_sample_def Let_def c_def x_def e_def m1_def r_def split: if_splits)
  have r: "mr_common r = c" "mr_missing r = x" "mr_extra r = e" "mr_sample r = mt_samples m + 1"
    by (simp_all add: r_def metrics_row_def Let_def c_def x_def e_def m1_def)
  have tot: "mt_denominator_total m = mt_common_total m + mt_missing_total m + mt_extra_total m"
    using assms(1) by (simp add: metrics_ok_def)
  have pct: "mr_pct_agree r = real c / real (c + x + e) * 100" "mr_pct_disagree r = real (x + e) / real (c + x + e) * 100"
    by (simp_all add: r_def metrics_row_def Let_def c_def x_def e_def)
  let ?C = "mt_common_total m + c" and ?X = "mt_missing_total m + x" and ?E = "mt_extra_total m + e"
  have avg: "mr_avg_pct_agree r = real ?C / real (?C + ?X + ?E) * 100"
    "mr_avg_pct_disagree r = real (?X + ?E) / real (?C + ?X + ?E) * 100"
    "mr_avg_common r = real ?C / real (mr_sample r)" "mr_avg_missing r = real ?X / real (mr_sample r)"
    "mr_avg_extra r = real ?E / real (mr_sample r)"
    using tot by (simp_all add: r_def metrics_row_def Let_def m1_def ac_simps)
  have "mr_pct_agree r + mr_pct_disagree r = 100" unfolding pct by (rule percentages) (use some in simp_all)
  moreover have "mr_avg_pct_agree r + mr_avg_pct_disagree r = 100" unfolding avg by (rule percentages) (use some in auto)
  ultimately have "row_ok (mt_rows m) r"
    using assms(1) unfolding row_ok_def by (simp add: avg(3-5)) (simp add: pct avg r metrics_ok_def)
  moreover have "row_ok before y" if "mt_rows m @ [r] = before @ y # after" for before y after
  proof (cases after rule: rev_cases)
    case Nil
    with that \<open>row_ok (mt_rows m) r\<close> show ?thesis by simp
  next
    case (snoc zs z)
    then have "mt_rows m = before @ y # zs" using that by simp
    with assms(1) show ?thesis unfolding metrics_ok_def by blast
  qed
  ultimately show ?thesis using assms(1) r by (auto simp: metrics_ok_def m' m1_def)
qed

section \<open>A small comparison\<close>

definition one_host :: json where
  "one_host = JArr [JObj [(''fqdn'', JInt 1)]]"

definition one_host_text :: string where
  "one_host_text = ''[{'' @ [CHR 0x22] @ ''fqdn'' @ [CHR 0x22] @ '':1}]''"

lemma one_host_loads: "json_loads one_host_text = Inr one_host"
  by code_simp

lemma one_host_sample:
  assumes "ar_ignore_patterns args = []" and "\<not> ar_infer_queueing args" and "\<not> ar_all_fields args"
  shows "sample_instances compile (\<lambda>_ _. Inr one_host_text) args n = Inr (compare_results {[JInt 1]} {[JInt 1]})"
proof -
  have status: "get_mlabns_status (Inr one_host_text) = Inr one_host" by (simp add: get_mlabns_status_def one_host_loads)
  have filter: "filter_results compile one_host args = Inr [JObj [(''fqdn'', JInt 1)]]"
    by (simp add: filter_results_def one_host_def js_iter_def js_nth_def assms(1))
  have "convert_results [JObj [(''fqdn'', JInt 1)]] args = Inr {[JInt 1]}"
    by (simp add: convert_results_def convert_result_def js_get_def hashable_def assms(3))
  then show ?thesis by (simp add: sample_instances_def status filter assms(2))
qed

lemma one_host_step:
  assumes "ar_ignore_patterns args = []" and "\<not> ar_infer_queueing args" and "\<not> ar_all_fields args" and "ar_interval args = Fin 60"
  shows "\<exists>m'. metrics_step compile (\<lambda>_ _. Inr one_host_text) args (m, None) = (m', None) \<and> mt_samples m' = mt_samples m + 1"
proof -
  have "\<exists>m'. count_sample args (compare_results {[JInt 1]} {[JInt 1]}) m = Inr m'"
    by (simp add: count_sample_def compare_results_def Let_def)
  then show ?thesis using count_sample_run
    by (auto simp: metrics_step_def one_host_sample [OF assms(1-3)] sleep_result_def assms(4))
qed

section \<open>Properties\<close>

text \<open>C23: with a number of samples the script ends, whatever the instances answer: it stops at an error, or it
  has taken exactly that many samples (none if the number is negative).\<close>

theorem metrics_terminate:
  assumes "ar_samples args = SInt k"
  shows "\<exists>m e. get_metrics compile web args = Some (m, e) \<and> (e = None \<longrightarrow> mt_samples m = nat k)"
proof -
  define b where "b = (\<lambda>(m :: metrics, e :: exn option). e = None \<and> samples_left args (mt_samples m))"
  define size where "size = (\<lambda>(m :: metrics, e :: exn option). if e = None then 1 + nat (k - int (mt_samples m)) else 0)"
  define P where "P = (\<lambda>(m :: metrics, e :: exn option). e = None \<longrightarrow> mt_samples m \<le> nat k)"
  have less: "P (metrics_step compile web args st) \<and> size (metrics_step compile web args st) < size st" if "P st" "b st" for st
  proof -
    from that(2) obtain m where st: "st = (m, None)" "samples_left args (mt_samples m)" by (cases st) (auto simp: b_def)
    obtain m' e where step: "metrics_step compile web args (m, None) = (m', e)" by fastforce
    have "size (m', e) < size (m, None)" using loop_measure [OF st(2) assms step] by (simp add: size_def)
    moreover have "P (m', e)" using metrics_step_cases [OF step] st(2) assms by (auto simp: P_def samples_left_def)
    ultimately show ?thesis by (simp add: st(1) step)
  qed
  have start: "P (no_metrics, None)" by (simp add: P_def no_metrics_def)
  with less obtain st where st: "while_option b (metrics_step compile web args) (no_metrics, None) = Some st"
    using measure_while_option_Some [of P b "metrics_step compile web args" size] by blast
  obtain m e where me: "st = (m, e)" by fastforce
  have run: "get_metrics compile web args = Some (m, e)" using st by (simp add: get_metrics_def b_def me)
  have "\<not> b (m, e)" using while_option_stop [OF st] by (simp add: me)
  moreover have "P (m, e)" using while_option_rule [of P, OF _ st start] less by (simp add: me)
  ultimately have "e = None \<longrightarrow> mt_samples m = nat k" using assms by (auto simp: b_def P_def samples_left_def)
  with run show ?thesis by blast
qed

theorem metrics_terminate_witness:
  "\<exists>m e. get_metrics (\<lambda>_. Inr REps) (\<lambda>_ _. Inl HTTPError) default_options = Some (m, e) \<and> (e = None \<longrightarrow> mt_samples m = 60)"
  using metrics_terminate [of default_options 60 "\<lambda>_. Inr REps" "\<lambda>_ _. Inl HTTPError"] by (simp add: default_options_def)

text \<open>every line the script prints is numbered in turn, its two percentages and its two averaged percentages
  are not negative and add up to 100, and its averages are those of the lines printed so far.\<close>

theorem printed_lines_add_up:
  assumes "get_metrics compile web args = Some (m, e)" and "mt_rows m = before @ r # after"
  shows "mr_sample r = length before + 1 \<and>
    0 \<le> mr_pct_agree r \<and> 0 \<le> mr_pct_disagree r \<and> mr_pct_agree r + mr_pct_disagree r = 100 \<and>
    0 \<le> mr_avg_pct_agree r \<and> 0 \<le> mr_avg_pct_disagree r \<and> mr_avg_pct_agree r + mr_avg_pct_disagree r = 100 \<and>
    mr_avg_common r = sum_list (map mr_common (before @ [r])) / mr_sample r \<and>
    mr_avg_missing r = sum_list (map mr_missing (before @ [r])) / mr_sample r \<and>
    mr_avg_extra r = sum_list (map mr_extra (before @ [r])) / mr_sample r"
proof -
  have step: "metrics_ok (fst (metrics_step compile web args st))" if "metrics_ok (fst st)" for st
    using that count_sample_ok by (auto simp: metrics_step_def bindR_Inr_iff split: sum.splits)
  have "metrics_ok no_metrics" by (simp add: metrics_ok_def no_metrics_def)
  then have "metrics_ok (fst (m, e))"
    using while_option_rule [where P = "\<lambda>st. metrics_ok (fst st)", OF _ assms(1) [unfolded get_metrics_def]] step by simp
  then have "row_ok before r" using assms(2) by (auto simp: metrics_ok_def)
  then show ?thesis by (simp only: row_ok_def)
qed

theorem printed_lines_add_up_witness:
  "\<exists>m r. get_metrics (\<lambda>_. Inr REps) (\<lambda>_ _. Inr one_host_text) (default_options\<lparr>ar_samples := SInt 1\<rparr>) = Some (m, None) \<and>
     mt_rows m = [r] \<and> mr_sample r = 1 \<and> mr_pct_agree r + mr_pct_disagree r = 100"
proof -
  let ?args = "default_options\<lparr>ar_samples := SInt 1\<rparr>"
  let ?step = "metrics_step (\<lambda>_. Inr REps) (\<lambda>_ _. Inr one_host_text) ?args"
  define data where "data = compare_results {[JInt 1]} {[JInt 1]}"
  obtain m where m: "count_sample ?args data no_metrics = Inr m" "mt_samples m = 1" "length (mt_rows m) = 1"
    by (auto simp: count_sample_def data_def compare_results_def Let_def no_metrics_def)
  have "sample_instances (\<lambda>_. Inr REps) (\<lambda>_ _. Inr one_host_text) ?args n = Inr data" for n
    unfolding data_def by (rule one_host_sample) (simp_all add: default_options_def)
  then have step: "?step (no_metrics, None) = (m, None)"
    by (simp add: metrics_step_def m(1)) (simp add: sleep_result_def default_options_def)
  have "samples_left ?args 0" "\<not> samples_left ?args 1" by (simp_all add: samples_left_def)
  then have run: "get_metrics (\<lambda>_. Inr REps) (\<lambda>_ _. Inr one_host_text) ?args = Some (m, None)"
    unfolding get_metrics_def by (subst while_option_unfold, subst while_option_unfold) (simp add: step m(2), simp add: no_metrics_def)
  obtain r where r: "mt_rows m = [r]" using m(3) by (cases "mt_rows m") auto
  then have "mt_rows m = [] @ r # []" by simp
  from printed_lines_add_up [OF run this] run r show ?thesis by auto
qed

text \<open>A number of samples from the command line stays a string, and the loop has no end: unless a sample
  fails, the script runs forever.\<close>

theorem string_samples_never_end:
  assumes "parse_options argv = Inr args" and "ar_samples args = SStr s"
    and "\<And>m. snd (metrics_step compile web args (m, None)) = None"
  shows "compare_main compile web argv = None"
proof (rule ccontr)
  let ?b = "\<lambda>(m, e :: exn option). e = None \<and> samples_left args (mt_samples m)"
  assume "compare_main compile web argv \<noteq> None"
  then obtain st where st: "while_option ?b (metrics_step compile web args) (no_metrics, None) = Some st"
    by (auto simp: compare_main_def assms(1) get_metrics_def)
  have "snd st = None"
    by (rule while_option_rule [of "\<lambda>st. snd st = None", OF _ st]) (use assms(3) in auto)
  moreover have "\<not> ?b st" by (rule while_option_stop [OF st])
  ultimately show False using assms(2) by (auto simp: samples_left_def split: prod.splits)
qed

theorem string_samples_never_end_witness:
  "compare_main (\<lambda>_. Inr REps) (\<lambda>_ _. Inr one_host_text) [(''samples'', [''5''])] = None"
proof (rule string_samples_never_end)
  show "parse_options [(''samples'', [''5''])] = Inr (default_options\<lparr>ar_samples := SStr ''5''\<rparr>)"
    by (simp add: parse_options_def set_option_def)
  show "snd (metrics_step (\<lambda>_. Inr REps) (\<lambda>_ _. Inr one_host_text) (default_options\<lparr>ar_samples := SStr ''5''\<rparr>) (m, None)) = None" for m
    using one_host_step [of "default_options\<lparr>ar_samples := SStr ''5''\<rparr>" "\<lambda>_. Inr REps" m] by (auto simp: default_options_def)
qed simp

text \<open>Two instances that agree that nothing is online cannot be compared.\<close>

theorem nothing_to_compare:
  "count_sample args (compare_results {} {}) m = Inl ZeroDivisionError"
  by (simp add: count_sample_def compare_results_def Let_def)

text \<open>correcting for queueing changes no site: the results stay in the order of the first instance, and each
  is either the result of the first instance or one of the second that names the same site.\<close>

theorem queueing_keeps_sites:
  "case infer_queueing results1 results2 of
     Inl _ \<Rightarrow> True
   | Inr out \<Rightarrow> list_all2 (\<lambda>r1 x. x = r1 \<or> (x \<in> set results2 \<and>
       (\<exists>n site. node_site r1 = Inr (n, site) \<and> same_site site x = Inr True))) results1 out"
  using infer_queueing_sites by (auto split: sum.split)

text \<open>Filtering is a filter: the results that are kept are those, in order, whose host matches none of the
  patterns.\<close>

theorem filter_results_filters:
  "case filter_results compile results args of
     Inl _ \<Rightarrow> True
   | Inr out \<Rightarrow> \<exists>xs. js_iter results = Inr xs \<and>
       out = filter (\<lambda>s. matches_any compile (ar_ignore_patterns args) s = Inr False) xs"
  using filter_loop_filter [of results "[]" _ compile args]
  by (auto simp: filter_results_def bindR_Inr_iff split: sum.split)

end
