(* ===== verification/Log2Bq.thy ===== *)
theory Log2Bq
  imports Lookup
begin

text \<open>
  \<open>handlers/log2bq.py\<close>, the pipeline that turns request logs into CSV and loads them into BigQuery. The
  pipeline library and the services are arguments: \<open>mapper\<close> runs a mapper pipeline and answers the
  files it wrote, \<open>insert_job\<close> inserts a job, \<open>poll n\<close> is the n-th answer about a job. The configuration
  is a module that the deployment provides.
\<close>

section \<open>CSV lines\<close>

text \<open>\<open>csv.writer\<close> in its default dialect: a field is quoted when it needs to be, quotes are doubled.\<close>

definition csv_special :: "char \<Rightarrow> bool" where
  "csv_special c \<longleftrightarrow> c \<in> {CHR '','', CHR 0x22, CHR 0x0D, CHR 0x0A, CHR 0x00}"

definition double_quotes :: "string \<Rightarrow> string" where
  "double_quotes s = concat (map (\<lambda>c. if c = CHR 0x22 then [c, c] else [c]) s)"

definition csv_field :: "bool \<Rightarrow> string \<Rightarrow> string" where
  "csv_field alone s =
     (if list_ex csv_special s \<or> (alone \<and> s = []) then [CHR 0x22] @ double_quotes s @ [CHR 0x22] else s)"

definition csv_line :: "string list \<Rightarrow> string" where
  "csv_line row = join_with '','' (map (csv_field (length row = 1)) row) @ [CHR 0x0D, CHR 0x0A]"

section \<open>From request logs to lines\<close>

record request_log =
  rl_app_logs :: "string list"
  rl_latency :: pyfloat
  rl_user_agent :: "string option"

text \<open>The row of the first message that starts with the word \<open>[lookup]\<close>; \<open>None\<close> is an empty field.\<close>

fun lookup_row :: "request_log \<Rightarrow> string list \<Rightarrow> string list option" where
  "lookup_row r [] = None"
| "lookup_row r (m # ms) =
     (if hd (split_on CHR '','' m) = ''[lookup]''
      then Some (tl (split_on CHR '','' m) @ [fl_str (rl_latency r), case rl_user_agent r of None \<Rightarrow> [] | Some a \<Rightarrow> a])
      else lookup_row r ms)"

definition log2csv :: "request_log \<Rightarrow> string list" where
  "log2csv r = (case lookup_row r (rl_app_logs r) of None \<Rightarrow> [] | Some row \<Rightarrow> [csv_line row])"

section \<open>The pipelines\<close>

record bq_config =
  cf_gs_bucket_name :: string
  cf_project_id :: string
  cf_bigquery_schema :: json
  cf_bigquery_dataset_id :: string
  cf_bigquery_table_id :: string

text \<open>\<open>LOG_LEVEL_INFO\<close> is 1.\<close>

definition mapper_params :: "bq_config \<Rightarrow> real \<Rightarrow> real \<Rightarrow> string list \<Rightarrow> json" where
  "mapper_params cfg start_time end_time version_ids = JObj
     [(''input_reader'', JObj [(''start_time'', JFloat (Fin start_time)), (''end_time'', JFloat (Fin end_time)),
        (''minimum_log_level'', JInt 1), (''version_ids'', JArr (map JStr version_ids))]),
      (''output_writer'', JObj [(''filesystem'', JStr ''gs''), (''gs_bucket_name'', JStr (cf_gs_bucket_name cfg))])]"

record mapper_job =
  mj_job_name :: string
  mj_mapper_spec :: string
  mj_input_reader_spec :: string
  mj_output_writer_spec :: string
  mj_params :: json
  mj_shards :: nat

definition Log2Gs_run :: "bq_config \<Rightarrow> (mapper_job \<Rightarrow> string list res) \<Rightarrow> real \<Rightarrow> real \<Rightarrow> string list \<Rightarrow> string list res" where
  "Log2Gs_run cfg mapper start_time end_time version_ids =
     mapper \<lparr>mj_job_name = ''log2bq'', mj_mapper_spec = ''mlabns.handlers.log2bq.log2csv'',
       mj_input_reader_spec = ''mapreduce.input_readers.LogInputReader'',
       mj_output_writer_spec = ''mapreduce.output_writers.FileOutputWriter'',
       mj_params = mapper_params cfg start_time end_time version_ids, mj_shards = 16\<rparr>"

definition gs_path :: "string \<Rightarrow> string" where
  "gs_path f = replace_all ''/gs/'' ''gs://'' f"

definition load_job :: "bq_config \<Rightarrow> string list \<Rightarrow> json" where
  "load_job cfg gs_paths = JObj
     [(''projectId'', JStr (cf_project_id cfg)),
      (''configuration'', JObj [(''load'', JObj
        [(''sourceUris'', JArr (map JStr gs_paths)),
         (''schema'', JObj [(''fields'', cf_bigquery_schema cfg)]),
         (''destinationTable'', JObj [(''projectId'', JStr (cf_project_id cfg)),
            (''datasetId'', JStr (cf_bigquery_dataset_id cfg)), (''tableId'', JStr (cf_bigquery_table_id cfg))]),
         (''createDisposition'', JStr ''CREATE_IF_NEEDED''), (''writeDisposition'', JStr ''WRITE_APPEND''),
         (''encoding'', JStr ''UTF-8'')])])]"

text \<open>The job to check.\<close>

definition Gs2Bq_run :: "bq_config \<Rightarrow> (json \<Rightarrow> json res) \<Rightarrow> string list \<Rightarrow> json res" where
  "Gs2Bq_run cfg insert_job files =
     bindR (insert_job (load_job cfg (map gs_path files))) (\<lambda>result.
     bindR (js_get ''jobReference'' result) (js_get ''jobId''))"

definition Log2Bq_run :: "bq_config \<Rightarrow> (mapper_job \<Rightarrow> string list res) \<Rightarrow> (json \<Rightarrow> json res) \<Rightarrow> real \<Rightarrow> real \<Rightarrow>
    string list \<Rightarrow> json res" where
  "Log2Bq_run cfg mapper insert_job start_time end_time version_ids =
     bindR (Log2Gs_run cfg mapper start_time end_time version_ids) (Gs2Bq_run cfg insert_job)"

text \<open>One check of a job: \<open>None\<close> to check again after a delay, or the status to return.\<close>

definition BqCheck_run :: "json res \<Rightarrow> json option res" where
  "BqCheck_run answer =
     bindR answer (\<lambda>status. bindR (bindR (js_get ''status'' status) (js_get ''state'')) (\<lambda>job_state.
       if job_state = JStr ''PENDING'' \<or> job_state = JStr ''RUNNING'' then Inr None else Inr (Some status)))"

text \<open>\<open>env\<close> is \<open>CURRENT_VERSION_ID\<close>: a version without exactly one dot cannot be unpacked.\<close>

definition log2bq_get :: "bq_config \<Rightarrow> (mapper_job \<Rightarrow> string list res) \<Rightarrow> (json \<Rightarrow> json res) \<Rightarrow> string option \<Rightarrow> real \<Rightarrow> json res" where
  "log2bq_get cfg mapper insert_job env now =
     (case env of
        None \<Rightarrow> Inl KeyError
      | Some v \<Rightarrow> (case split_on CHR ''.'' v of
            [major, minor] \<Rightarrow> Log2Bq_run cfg mapper insert_job (now - 60 * 15) now [major]
          | _ \<Rightarrow> Inl ValueError))"

section \<open>Checking a job\<close>

datatype bq_state =
    Checking nat
  | Returned json
  | Failed exn

inductive bq_step :: "(nat \<Rightarrow> json res) \<Rightarrow> bq_state \<Rightarrow> bq_state \<Rightarrow> bool" for poll where
  recheck: "BqCheck_run (poll n) = Inr None \<Longrightarrow> bq_step poll (Checking n) (Checking (Suc n))"
| finish: "BqCheck_run (poll n) = Inr (Some status) \<Longrightarrow> bq_step poll (Checking n) (Returned status)"
| fail: "BqCheck_run (poll n) = Inl e \<Longrightarrow> bq_step poll (Checking n) (Failed e)"

inductive_simps bq_step_simps [simp]:
  "bq_step poll (Returned status) s"
  "bq_step poll (Failed e) s"

inductive_cases checkingE: "bq_step poll (Checking n) s"

lemma bq_step_deterministic: "bq_step poll s t \<Longrightarrow> bq_step poll s t' \<Longrightarrow> t = t'"
  by (cases s) (auto elim!: checkingE)

lemma bq_stuck: "(bq_step poll)\<^sup>*\<^sup>* (Returned status) s \<Longrightarrow> s = Returned status"
  by (induction rule: rtranclp_induct) auto

lemma recheck_until:
  "\<forall>k < n. BqCheck_run (poll k) = Inr None \<Longrightarrow> (bq_step poll)\<^sup>*\<^sup>* (Checking 0) (Checking n)"
proof (induction n)
  case (Suc n)
  then have "(bq_step poll)\<^sup>*\<^sup>* (Checking 0) (Checking n)" by simp
  moreover have "bq_step poll (Checking n) (Checking (Suc n))" using Suc.prems by (intro recheck) simp
  ultimately show ?case by (rule rtranclp.rtrancl_into_rtrancl)
qed simp

lemma deterministic_end:
  assumes "(bq_step poll)\<^sup>*\<^sup>* s (Returned status)" and "(bq_step poll)\<^sup>*\<^sup>* s t"
  shows "(bq_step poll)\<^sup>*\<^sup>* t (Returned status)"
  using assms
proof (induction rule: converse_rtranclp_induct)
  case base
  then have "t = Returned status" by (rule bq_stuck)
  then show ?case by simp
next
  case (step s u)
  show ?case
  proof (cases rule: converse_rtranclpE [OF step.prems])
    case 1
    with step.hyps show ?thesis by (simp add: converse_rtranclp_into_rtranclp)
  next
    case (2 v)
    then have "v = u" using bq_step_deterministic step.hyps(1) by blast
    with 2 step.IH show ?thesis by simp
  qed
qed

section \<open>Reading a line back\<close>

text \<open>A reader of one CSV record: a quoted field ends at a quote that is not doubled.\<close>

fun read_quoted :: "string \<Rightarrow> string \<times> string" where
  "read_quoted [] = ([], [])"
| "read_quoted [c] = (if c = CHR 0x22 then ([], []) else ([c], []))"
| "read_quoted (c # d # s) =
     (if c = CHR 0x22
      then (if d = CHR 0x22 then (case read_quoted s of (f, r) \<Rightarrow> (c # f, r)) else ([], d # s))
      else (case read_quoted (d # s) of (f, r) \<Rightarrow> (c # f, r)))"

definition read_plain :: "string \<Rightarrow> string \<times> string" where
  "read_plain s = (takeWhile (\<lambda>c. \<not> csv_special c) s, dropWhile (\<lambda>c. \<not> csv_special c) s)"

definition read_field :: "string \<Rightarrow> string \<times> string" where
  "read_field s = (case s of [] \<Rightarrow> ([], []) | c # r \<Rightarrow> if c = CHR 0x22 then read_quoted r else read_plain s)"

lemma read_quoted_length: "length (snd (read_quoted s)) \<le> length s"
  by (induction s rule: read_quoted.induct) (auto split: prod.splits)

lemma read_field_length: "length (snd (read_field s)) \<le> length s"
  using read_quoted_length by (auto simp: read_field_def read_plain_def length_dropWhile_le le_Suc_eq split: list.split)

lemma read_field_shorter: "(f, r) = read_field s \<Longrightarrow> r \<noteq> [] \<Longrightarrow> length r - Suc 0 < length s"
proof -
  assume "(f, r) = read_field s" and r: "r \<noteq> []"
  then have "snd (read_field s) = r" by (metis snd_conv)
  then have "length r \<le> length s" using read_field_length [of s] by simp
  moreover have "0 < length r" using r by simp
  ultimately show ?thesis by linarith
qed

function read_line :: "string \<Rightarrow> string list" where
  "read_line s =
     (case read_field s of (f, r) \<Rightarrow> if r \<noteq> [] \<and> hd r = CHR '','' then f # read_line (tl r) else [f])"
  by auto

termination
  by (relation "measure length") (simp_all add: read_field_shorter)

declare read_line.simps [simp del]

lemma csv_special_simps [simp]:
  "csv_special (CHR '','')" "csv_special (CHR 0x22)" "csv_special (CHR 0x0D)"
  by (simp_all add: csv_special_def)

lemma read_quoted_double:
  assumes "rest \<noteq> [] \<and> hd rest \<noteq> CHR 0x22"
  shows "read_quoted (double_quotes s @ CHR 0x22 # rest) = (s, rest)"
proof (induction s)
  case Nil
  obtain d r where "rest = d # r" using assms by (cases rest) auto
  with assms show ?case by (simp add: double_quotes_def)
next
  case (Cons c s)
  have more: "read_quoted (c # t) = (case read_quoted t of (f, r) \<Rightarrow> (c # f, r))" if "c \<noteq> CHR 0x22" "t \<noteq> []" for t
    using that by (cases t) simp_all
  have "double_quotes s @ CHR 0x22 # rest \<noteq> []" by simp
  then show ?case using Cons more by (cases "c = CHR 0x22") (auto simp: double_quotes_def)
qed

lemma read_plain_field:
  assumes "\<not> list_ex csv_special s" and "rest \<noteq> [] \<and> csv_special (hd rest)"
  shows "read_plain (s @ rest) = (s, rest)"
proof -
  obtain d r where rest: "rest = d # r" "csv_special d" using assms(2) by (cases rest) auto
  have "\<forall>c \<in> set s. \<not> csv_special c" using assms(1) by (simp add: list_ex_iff)
  then show ?thesis by (simp add: read_plain_def rest takeWhile_append2 dropWhile_append2)
qed

lemma read_csv_field:
  assumes "rest \<noteq> [] \<and> hd rest \<in> {CHR '','', CHR 0x0D}"
  shows "read_field (csv_field alone s @ rest) = (s, rest)"
proof (cases "list_ex csv_special s \<or> (alone \<and> s = [])")
  case True
  have "hd rest \<noteq> CHR 0x22" using assms by auto
  then show ?thesis using True assms read_quoted_double [of rest s] by (simp add: csv_field_def read_field_def)
next
  case False
  then have field: "csv_field alone s = s" by (simp add: csv_field_def)
  have special: "csv_special (hd rest)" "hd rest \<noteq> CHR 0x22" using assms by auto
  have plain: "read_plain (s @ rest) = (s, rest)" using False assms special by (intro read_plain_field) auto
  show ?thesis
  proof (cases s)
    case Nil
    obtain d r where "rest = d # r" using assms by (cases rest) auto
    with Nil special plain field show ?thesis by (simp add: read_field_def)
  next
    case (Cons c t)
    then have "c \<noteq> CHR 0x22" using False by auto
    with Cons plain field show ?thesis by (simp add: read_field_def)
  qed
qed

lemma read_csv_fields:
  "row \<noteq> [] \<Longrightarrow> read_line (join_with '','' (map (csv_field alone) row) @ [CHR 0x0D, CHR 0x0A]) = row"
proof (induction row)
  case (Cons f row)
  show ?case
  proof (cases row)
    case Nil
    then show ?thesis using read_csv_field [of "[CHR 0x0D, CHR 0x0A]" alone f] by (simp add: read_line.simps)
  next
    case (Cons g fs)
    let ?more = "join_with '','' (map (csv_field alone) row) @ [CHR 0x0D, CHR 0x0A]"
    have "join_with '','' (map (csv_field alone) (f # row)) @ [CHR 0x0D, CHR 0x0A] = csv_field alone f @ CHR '','' # ?more"
      using Cons by (simp add: join_with_Cons)
    then show ?thesis using read_csv_field [of "CHR '','' # ?more" alone f] Cons Cons.IH
      by (simp add: read_line.simps [of "csv_field alone f @ _"])
  qed
qed simp

section \<open>What the lookup handler logs\<close>

lemma split_on_hd: "hd (split_on c (a @ s)) = a @ hd (split_on c s)" if "c \<notin> set a"
  using that by (induction a) (auto split: list.splits)

text \<open>The line of a request whose address family is known or absent: the word it starts with is not
  \<open>[lookup]\<close>.\<close>

lemma lookup_word:
  assumes "f = x # xs" and "x \<noteq> CHR '',''"
  shows "hd (split_on CHR '','' (''[lookup]'' @ join_with '','' (f # fs))) \<noteq> ''[lookup]''"
proof -
  have "\<exists>t. ''[lookup]'' @ join_with '','' (f # fs) = ''[lookup]'' @ x # t"
    by (cases fs) (auto simp: assms(1))
  then obtain t where t: "''[lookup]'' @ join_with '','' (f # fs) = (''[lookup]'' @ [x]) @ t" by auto
  have "CHR '','' \<notin> set (''[lookup]'' @ [x])" using assms(2) by auto
  then have "hd (split_on CHR '','' (''[lookup]'' @ join_with '','' (f # fs))) = (''[lookup]'' @ [x]) @ hd (split_on CHR '','' t)"
    unfolding t by (rule split_on_hd)
  then show ?thesis by simp
qed

section \<open>Properties\<close>

text \<open>the line of a request that was looked up is read back as it was: the fields of the message after the
  word \<open>[lookup]\<close>, then the latency and the user agent, whatever commas, quotes and line breaks the
  agent has.\<close>

theorem csv_line_read_back:
  assumes "log2csv r = [line]"
  shows "\<exists>m \<in> set (rl_app_logs r). hd (split_on CHR '','' m) = ''[lookup]'' \<and>
    read_line line = tl (split_on CHR '','' m) @
      [fl_str (rl_latency r), case rl_user_agent r of None \<Rightarrow> [] | Some a \<Rightarrow> a]"
proof -
  have row: "\<exists>m \<in> set ms. hd (split_on CHR '','' m) = ''[lookup]'' \<and> row = tl (split_on CHR '','' m) @
      [fl_str (rl_latency r), case rl_user_agent r of None \<Rightarrow> [] | Some a \<Rightarrow> a]"
    if "lookup_row r ms = Some row" for ms row
    using that by (induction ms) (auto split: if_splits)
  obtain row where "lookup_row r (rl_app_logs r) = Some row" "line = csv_line row"
    using assms by (auto simp: log2csv_def split: option.splits)
  moreover from this(1) have "row \<noteq> []" using row by fastforce
  ultimately show ?thesis using row by (auto simp: csv_line_def read_csv_fields)
qed

theorem csv_line_read_back_witness:
  "read_line (csv_line [''ndt'', ''nan'', ''a,b'']) = [''ndt'', ''nan'', ''a,b'']"
proof -
  let ?r = "\<lparr>rl_app_logs = [''[lookup],ndt''], rl_latency = NaN, rl_user_agent = Some ''a,b''\<rparr>"
  have "log2csv ?r = [csv_line [''ndt'', ''nan'', ''a,b'']]" by (simp add: log2csv_def fl_str_def)
  from csv_line_read_back [OF this] show ?thesis by (simp add: fl_str_def)
qed

text \<open>a job is checked until it is neither pending nor running: if that ever happens, the first status of
  that kind is what the check returns, every run of the check can be continued to it, and no run ends
  otherwise.\<close>

theorem job_checked_until_done:
  assumes "\<forall>k < n. BqCheck_run (poll k) = Inr None" and "BqCheck_run (poll n) = Inr (Some status)"
    and "(bq_step poll)\<^sup>*\<^sup>* (Checking 0) s"
  shows "(bq_step poll)\<^sup>*\<^sup>* s (Returned status) \<and> (\<forall>e. s \<noteq> Failed e) \<and> (\<forall>x. s = Returned x \<longrightarrow> x = status)"
proof -
  have "(bq_step poll)\<^sup>*\<^sup>* (Checking 0) (Checking n)" by (rule recheck_until [OF assms(1)])
  moreover have "bq_step poll (Checking n) (Returned status)" using assms(2) by (rule finish)
  ultimately have "(bq_step poll)\<^sup>*\<^sup>* (Checking 0) (Returned status)" by (rule rtranclp.rtrancl_into_rtrancl)
  then have s: "(bq_step poll)\<^sup>*\<^sup>* s (Returned status)" using assms(3) by (rule deterministic_end)
  moreover have "s \<noteq> Failed e" for e using s by (auto elim: converse_rtranclpE)
  moreover have "s = Returned x \<longrightarrow> x = status" for x using s bq_stuck by blast
  ultimately show ?thesis by blast
qed

definition job_status :: "string \<Rightarrow> json" where
  "job_status s = JObj [(''status'', JObj [(''state'', JStr s)])]"

theorem job_checked_until_done_witness:
  "(bq_step (\<lambda>n. Inr (job_status (if n = 0 then ''PENDING'' else ''DONE''))))\<^sup>*\<^sup>* (Checking 0) (Returned (job_status ''DONE''))"
proof -
  let ?poll = "\<lambda>n :: nat. Inr (job_status (if n = 0 then ''PENDING'' else ''DONE''))"
  have "\<forall>k < 1. BqCheck_run (?poll k) = Inr None" "BqCheck_run (?poll 1) = Inr (Some (job_status ''DONE''))"
    by (simp_all add: BqCheck_run_def job_status_def js_get_def)
  from job_checked_until_done [OF this rtranclp.rtrancl_refl] show ?thesis by blast
qed

text \<open>C24: what the lookup handler logs is never loaded: its message goes on after \<open>[lookup]\<close> without a comma, so
  the word the mapper looks for is never there.\<close>

theorem lookup_log_not_loaded:
  assumes "lq_tool_address_family q \<in> {None, Some ADDRESS_FAMILY_IPv4, Some ADDRESS_FAMILY_IPv6}"
    and "w_log w = []"
  shows "log2csv \<lparr>rl_app_logs = w_log (snd (log_request rq q ts w)), rl_latency = latency, rl_user_agent = agent\<rparr> = []"
proof -
  obtain fs where log: "w_log (snd (log_request rq q ts w)) = [''[lookup]'' @ join_with '','' (str_opt (lq_tool_address_family q) # fs)]"
    using assms(2) by (simp add: log_request_def logA_def modA_def getA_def del: join_with.simps)
  obtain x xs where "str_opt (lq_tool_address_family q) = x # xs" "x \<noteq> CHR '',''"
    using assms(1) by (auto simp: str_opt_def family_defs)
  from lookup_word [OF this, of fs] show ?thesis by (simp add: log2csv_def log)
qed

theorem lookup_log_not_loaded_witness:
  "log2csv \<lparr>rl_app_logs = w_log (snd (log_request (plain_request []) new_query [] idle_world)),
     rl_latency = NaN, rl_user_agent = None\<rparr> = []"
  by (rule lookup_log_not_loaded) (simp_all add: new_query_def idle_world_def)

end
