(* ===== verification/Bootstrap.thy ===== *)
theory Bootstrap
  imports PyString
begin

text \<open>
  \<open>environment_bootstrap.py\<close>: the script that links the configuration of an environment. The file
  system is a map from paths to nodes, seen from the directory the script runs in; directories are
  taken to be there and writable.
\<close>

datatype fs_node = FLink string | FOther

type_synonym file_system = "string \<Rightarrow> fs_node option"

datatype os_error = FileExists

section \<open>The script\<close>

text \<open>\<open>os.path.basename\<close>: what follows the last slash.\<close>

definition basename :: "string \<Rightarrow> string" where
  "basename path = last (split_on CHR ''/'' path)"

definition islink :: "string \<Rightarrow> file_system \<Rightarrow> bool" where
  "islink path fs = (case fs path of Some (FLink _) \<Rightarrow> True | _ \<Rightarrow> False)"

definition os_symlink :: "string \<Rightarrow> string \<Rightarrow> file_system \<Rightarrow> os_error + file_system" where
  "os_symlink target path fs = (if fs path = None then Inr (fs(path \<mapsto> FLink target)) else Inl FileExists)"

text \<open>The new file system, and whether a link was replaced.\<close>

definition create_environment_symlink :: "string \<Rightarrow> string \<Rightarrow> file_system \<Rightarrow> os_error + file_system \<times> bool" where
  "create_environment_symlink link_name environment_type fs =
     (let target_name = basename link_name @ ''.'' @ environment_type;
          existing_link_removed = islink link_name fs;
          fs = (if existing_link_removed then fs(link_name := None) else fs)
      in case os_symlink target_name link_name fs of
           Inl e \<Rightarrow> Inl e
         | Inr fs \<Rightarrow> Inr (fs, existing_link_removed))"

definition setup_environment :: "string \<Rightarrow> file_system \<Rightarrow> os_error + file_system" where
  "setup_environment environment_type fs =
     (case create_environment_symlink ''server/config.py'' environment_type fs of
        Inl e \<Rightarrow> Inl e
      | Inr (fs, _) \<Rightarrow>
          (case create_environment_symlink ''server/app.yaml'' environment_type fs of
             Inl e \<Rightarrow> Inl e
           | Inr (fs, _) \<Rightarrow> Inr fs))"

definition environment_types :: "string list" where
  "environment_types = [''mlab-sandbox'', ''mlab-staging'', ''mlab-ns'']"

text \<open>\<open>argparse\<close> exits on an argument that is not one of the choices: \<open>None\<close>.\<close>

definition bootstrap_main :: "string \<Rightarrow> file_system \<Rightarrow> (os_error + file_system) option" where
  "bootstrap_main environment_type fs =
     (if environment_type \<in> set environment_types then Some (setup_environment environment_type fs) else None)"

section \<open>Links\<close>

definition replaceable :: "string \<Rightarrow> file_system \<Rightarrow> bool" where
  "replaceable path fs \<longleftrightarrow> fs path \<noteq> Some FOther"

lemma create_symlink_run:
  "create_environment_symlink path env fs =
     (if replaceable path fs then Inr (fs(path \<mapsto> FLink (basename path @ ''.'' @ env)), islink path fs) else Inl FileExists)"
  by (cases "fs path" rule: option.exhaust; simp add: create_environment_symlink_def os_symlink_def islink_def replaceable_def Let_def
      split: fs_node.split)

lemma basenames: "basename ''server/config.py'' = ''config.py''" "basename ''server/app.yaml'' = ''app.yaml''"
  by (simp_all add: basename_def)

lemma setup_run:
  "setup_environment env fs =
     (if replaceable ''server/config.py'' fs \<and> replaceable ''server/app.yaml'' fs
      then Inr (fs(''server/config.py'' \<mapsto> FLink (''config.py.'' @ env), ''server/app.yaml'' \<mapsto> FLink (''app.yaml.'' @ env)))
      else Inl FileExists)"
  by (simp add: setup_environment_def create_symlink_run basenames replaceable_def)

section \<open>Properties\<close>

text \<open>setting an environment up links the configuration and the application file to those of the
  environment and leaves every other file alone, unless something that is not a link is in the way;
  and the environment that is set up last is the one that counts.\<close>

theorem last_environment_counts:
  "setup_environment a fs = Inr fs' \<Longrightarrow>
     fs' ''server/config.py'' = Some (FLink (''config.py.'' @ a)) \<and> fs' ''server/app.yaml'' = Some (FLink (''app.yaml.'' @ a)) \<and>
     (\<forall>p. p \<noteq> ''server/config.py'' \<longrightarrow> p \<noteq> ''server/app.yaml'' \<longrightarrow> fs' p = fs p) \<and>
     setup_environment b fs' = setup_environment b fs"
proof -
  let ?link = "\<lambda>e. fs(''server/config.py'' \<mapsto> FLink (''config.py.'' @ e), ''server/app.yaml'' \<mapsto> FLink (''app.yaml.'' @ e))"
  assume "setup_environment a fs = Inr fs'"
  then have fs': "fs' = ?link a" and ok: "replaceable ''server/config.py'' fs" "replaceable ''server/app.yaml'' fs"
    by (simp_all add: setup_run split: if_splits)
  have "setup_environment b fs = Inr (?link b)" using ok by (simp add: setup_run)
  moreover have "setup_environment b fs' = Inr (?link b)" by (simp add: setup_run fs' replaceable_def fun_upd_twist)
  ultimately show ?thesis by (simp add: fs')
qed

theorem last_environment_counts_witness:
  "setup_environment ''mlab-ns'' [''server/config.py'' \<mapsto> FLink ''config.py.mlab-staging'', ''server/app.yaml'' \<mapsto> FLink ''app.yaml.mlab-staging''] =
   setup_environment ''mlab-ns'' Map.empty"
proof -
  have "setup_environment ''mlab-staging'' Map.empty =
      Inr [''server/config.py'' \<mapsto> FLink ''config.py.mlab-staging'', ''server/app.yaml'' \<mapsto> FLink ''app.yaml.mlab-staging'']"
    by (simp add: setup_run replaceable_def)
  from last_environment_counts [OF this, of "''mlab-ns''"] show ?thesis by blast
qed

end
