(* ===== verification/FilesApi.thy ===== *)
theory FilesApi
  imports Prelude "HOL-Library.Word" "HOL-Library.Sublist"
begin

text \<open>
  \<open>mapreduce/lib/files/file.py\<close>: files of the App Engine files service, as the log pipeline reads
  and writes them. The service itself is not part of the repository: it is a record of its calls, each a
  function of a world \<open>'w\<close> of its own that answers or reports an application error. What the code relies
  on is stated as predicates on such a record (\<open>serves\<close>, \<open>appends\<close>) and is a hypothesis of the
  theorems that need it.

  A file name is a string, so the \<open>isinstance\<close> checks of the code never fail here. Errors of the RPC layer
  other than application errors, and the collection of garbage, are left out.
\<close>

type_synonym bytes = "8 word list"

section \<open>The service\<close>

datatype open_mode = READ | APPEND

type_synonym ('w, 'a) rpc = "'w \<Rightarrow> ((nat \<times> string) + 'a) \<times> 'w"

text \<open>The entries of a \<open>StatResponse\<close>: file name, finalized, length.\<close>

type_synonym file_stat_pb = "string \<times> bool \<times> int"

record 'w file_service =
  svc_open :: "string \<Rightarrow> bool \<Rightarrow> nat \<Rightarrow> open_mode \<Rightarrow> ('w, unit) rpc"
  svc_close :: "string \<Rightarrow> bool \<Rightarrow> ('w, unit) rpc"
  svc_append :: "string \<Rightarrow> bytes \<Rightarrow> string \<Rightarrow> ('w, unit) rpc"
  svc_read :: "string \<Rightarrow> int \<Rightarrow> int \<Rightarrow> ('w, bytes) rpc"
  svc_stat :: "string \<Rightarrow> ('w, file_stat_pb list) rpc"
  svc_create :: "string \<Rightarrow> nat \<Rightarrow> string option \<Rightarrow> (string \<times> string) list \<Rightarrow> ('w, string) rpc"

definition RAW :: nat where "RAW = 0"

definition READ_BLOCK_SIZE :: int where "READ_BLOCK_SIZE = 1024 * 512"

text \<open>\<open>_raise_app_error\<close>; the numbers are those of \<open>FileServiceErrors\<close> in \<open>file_service_pb.py\<close>.\<close>

definition raise_app_error :: "nat \<Rightarrow> string \<Rightarrow> files_exn" where
  "raise_app_error code detail =
     (if code \<in> set [100, 105, 106, 107, 109, 110] then ExistenceError
      else if code = 1 then ApiTemporaryUnavailableError
      else if code = 101 then FinalizationError
      else if code = 7 then UnknownError
      else if code = 300 then SequenceKeyOutOfOrderError detail
      else if code = 5 then InvalidFileNameError
      else if code = 10 then FileNotOpenedError
      else if code = 103 then ReadOnlyError
      else if code = 9 then WrongContentTypeError
      else if code = 11 then WrongOpenModeError
      else if code = 6 then OperationNotSupportedError
      else if code = 8 then PermissionDeniedError
      else if code = 13 then FileTemporaryUnavailableError
      else if code = 705 then InvalidParameterError
      else if code = 104 then ExclusiveLockFailedError
      else Error)"

definition make_call :: "('w, 'a) rpc \<Rightarrow> ('w, 'a) act" where
  "make_call call w =
     (case call w of
        (Inl (code, detail), w') \<Rightarrow> (Inl (FilesError (raise_app_error code detail)), w')
      | (Inr response, w') \<Rightarrow> (Inr response, w'))"

section \<open>Files\<close>

record fobj =
  f_filename :: string
  f_closed :: bool
  f_content_type :: nat
  f_mode :: string
  f_exclusive_lock :: bool
  f_offset :: int

type_synonym 'w fstate = "fobj \<times> 'w"

definition on_world :: "('w, 'a) act \<Rightarrow> ('w fstate, 'a) act" where
  "on_world m = (\<lambda>(f, w). case m w of (r, w') \<Rightarrow> (r, (f, w')))"

definition on_file :: "(fobj \<Rightarrow> fobj) \<Rightarrow> ('w fstate, unit) act" where
  "on_file g = (\<lambda>(f, w). (Inr (), (g f, w)))"

definition is_temporary :: "exn \<Rightarrow> bool" where
  "is_temporary e \<longleftrightarrow>
     e = FilesError ApiTemporaryUnavailableError \<or> e = FilesError FileTemporaryUnavailableError"

text \<open>\<open>_make_rpc_call_with_retry\<close> for \<open>Open\<close>: the call is made once more.\<close>

definition retry_open :: "('w fstate, 'a) act \<Rightarrow> ('w fstate, 'a) act" where
  "retry_open call = catchA call (\<lambda>e. if is_temporary e then Some call else None)"

definition open_mode_of :: "string \<Rightarrow> open_mode option" where
  "open_mode_of mode =
     (if mode = ''a'' \<or> mode = ''ab'' then Some APPEND
      else if mode = ''r'' \<or> mode = ''rb'' then Some READ
      else None)"

definition file_reopen :: "'w file_service \<Rightarrow> ('w fstate, unit) act" where
  "file_reopen svc = (\<lambda>(f, w).
     case open_mode_of (f_mode f) of
       None \<Rightarrow> (Inl (FilesError UnsupportedOpenModeError), (f, w))
     | Some m \<Rightarrow>
         retry_open (on_world (make_call
           (svc_open svc (f_filename f) (f_exclusive_lock f) (f_content_type f) m))) (f, w))"

text \<open>
  \<open>_make_rpc_call_with_retry\<close> for any other method: under an exclusive lock the error is raised, otherwise
  the file is opened again and the call made once more.
\<close>

definition retry_call :: "'w file_service \<Rightarrow> ('w fstate, 'a) act \<Rightarrow> ('w fstate, 'a) act" where
  "retry_call svc call = catchA call (\<lambda>e.
     if is_temporary e
     then Some (\<lambda>(f, w). if f_exclusive_lock f then (Inl e, (f, w)) else seqA (file_reopen svc) call (f, w))
     else None)"

definition verify_read_mode :: "('w fstate, unit) act" where
  "verify_read_mode = (\<lambda>(f, w).
     if f_mode f \<noteq> ''r'' then (Inl (FilesError WrongOpenModeError), (f, w)) else (Inr (), (f, w)))"

definition file_close :: "'w file_service \<Rightarrow> bool \<Rightarrow> ('w fstate, unit) act" where
  "file_close svc finalize = (\<lambda>(f, w).
     if f_closed f then (Inr (), (f, w))
     else retry_call svc (on_world (make_call (svc_close svc (f_filename f) finalize))) (f\<lparr>f_closed := True\<rparr>, w))"

definition file_write :: "'w file_service \<Rightarrow> bytes \<Rightarrow> string \<Rightarrow> ('w fstate, unit) act" where
  "file_write svc data sequence_key = (\<lambda>(f, w).
     if f_content_type f = RAW
     then retry_call svc (on_world (make_call (svc_append svc (f_filename f) data sequence_key))) (f, w)
     else (Inl (FilesError UnsupportedContentTypeError), (f, w)))"

definition file_tell :: "('w fstate, int) act" where
  "file_tell = seqA verify_read_mode (getA (\<lambda>(f, w). f_offset f))"

text \<open>\<open>_File.stat\<close>: the length of the one file of the response is all that \<open>seek\<close> uses.\<close>

definition file_stat :: "'w file_service \<Rightarrow> ('w fstate, file_stat_pb) act" where
  "file_stat svc = seqA verify_read_mode (\<lambda>(f, w).
     bindA (on_world (make_call (svc_stat svc (f_filename f))))
       (\<lambda>stats. if length stats = 0 then raiseA (FilesError ExistenceError)
                else if length stats > 1 then raiseA ValueError
                else retA (stats ! 0)) (f, w))"

text \<open>The \<open>whence\<close> of \<open>seek\<close>: \<open>os.SEEK_SET\<close> is 0, \<open>os.SEEK_CUR\<close> 1, \<open>os.SEEK_END\<close> 2.\<close>

definition file_seek :: "'w file_service \<Rightarrow> int \<Rightarrow> nat \<Rightarrow> ('w fstate, unit) act" where
  "file_seek svc offset whence = seqA verify_read_mode
     (if whence = 0 then on_file (\<lambda>f. f\<lparr>f_offset := offset\<rparr>)
      else if whence = 1 then on_file (\<lambda>f. f\<lparr>f_offset := f_offset f + offset\<rparr>)
      else if whence = 2
      then bindA (file_stat svc) (\<lambda>st. on_file (\<lambda>f. f\<lparr>f_offset := snd (snd st) + offset\<rparr>))
      else raiseA (FilesError InvalidArgumentError))"

text \<open>The loop of \<open>read\<close>: chunks of at most \<open>READ_BLOCK_SIZE\<close> until \<open>size\<close> bytes or an empty chunk.\<close>

function file_read_loop :: "'w file_service \<Rightarrow> int \<Rightarrow> bytes \<Rightarrow> ('w fstate, bytes) act" where
  "file_read_loop svc n buf (f, w) =
     (if n > 0 then
        (case retry_call svc (on_world (make_call
                (svc_read svc (f_filename f) (f_offset f) (min READ_BLOCK_SIZE n)))) (f, w) of
           (Inl e, s) \<Rightarrow> (Inl e, s)
         | (Inr chunk, (f', w')) \<Rightarrow>
             let f'' = f'\<lparr>f_offset := f_offset f' + int (length chunk)\<rparr> in
             if chunk = [] then (Inr buf, (f'', w'))
             else file_read_loop svc (n - int (length chunk)) (buf @ chunk) (f'', w'))
      else (Inr buf, (f, w)))"
  by pat_completeness auto
termination
  by (relation "measure (\<lambda>(svc, n, buf, s). nat n)") auto

definition sys_maxint :: int where "sys_maxint = 2 ^ 63 - 1"

definition file_read :: "'w file_service \<Rightarrow> int option \<Rightarrow> ('w fstate, bytes) act" where
  "file_read svc n = seqA verify_read_mode (\<lambda>(f, w).
     if f_content_type f \<noteq> RAW then (Inl (FilesError UnsupportedContentTypeError), (f, w))
     else case file_read_loop svc (case n of None \<Rightarrow> sys_maxint | Some k \<Rightarrow> k) [] (f, w) of
            (Inl e, (f', w')) \<Rightarrow> (Inl e, (f'\<lparr>f_offset := f_offset f\<rparr>, w'))
          | (Inr data, s) \<Rightarrow> (Inr data, s))"

section \<open>The module's functions\<close>

definition files_open :: "'w file_service \<Rightarrow> string \<Rightarrow> string \<Rightarrow> nat \<Rightarrow> bool \<Rightarrow> ('w, fobj) act" where
  "files_open svc filename mode content_type exclusive_lock w =
     (if filename = [] then (Inl (FilesError InvalidArgumentError), w)
      else if content_type \<noteq> RAW then (Inl (FilesError InvalidArgumentError), w)
      else case file_reopen svc
             (\<lparr>f_filename = filename, f_closed = False, f_content_type = content_type, f_mode = mode,
               f_exclusive_lock = exclusive_lock, f_offset = 0\<rparr>, w) of
             (Inl e, (f, w')) \<Rightarrow> (Inl e, w')
           | (Inr _, (f, w')) \<Rightarrow> (Inr f, w'))"

text \<open>\<open>with open(...) as f: body\<close>: the file is closed however the body ends.\<close>

definition with_file ::
    "'w file_service \<Rightarrow> string \<Rightarrow> string \<Rightarrow> bool \<Rightarrow> ('w fstate, 'a) act \<Rightarrow> ('w, 'a) act" where
  "with_file svc filename mode exclusive_lock body =
     bindA (files_open svc filename mode RAW exclusive_lock) (\<lambda>f w.
       case body (f, w) of
         (r, s) \<Rightarrow> (case file_close svc False s of
                      (Inl e, (_, w')) \<Rightarrow> (Inl e, w')
                    | (Inr _, (_, w')) \<Rightarrow> (r, w')))"

definition files_finalize :: "'w file_service \<Rightarrow> string \<Rightarrow> nat \<Rightarrow> ('w, unit) act" where
  "files_finalize svc filename content_type =
     (if filename = [] then raiseA (FilesError InvalidArgumentError)
      else if content_type \<noteq> RAW then raiseA (FilesError InvalidArgumentError)
      else catchA
        (bindA (files_open svc filename ''a'' content_type True)
           (\<lambda>f w. case file_close svc True (f, w) of (r, (_, w')) \<Rightarrow> (r, w')))
        (\<lambda>e. if e = FilesError FinalizationError then Some (retA ()) else None))"

definition files_stat :: "'w file_service \<Rightarrow> string \<Rightarrow> ('w, file_stat_pb) act" where
  "files_stat svc filename =
     (if filename = [] then raiseA (FilesError InvalidArgumentError)
      else with_file svc filename ''r'' False (file_stat svc))"

definition files_create ::
    "'w file_service \<Rightarrow> string \<Rightarrow> nat \<Rightarrow> string option \<Rightarrow> (string \<times> string) list \<Rightarrow> ('w, string) act" where
  "files_create svc filesystem content_type filename params =
     (if filesystem = [] then raiseA (FilesError InvalidArgumentError)
      else if content_type \<noteq> RAW then raiseA (FilesError InvalidArgumentError)
      else make_call (svc_create svc filesystem content_type
             (case filename of Some n \<Rightarrow> if n = [] then None else Some n | None \<Rightarrow> None) params))"

section \<open>BufferedFile\<close>

record buffered =
  b_filename :: string
  b_position :: int
  b_buffer :: bytes
  b_buffer_pos :: nat
  b_buffer_size :: int

definition BUFFER_SIZE :: int where "BUFFER_SIZE = 512 * 1024"

definition buffered_init :: "string \<Rightarrow> int \<Rightarrow> buffered" where
  "buffered_init filename buffer_size =
     \<lparr>b_filename = filename, b_position = 0, b_buffer = [], b_buffer_pos = 0, b_buffer_size = buffer_size\<rparr>"

type_synonym 'w bstate = "buffered \<times> 'w"

definition buffered_tell :: "'w bstate \<Rightarrow> int" where
  "buffered_tell = (\<lambda>(b, w). b_position b)"

text \<open>One turn of the loop of \<open>read\<close>: what \<open>f.read(self._buffer_size)\<close> gives behind the buffer.\<close>

definition buffered_fetch :: "'w file_service \<Rightarrow> buffered \<Rightarrow> ('w, bytes) act" where
  "buffered_fetch svc b = with_file svc (b_filename b) ''r'' False
     (seqA (file_seek svc (b_position b + int (length (b_buffer b))) 0) (file_read svc (Some (b_buffer_size b))))"

function buffered_fill :: "'w file_service \<Rightarrow> nat \<Rightarrow> ('w bstate, unit) act" where
  "buffered_fill svc n (b, w) =
     (if int (length (b_buffer b)) - int (b_buffer_pos b) < int n then
        let b' = b\<lparr>b_buffer := drop (b_buffer_pos b) (b_buffer b), b_buffer_pos := 0\<rparr> in
        (case buffered_fetch svc b' w of
           (Inl e, w') \<Rightarrow> (Inl e, (b', w'))
         | (Inr data, w') \<Rightarrow>
             if data = [] then (Inr (), (b', w'))
             else buffered_fill svc n (b'\<lparr>b_buffer := b_buffer b' @ data\<rparr>, w'))
      else (Inr (), (b, w)))"
  by pat_completeness auto
termination
  by (relation "measure (\<lambda>(svc, n, b, w). nat (int n - (int (length (b_buffer b)) - int (b_buffer_pos b))))")
    (auto simp: neq_Nil_conv)

definition buffered_read :: "'w file_service \<Rightarrow> nat \<Rightarrow> ('w bstate, bytes) act" where
  "buffered_read svc n = seqA (buffered_fill svc n) (\<lambda>(b, w).
     if int (length (b_buffer b)) - int (b_buffer_pos b) < int n then
       let result = drop (b_buffer_pos b) (b_buffer b)
       in (Inr result, (b\<lparr>b_buffer := [], b_buffer_pos := 0, b_position := b_position b + int (length result)\<rparr>, w))
     else
       (Inr (take n (drop (b_buffer_pos b) (b_buffer b))),
        (b\<lparr>b_buffer_pos := b_buffer_pos b + n, b_position := b_position b + int n\<rparr>, w)))"

definition buffered_seek :: "int \<Rightarrow> nat \<Rightarrow> ('w bstate, unit) act" where
  "buffered_seek offset whence = (\<lambda>(b, w).
     if whence = 0 then (Inr (), (b\<lparr>b_position := offset, b_buffer := [], b_buffer_pos := 0\<rparr>, w))
     else if whence = 1
     then (Inr (), (b\<lparr>b_position := b_position b + offset, b_buffer := [], b_buffer_pos := 0\<rparr>, w))
     else (Inl (FilesError InvalidArgumentError), (b, w)))"


declare file_read_loop.simps [simp del] buffered_fill.simps [simp del]

section \<open>What the code relies on\<close>

text \<open>
  \<open>serves svc name cont\<close>: in a world where \<open>cont\<close> gives the content of the file, the calls a reader makes
  succeed and leave the content alone, and a read gives some bytes from the position on, at most as many as
  asked for, and at least one before the end of the file (the documentation of \<open>read\<close>).
\<close>

definition serves :: "'w file_service \<Rightarrow> string \<Rightarrow> ('w \<Rightarrow> bytes option) \<Rightarrow> bool" where
  "serves svc name cont \<longleftrightarrow> name \<noteq> [] \<and> (\<forall>w c. cont w = Some c \<longrightarrow>
     (\<exists>w'. svc_open svc name False RAW READ w = (Inr (), w') \<and> cont w' = Some c) \<and>
     (\<exists>w'. svc_close svc name False w = (Inr (), w') \<and> cont w' = Some c) \<and>
     (\<forall>p k. 0 < k \<longrightarrow> (\<exists>w' n. svc_read svc name (int p) k w = (Inr (take n (drop p c)), w') \<and>
        cont w' = Some c \<and> int n \<le> k \<and> (p < length c \<longrightarrow> 0 < n))))"

text \<open>\<open>appends svc name cont\<close>: the calls a writer makes succeed, and an append puts the data at the end.\<close>

definition appends :: "'w file_service \<Rightarrow> string \<Rightarrow> ('w \<Rightarrow> bytes option) \<Rightarrow> bool" where
  "appends svc name cont \<longleftrightarrow> name \<noteq> [] \<and> (\<forall>w c lock data. cont w = Some c \<longrightarrow>
     (\<exists>w'. svc_open svc name lock RAW APPEND w = (Inr (), w') \<and> cont w' = Some c) \<and>
     (\<exists>w'. svc_close svc name False w = (Inr (), w') \<and> cont w' = Some c) \<and>
     (\<exists>w'. svc_append svc name data [] w = (Inr (), w') \<and> cont w' = Some (c @ data)))"

lemma serves_open:
  assumes "serves svc name cont" "cont w = Some c"
  obtains w' where "svc_open svc name False RAW READ w = (Inr (), w')" "cont w' = Some c"
  using assms unfolding serves_def by blast

lemma serves_close:
  assumes "serves svc name cont" "cont w = Some c"
  obtains w' where "svc_close svc name False w = (Inr (), w')" "cont w' = Some c"
  using assms unfolding serves_def by blast

lemma serves_read:
  assumes "serves svc name cont" "cont w = Some c" "0 < k"
  obtains w' n where "svc_read svc name (int p) k w = (Inr (take n (drop p c)), w')" "cont w' = Some c"
    "int n \<le> k" "p < length c \<Longrightarrow> 0 < n"
  using assms unfolding serves_def by metis

lemma serves_name: "serves svc name cont \<Longrightarrow> name \<noteq> []"
  by (simp add: serves_def)

section \<open>Calls that succeed\<close>

named_theorems call_simps \<open>calls to the service that succeed, as the code sees them\<close>

lemma make_call_Inr [call_simps]: "call w = (Inr x, w') \<Longrightarrow> make_call call w = (Inr x, w')"
  by (simp add: make_call_def)

lemma on_world_Inr [call_simps]: "m w = (r, w') \<Longrightarrow> on_world m (f, w) = (r, (f, w'))"
  by (simp add: on_world_def)

lemma retry_Inr [call_simps]:
  "call s = (Inr x, s') \<Longrightarrow> retry_open call s = (Inr x, s')"
  "call s = (Inr x, s') \<Longrightarrow> retry_call svc call s = (Inr x, s')"
  by (simp_all add: retry_open_def retry_call_def)

lemma verify_read_mode_run: "verify_read_mode (f, w) =
    (if f_mode f = ''r'' then Inr () else Inl (FilesError WrongOpenModeError), (f, w))"
  by (simp add: verify_read_mode_def)

lemma open_mode_of_simps [simp]:
  "open_mode_of ''r'' = Some READ" "open_mode_of ''a'' = Some APPEND" "open_mode_of ''rb'' = Some READ"
  by (simp_all add: open_mode_of_def)

definition new_file :: "string \<Rightarrow> string \<Rightarrow> bool \<Rightarrow> fobj" where
  "new_file name mode lock = \<lparr>f_filename = name, f_closed = False, f_content_type = RAW, f_mode = mode,
     f_exclusive_lock = lock, f_offset = 0\<rparr>"

lemma files_open_Inr:
  assumes "name \<noteq> []" "open_mode_of mode = Some m" "svc_open svc name lock RAW m w = (Inr (), w')"
  shows "files_open svc name mode RAW lock w = (Inr (new_file name mode lock), w')"
  using assms by (simp add: files_open_def file_reopen_def call_simps new_file_def)

lemma file_close_Inr:
  assumes "svc_close svc (f_filename f) fin w = (Inr (), w')" "\<not> f_closed f"
  shows "file_close svc fin (f, w) = (Inr (), (f\<lparr>f_closed := True\<rparr>, w'))"
  using assms by (simp add: file_close_def call_simps)

lemma with_file_Inr:
  assumes "files_open svc name mode RAW lock w = (Inr f, w1)"
    and "body (f, w1) = (r, (f', w2))"
    and "file_close svc False (f', w2) = (Inr (), (f'', w3))"
  shows "with_file svc name mode lock body w = (r, w3)"
  using assms by (simp add: with_file_def)

section \<open>Reading\<close>

lemma take_more: "take n xs @ take m (drop n xs) = take (n + m) xs"
  by (simp add: take_add)

lemma file_read_loop_serves:
  assumes svc: "serves svc (f_filename f) cont" and "cont w = Some c" "f_offset f = int p"
  shows "\<exists>w'. file_read_loop svc n buf (f, w) = (Inr (buf @ take (nat n) (drop p c)),
            (f\<lparr>f_offset := int (p + length (take (nat n) (drop p c)))\<rparr>, w')) \<and> cont w' = Some c"
  using assms
proof (induction "nat n" arbitrary: n buf f w p rule: less_induct)
  case less
  show ?case
  proof (cases "0 < n")
    case False
    with less.prems have "f\<lparr>f_offset := int p\<rparr> = f" by (cases f) simp
    with False less.prems show ?thesis by (subst file_read_loop.simps) simp
  next
    case True
    then have k: "0 < min READ_BLOCK_SIZE n" by (simp add: READ_BLOCK_SIZE_def)
    obtain w1 m where rd: "svc_read svc (f_filename f) (int p) (min READ_BLOCK_SIZE n) w
          = (Inr (take m (drop p c)), w1)" "cont w1 = Some c" "int m \<le> n" "p < length c \<Longrightarrow> 0 < m"
      using serves_read [OF less.prems(1,2) k, of p] by (metis min.boundedE)
    let ?chunk = "take m (drop p c)"
    let ?f = "f\<lparr>f_offset := f_offset f + int (length ?chunk)\<rparr>"
    have unf: "file_read_loop svc n buf (f, w) =
        (if ?chunk = [] then (Inr buf, (?f, w1))
         else file_read_loop svc (n - int (length ?chunk)) (buf @ ?chunk) (?f, w1))"
      using True rd(1) less.prems(3) by (subst file_read_loop.simps) (simp add: call_simps Let_def)
    show ?thesis
    proof (cases "?chunk = []")
      case True
      then have "length c \<le> p" using rd(4) by (auto simp: not_less [symmetric])
      with True unf rd(2) less.prems(3) show ?thesis by simp
    next
      case False
      let ?n = "n - int (length ?chunk)" and ?p = "p + length ?chunk"
      have smaller: "nat ?n < nat n" using False \<open>0 < n\<close> by simp
      have len: "int (length ?chunk) \<le> n" using rd(3) by simp
      obtain w2 where IH: "file_read_loop svc ?n (buf @ ?chunk) (?f, w1) =
          (Inr ((buf @ ?chunk) @ take (nat ?n) (drop ?p c)),
            (?f\<lparr>f_offset := int (?p + length (take (nat ?n) (drop ?p c)))\<rparr>, w2))" "cont w2 = Some c"
        using less.hyps [OF smaller, of ?f w1 ?p "buf @ ?chunk"] less.prems rd(2) by auto
      have whole: "take (nat n) (drop p c) = ?chunk @ take (nat ?n) (drop ?p c)"
      proof -
        have "take (length ?chunk) (drop p c) = ?chunk" by (simp add: min_def)
        then have "?chunk @ take (nat ?n) (drop ?p c) = take (length ?chunk + nat ?n) (drop p c)"
          using take_more [of "length ?chunk" "drop p c" "nat ?n"] by (simp add: add.commute)
        also have "length ?chunk + nat ?n = nat n" using len by simp
        finally show ?thesis by simp
      qed
      show ?thesis
        by (intro exI [of _ w2]) (use unf False IH whole in \<open>simp add: add.assoc\<close>)
    qed
  qed
qed

lemma file_read_serves:
  assumes "serves svc (f_filename f) cont" "cont w = Some c" "f_offset f = int p"
    and "f_mode f = ''r''" "f_content_type f = RAW"
  obtains w' where "file_read svc (Some n) (f, w) = (Inr (take (nat n) (drop p c)),
            (f\<lparr>f_offset := int (p + length (take (nat n) (drop p c)))\<rparr>, w'))" "cont w' = Some c"
proof -
  obtain w' where "file_read_loop svc n [] (f, w) = (Inr ([] @ take (nat n) (drop p c)),
            (f\<lparr>f_offset := int (p + length (take (nat n) (drop p c)))\<rparr>, w'))" "cont w' = Some c"
    using file_read_loop_serves [OF assms(1-3), of n "[]"] by blast
  then show ?thesis
    by (intro that [of w']) (use assms(4,5) in \<open>simp_all add: file_read_def seqA_def bindA_def verify_read_mode_run\<close>)
qed

section \<open>Buffered reading\<close>

abbreviation unread :: "buffered \<Rightarrow> bytes" where
  "unread b \<equiv> drop (b_buffer_pos b) (b_buffer b)"

text \<open>The buffered file stands at offset \<open>p\<close> of content \<open>c\<close>: what is left in its buffer is what follows there.\<close>

definition buffered_at ::
    "'w file_service \<Rightarrow> string \<Rightarrow> ('w \<Rightarrow> bytes option) \<Rightarrow> bytes \<Rightarrow> 'w bstate \<Rightarrow> nat \<Rightarrow> bool" where
  "buffered_at svc name cont c = (\<lambda>(b, w) p. b_filename b = name \<and>
     serves svc (b_filename b) cont \<and> cont w = Some c \<and> b_position b = int p \<and> 0 < b_buffer_size b \<and>
     b_buffer_pos b \<le> length (b_buffer b) \<and> prefix (unread b) (drop p c))"

lemma buffered_fetch_serves:
  assumes svc: "serves svc (b_filename b) cont" and "cont w = Some c" "b_position b = int p"
  obtains w' where "buffered_fetch svc b w =
      (Inr (take (nat (b_buffer_size b)) (drop (p + length (b_buffer b)) c)), w')" "cont w' = Some c"
proof -
  let ?name = "b_filename b" and ?q = "p + length (b_buffer b)"
  obtain w1 where op: "svc_open svc ?name False RAW READ w = (Inr (), w1)" "cont w1 = Some c"
    using serves_open [OF svc assms(2)] .
  let ?f = "new_file ?name ''r'' False"
  let ?g = "?f\<lparr>f_offset := int ?q\<rparr>"
  have opened: "files_open svc ?name ''r'' RAW False w = (Inr ?f, w1)"
    using serves_name [OF svc] op(1) by (intro files_open_Inr) simp_all
  obtain w2 where rd: "file_read svc (Some (b_buffer_size b)) (?g, w1) =
      (Inr (take (nat (b_buffer_size b)) (drop ?q c)),
        (?g\<lparr>f_offset := int (?q + length (take (nat (b_buffer_size b)) (drop ?q c)))\<rparr>, w2))" "cont w2 = Some c"
    by (rule file_read_serves [of svc ?g cont w1 c ?q "b_buffer_size b"])
      (use svc op(2) in \<open>simp_all add: new_file_def\<close>)
  obtain w3 where cl: "svc_close svc ?name False w2 = (Inr (), w3)" "cont w3 = Some c"
    using serves_close [OF svc rd(2)] .
  have seek: "file_seek svc (b_position b + int (length (b_buffer b))) 0 (?f, w1) = (Inr (), (?g, w1))"
    using assms(3) by (simp add: file_seek_def seqA_def bindA_def verify_read_mode_run on_file_def new_file_def)
  let ?h = "?g\<lparr>f_offset := int (?q + length (take (nat (b_buffer_size b)) (drop ?q c)))\<rparr>"
  have body: "seqA (file_seek svc (b_position b + int (length (b_buffer b))) 0)
      (file_read svc (Some (b_buffer_size b))) (?f, w1) = (Inr (take (nat (b_buffer_size b)) (drop ?q c)), (?h, w2))"
    unfolding seqA_def bindA_def seek prod.case sum.case by (rule rd(1))
  have "file_close svc False (?h, w2) = (Inr (), (?h\<lparr>f_closed := True\<rparr>, w3))"
    by (rule file_close_Inr) (use cl in \<open>simp_all add: new_file_def\<close>)
  then have "buffered_fetch svc b w = (Inr (take (nat (b_buffer_size b)) (drop ?q c)), w3)"
    unfolding buffered_fetch_def using with_file_Inr [OF opened, where body = "seqA (file_seek svc (b_position b + int (length (b_buffer b))) 0)
      (file_read svc (Some (b_buffer_size b)))"] body by blast
  then show ?thesis using cl(2) by (rule that)
qed

lemma buffered_fill_serves:
  assumes "buffered_at svc name cont c (b, w) p"
  shows "\<exists>b' w'. buffered_fill svc n (b, w) = (Inr (), (b', w')) \<and> buffered_at svc name cont c (b', w') p \<and>
            (length (unread b') < n \<longrightarrow> unread b' = drop p c)"
  using assms
proof (induction "n - length (unread b)" arbitrary: b w rule: less_induct)
  case less
  let ?b = "b\<lparr>b_buffer := unread b, b_buffer_pos := 0\<rparr>"
  have at: "serves svc (b_filename b) cont" "cont w = Some c" "b_position b = int p" "0 < b_buffer_size b"
    "b_buffer_pos b \<le> length (b_buffer b)" "prefix (unread b) (drop p c)"
    "b_filename b = name"
    using less.prems unfolding buffered_at_def prod.case by blast+
  then obtain zs where zs: "drop p c = unread b @ zs" by (auto elim: prefixE)
  have guard: "int (length (b_buffer b)) - int (b_buffer_pos b) < int n \<longleftrightarrow> length (unread b) < n"
    using at(5) by auto
  show ?case
  proof (cases "length (unread b) < n")
    case False
    with guard less.prems show ?thesis by (subst buffered_fill.simps) auto
  next
    case True
    let ?data = "take (nat (b_buffer_size b)) zs"
    have "drop (p + length (unread b)) c = drop (length (unread b)) (drop p c)" by (simp add: add.commute)
    then have behind: "drop (p + length (unread b)) c = zs" unfolding zs by simp
    obtain w1 where fetch: "buffered_fetch svc ?b w = (Inr ?data, w1)" "cont w1 = Some c"
      using buffered_fetch_serves [of svc ?b cont w c p] at behind by auto
    let ?b' = "?b\<lparr>b_buffer := unread b @ ?data\<rparr>"
    have unf: "buffered_fill svc n (b, w) =
        (if ?data = [] then (Inr (), (?b, w1)) else buffered_fill svc n (?b', w1))"
      using True guard fetch(1) by (subst buffered_fill.simps) (simp only: Let_def prod.case sum.case if_True, simp)
    show ?thesis
    proof (cases "?data = []")
      case True
      with at(4) have "zs = []" by auto
      then have "unread ?b = drop p c" using zs by simp
      moreover have "buffered_at svc name cont c (?b, w1) p" using at fetch(2) by (simp add: buffered_at_def)
      ultimately show ?thesis using unf True by metis
    next
      case False
      have at': "buffered_at svc name cont c (?b', w1) p" using at fetch(2)
        by (simp add: buffered_at_def zs take_is_prefix)
      have "0 < length ?data" using False unfolding length_greater_0_conv .
      then have "n - length (unread ?b') < n - length (unread b)" using True
        by (simp del: length_take length_drop length_greater_0_conv)
      from less.hyps [OF this at'] show ?thesis using unf False by simp
    qed
  qed
qed

text \<open>A buffered read is a read of the file itself: the slice of the content at the position.\<close>

lemma buffered_read_serves:
  assumes "buffered_at svc name cont c s p"
  shows "\<exists>s'. buffered_read svc n s = (Inr (take n (drop p c)), s') \<and>
            buffered_at svc name cont c s' (p + length (take n (drop p c)))"
proof -
  obtain b w where s: "s = (b, w)" by fastforce
  obtain b' w' where fill: "buffered_fill svc n (b, w) = (Inr (), (b', w'))" "buffered_at svc name cont c (b', w') p"
      "length (unread b') < n \<longrightarrow> unread b' = drop p c"
    using buffered_fill_serves [of svc name cont c b w p n] assms s by blast
  have at: "serves svc (b_filename b') cont" "cont w' = Some c" "b_position b' = int p" "0 < b_buffer_size b'"
    "b_buffer_pos b' \<le> length (b_buffer b')" "prefix (unread b') (drop p c)"
    "b_filename b' = name"
    using fill(2) unfolding buffered_at_def prod.case by blast+
  have guard: "int (length (b_buffer b')) - int (b_buffer_pos b') < int n \<longleftrightarrow> length (unread b') < n"
    using at(5) by auto
  show ?thesis
  proof (cases "length (unread b') < n")
    case True
    then have rest: "unread b' = drop p c" using fill(3) by blast
    then have "length (drop p c) < n" using True by metis
    then have slice: "take n (drop p c) = drop p c" by simp
    then show ?thesis using s fill(1) True guard rest at(1-4,7)
      by (simp add: buffered_read_def seqA_def bindA_def Let_def buffered_at_def)
  next
    case False
    from at(6) obtain zs where zs: "drop p c = unread b' @ zs" by (auto elim: prefixE)
    have slice: "take n (drop p c) = take n (unread b')" unfolding zs using False by simp
    have "drop (n + p) c = drop n (drop p c)" by simp
    then have left: "drop (n + p) c = drop n (unread b') @ zs" unfolding zs using False by simp
    let ?b = "b'\<lparr>b_buffer_pos := b_buffer_pos b' + n, b_position := b_position b' + int n\<rparr>"
    have "buffered_read svc n s = (Inr (take n (drop p c)), (?b, w'))"
      using s fill(1) False guard slice by (simp add: buffered_read_def seqA_def bindA_def)
    moreover have "buffered_at svc name cont c (?b, w') (p + n)"
      using at(1-5,7) False left by (simp add: buffered_at_def add.commute)
    moreover have "length (take n (drop p c)) = n" unfolding slice using False by simp
    ultimately show ?thesis by metis
  qed
qed

section \<open>Properties\<close>

text \<open>
  A failed read leaves the position where it was, whatever the service did.
\<close>

theorem failed_read_restores_offset:
  "file_read svc n (f, w) = (Inl e, (f', w')) \<Longrightarrow> f_offset f' = f_offset f"
  by (auto simp: file_read_def seqA_def bindA_def verify_read_mode_run split: if_splits sum.splits prod.splits)

text \<open>
  A file opened with mode \<open>rb\<close> is opened for reading, and every operation of a reader on it fails with the error
  that says it was opened for writing.
\<close>

theorem rb_files_cannot_be_read:
  "f_mode f = ''rb'' \<Longrightarrow> open_mode_of (f_mode f) = Some READ \<and>
     file_read svc n (f, w) = (Inl (FilesError WrongOpenModeError), (f, w)) \<and>
     file_tell (f, w) = (Inl (FilesError WrongOpenModeError), (f, w)) \<and>
     file_seek svc offset whence (f, w) = (Inl (FilesError WrongOpenModeError), (f, w))"
  by (simp add: file_read_def file_tell_def file_seek_def seqA_def bindA_def verify_read_mode_run)

end
