(* ===== verification/Crc32c.thy ===== *)
theory Crc32c
  imports "HOL-Library.Word"
begin

text \<open>
  \<open>mapreduce/lib/files/crc32c.py\<close>, the checksum of the record files of the log pipeline. Checksums are
  32-bit words and data is a list of bytes; the masks of the code keep its integers in 32 bits.
\<close>

unbundle bit_operations_syntax

type_synonym byte = "8 word"

section \<open>The code\<close>

definition CRC_TABLE :: "32 word list" where
  "CRC_TABLE =
    [0x00000000, 0xf26b8303, 0xe13b70f7, 0x1350f3f4, 0xc79a971f, 0x35f1141c, 0x26a1e7e8, 0xd4ca64eb,
     0x8ad958cf, 0x78b2dbcc, 0x6be22838, 0x9989ab3b, 0x4d43cfd0, 0xbf284cd3, 0xac78bf27, 0x5e133c24,
     0x105ec76f, 0xe235446c, 0xf165b798, 0x030e349b, 0xd7c45070, 0x25afd373, 0x36ff2087, 0xc494a384,
     0x9a879fa0, 0x68ec1ca3, 0x7bbcef57, 0x89d76c54, 0x5d1d08bf, 0xaf768bbc, 0xbc267848, 0x4e4dfb4b,
     0x20bd8ede, 0xd2d60ddd, 0xc186fe29, 0x33ed7d2a, 0xe72719c1, 0x154c9ac2, 0x061c6936, 0xf477ea35,
     0xaa64d611, 0x580f5512, 0x4b5fa6e6, 0xb93425e5, 0x6dfe410e, 0x9f95c20d, 0x8cc531f9, 0x7eaeb2fa,
     0x30e349b1, 0xc288cab2, 0xd1d83946, 0x23b3ba45, 0xf779deae, 0x05125dad, 0x1642ae59, 0xe4292d5a,
     0xba3a117e, 0x4851927d, 0x5b016189, 0xa96ae28a, 0x7da08661, 0x8fcb0562, 0x9c9bf696, 0x6ef07595,
     0x417b1dbc, 0xb3109ebf, 0xa0406d4b, 0x522bee48, 0x86e18aa3, 0x748a09a0, 0x67dafa54, 0x95b17957,
     0xcba24573, 0x39c9c670, 0x2a993584, 0xd8f2b687, 0x0c38d26c, 0xfe53516f, 0xed03a29b, 0x1f682198,
     0x5125dad3, 0xa34e59d0, 0xb01eaa24, 0x42752927, 0x96bf4dcc, 0x64d4cecf, 0x77843d3b, 0x85efbe38,
     0xdbfc821c, 0x2997011f, 0x3ac7f2eb, 0xc8ac71e8, 0x1c661503, 0xee0d9600, 0xfd5d65f4, 0x0f36e6f7,
     0x61c69362, 0x93ad1061, 0x80fde395, 0x72966096, 0xa65c047d, 0x5437877e, 0x4767748a, 0xb50cf789,
     0xeb1fcbad, 0x197448ae, 0x0a24bb5a, 0xf84f3859, 0x2c855cb2, 0xdeeedfb1, 0xcdbe2c45, 0x3fd5af46,
     0x7198540d, 0x83f3d70e, 0x90a324fa, 0x62c8a7f9, 0xb602c312, 0x44694011, 0x5739b3e5, 0xa55230e6,
     0xfb410cc2, 0x092a8fc1, 0x1a7a7c35, 0xe811ff36, 0x3cdb9bdd, 0xceb018de, 0xdde0eb2a, 0x2f8b6829,
     0x82f63b78, 0x709db87b, 0x63cd4b8f, 0x91a6c88c, 0x456cac67, 0xb7072f64, 0xa457dc90, 0x563c5f93,
     0x082f63b7, 0xfa44e0b4, 0xe9141340, 0x1b7f9043, 0xcfb5f4a8, 0x3dde77ab, 0x2e8e845f, 0xdce5075c,
     0x92a8fc17, 0x60c37f14, 0x73938ce0, 0x81f80fe3, 0x55326b08, 0xa759e80b, 0xb4091bff, 0x466298fc,
     0x1871a4d8, 0xea1a27db, 0xf94ad42f, 0x0b21572c, 0xdfeb33c7, 0x2d80b0c4, 0x3ed04330, 0xccbbc033,
     0xa24bb5a6, 0x502036a5, 0x4370c551, 0xb11b4652, 0x65d122b9, 0x97baa1ba, 0x84ea524e, 0x7681d14d,
     0x2892ed69, 0xdaf96e6a, 0xc9a99d9e, 0x3bc21e9d, 0xef087a76, 0x1d63f975, 0x0e330a81, 0xfc588982,
     0xb21572c9, 0x407ef1ca, 0x532e023e, 0xa145813d, 0x758fe5d6, 0x87e466d5, 0x94b49521, 0x66df1622,
     0x38cc2a06, 0xcaa7a905, 0xd9f75af1, 0x2b9cd9f2, 0xff56bd19, 0x0d3d3e1a, 0x1e6dcdee, 0xec064eed,
     0xc38d26c4, 0x31e6a5c7, 0x22b65633, 0xd0ddd530, 0x0417b1db, 0xf67c32d8, 0xe52cc12c, 0x1747422f,
     0x49547e0b, 0xbb3ffd08, 0xa86f0efc, 0x5a048dff, 0x8ecee914, 0x7ca56a17, 0x6ff599e3, 0x9d9e1ae0,
     0xd3d3e1ab, 0x21b862a8, 0x32e8915c, 0xc083125f, 0x144976b4, 0xe622f5b7, 0xf5720643, 0x07198540,
     0x590ab964, 0xab613a67, 0xb831c993, 0x4a5a4a90, 0x9e902e7b, 0x6cfbad78, 0x7fab5e8c, 0x8dc0dd8f,
     0xe330a81a, 0x115b2b19, 0x020bd8ed, 0xf0605bee, 0x24aa3f05, 0xd6c1bc06, 0xc5914ff2, 0x37faccf1,
     0x69e9f0d5, 0x9b8273d6, 0x88d28022, 0x7ab90321, 0xae7367ca, 0x5c18e4c9, 0x4f48173d, 0xbd23943e,
     0xf36e6f75, 0x0105ec76, 0x12551f82, 0xe03e9c81, 0x34f4f86a, 0xc69f7b69, 0xd5cf889d, 0x27a40b9e,
     0x79b737ba, 0x8bdcb4b9, 0x988c474d, 0x6ae7c44e, 0xbe2da0a5, 0x4c4623a6, 0x5f16d052, 0xad7d5351]"

definition CRC_INIT :: "32 word" where "CRC_INIT = 0"

definition CRC_MASK :: "32 word" where "CRC_MASK = 0xFFFFFFFF"

definition crc_step :: "byte \<Rightarrow> 32 word \<Rightarrow> 32 word" where
  "crc_step b c =
     (let table_index = (c XOR ucast b) AND 0xff
      in (CRC_TABLE ! unat table_index XOR drop_bit 8 c) AND CRC_MASK)"

definition crc_update :: "32 word \<Rightarrow> byte list \<Rightarrow> 32 word" where
  "crc_update c data = fold crc_step data (c XOR CRC_MASK) XOR CRC_MASK"

definition crc_finalize :: "32 word \<Rightarrow> 32 word" where
  "crc_finalize c = c AND CRC_MASK"

definition crc :: "byte list \<Rightarrow> 32 word" where
  "crc data = crc_finalize (crc_update CRC_INIT data)"

lemma crc_mask_and: "c AND CRC_MASK = c"
proof -
  have ones: "CRC_MASK = - 1" by (simp add: CRC_MASK_def)
  show ?thesis unfolding ones by (rule and.right_neutral)
qed

section \<open>The polynomial\<close>

text \<open>One bit of the division by the (reflected) Castagnoli polynomial.\<close>

definition poly_step :: "32 word \<Rightarrow> 32 word" where
  "poly_step c = (if c AND 1 = 1 then 0x82f63b78 XOR drop_bit 1 c else drop_bit 1 c)"

definition poly_byte :: "32 word \<Rightarrow> 32 word" where
  "poly_byte c = (poly_step ^^ 8) c"

text \<open>The checksum by definition: a byte enters the low bits, and eight bits are divided out.\<close>

definition crc_reference :: "32 word \<Rightarrow> byte list \<Rightarrow> 32 word" where
  "crc_reference c data = fold (\<lambda>b c. poly_byte (c XOR ucast b)) data (c XOR CRC_MASK) XOR CRC_MASK"

lemma poly_byte_unfold: "poly_byte c =
    poly_step (poly_step (poly_step (poly_step (poly_step (poly_step (poly_step (poly_step c)))))))"
  by (simp add: poly_byte_def numeral_eq_Suc)

lemma and_one_bit: "c AND 1 = 1 \<longleftrightarrow> bit c 0" for c :: "32 word"
  by (simp add: and_one_eq bit_0 odd_iff_mod_2_eq_one)

lemma poly_step_xor: "poly_step (a XOR b) = poly_step a XOR poly_step b"
  by (auto simp: poly_step_def and_one_bit bit_xor_iff intro!: bit_word_eqI)

lemma poly_byte_xor: "poly_byte (a XOR b) = poly_byte a XOR poly_byte b"
  by (simp add: poly_byte_unfold poly_step_xor)

lemma poly_steps_shift:
  "\<forall>i < k. \<not> bit c i \<Longrightarrow> (poly_step ^^ k) c = drop_bit k c"
proof (induction k arbitrary: c)
  case (Suc k)
  then have "poly_step c = drop_bit 1 c" by (simp add: poly_step_def and_one_bit)
  moreover have "\<forall>i < k. \<not> bit (drop_bit 1 c) i" using Suc.prems by (simp add: bit_drop_bit_eq)
  ultimately show ?case using Suc.IH [of "drop_bit 1 c"] by (simp add: funpow_swap1)
qed simp

lemma low_byte: "c AND 0xff = take_bit 8 c" for c :: "32 word"
  by (simp add: take_bit_eq_mask mask_eq_exp_minus_1)

lemma poly_byte_split: "poly_byte c = poly_byte (c AND 0xff) XOR drop_bit 8 c"
proof -
  have "c = take_bit 8 c XOR push_bit 8 (drop_bit 8 c)" by (rule bit_word_eqI) (auto simp: bit_simps)
  then have "poly_byte c = poly_byte (take_bit 8 c) XOR poly_byte (push_bit 8 (drop_bit 8 c))" by (metis poly_byte_xor)
  moreover have "poly_byte (push_bit 8 (drop_bit 8 c)) = drop_bit 8 (push_bit 8 (drop_bit 8 c))"
    unfolding poly_byte_def by (rule poly_steps_shift) (simp add: bit_push_bit_iff)
  moreover have "drop_bit 8 (push_bit 8 (drop_bit 8 c)) = drop_bit 8 c"
    by (rule bit_word_eqI) (auto simp: bit_simps dest: bit_imp_le_length)
  ultimately show ?thesis by (simp add: low_byte)
qed

section \<open>The table\<close>

lemma table_polynomial: "map poly_byte
    [0, 1, 2, 3, 4, 5, 6, 7, 8, 9, 10, 11, 12, 13, 14, 15,
     16, 17, 18, 19, 20, 21, 22, 23, 24, 25, 26, 27, 28, 29, 30, 31,
     32, 33, 34, 35, 36, 37, 38, 39, 40, 41, 42, 43, 44, 45, 46, 47,
     48, 49, 50, 51, 52, 53, 54, 55, 56, 57, 58, 59, 60, 61, 62, 63,
     64, 65, 66, 67, 68, 69, 70, 71, 72, 73, 74, 75, 76, 77, 78, 79,
     80, 81, 82, 83, 84, 85, 86, 87, 88, 89, 90, 91, 92, 93, 94, 95,
     96, 97, 98, 99, 100, 101, 102, 103, 104, 105, 106, 107, 108, 109, 110, 111,
     112, 113, 114, 115, 116, 117, 118, 119, 120, 121, 122, 123, 124, 125, 126, 127,
     128, 129, 130, 131, 132, 133, 134, 135, 136, 137, 138, 139, 140, 141, 142, 143,
     144, 145, 146, 147, 148, 149, 150, 151, 152, 153, 154, 155, 156, 157, 158, 159,
     160, 161, 162, 163, 164, 165, 166, 167, 168, 169, 170, 171, 172, 173, 174, 175,
     176, 177, 178, 179, 180, 181, 182, 183, 184, 185, 186, 187, 188, 189, 190, 191,
     192, 193, 194, 195, 196, 197, 198, 199, 200, 201, 202, 203, 204, 205, 206, 207,
     208, 209, 210, 211, 212, 213, 214, 215, 216, 217, 218, 219, 220, 221, 222, 223,
     224, 225, 226, 227, 228, 229, 230, 231, 232, 233, 234, 235, 236, 237, 238, 239,
     240, 241, 242, 243, 244, 245, 246, 247, 248, 249, 250, 251, 252, 253, 254, 255] = CRC_TABLE"
  by (simp add: CRC_TABLE_def poly_byte_unfold poly_step_def)

lemma table_lookup: "n < 256 \<Longrightarrow> CRC_TABLE ! n = poly_byte (of_nat n)"
proof -
  have "[0..<256] = 0 # 1 # [2..<256]" by (simp add: upt_conv_Cons numeral_2_eq_2)
  then have index: "map poly_byte (map of_nat [0..<256]) = CRC_TABLE"
    unfolding table_polynomial [symmetric] by (simp add: upt_rec_numeral)
  assume "n < 256"
  then show ?thesis by (simp flip: index)
qed

lemma crc_step_poly: "crc_step b c = poly_byte (c XOR ucast b)"
proof -
  let ?x = "c XOR ucast b"
  have low: "unat (?x AND 0xff) < 256"
    by (simp add: low_byte take_bit_eq_mod unat_mod)
  have "drop_bit 8 c = drop_bit 8 ?x"
    by (rule bit_word_eqI) (auto simp: bit_simps dest: bit_imp_le_length)
  moreover have "CRC_TABLE ! unat (?x AND 0xff) = poly_byte (?x AND 0xff)" using table_lookup [OF low] by simp
  ultimately show ?thesis using poly_byte_split [of ?x] by (simp add: crc_step_def Let_def crc_mask_and)
qed

section \<open>A changed byte\<close>

lemma xor_left_cancel: "a XOR b = a XOR c \<longleftrightarrow> b = c" for a b c :: "32 word"
proof
  assume "a XOR b = a XOR c"
  then have "a XOR (a XOR b) = a XOR (a XOR c)" by simp
  then show "b = c" by (simp flip: xor.assoc)
qed simp

lemma xor_right_cancel: "b XOR a = c XOR a \<longleftrightarrow> b = c" for a b c :: "32 word"
  by (simp only: xor.commute [of _ a] xor_left_cancel)

lemma poly_step_inj: "poly_step c = poly_step d \<Longrightarrow> c = d"
proof -
  have top: "bit (poly_step c) 31 \<longleftrightarrow> bit c 0" for c
    by (auto simp: poly_step_def and_one_bit bit_xor_iff bit_drop_bit_eq dest: bit_imp_le_length)
  assume eq: "poly_step c = poly_step d"
  then have zero: "bit c 0 = bit d 0" using top by metis
  with eq have shift: "drop_bit 1 c = drop_bit 1 d"
    by (auto simp: poly_step_def and_one_bit xor_left_cancel split: if_splits)
  show "c = d"
  proof (rule bit_word_eqI)
    fix n
    show "bit c n \<longleftrightarrow> bit d n"
    proof (cases n)
      case 0
      with zero show ?thesis by simp
    next
      case (Suc m)
      have "bit (drop_bit 1 c) m = bit (drop_bit 1 d) m" by (simp only: shift)
      with Suc show ?thesis by (simp add: bit_drop_bit_eq)
    qed
  qed
qed

lemma poly_byte_inj: "poly_byte c = poly_byte d \<Longrightarrow> c = d"
  unfolding poly_byte_unfold by (drule poly_step_inj)+ assumption

lemma crc_step_inj: "crc_step b c = crc_step b d \<Longrightarrow> c = d"
  unfolding crc_step_poly by (drule poly_byte_inj) (simp only: xor_right_cancel)

lemma crc_step_byte_inj: "crc_step a c = crc_step b c \<Longrightarrow> a = b"
proof -
  assume "crc_step a c = crc_step b c"
  then have "c XOR ucast a = c XOR ucast b" unfolding crc_step_poly by (rule poly_byte_inj)
  then have "(ucast a :: 32 word) = ucast b" by (simp add: xor_left_cancel)
  then have bits: "bit (ucast a :: 32 word) n = bit (ucast b :: 32 word) n" for n by simp
  show "a = b"
  proof (rule bit_word_eqI)
    fix n assume "n < LENGTH(8)"
    with bits [of n] show "bit a n = bit b n" by (simp add: bit_ucast_iff)
  qed
qed

lemma fold_crc_inj: "fold crc_step ys c = fold crc_step ys d \<Longrightarrow> c = d"
  by (induction ys arbitrary: c d) (auto dest: crc_step_inj)

lemma crc_mask_xor: "a XOR CRC_MASK = b XOR CRC_MASK \<Longrightarrow> a = b"
  by (simp only: xor_right_cancel)

lemma crc_finalize_id [simp]: "crc_finalize c = c"
  by (simp add: crc_finalize_def crc_mask_and)

lemma crc_update_append: "crc_update (crc_update c xs) ys = crc_update c (xs @ ys)"
proof -
  have "crc_update c xs XOR CRC_MASK = fold crc_step xs (c XOR CRC_MASK)" by (simp add: crc_update_def xor.assoc)
  then show ?thesis by (simp add: crc_update_def)
qed


section \<open>A changed burst\<close>

text \<open>
  Four bytes fill the register: what is added to them is added to one word before the division, so
  two different quadruples never leave the same register behind.
\<close>

lemma poly_byte_feed:
  assumes "\<And>n. 24 \<le> n \<Longrightarrow> \<not> bit w n"
  shows "poly_byte c XOR w = poly_byte (c XOR push_bit 8 w)"
proof -
  have low: "bit w n \<Longrightarrow> n < 24" for n using assms [of n] by linarith
  have "poly_byte (push_bit 8 w) = drop_bit 8 (push_bit 8 w)"
    unfolding poly_byte_def by (rule poly_steps_shift) (simp add: bit_push_bit_iff)
  moreover have "drop_bit 8 (push_bit 8 w) = w"
    by (rule bit_word_eqI) (auto simp: bit_simps dest: bit_imp_le_length low)
  ultimately show ?thesis by (simp add: poly_byte_xor)
qed

definition burst_word :: "byte list \<Rightarrow> 32 word" where
  "burst_word bs = ucast (bs ! 0) XOR push_bit 8 (ucast (bs ! 1)) XOR
     push_bit 16 (ucast (bs ! 2)) XOR push_bit 24 (ucast (bs ! 3))"

lemma ucast_byte_high: "8 \<le> n \<Longrightarrow> \<not> bit (ucast (b :: byte) :: 32 word) n"
  by (auto simp: bit_ucast_iff dest: bit_imp_le_length)

lemma fold_burst: "fold crc_step [a, b, d, e] c =
    poly_byte (poly_byte (poly_byte (poly_byte (c XOR burst_word [a, b, d, e]))))"
proof -
  have feed1: "poly_byte x XOR ucast y = poly_byte (x XOR push_bit 8 (ucast y))" for x and y :: byte
    by (rule poly_byte_feed) (auto dest!: ucast_byte_high [rotated] simp: bit_ucast_iff dest: bit_imp_le_length)
  have feed2: "poly_byte x XOR push_bit 8 (ucast y) = poly_byte (x XOR push_bit 16 (ucast y))" for x and y :: byte
    by (subst poly_byte_feed) (auto simp: bit_simps push_bit_push_bit dest: bit_imp_le_length)
  have feed3: "poly_byte x XOR push_bit 16 (ucast y) = poly_byte (x XOR push_bit 24 (ucast y))" for x and y :: byte
    by (subst poly_byte_feed) (auto simp: bit_simps push_bit_push_bit dest: bit_imp_le_length)
  show ?thesis by (simp add: crc_step_poly feed1 feed2 feed3 burst_word_def xor.assoc)
qed

lemma burst_word_bit: "n < 8 \<Longrightarrow> k < 4 \<Longrightarrow> bit (burst_word [a, b, d, e]) (8 * k + n) \<longleftrightarrow> bit ([a, b, d, e] ! k) n"
proof -
  assume n: "n < 8" and "k < 4"
  then consider "k = 0" | "k = 1" | "k = 2" | "k = 3" by linarith
  then show ?thesis
    by cases (use n in \<open>auto simp: burst_word_def bit_simps dest: bit_imp_le_length\<close>)
qed

lemma burst_word_inj:
  assumes "burst_word [a, b, d, e] = burst_word [a', b', d', e']"
  shows "[a, b, d, e] = [a', b', d', e']"
proof (rule nth_equalityI)
  fix k assume "k < length [a, b, d, e]"
  then have k: "k < 4" by simp
  show "[a, b, d, e] ! k = [a', b', d', e'] ! k"
  proof (rule bit_word_eqI)
    fix n assume "n < LENGTH(8)"
    then have n: "n < 8" by simp
    show "bit ([a, b, d, e] ! k) n \<longleftrightarrow> bit ([a', b', d', e'] ! k) n"
      using burst_word_bit [OF n k, of a b d e] burst_word_bit [OF n k, of a' b' d' e'] assms by simp
  qed
qed simp


lemma four_elements: "length xs = 4 \<Longrightarrow> \<exists>a b d e. xs = [a, b, d, e]"
  by (auto simp: numeral_eq_Suc length_Suc_conv)

lemma fold_burst_inj:
  assumes "length as = 4" "length bs = 4" and eq: "fold crc_step as c = fold crc_step bs c"
  shows "as = bs"
proof -
  obtain a b d e where as: "as = [a, b, d, e]" using four_elements [OF assms(1)] by blast
  obtain a' b' d' e' where bs: "bs = [a', b', d', e']" using four_elements [OF assms(2)] by blast
  have "burst_word as = burst_word bs" using eq unfolding as bs fold_burst
    by (auto simp: xor_left_cancel dest!: poly_byte_inj)
  then show ?thesis unfolding as bs by (rule burst_word_inj)
qed

lemma fold_short_burst_inj:
  assumes len: "length as \<le> 4" "length bs = length as" and eq: "fold crc_step as c = fold crc_step bs c"
  shows "as = bs"
proof -
  let ?z = "replicate (4 - length as) (0 :: byte)"
  have "as @ ?z = bs @ ?z" by (rule fold_burst_inj [of _ _ c]) (use assms in auto)
  then show ?thesis by simp
qed

lemma crc_burst:
  "length as \<le> 4 \<Longrightarrow> length bs = length as \<Longrightarrow> crc (xs @ as @ ys) = crc (xs @ bs @ ys) \<Longrightarrow> as = bs"
  by (rule fold_short_burst_inj [of _ _ "fold crc_step xs (CRC_INIT XOR CRC_MASK)"])
    (auto simp: crc_def crc_update_def dest!: crc_mask_xor fold_crc_inj)

section \<open>Properties\<close>

text \<open>C28: The table-driven routine is the bitwise division by the Castagnoli polynomial.\<close>

theorem crc_is_division: "crc_update c data = crc_reference c data"
  unfolding crc_update_def crc_reference_def crc_step_poly by (rule refl)

text \<open>
  A change confined to four neighbouring bytes always changes the checksum.
\<close>

theorem crc_detects_burst:
  "length as \<le> 4 \<Longrightarrow> length bs = length as \<Longrightarrow>
     crc (xs @ as @ ys) = crc (xs @ bs @ ys) \<Longrightarrow> as = bs"
  by (rule crc_burst)

theorem crc_detects_burst_witness: "crc ([7] @ [1, 2] @ [3]) \<noteq> crc ([7] @ [1, 5] @ [3])"
  using crc_detects_burst [of "[1, 2]" "[1, 5]" "[7]" "[3]"] by auto

end
