(* ===== verification/Records.thy ===== *)
theory Records
  imports Prelude PyString Crc32c "HOL-Library.Sublist"
begin

text \<open>
  \<open>mapreduce/lib/files/records.py\<close>: the record format of the log files (LevelDB's), its writer and its
  reader. The file a writer writes to and the file a reader reads from are objects with the interfaces
  \<open>FileWriter\<close> and \<open>FileReader\<close>, so the operations take the methods \<open>wr\<close>, \<open>rd\<close> and \<open>at_pos\<close> of such an
  object as arguments, actions on its state. The locale \<open>file_reader\<close> says what a reader promises;
  \<open>BufferedFile\<close> is proved to keep the promise in the theory of the record pools.
\<close>

section \<open>The format\<close>

definition BLOCK_SIZE :: nat where "BLOCK_SIZE = 32 * 1024"

definition HEADER_LENGTH :: nat where "HEADER_LENGTH = 7"

definition RECORD_TYPE_NONE :: byte where "RECORD_TYPE_NONE = 0"
definition RECORD_TYPE_FULL :: byte where "RECORD_TYPE_FULL = 1"
definition RECORD_TYPE_FIRST :: byte where "RECORD_TYPE_FIRST = 2"
definition RECORD_TYPE_MIDDLE :: byte where "RECORD_TYPE_MIDDLE = 3"
definition RECORD_TYPE_LAST :: byte where "RECORD_TYPE_LAST = 4"

lemmas record_types = RECORD_TYPE_NONE_def RECORD_TYPE_FULL_def RECORD_TYPE_FIRST_def
  RECORD_TYPE_MIDDLE_def RECORD_TYPE_LAST_def

definition CRC_MASK_DELTA :: "32 word" where "CRC_MASK_DELTA = 0xa282ead8"

text \<open>The final mask of the code keeps 32 bits of the sum; a word keeps them at every step.\<close>

definition mask_crc :: "32 word \<Rightarrow> 32 word" where
  "mask_crc c = (drop_bit 15 c OR push_bit 17 c) + CRC_MASK_DELTA"

definition unmask_crc :: "32 word \<Rightarrow> 32 word" where
  "unmask_crc masked_crc =
     (let rot = masked_crc - CRC_MASK_DELTA in drop_bit 17 rot OR push_bit 15 rot)"

text \<open>\<open>struct.pack('<IHB', crc, length, type)\<close>, which raises when the length needs more than 16 bits.\<close>

definition pack_header :: "32 word \<Rightarrow> nat \<Rightarrow> byte \<Rightarrow> byte list res" where
  "pack_header c n t =
     (if n < 65536
      then Inr [ucast c, ucast (drop_bit 8 c), ucast (drop_bit 16 c), ucast (drop_bit 24 c),
                of_nat (n mod 256), of_nat (n div 256), t]
      else Inl StructError)"

definition unpack_header :: "byte list \<Rightarrow> 32 word \<times> nat \<times> byte" where
  "unpack_header h =
     (ucast (h ! 0) OR push_bit 8 (ucast (h ! 1)) OR push_bit 16 (ucast (h ! 2)) OR push_bit 24 (ucast (h ! 3)),
      unat (h ! 4) + 256 * unat (h ! 5),
      h ! 6)"

definition record_crc :: "byte \<Rightarrow> byte list \<Rightarrow> 32 word" where
  "record_crc t data = crc_finalize (crc_update (crc_update CRC_INIT [t]) data)"

definition zeros :: "nat \<Rightarrow> byte list" where
  "zeros n = replicate n 0"

section \<open>The writer\<close>

record 'f records_writer =
  w_writer :: 'f
  w_position :: nat
  w_entered :: bool
  w_pad_last_block :: bool

definition records_writer_init :: "'f \<Rightarrow> bool \<Rightarrow> 'f records_writer" where
  "records_writer_init writer pad =
     \<lparr>w_writer = writer, w_position = 0, w_entered = False, w_pad_last_block = pad\<rparr>"

definition w_emit :: "(byte list \<Rightarrow> ('f, unit) act) \<Rightarrow> byte list \<Rightarrow> ('f records_writer, unit) act" where
  "w_emit wr data w = (case wr data (w_writer w) of (r, f) \<Rightarrow> (r, w\<lparr>w_writer := f\<rparr>))"

definition w_advance :: "nat \<Rightarrow> ('f records_writer, unit) act" where
  "w_advance n = modA (\<lambda>w. w\<lparr>w_position := w_position w + n\<rparr>)"

definition write_record ::
    "(byte list \<Rightarrow> ('f, unit) act) \<Rightarrow> byte \<Rightarrow> byte list \<Rightarrow> ('f records_writer, unit) act" where
  "write_record wr t data =
     bindA (liftR (pack_header (mask_crc (record_crc t data)) (length data) t)) (\<lambda>header.
       seqA (w_emit wr header) (seqA (w_emit wr data) (w_advance (HEADER_LENGTH + length data))))"

definition block_remaining :: "nat \<Rightarrow> nat" where
  "block_remaining position = BLOCK_SIZE - position mod BLOCK_SIZE"

text \<open>\<open>data[:block_remaining - HEADER_LENGTH]\<close>\<close>

definition chunk_of :: "nat \<Rightarrow> byte list \<Rightarrow> byte list" where
  "chunk_of remaining data = slice_to (int remaining - int HEADER_LENGTH) data"

lemma write_record_position:
  "write_record wr t data w = (Inr (), w') \<Longrightarrow> w_position w' = w_position w + (HEADER_LENGTH + length data)"
  by (auto simp: write_record_def w_emit_def w_advance_def seqA_def bindA_def split: prod.splits sum.splits)

lemma chunk_small: "chunk_of remaining data = [] \<Longrightarrow> data \<noteq> [] \<Longrightarrow> remaining \<le> HEADER_LENGTH"
  by (auto simp: chunk_of_def slice_to_def HEADER_LENGTH_def split: if_splits)

lemma block_remaining_pos: "0 < block_remaining p" "block_remaining p \<le> BLOCK_SIZE"
  by (simp_all add: block_remaining_def BLOCK_SIZE_def)

lemma block_remaining_small:
  "block_remaining p \<le> HEADER_LENGTH \<Longrightarrow> HEADER_LENGTH < block_remaining (p + HEADER_LENGTH)"
proof -
  assume "block_remaining p \<le> HEADER_LENGTH"
  then have m: "32761 \<le> p mod 32768" by (simp add: block_remaining_def BLOCK_SIZE_def HEADER_LENGTH_def)
  moreover have "p mod 32768 < 32768" by simp
  moreover have "(p + 7) mod 32768 = (p mod 32768 + 7) mod 32768" by (simp add: mod_add_left_eq)
  ultimately have "(p + 7) mod 32768 < 7" by (simp add: le_mod_geq)
  then show ?thesis by (simp add: block_remaining_def BLOCK_SIZE_def HEADER_LENGTH_def)
qed

text \<open>
  The loop over the rest of a record that does not fit its block. An empty chunk is written only at the end
  of a block, so the loop ends.
\<close>

function write_rest :: "(byte list \<Rightarrow> ('f, unit) act) \<Rightarrow> byte list \<Rightarrow> ('f records_writer, unit) act" where
  "write_rest wr data w =
     (let remaining = block_remaining (w_position w) in
      if remaining \<ge> length data + HEADER_LENGTH then write_record wr RECORD_TYPE_LAST data w
      else
        (let chunk = chunk_of remaining data in
         case write_record wr RECORD_TYPE_MIDDLE chunk w of
           (Inl e, w') \<Rightarrow> (Inl e, w')
         | (Inr u, w') \<Rightarrow> write_rest wr (drop (length chunk) data) w'))"
  by pat_completeness auto
termination
proof (relation "measure (\<lambda>(wr, data, w). 2 * length data +
    (if block_remaining (w_position w) \<le> HEADER_LENGTH then 1 else 0))", goal_cases)
  case 1
  show ?case by simp
next
  case (2 wr data w remaining chunk r w' u)
  have pos: "w_position w' = w_position w + (HEADER_LENGTH + length chunk)"
    using 2(4,5) write_record_position [of wr RECORD_TYPE_MIDDLE chunk w w'] by simp
  show ?case
  proof (cases "chunk = []")
    case True
    have "remaining \<le> HEADER_LENGTH"
      using chunk_small [of remaining data] 2(1-3) True by (cases "data = []") auto
    then show ?thesis using True pos 2(1) block_remaining_small [of "w_position w"] by simp
  next
    case False
    have "length chunk \<le> length data" using 2(3) by (simp add: chunk_of_def slice_to_def)
    moreover have "0 < length chunk" using False by simp
    ultimately have "2 * length (drop (length chunk) data) + 1 < 2 * length data"
      unfolding length_drop by linarith
    then show ?thesis by simp
  qed
qed

text \<open>\<open>write\<close>, from the point where the block has room for a header.\<close>

definition write_body ::
    "(byte list \<Rightarrow> ('f, unit) act) \<Rightarrow> byte list \<Rightarrow> nat \<Rightarrow> ('f records_writer, unit) act" where
  "write_body wr data remaining =
     (if remaining < length data + HEADER_LENGTH
      then seqA (write_record wr RECORD_TYPE_FIRST (chunk_of remaining data))
             (write_rest wr (drop (length (chunk_of remaining data)) data))
      else write_record wr RECORD_TYPE_FULL data)"

definition writer_write :: "(byte list \<Rightarrow> ('f, unit) act) \<Rightarrow> byte list \<Rightarrow> ('f records_writer, unit) act" where
  "writer_write wr data w =
     (if \<not> w_entered w then (Inl PlainException, w)
      else
        (let remaining = block_remaining (w_position w) in
         if remaining < HEADER_LENGTH
         then seqA (seqA (w_emit wr (zeros remaining)) (w_advance remaining)) (write_body wr data BLOCK_SIZE) w
         else write_body wr data remaining w))"

definition writer_enter :: "('f records_writer, unit) act" where
  "writer_enter = modA (\<lambda>w. w\<lparr>w_entered := True\<rparr>)"

definition writer_close :: "(byte list \<Rightarrow> ('f, unit) act) \<Rightarrow> ('f records_writer, unit) act" where
  "writer_close wr w =
     (if w_pad_last_block w
      then (let pad_length = block_remaining (w_position w) in
            if pad_length \<noteq> 0 \<and> pad_length \<noteq> BLOCK_SIZE then w_emit wr (zeros pad_length) w else (Inr (), w))
      else (Inr (), w))"

text \<open>\<open>with RecordsWriter(writer) as w: body\<close>; the writer is closed however the body ends.\<close>

definition with_records_writer ::
    "(byte list \<Rightarrow> ('f, unit) act) \<Rightarrow> bool \<Rightarrow> ('f records_writer, unit) act \<Rightarrow> ('f, unit) act" where
  "with_records_writer wr pad body f =
     (case writer_enter (records_writer_init f pad) of
        (_, w) \<Rightarrow> (case body w of
           (r, w') \<Rightarrow> (case writer_close wr w' of
              (Inl e, w'') \<Rightarrow> (Inl e, w_writer w'')
            | (Inr _, w'') \<Rightarrow> (r, w_writer w''))))"

section \<open>The reader\<close>

definition reader_remaining :: "('s \<Rightarrow> int) \<Rightarrow> 's \<Rightarrow> int" where
  "reader_remaining at_pos s = int BLOCK_SIZE - at_pos s mod int BLOCK_SIZE"

definition try_read_record ::
    "(nat \<Rightarrow> ('s, byte list) act) \<Rightarrow> ('s \<Rightarrow> int) \<Rightarrow> ('s, byte list \<times> byte) act" where
  "try_read_record rd at_pos s =
     (let remaining = reader_remaining at_pos s in
      if remaining < int HEADER_LENGTH then (Inr ([], RECORD_TYPE_NONE), s)
      else bindA (rd HEADER_LENGTH) (\<lambda>header.
        if length header \<noteq> HEADER_LENGTH then raiseA EOFError
        else (case unpack_header header of (masked_crc, n, t) \<Rightarrow>
          if int (n + HEADER_LENGTH) > remaining then raiseA InvalidRecordError
          else bindA (rd n) (\<lambda>data.
            if length data \<noteq> n then raiseA EOFError
            else if t = RECORD_TYPE_NONE then retA ([], t)
            else if record_crc t data \<noteq> unmask_crc masked_crc then raiseA InvalidRecordError
            else retA (data, t)))) s)"

definition reader_sync :: "(nat \<Rightarrow> ('s, byte list) act) \<Rightarrow> ('s \<Rightarrow> int) \<Rightarrow> ('s, unit) act" where
  "reader_sync rd at_pos s =
     (let pad_length = reader_remaining at_pos s in
      if pad_length \<noteq> 0 \<and> pad_length \<noteq> int BLOCK_SIZE
      then bindA (rd (nat pad_length)) (\<lambda>data.
             if int (length data) \<noteq> pad_length then raiseA EOFError else retA ()) s
      else (Inr (), s))"

text \<open>
  One turn of the loop of \<open>read\<close>: \<open>Inr (Inr record)\<close> when it returns, \<open>Inr (Inl data)\<close> when it goes on with
  the data gathered so far. The warnings it logs change nothing.
\<close>

definition read_step ::
    "(nat \<Rightarrow> ('s, byte list) act) \<Rightarrow> ('s \<Rightarrow> int) \<Rightarrow> byte list option \<Rightarrow>
     ('s, byte list option + byte list) act" where
  "read_step rd at_pos data = catchA
     (bindA (try_read_record rd at_pos) (\<lambda>(chunk, t).
        if t = RECORD_TYPE_NONE then seqA (reader_sync rd at_pos) (retA (Inl data))
        else if t = RECORD_TYPE_FULL then retA (Inr chunk)
        else if t = RECORD_TYPE_FIRST then retA (Inl (Some chunk))
        else if t = RECORD_TYPE_MIDDLE then
          (case data of None \<Rightarrow> retA (Inl None) | Some d \<Rightarrow> retA (Inl (Some (d @ chunk))))
        else if t = RECORD_TYPE_LAST then
          (case data of None \<Rightarrow> retA (Inl None) | Some d \<Rightarrow> retA (Inr (d @ chunk)))
        else raiseA InvalidRecordError))
     (\<lambda>e. if e = InvalidRecordError then Some (seqA (reader_sync rd at_pos) (retA (Inl None))) else None)"

text \<open>The loop need not end for an arbitrary reader: \<open>None\<close> is a run that does not return.\<close>

partial_function (option) read_loop ::
    "(nat \<Rightarrow> ('s, byte list) act) \<Rightarrow> ('s \<Rightarrow> int) \<Rightarrow> byte list option \<Rightarrow> 's \<Rightarrow> (byte list res \<times> 's) option" where
  "read_loop rd at_pos data s =
     (case read_step rd at_pos data s of
        (Inl e, s') \<Rightarrow> Some (Inl e, s')
      | (Inr (Inl data'), s') \<Rightarrow> read_loop rd at_pos data' s'
      | (Inr (Inr result), s') \<Rightarrow> Some (Inr result, s'))"

definition reader_read ::
    "(nat \<Rightarrow> ('s, byte list) act) \<Rightarrow> ('s \<Rightarrow> int) \<Rightarrow> 's \<Rightarrow> (byte list res \<times> 's) option" where
  "reader_read rd at_pos = read_loop rd at_pos None"

text \<open>\<open>__iter__\<close>, run to its end: the records it yields and the exception that stops it, if one does.\<close>

partial_function (option) reader_iter ::
    "(nat \<Rightarrow> ('s, byte list) act) \<Rightarrow> ('s \<Rightarrow> int) \<Rightarrow> 's \<Rightarrow> (byte list list \<times> exn option \<times> 's) option" where
  "reader_iter rd at_pos s =
     (case reader_read rd at_pos s of
        None \<Rightarrow> None
      | Some (Inl e, s') \<Rightarrow> Some ([], if e = EOFError then None else Some e, s')
      | Some (Inr x, s') \<Rightarrow>
          Option.bind (reader_iter rd at_pos s') (\<lambda>(xs, stop, s''). Some (x # xs, stop, s'')))"


declare write_rest.simps [simp del]

section \<open>The bytes of a record\<close>

text \<open>
  The format as such: what a record looks like when it is written at a position. A record that does not fit
  the rest of its block is split; at most six zeros fill a block that has no room for a header.
\<close>

definition frame_bytes :: "byte \<Rightarrow> byte list \<Rightarrow> byte list" where
  "frame_bytes t data =
     (let c = mask_crc (record_crc t data); n = length data in
      [ucast c, ucast (drop_bit 8 c), ucast (drop_bit 16 c), ucast (drop_bit 24 c),
       of_nat (n mod 256), of_nat (n div 256), t] @ data)"

abbreviation block_data :: nat where "block_data \<equiv> BLOCK_SIZE - HEADER_LENGTH"

function rest_bytes :: "byte list \<Rightarrow> byte list" where
  "rest_bytes data =
     (if length data \<le> block_data then frame_bytes RECORD_TYPE_LAST data
      else frame_bytes RECORD_TYPE_MIDDLE (take block_data data) @ rest_bytes (drop block_data data))"
  by pat_completeness auto
termination by (relation "measure length") (auto simp: BLOCK_SIZE_def HEADER_LENGTH_def)

declare rest_bytes.simps [simp del]

definition body_bytes :: "nat \<Rightarrow> byte list \<Rightarrow> byte list" where
  "body_bytes remaining data =
     (if length data + HEADER_LENGTH \<le> remaining then frame_bytes RECORD_TYPE_FULL data
      else frame_bytes RECORD_TYPE_FIRST (take (remaining - HEADER_LENGTH) data) @
           rest_bytes (drop (remaining - HEADER_LENGTH) data))"

definition record_bytes :: "nat \<Rightarrow> byte list \<Rightarrow> byte list" where
  "record_bytes p data =
     (if block_remaining p < HEADER_LENGTH
      then zeros (block_remaining p) @ body_bytes BLOCK_SIZE data
      else body_bytes (block_remaining p) data)"

fun stream_bytes :: "nat \<Rightarrow> byte list list \<Rightarrow> byte list" where
  "stream_bytes p [] = []"
| "stream_bytes p (d # ds) = record_bytes p d @ stream_bytes (p + length (record_bytes p d)) ds"

definition pad_bytes :: "nat \<Rightarrow> byte list" where
  "pad_bytes p = (if p mod BLOCK_SIZE = 0 then [] else zeros (block_remaining p))"

text \<open>What a writer leaves behind that is opened, writes the records and is closed.\<close>

definition records_bytes :: "byte list list \<Rightarrow> byte list" where
  "records_bytes ds = stream_bytes 0 ds @ pad_bytes (length (stream_bytes 0 ds))"

lemma length_zeros [simp]: "length (zeros n) = n"
  by (simp add: zeros_def)

lemma length_frame_bytes [simp]: "length (frame_bytes t data) = HEADER_LENGTH + length data"
  by (simp add: frame_bytes_def HEADER_LENGTH_def Let_def)

lemma block_sizes [simp]: "0 < BLOCK_SIZE" "HEADER_LENGTH < BLOCK_SIZE" "HEADER_LENGTH \<le> BLOCK_SIZE" "BLOCK_SIZE < 65536"
  "0 < HEADER_LENGTH"
  by (simp_all add: BLOCK_SIZE_def HEADER_LENGTH_def)

lemma block_remaining_le: "block_remaining p \<le> BLOCK_SIZE"
  by (simp add: block_remaining_def)

lemma block_remaining_aligned [simp]: "block_remaining (p + block_remaining p) = BLOCK_SIZE"
proof -
  have "p mod BLOCK_SIZE \<le> p" "p mod BLOCK_SIZE < BLOCK_SIZE" by simp_all
  then have "p + block_remaining p = p - p mod BLOCK_SIZE + BLOCK_SIZE" by (simp add: block_remaining_def)
  then have "(p + block_remaining p) mod BLOCK_SIZE = 0" by (simp add: minus_mod_eq_mult_div)
  then show ?thesis by (simp add: block_remaining_def)
qed

lemma block_remaining_cong: "p mod BLOCK_SIZE = q mod BLOCK_SIZE \<Longrightarrow> block_remaining p = block_remaining q"
  by (simp add: block_remaining_def)

lemma record_bytes_cong: "p mod BLOCK_SIZE = q mod BLOCK_SIZE \<Longrightarrow> record_bytes p = record_bytes q"
  by (rule ext) (simp add: record_bytes_def block_remaining_cong [of p q])

lemma pad_bytes_cong: "p mod BLOCK_SIZE = q mod BLOCK_SIZE \<Longrightarrow> pad_bytes p = pad_bytes q"
  by (simp add: pad_bytes_def block_remaining_cong [of p q])

lemma stream_bytes_cong: "p mod BLOCK_SIZE = q mod BLOCK_SIZE \<Longrightarrow> stream_bytes p ds = stream_bytes q ds"
proof (induction ds arbitrary: p q)
  case (Cons d ds)
  have "(p + n) mod BLOCK_SIZE = (q + n) mod BLOCK_SIZE" for n
    using Cons.prems by (rule mod_add_cong) simp
  then have "stream_bytes (p + n) ds = stream_bytes (q + n) ds" for n by (rule Cons.IH)
  then show ?case using record_bytes_cong [OF Cons.prems] by simp
qed simp

lemma chunk_of_take: "HEADER_LENGTH \<le> remaining \<Longrightarrow> chunk_of remaining data = take (remaining - HEADER_LENGTH) data"
  by (simp add: chunk_of_def slice_to_def nat_diff_distrib)

section \<open>The header\<close>

lemma unmask_mask_crc: "unmask_crc (mask_crc c) = c"
proof (rule bit_word_eqI)
  fix n assume "n < LENGTH(32)"
  then show "bit (unmask_crc (mask_crc c)) n \<longleftrightarrow> bit c n"
    by (cases "n < 15") (auto simp: unmask_crc_def mask_crc_def Let_def bit_simps dest: bit_imp_le_length)
qed

lemma four_bytes: "ucast (ucast c :: byte) OR push_bit 8 (ucast (ucast (drop_bit 8 c) :: byte)) OR
    push_bit 16 (ucast (ucast (drop_bit 16 c) :: byte)) OR push_bit 24 (ucast (ucast (drop_bit 24 c) :: byte)) = c"
  (is "?word = c") for c :: "32 word"
proof (rule bit_word_eqI)
  fix n assume "n < LENGTH(32)"
  then consider "n < 8" | "8 \<le> n" "n < 16" | "16 \<le> n" "n < 24" | "24 \<le> n" "n < 32" by force
  then show "bit ?word n \<longleftrightarrow> bit c n" by cases (auto simp: bit_simps)
qed

lemma length_bytes:
  assumes "n < 65536"
  shows "unat (of_nat (n mod 256) :: byte) + 256 * unat (of_nat (n div 256) :: byte) = n"
proof -
  have "n div 256 < 256" using assms by (intro less_mult_imp_div_less) simp
  then show ?thesis by (simp add: unat_of_nat)
qed

lemma unpack_frame:
  "length data < 65536 \<Longrightarrow>
     unpack_header (take HEADER_LENGTH (frame_bytes t data)) = (mask_crc (record_crc t data), length data, t)"
  using four_bytes length_bytes
  by (simp add: unpack_header_def frame_bytes_def HEADER_LENGTH_def Let_def)

text \<open>The header itself packs and unpacks without loss; a length beyond 16 bits cannot be packed.\<close>

lemma unpack_pack_header: "pack_header c n t = Inr h \<Longrightarrow> unpack_header h = (c, n, t) \<and> length h = HEADER_LENGTH"
  using four_bytes [of c] length_bytes [of n]
  by (auto simp: pack_header_def unpack_header_def HEADER_LENGTH_def split: if_splits)

lemma record_crc_crc: "record_crc t data = crc (t # data)"
  by (simp add: record_crc_def crc_def crc_update_append)

lemma drop_frame [simp]: "drop HEADER_LENGTH (frame_bytes t data) = data"
  by (simp add: frame_bytes_def HEADER_LENGTH_def Let_def)

lemma pack_header_frame:
  "length data < 65536 \<Longrightarrow>
     \<exists>h. pack_header (mask_crc (record_crc t data)) (length data) t = Inr h \<and> h @ data = frame_bytes t data \<and>
         length h = HEADER_LENGTH"
  by (simp add: pack_header_def frame_bytes_def HEADER_LENGTH_def Let_def)

section \<open>What the writer writes\<close>

text \<open>An action of the writer succeeds, puts the bytes at the end of its file and moves the position past them.\<close>

definition wrote :: "('f \<Rightarrow> byte list) \<Rightarrow> ('f records_writer, unit) act \<Rightarrow> 'f records_writer \<Rightarrow> byte list \<Rightarrow> bool" where
  "wrote written m w bs \<longleftrightarrow> (\<exists>w'. m w = (Inr (), w') \<and> written (w_writer w') = written (w_writer w) @ bs \<and>
     w_position w' = w_position w + length bs \<and> w_entered w' = w_entered w \<and>
     w_pad_last_block w' = w_pad_last_block w)"

lemma wrote_seqA:
  assumes "wrote written m w bs"
    and "\<And>w'. w_position w' = w_position w + length bs \<Longrightarrow> w_entered w' = w_entered w \<Longrightarrow> wrote written n w' cs"
  shows "wrote written (seqA m n) w (bs @ cs)"
proof -
  obtain w' where w': "m w = (Inr (), w')" "written (w_writer w') = written (w_writer w) @ bs"
      "w_position w' = w_position w + length bs" "w_entered w' = w_entered w"
      "w_pad_last_block w' = w_pad_last_block w"
    using assms(1) unfolding wrote_def by blast
  from assms(2) [OF w'(3,4)] obtain w'' where "n w' = (Inr (), w'')" "written (w_writer w'') = written (w_writer w') @ cs"
      "w_position w'' = w_position w' + length cs" "w_entered w'' = w_entered w'"
      "w_pad_last_block w'' = w_pad_last_block w'"
    unfolding wrote_def by blast
  with w' show ?thesis by (simp add: wrote_def)
qed

locale file_writer =
  fixes wr :: "byte list \<Rightarrow> ('f, unit) act" and written :: "'f \<Rightarrow> byte list"
  assumes write_law: "\<exists>f'. wr data f = (Inr (), f') \<and> written f' = written f @ data"
begin

lemma emit_wrote: "wrote written (seqA (w_emit wr bs) (w_advance (length bs))) w bs"
proof -
  obtain f' where "wr bs (w_writer w) = (Inr (), f')" "written f' = written (w_writer w) @ bs"
    using write_law by blast
  then show ?thesis by (simp add: wrote_def seqA_def bindA_def w_emit_def w_advance_def)
qed

lemma write_record_wrote:
  assumes "length data < 65536"
  shows "wrote written (write_record wr t data) w (frame_bytes t data)"
proof -
  obtain h where h: "pack_header (mask_crc (record_crc t data)) (length data) t = Inr h"
      "h @ data = frame_bytes t data" "length h = HEADER_LENGTH"
    using pack_header_frame [OF assms] by blast
  obtain f1 where f1: "wr h (w_writer w) = (Inr (), f1)" "written f1 = written (w_writer w) @ h"
    using write_law by blast
  obtain f2 where f2: "wr data f1 = (Inr (), f2)" "written f2 = written f1 @ data"
    using write_law by blast
  show ?thesis using h(1) f1 f2
    by (simp add: wrote_def write_record_def w_emit_def w_advance_def seqA_def bindA_def flip: h(2))
      (simp add: h(3))
qed

lemma write_rest_wrote:
  "w_position w mod BLOCK_SIZE = 0 \<Longrightarrow> wrote written (write_rest wr data) w (rest_bytes data)"
proof (induction data arbitrary: w rule: rest_bytes.induct)
  case (1 data)
  have remaining: "block_remaining (w_position w) = BLOCK_SIZE" using 1(2) by (simp add: block_remaining_def)
  show ?case
  proof (cases "length data \<le> block_data")
    case True
    then have fits: "length data + HEADER_LENGTH \<le> BLOCK_SIZE" by (simp add: le_diff_conv2)
    then have "length data < 65536" using block_sizes(4) by linarith
    then show ?thesis using True fits remaining write_record_wrote
      by (simp add: wrote_def write_rest.simps [of wr data w] rest_bytes.simps [of data])
  next
    case False
    let ?chunk = "take block_data data"
    have chunk: "chunk_of BLOCK_SIZE data = ?chunk" "length ?chunk = block_data"
      using False by (simp_all add: chunk_of_take)
    have big: "\<not> length data + HEADER_LENGTH \<le> BLOCK_SIZE" using False by linarith
    have "wrote written (seqA (write_record wr RECORD_TYPE_MIDDLE ?chunk) (write_rest wr (drop block_data data)))
        w (frame_bytes RECORD_TYPE_MIDDLE ?chunk @ rest_bytes (drop block_data data))"
    proof (rule wrote_seqA)
      show "wrote written (write_record wr RECORD_TYPE_MIDDLE ?chunk) w (frame_bytes RECORD_TYPE_MIDDLE ?chunk)"
        by (rule write_record_wrote) (use chunk(2) block_sizes(4) in linarith)
      fix w' :: "'f records_writer" assume "w_position w' = w_position w + length (frame_bytes RECORD_TYPE_MIDDLE ?chunk)"
      then have "w_position w' = w_position w + BLOCK_SIZE" using chunk(2) by simp
      then have "w_position w' mod BLOCK_SIZE = 0" using 1(2) by simp
      with False show "wrote written (write_rest wr (drop block_data data)) w' (rest_bytes (drop block_data data))"
        by (rule 1(1))
    qed
    moreover have "write_rest wr data w =
        seqA (write_record wr RECORD_TYPE_MIDDLE ?chunk) (write_rest wr (drop block_data data)) w"
      using big remaining chunk
      by (subst write_rest.simps) (simp add: Let_def seqA_def bindA_def split: sum.splits prod.splits)
    ultimately show ?thesis using False by (simp add: wrote_def rest_bytes.simps [of data])
  qed
qed

lemma write_body_wrote:
  assumes r: "block_remaining (w_position w) = remaining" "HEADER_LENGTH \<le> remaining"
  shows "wrote written (write_body wr data remaining) w (body_bytes remaining data)"
proof -
  have le: "remaining \<le> BLOCK_SIZE" using r(1) block_remaining_le by metis
  show ?thesis
  proof (cases "length data + HEADER_LENGTH \<le> remaining")
    case True
    then have "length data < 65536" using le block_sizes(4) by linarith
    with True show ?thesis using write_record_wrote by (simp add: write_body_def body_bytes_def)
  next
    case False
    let ?n = "remaining - HEADER_LENGTH"
    have chunk: "chunk_of remaining data = take ?n data" "length (take ?n data) = ?n"
      using False r(2) by (simp_all add: chunk_of_take)
    have "wrote written (seqA (write_record wr RECORD_TYPE_FIRST (take ?n data)) (write_rest wr (drop ?n data)))
        w (frame_bytes RECORD_TYPE_FIRST (take ?n data) @ rest_bytes (drop ?n data))"
    proof (rule wrote_seqA)
      show "wrote written (write_record wr RECORD_TYPE_FIRST (take ?n data)) w
          (frame_bytes RECORD_TYPE_FIRST (take ?n data))"
        by (rule write_record_wrote) (use chunk(2) le block_sizes(4) in linarith)
      fix w' :: "'f records_writer" assume "w_position w' = w_position w + length (frame_bytes RECORD_TYPE_FIRST (take ?n data))"
      then have "w_position w' = w_position w + block_remaining (w_position w)" using chunk(2) r by simp
      then have "block_remaining (w_position w') = BLOCK_SIZE" by simp
      then have "w_position w' mod BLOCK_SIZE = 0"
        using mod_less_divisor [OF block_sizes(1), of "w_position w'"] unfolding block_remaining_def by linarith
      then show "wrote written (write_rest wr (drop ?n data)) w' (rest_bytes (drop ?n data))"
        by (rule write_rest_wrote)
    qed
    with False chunk show ?thesis by (simp add: write_body_def body_bytes_def)
  qed
qed

lemma writer_write_wrote:
  assumes "w_entered w"
  shows "wrote written (writer_write wr data) w (record_bytes (w_position w) data)"
proof -
  let ?r = "block_remaining (w_position w)"
  have run: "writer_write wr data w =
      (if ?r < HEADER_LENGTH
       then seqA (seqA (w_emit wr (zeros ?r)) (w_advance (length (zeros ?r)))) (write_body wr data BLOCK_SIZE) w
       else write_body wr data ?r w)"
    using assms by (simp add: writer_write_def Let_def)
  show ?thesis
  proof (cases "?r < HEADER_LENGTH")
    case True
    have "wrote written (seqA (seqA (w_emit wr (zeros ?r)) (w_advance (length (zeros ?r)))) (write_body wr data BLOCK_SIZE))
        w (zeros ?r @ body_bytes BLOCK_SIZE data)"
      by (rule wrote_seqA [OF emit_wrote]) (rule write_body_wrote, simp_all)
    with True run show ?thesis by (simp add: wrote_def record_bytes_def)
  next
    case False
    with run write_body_wrote [of w ?r data] show ?thesis by (simp add: wrote_def record_bytes_def)
  qed
qed

lemma writer_writes_wrote:
  "w_entered w \<Longrightarrow> wrote written (forA (writer_write wr) ds) w (stream_bytes (w_position w) ds)"
proof (induction ds arbitrary: w)
  case Nil
  show ?case by (simp add: wrote_def)
next
  case (Cons d ds)
  have "wrote written (seqA (writer_write wr d) (forA (writer_write wr) ds)) w
      (record_bytes (w_position w) d @ stream_bytes (w_position w + length (record_bytes (w_position w) d)) ds)"
  proof (rule wrote_seqA [OF writer_write_wrote [OF Cons.prems]])
    fix w' :: "'f records_writer" assume w': "w_position w' = w_position w + length (record_bytes (w_position w) d)"
      "w_entered w' = w_entered w"
    then have "w_entered w'" using Cons.prems by simp
    then have "wrote written (forA (writer_write wr) ds) w' (stream_bytes (w_position w') ds)" by (rule Cons.IH)
    then show "wrote written (forA (writer_write wr) ds) w'
        (stream_bytes (w_position w + length (record_bytes (w_position w) d)) ds)" by (simp only: w'(1))
  qed
  then show ?case by simp
qed

lemma writer_close_pads:
  assumes "w_pad_last_block w"
  shows "\<exists>w'. writer_close wr w = (Inr (), w') \<and>
              written (w_writer w') = written (w_writer w) @ pad_bytes (w_position w)"
proof -
  obtain f where f: "wr (zeros (block_remaining (w_position w))) (w_writer w) = (Inr (), f)"
      "written f = written (w_writer w) @ zeros (block_remaining (w_position w))"
    using write_law by blast
  have "block_remaining (w_position w) = BLOCK_SIZE \<longleftrightarrow> w_position w mod BLOCK_SIZE = 0"
    using mod_less_divisor [OF block_sizes(1), of "w_position w"] unfolding block_remaining_def by linarith
  with f assms show ?thesis using block_remaining_pos(1) [of "w_position w"]
    by (simp add: writer_close_def Let_def w_emit_def pad_bytes_def)
qed

text \<open>A writer opened on a file, given records and closed appends exactly the bytes of the format.\<close>

lemma writer_session:
  "\<exists>f'. with_records_writer wr True (forA (writer_write wr) ds) f = (Inr (), f') \<and> written f' = written f @ records_bytes ds"
proof -
  let ?w = "records_writer_init f True\<lparr>w_entered := True\<rparr>"
  have "wrote written (forA (writer_write wr) ds) ?w (stream_bytes (w_position ?w) ds)"
    by (rule writer_writes_wrote) (simp add: records_writer_init_def)
  then obtain w1 where w1: "forA (writer_write wr) ds ?w = (Inr (), w1)" "written (w_writer w1) = written f @ stream_bytes 0 ds"
      "w_position w1 = length (stream_bytes 0 ds)" "w_pad_last_block w1"
    by (auto simp: wrote_def records_writer_init_def)
  obtain w2 where w2: "writer_close wr w1 = (Inr (), w2)" "written (w_writer w2) = written (w_writer w1) @ pad_bytes (w_position w1)"
    using writer_close_pads [of w1] w1(4) by blast
  have "writer_enter (records_writer_init f True) = (Inr (), ?w)" by (simp add: writer_enter_def)
  with w1 w2 show ?thesis by (simp add: with_records_writer_def records_bytes_def)
qed

end

section \<open>Agreement\<close>

text \<open>Two runs on states that stand at the same place: the results are equal, and so are the new places.\<close>

definition agree :: "('s \<Rightarrow> nat \<Rightarrow> bool) \<Rightarrow> 'a res \<times> 's \<Rightarrow> 'a res \<times> nat \<Rightarrow> bool" where
  "agree stands x y \<longleftrightarrow> fst x = fst y \<and> stands (snd x) (snd y)"

definition plain_read :: "byte list \<Rightarrow> nat \<Rightarrow> (nat, byte list) act" where
  "plain_read c n p = (Inr (take n (drop p c)), p + length (take n (drop p c)))"

lemma agree_basic:
  "stands s p \<Longrightarrow> agree stands (retA x s) (retA x p)"
  "stands s p \<Longrightarrow> agree stands (raiseA e s) (raiseA e p)"
  "stands s p \<Longrightarrow> agree stands (r, s) (r, p)"
  by (simp_all add: agree_def)

lemma agree_bindA:
  assumes "agree stands (m s) (m' p)" "\<And>x s' p'. stands s' p' \<Longrightarrow> agree stands (f x s') (f' x p')"
  shows "agree stands (bindA m f s) (bindA m' f' p)"
  using assms by (cases "m s"; cases "m' p") (auto simp: agree_def bindA_def split: sum.splits)

lemma agree_seqA:
  assumes "agree stands (m s) (m' p)" "\<And>s' p'. stands s' p' \<Longrightarrow> agree stands (f s') (f' p')"
  shows "agree stands (seqA m f s) (seqA m' f' p)"
  unfolding seqA_def using assms by (rule agree_bindA)

lemma agree_catchA:
  assumes "agree stands (m s) (m' p)"
    and "\<And>e s' p'. stands s' p' \<Longrightarrow> (case h e of None \<Rightarrow> h' e = None | Some a \<Rightarrow> \<exists>a'. h' e = Some a' \<and> agree stands (a s') (a' p'))"
  shows "agree stands (catchA m h s) (catchA m' h' p)"
proof -
  obtain r s' p' where run: "m s = (r, s')" "m' p = (r, p')" "stands s' p'"
    using assms(1) by (cases "m s"; cases "m' p") (auto simp: agree_def)
  show ?thesis
  proof (cases r)
    case (Inl e)
    then show ?thesis using run assms(2) [OF run(3), of e]
      by (auto simp: catchA_def agree_def split: option.splits)
  next
    case (Inr x)
    then show ?thesis using run by (simp add: catchA_def agree_def)
  qed
qed

section \<open>What the reader reads\<close>

text \<open>
  The promise of a \<open>FileReader\<close>: standing at offset \<open>p\<close> of a content (\<open>stands s p\<close>), it tells \<open>p\<close>, and a read of
  \<open>n\<close> bytes gives the slice of the content at \<open>p\<close> and moves past it.
\<close>

locale file_reader =
  fixes rd :: "nat \<Rightarrow> ('s, byte list) act" and at_pos :: "'s \<Rightarrow> int"
    and stands :: "'s \<Rightarrow> nat \<Rightarrow> bool" and content :: "byte list"
  assumes tell_law: "stands s p \<Longrightarrow> at_pos s = int p"
    and read_law: "stands s p \<Longrightarrow> \<exists>s'. rd n s = (Inr (take n (drop p content)), s') \<and>
                     stands s' (p + length (take n (drop p content)))"
begin

lemma stands_unique: "stands s p \<Longrightarrow> stands s q \<Longrightarrow> p = q"
proof -
  assume "stands s p" "stands s q"
  then have "int p = int q" using tell_law by metis
  then show ?thesis by simp
qed

lemma remaining_at: "stands s p \<Longrightarrow> reader_remaining at_pos s = int (block_remaining p)"
  using mod_less_divisor [OF block_sizes(1), of p]
  by (simp add: reader_remaining_def block_remaining_def tell_law of_nat_diff flip: of_nat_mod)

text \<open>A read of bytes that are there.\<close>

lemma read_present:
  assumes "stands s p" and "drop p content = bs @ rest"
  obtains s' where "rd (length bs) s = (Inr bs, s')" "stands s' (p + length bs)" "drop (p + length bs) content = rest"
proof -
  obtain s' where s': "rd (length bs) s = (Inr (take (length bs) (drop p content)), s')"
      "stands s' (p + length (take (length bs) (drop p content)))"
    using read_law [OF assms(1)] by blast
  have "drop (p + length bs) content = drop (length bs) (drop p content)" by (simp add: add.commute)
  then have "drop (p + length bs) content = rest" by (simp add: assms(2))
  with s' show ?thesis by (intro that [of s']) (simp_all add: assms(2))
qed

lemma sync_aligned: "stands s p \<Longrightarrow> p mod BLOCK_SIZE = 0 \<Longrightarrow> reader_sync rd at_pos s = (Inr (), s)"
  using remaining_at [of s p] by (simp add: reader_sync_def block_remaining_def)

lemma sync_zeros:
  assumes "stands s p" "p mod BLOCK_SIZE \<noteq> 0" "drop p content = bs @ rest" "length bs = block_remaining p"
  obtains s' where "reader_sync rd at_pos s = (Inr (), s')" "stands s' (p + block_remaining p)"
    "drop (p + block_remaining p) content = rest"
proof -
  obtain s' where s': "rd (length bs) s = (Inr bs, s')" "stands s' (p + length bs)" "drop (p + length bs) content = rest"
    using read_present [OF assms(1,3)] .
  have "block_remaining p \<noteq> BLOCK_SIZE"
    using assms(2) mod_less_divisor [OF block_sizes(1), of p] unfolding block_remaining_def by linarith
  then have "reader_sync rd at_pos s = (Inr (), s')"
    using s'(1) block_remaining_pos(1) [of p] assms(4)
    by (simp add: reader_sync_def remaining_at [OF assms(1)] Let_def bindA_def)
  with s' assms(4) show ?thesis by (intro that [of s']) simp_all
qed

subsection \<open>Progress\<close>

text \<open>
  Every operation either meets the end of the file or moves forward inside it.
\<close>

definition moved :: "nat \<Rightarrow> 's \<Rightarrow> nat \<Rightarrow> bool" where
  "moved p s q \<longleftrightarrow> stands s q \<and> p < q \<and> q \<le> length content"

lemma sync_progress:
  assumes "stands s p" "p \<le> length content"
  shows "(\<exists>s'. reader_sync rd at_pos s = (Inl EOFError, s')) \<or>
         (p mod BLOCK_SIZE = 0 \<and> reader_sync rd at_pos s = (Inr (), s)) \<or>
         (\<exists>s' q. reader_sync rd at_pos s = (Inr (), s') \<and> moved p s' q)"
proof (cases "p mod BLOCK_SIZE = 0")
  case True
  with sync_aligned [OF assms(1)] show ?thesis by blast
next
  case False
  let ?n = "block_remaining p"
  have n: "?n \<noteq> BLOCK_SIZE" "0 < ?n"
    using False mod_less_divisor [OF block_sizes(1), of p] unfolding block_remaining_def by linarith+
  obtain s' where s': "rd ?n s = (Inr (take ?n (drop p content)), s')" "stands s' (p + length (take ?n (drop p content)))"
    using read_law [OF assms(1)] by blast
  have run: "reader_sync rd at_pos s =
      (if length (take ?n (drop p content)) \<noteq> ?n then Inl EOFError else Inr (), s')"
    using n s'(1) by (simp add: reader_sync_def remaining_at [OF assms(1)] Let_def bindA_def)
  show ?thesis
  proof (cases "length (take ?n (drop p content)) = ?n")
    case True
    then have "moved p s' (p + ?n)" using s'(2) n(2) assms(2) unfolding moved_def by (auto simp: min_def split: if_splits)
    with run True show ?thesis by auto
  next
    case False
    with run show ?thesis by auto
  qed
qed

lemma try_read_progress:
  assumes "stands s p" "p \<le> length content"
  shows "(try_read_record rd at_pos s = (Inr ([], RECORD_TYPE_NONE), s) \<and> p mod BLOCK_SIZE \<noteq> 0) \<or>
         (\<exists>s'. try_read_record rd at_pos s = (Inl EOFError, s')) \<or>
         (\<exists>s' q r. try_read_record rd at_pos s = (r, s') \<and> moved p s' q \<and> (r = Inl InvalidRecordError \<or> (\<exists>x. r = Inr x)))"
proof (cases "block_remaining p < HEADER_LENGTH")
  case True
  then have "p mod BLOCK_SIZE \<noteq> 0" using block_sizes(2) unfolding block_remaining_def by (intro notI) simp
  with True show ?thesis by (simp add: try_read_record_def remaining_at [OF assms(1)])
next
  case False
  let ?h = "take HEADER_LENGTH (drop p content)"
  obtain s1 where s1: "rd HEADER_LENGTH s = (Inr ?h, s1)" "stands s1 (p + length ?h)" using read_law [OF assms(1)] by blast
  obtain masked n t where h: "unpack_header ?h = (masked, n, t)" by (cases "unpack_header ?h")
  obtain s2 where s2: "rd n s1 = (Inr (take n (drop (p + length ?h) content)), s2)"
      "stands s2 (p + length ?h + length (take n (drop (p + length ?h) content)))" using read_law [OF s1(2)] by blast
  have moved: "moved p s1 (p + length ?h)"
      "moved p s2 (p + length ?h + length (take n (drop (p + length ?h) content)))" if "length ?h = HEADER_LENGTH"
    using that s1(2) s2(2) block_sizes(5) assms(2) unfolding moved_def by (auto simp: min_def split: if_splits)
  let ?d = "take n (drop (p + length ?h) content)"
  have run: "try_read_record rd at_pos s =
      (if length ?h \<noteq> HEADER_LENGTH then (Inl EOFError, s1)
       else if int (n + HEADER_LENGTH) > int (block_remaining p) then (Inl InvalidRecordError, s1)
       else if length ?d \<noteq> n then (Inl EOFError, s2)
       else if t = RECORD_TYPE_NONE then (Inr ([], t), s2)
       else if record_crc t ?d \<noteq> unmask_crc masked then (Inl InvalidRecordError, s2)
       else (Inr (?d, t), s2))"
    unfolding try_read_record_def Let_def remaining_at [OF assms(1)] bindA_def s1(1) prod.case sum.case
    using False by (simp add: h s2(1))
  show ?thesis
  proof (cases "length ?h = HEADER_LENGTH")
    case False
    then have "try_read_record rd at_pos s = (Inl EOFError, s1)" using run by metis
    then show ?thesis by blast
  next
    case True
    show ?thesis unfolding run using moved [OF True] True by auto
  qed
qed


lemma step_progress:
  assumes "stands s p" "p \<le> length content"
  shows "(\<exists>s'. read_step rd at_pos data s = (Inl EOFError, s')) \<or>
         (\<exists>s' q x. read_step rd at_pos data s = (Inr x, s') \<and> moved p s' q)"
proof -
  have resync: "(\<exists>s''. seqA (reader_sync rd at_pos) (retA y) s' = (Inl EOFError, s'')) \<or>
        (\<exists>s'' q. seqA (reader_sync rd at_pos) (retA y) s' = (Inr y, s'') \<and> moved p s'' q)"
    if "moved p s' q" for s' q and y :: "byte list option + byte list"
    using sync_progress [of s' q] that unfolding moved_def by (auto simp: seqA_def bindA_def)
  consider (skip) "try_read_record rd at_pos s = (Inr ([], RECORD_TYPE_NONE), s)" "p mod BLOCK_SIZE \<noteq> 0"
    | (eof) s' where "try_read_record rd at_pos s = (Inl EOFError, s')"
    | (bad) s' q where "try_read_record rd at_pos s = (Inl InvalidRecordError, s')" "moved p s' q"
    | (good) s' q chunk t where "try_read_record rd at_pos s = (Inr (chunk, t), s')" "moved p s' q"
    using try_read_progress [OF assms] by (metis surj_pair)
  then show ?thesis
  proof cases
    case skip
    with sync_progress [OF assms] show ?thesis by (auto simp: read_step_def catchA_def bindA_def seqA_def)
  next
    case eof
    then show ?thesis by (simp add: read_step_def catchA_def bindA_def)
  next
    case bad
    then show ?thesis using resync [OF bad(2), of "Inl None"] by (auto simp: read_step_def catchA_def bindA_def)
  next
    case good
    let ?body = "if t = RECORD_TYPE_NONE then seqA (reader_sync rd at_pos) (retA (Inl data))
        else if t = RECORD_TYPE_FULL then retA (Inr chunk)
        else if t = RECORD_TYPE_FIRST then retA (Inl (Some chunk))
        else if t = RECORD_TYPE_MIDDLE then
          (case data of None \<Rightarrow> retA (Inl None) | Some d \<Rightarrow> retA (Inl (Some (d @ chunk))))
        else if t = RECORD_TYPE_LAST then
          (case data of None \<Rightarrow> retA (Inl None) | Some d \<Rightarrow> retA (Inr (d @ chunk)))
        else raiseA InvalidRecordError"
    have run: "read_step rd at_pos data s = catchA ?body (\<lambda>e. if e = InvalidRecordError
        then Some (seqA (reader_sync rd at_pos) (retA (Inl None))) else None) s'"
      using good(1) by (simp add: read_step_def catchA_def bindA_def)
    show ?thesis
    proof (cases "t = RECORD_TYPE_NONE")
      case True
      with run show ?thesis using resync [OF good(2), of "Inl data"] by (auto simp: catchA_def)
    next
      case False
      show ?thesis unfolding run using False good(2) resync [OF good(2), of "Inl None"]
        by (auto simp: catchA_def split: option.splits)
    qed
  qed
qed

text \<open>A read returns: a record, with the reader further on, or the end of the file.\<close>

lemma read_loop_returns:
  assumes "stands s p" "p \<le> length content"
  shows "(\<exists>s'. read_loop rd at_pos data s = Some (Inl EOFError, s')) \<or>
         (\<exists>s' q x. read_loop rd at_pos data s = Some (Inr x, s') \<and> moved p s' q)"
  using assms
proof (induction "length content - p" arbitrary: s p data rule: less_induct)
  case less
  from step_progress [OF less.prems, of data] consider
      (eof) s' where "read_step rd at_pos data s = (Inl EOFError, s')"
    | (go) s' q data' where "read_step rd at_pos data s = (Inr (Inl data'), s')" "moved p s' q"
    | (return) s' q x where "read_step rd at_pos data s = (Inr (Inr x), s')" "moved p s' q"
    by (metis sum.exhaust)
  then show ?case
  proof cases
    case eof
    then show ?thesis by (subst (1 2) read_loop.simps) simp
  next
    case go
    then have "length content - q < length content - p" "stands s' q" "q \<le> length content" "p < q"
      by (auto simp: moved_def)
    from less.hyps [OF this(1-3), of data'] have "(\<exists>s''. read_loop rd at_pos data' s' = Some (Inl EOFError, s'')) \<or>
        (\<exists>s'' q' x. read_loop rd at_pos data' s' = Some (Inr x, s'') \<and> moved p s'' q')"
      using \<open>p < q\<close> by (auto simp: moved_def intro: less_trans)
    moreover have "read_loop rd at_pos data s = read_loop rd at_pos data' s'"
      using go(1) by (subst read_loop.simps) simp
    ultimately show ?thesis by simp
  next
    case return
    then have "read_loop rd at_pos data s = Some (Inr x, s')" by (subst read_loop.simps) simp
    with return(2) show ?thesis by blast
  qed
qed

text \<open>Reading a whole file returns, whatever its bytes are: no content makes the reader loop or raise.\<close>

lemma iter_returns:
  assumes "stands s p" "p \<le> length content"
  shows "\<exists>xs s'. reader_iter rd at_pos s = Some (xs, None, s')"
  using assms
proof (induction "length content - p" arbitrary: s p rule: less_induct)
  case less
  from read_loop_returns [OF less.prems, of None] show ?case
  proof (elim disjE exE conjE)
    fix s' assume "read_loop rd at_pos None s = Some (Inl EOFError, s')"
    then show ?thesis by (subst reader_iter.simps) (simp add: reader_read_def)
  next
    fix s' q x assume step: "read_loop rd at_pos None s = Some (Inr x, s')" and "moved p s' q"
    then have "length content - q < length content - p" "stands s' q" "q \<le> length content"
      by (auto simp: moved_def)
    from less.hyps [OF this] obtain xs s'' where "reader_iter rd at_pos s' = Some (xs, None, s'')" by blast
    with step have "reader_iter rd at_pos s = Some (x # xs, None, s'')"
      by (subst reader_iter.simps) (simp add: reader_read_def)
    then show ?thesis by blast
  qed
qed


subsection \<open>Reading what was written\<close>

lemma take_header: "take HEADER_LENGTH (frame_bytes t d) @ d = frame_bytes t d"
  using append_take_drop_id [of HEADER_LENGTH "frame_bytes t d"] by simp

lemma try_read_data:
  assumes s: "stands s p" and content: "drop p content = take HEADER_LENGTH (frame_bytes t d) @ d' @ rest"
    and "length d' = length d" and fits: "length d + HEADER_LENGTH \<le> block_remaining p" and t: "t \<noteq> RECORD_TYPE_NONE"
  obtains s' where "stands s' (p + (HEADER_LENGTH + length d))"
    "try_read_record rd at_pos s =
       (if record_crc t d' = record_crc t d then Inr (d', t) else Inl InvalidRecordError, s')"
    "drop (p + (HEADER_LENGTH + length d)) content = rest"
proof -
  let ?h = "take HEADER_LENGTH (frame_bytes t d)"
  have lenh: "length ?h = HEADER_LENGTH" by simp
  obtain s1 where s1: "rd (length ?h) s = (Inr ?h, s1)" "stands s1 (p + length ?h)"
      "drop (p + length ?h) content = d' @ rest" using read_present [OF s content] .
  obtain s2 where s2: "rd (length d') s1 = (Inr d', s2)" "stands s2 (p + length ?h + length d')"
      "drop (p + length ?h + length d') content = rest" using read_present [OF s1(2,3)] .
  have "length d < 65536" using fits block_remaining_le [of p] block_sizes(4) by linarith
  then have unpack: "unpack_header ?h = (mask_crc (record_crc t d), length d, t)" by (rule unpack_frame)
  have "\<not> block_remaining p < HEADER_LENGTH" using fits by linarith
  then have "try_read_record rd at_pos s =
       (if record_crc t d' = record_crc t d then Inr (d', t) else Inl InvalidRecordError, s2)"
    using s1(1) s2(1) lenh unpack fits t assms(3)
    by (simp add: try_read_record_def remaining_at [OF s] bindA_def unmask_mask_crc)
  with s2 show ?thesis using lenh assms(3) by (intro that [of s2]) (simp_all add: add.assoc)
qed

lemma try_read_frame:
  assumes s: "stands s p" and content: "drop p content = frame_bytes t d @ rest"
    and "length d + HEADER_LENGTH \<le> block_remaining p" "t \<noteq> RECORD_TYPE_NONE"
  obtains s' where "stands s' (p + length (frame_bytes t d))" "try_read_record rd at_pos s = (Inr (d, t), s')"
    "drop (p + length (frame_bytes t d)) content = rest"
proof -
  have "drop p content = take HEADER_LENGTH (frame_bytes t d) @ d @ rest"
    using content by (simp only: append_assoc [symmetric] take_header)
  then obtain s' where "stands s' (p + (HEADER_LENGTH + length d))"
      "try_read_record rd at_pos s = (if record_crc t d = record_crc t d then Inr (d, t) else Inl InvalidRecordError, s')"
      "drop (p + (HEADER_LENGTH + length d)) content = rest"
    using try_read_data [OF s _ refl assms(3,4)] by blast
  then show ?thesis by (intro that [of s']) simp_all
qed

lemmas read_record_step = read_step_def catchA_def bindA_def record_types

lemma read_rest:
  assumes "stands s p" "p mod BLOCK_SIZE = 0" "drop p content = rest_bytes d @ rest"
  shows "\<exists>s'. read_loop rd at_pos (Some acc) s = Some (Inr (acc @ d), s') \<and>
              stands s' (p + length (rest_bytes d)) \<and> drop (p + length (rest_bytes d)) content = rest"
  using assms
proof (induction d arbitrary: s p acc rule: rest_bytes.induct)
  case (1 d)
  have remaining: "block_remaining p = BLOCK_SIZE" using 1(3) by (simp add: block_remaining_def)
  show ?case
  proof (cases "length d \<le> block_data")
    case True
    then have bytes: "rest_bytes d = frame_bytes RECORD_TYPE_LAST d" by (simp add: rest_bytes.simps [of d])
    have fits: "length d + HEADER_LENGTH \<le> block_remaining p" using True remaining by (simp add: le_diff_conv2)
    obtain s' where s': "stands s' (p + length (frame_bytes RECORD_TYPE_LAST d))"
        "try_read_record rd at_pos s = (Inr (d, RECORD_TYPE_LAST), s')"
        "drop (p + length (frame_bytes RECORD_TYPE_LAST d)) content = rest"
      by (rule try_read_frame [OF 1(2) _ fits, of RECORD_TYPE_LAST rest])
        (use 1(4) bytes in \<open>simp_all add: record_types\<close>)
    then have "read_step rd at_pos (Some acc) s = (Inr (Inr (acc @ d)), s')" by (simp add: read_record_step)
    then have "read_loop rd at_pos (Some acc) s = Some (Inr (acc @ d), s')" by (subst read_loop.simps) simp
    with s' bytes show ?thesis by auto
  next
    case False
    let ?chunk = "take block_data d" and ?d = "drop block_data d"
    have bytes: "rest_bytes d = frame_bytes RECORD_TYPE_MIDDLE ?chunk @ rest_bytes ?d"
      using False by (simp add: rest_bytes.simps [of d])
    have len: "length ?chunk = block_data" using False by simp
    have fits: "length ?chunk + HEADER_LENGTH \<le> block_remaining p" using len remaining block_sizes(2) by linarith
    obtain s' where s': "stands s' (p + length (frame_bytes RECORD_TYPE_MIDDLE ?chunk))"
        "try_read_record rd at_pos s = (Inr (?chunk, RECORD_TYPE_MIDDLE), s')"
        "drop (p + length (frame_bytes RECORD_TYPE_MIDDLE ?chunk)) content = rest_bytes ?d @ rest"
      by (rule try_read_frame [OF 1(2) _ fits, of RECORD_TYPE_MIDDLE "rest_bytes ?d @ rest"])
        (use 1(4) bytes in \<open>simp_all add: record_types\<close>)
    have block: "length (frame_bytes RECORD_TYPE_MIDDLE ?chunk) = BLOCK_SIZE" using len block_sizes(2) by simp
    from s' have "read_step rd at_pos (Some acc) s = (Inr (Inl (Some (acc @ ?chunk))), s')"
      by (simp add: read_record_step)
    then have step: "read_loop rd at_pos (Some acc) s = read_loop rd at_pos (Some (acc @ ?chunk)) s'"
      by (subst read_loop.simps) simp
    have "(p + BLOCK_SIZE) mod BLOCK_SIZE = 0" using 1(3) by simp
    from 1(1) [OF False s'(1) [unfolded block] this s'(3) [unfolded block], of "acc @ ?chunk"]
    show ?thesis using step bytes block by (simp add: add.assoc)
  qed
qed

lemma read_body:
  assumes s: "stands s p" and r: "block_remaining p = remaining" "HEADER_LENGTH \<le> remaining"
    and content: "drop p content = body_bytes remaining d @ rest"
  shows "\<exists>s'. read_loop rd at_pos data s = Some (Inr d, s') \<and>
              stands s' (p + length (body_bytes remaining d)) \<and> drop (p + length (body_bytes remaining d)) content = rest"
proof (cases "length d + HEADER_LENGTH \<le> remaining")
  case True
  then have bytes: "body_bytes remaining d = frame_bytes RECORD_TYPE_FULL d" by (simp add: body_bytes_def)
  obtain s' where s': "stands s' (p + length (frame_bytes RECORD_TYPE_FULL d))"
      "try_read_record rd at_pos s = (Inr (d, RECORD_TYPE_FULL), s')"
      "drop (p + length (frame_bytes RECORD_TYPE_FULL d)) content = rest"
    by (rule try_read_frame [OF s, of RECORD_TYPE_FULL d rest])
      (use content bytes True r in \<open>simp_all add: record_types\<close>)
  then have "read_step rd at_pos data s = (Inr (Inr d), s')" by (simp add: read_record_step)
  then have "read_loop rd at_pos data s = Some (Inr d, s')" by (subst read_loop.simps) simp
  with s' bytes show ?thesis by auto
next
  case False
  let ?n = "remaining - HEADER_LENGTH"
  have bytes: "body_bytes remaining d = frame_bytes RECORD_TYPE_FIRST (take ?n d) @ rest_bytes (drop ?n d)"
    using False by (simp add: body_bytes_def)
  have len: "length (take ?n d) = ?n" using False by simp
  have block: "length (frame_bytes RECORD_TYPE_FIRST (take ?n d)) = block_remaining p" using len r by simp
  obtain s' where s': "stands s' (p + length (frame_bytes RECORD_TYPE_FIRST (take ?n d)))"
      "try_read_record rd at_pos s = (Inr (take ?n d, RECORD_TYPE_FIRST), s')"
      "drop (p + length (frame_bytes RECORD_TYPE_FIRST (take ?n d))) content = rest_bytes (drop ?n d) @ rest"
    by (rule try_read_frame [OF s, of RECORD_TYPE_FIRST "take ?n d" "rest_bytes (drop ?n d) @ rest"])
      (use content bytes len r in \<open>simp_all add: record_types\<close>)
  from s' have "read_step rd at_pos data s = (Inr (Inl (Some (take ?n d))), s')" by (simp add: read_record_step)
  then have step: "read_loop rd at_pos data s = read_loop rd at_pos (Some (take ?n d)) s'"
    by (subst read_loop.simps) simp
  have "block_remaining (p + block_remaining p) = BLOCK_SIZE" by simp
  then have "(p + block_remaining p) mod BLOCK_SIZE = 0"
    using mod_less_divisor [OF block_sizes(1), of "p + block_remaining p"]
    unfolding block_remaining_def [of "p + block_remaining p"] by linarith
  from read_rest [OF s'(1) [unfolded block] this s'(3) [unfolded block], of "take ?n d"]
  show ?thesis using step bytes block by (simp add: add.assoc)
qed

text \<open>Zeros up to the end of the block are skipped.\<close>

lemma skip_zeros:
  assumes s: "stands s p" and "p mod BLOCK_SIZE \<noteq> 0"
    and content: "drop p content = zeros (block_remaining p) @ rest"
  shows "\<exists>s'. read_loop rd at_pos data s = read_loop rd at_pos data s' \<and>
              stands s' (p + block_remaining p) \<and> drop (p + block_remaining p) content = rest"
proof (cases "block_remaining p < HEADER_LENGTH")
  case True
  obtain s' where s': "reader_sync rd at_pos s = (Inr (), s')" "stands s' (p + block_remaining p)"
      "drop (p + block_remaining p) content = rest"
    using sync_zeros [OF s assms(2) content] by auto
  have "try_read_record rd at_pos s = (Inr ([], RECORD_TYPE_NONE), s)"
    using True by (simp add: try_read_record_def remaining_at [OF s])
  with s'(1) have "read_step rd at_pos data s = (Inr (Inl data), s')" by (simp add: read_record_step seqA_def)
  then have "read_loop rd at_pos data s = read_loop rd at_pos data s'" by (subst read_loop.simps) simp
  with s' show ?thesis by blast
next
  case False
  let ?r = "block_remaining p - HEADER_LENGTH"
  have "zeros (block_remaining p) = zeros HEADER_LENGTH @ zeros ?r"
    using False by (simp add: zeros_def flip: replicate_add)
  then have split: "drop p content = zeros HEADER_LENGTH @ zeros ?r @ rest" using content by simp
  obtain s1 where s1: "rd HEADER_LENGTH s = (Inr (zeros HEADER_LENGTH), s1)" "stands s1 (p + HEADER_LENGTH)"
      "drop (p + HEADER_LENGTH) content = zeros ?r @ rest"
    using read_present [OF s split] by auto
  obtain s2 where s2: "rd 0 s1 = (Inr [], s2)" "stands s2 (p + HEADER_LENGTH)"
    using read_law [OF s1(2), of 0] by auto
  have "unpack_header (zeros HEADER_LENGTH) = (0, 0, 0)"
    by (simp add: unpack_header_def zeros_def HEADER_LENGTH_def numeral_eq_Suc)
  then have none: "try_read_record rd at_pos s = (Inr ([], RECORD_TYPE_NONE), s2)"
    using s1(1) s2(1) False by (simp add: try_read_record_def remaining_at [OF s] bindA_def record_types)
  have "\<exists>s'. reader_sync rd at_pos s2 = (Inr (), s') \<and> stands s' (p + block_remaining p) \<and>
             drop (p + block_remaining p) content = rest"
  proof (cases "?r = 0")
    case True
    then have end_of_block: "p + HEADER_LENGTH = p + block_remaining p" using False by simp
    have "block_remaining (p + block_remaining p) = BLOCK_SIZE" by simp
    then have "(p + HEADER_LENGTH) mod BLOCK_SIZE = 0" unfolding end_of_block
      using mod_less_divisor [OF block_sizes(1), of "p + block_remaining p"]
      unfolding block_remaining_def [of "p + block_remaining p"] by linarith
    from sync_aligned [OF s2(2) this] show ?thesis using s2(2) s1(3) end_of_block True by (auto simp: zeros_def)
  next
    case nonempty: False
    have inside: "(p + HEADER_LENGTH) mod BLOCK_SIZE = p mod BLOCK_SIZE + HEADER_LENGTH"
    proof -
      have "p mod BLOCK_SIZE + HEADER_LENGTH < BLOCK_SIZE"
        using nonempty False unfolding block_remaining_def by linarith
      then show ?thesis by (metis mod_add_left_eq mod_less)
    qed
    then have br: "block_remaining (p + HEADER_LENGTH) = ?r" by (simp add: block_remaining_def)
    have "(p + HEADER_LENGTH) mod BLOCK_SIZE \<noteq> 0" using inside block_sizes(5) by linarith
    from sync_zeros [OF s2(2) this s1(3)] obtain s' where "reader_sync rd at_pos s2 = (Inr (), s')"
        "stands s' (p + HEADER_LENGTH + ?r)" "drop (p + HEADER_LENGTH + ?r) content = rest"
      using br by auto
    then show ?thesis using False by auto
  qed
  then obtain s' where s': "reader_sync rd at_pos s2 = (Inr (), s')" "stands s' (p + block_remaining p)"
      "drop (p + block_remaining p) content = rest" by blast
  with none have "read_step rd at_pos data s = (Inr (Inl data), s')" by (simp add: read_record_step seqA_def)
  then have "read_loop rd at_pos data s = read_loop rd at_pos data s'" by (subst read_loop.simps) simp
  with s' show ?thesis by blast
qed

text \<open>The next record is read whatever was gathered before it: an unfinished record is dropped.\<close>

lemma read_record:
  assumes s: "stands s p" and content: "drop p content = record_bytes p d @ rest"
  shows "\<exists>s'. read_loop rd at_pos data s = Some (Inr d, s') \<and> stands s' (p + length (record_bytes p d)) \<and>
              drop (p + length (record_bytes p d)) content = rest"
proof (cases "block_remaining p < HEADER_LENGTH")
  case True
  then have bytes: "record_bytes p d = zeros (block_remaining p) @ body_bytes BLOCK_SIZE d" by (simp add: record_bytes_def)
  have "p mod BLOCK_SIZE \<noteq> 0" using True block_sizes(2) unfolding block_remaining_def by (intro notI) simp
  moreover have "drop p content = zeros (block_remaining p) @ body_bytes BLOCK_SIZE d @ rest" using content bytes by simp
  ultimately obtain s' where s': "read_loop rd at_pos data s = read_loop rd at_pos data s'"
      "stands s' (p + block_remaining p)" "drop (p + block_remaining p) content = body_bytes BLOCK_SIZE d @ rest"
    using skip_zeros [OF s] by blast
  from read_body [OF s'(2) _ _ s'(3)] show ?thesis using s'(1) bytes by (simp add: add.assoc)
next
  case False
  then have "record_bytes p d = body_bytes (block_remaining p) d" by (simp add: record_bytes_def)
  with read_body [OF s refl, of d rest data] False content show ?thesis by simp
qed

lemma iter_records:
  assumes "stands s p" and "drop p content = stream_bytes p ds @ rest"
  shows "\<exists>s'. reader_iter rd at_pos s =
            Option.bind (reader_iter rd at_pos s') (\<lambda>(xs, stop, s''). Some (ds @ xs, stop, s'')) \<and>
            stands s' (p + length (stream_bytes p ds)) \<and> drop (p + length (stream_bytes p ds)) content = rest"
  using assms
proof (induction ds arbitrary: s p)
  case Nil
  have "Option.bind (reader_iter rd at_pos s) (\<lambda>(xs, stop, s''). Some ([] @ xs, stop, s'')) = reader_iter rd at_pos s"
    by (cases "reader_iter rd at_pos s") auto
  with Nil show ?case by auto
next
  case (Cons d ds)
  let ?q = "p + length (record_bytes p d)"
  have "drop p content = record_bytes p d @ stream_bytes ?q ds @ rest" using Cons.prems(2) by simp
  from read_record [OF Cons.prems(1) this, of None] obtain s1 where s1: "read_loop rd at_pos None s = Some (Inr d, s1)"
      "stands s1 ?q" "drop ?q content = stream_bytes ?q ds @ rest" by blast
  from Cons.IH [OF s1(2,3)] obtain s' where s': "reader_iter rd at_pos s1 =
            Option.bind (reader_iter rd at_pos s') (\<lambda>(xs, stop, s''). Some (ds @ xs, stop, s''))"
            "stands s' (?q + length (stream_bytes ?q ds))" "drop (?q + length (stream_bytes ?q ds)) content = rest"
    by blast
  have "reader_iter rd at_pos s = Option.bind (reader_iter rd at_pos s1) (\<lambda>(xs, stop, s''). Some (d # xs, stop, s''))"
    using s1(1) by (subst reader_iter.simps) (simp add: reader_read_def)
  also have "\<dots> = Option.bind (reader_iter rd at_pos s') (\<lambda>(xs, stop, s''). Some ((d # ds) @ xs, stop, s''))"
    unfolding s'(1) by (cases "reader_iter rd at_pos s'") auto
  finally have eq: "reader_iter rd at_pos s =
      Option.bind (reader_iter rd at_pos s') (\<lambda>(xs, stop, s''). Some ((d # ds) @ xs, stop, s''))" .
  show ?case by (intro exI [of _ s'] conjI, rule eq) (use s' in \<open>simp_all add: add.assoc\<close>)
qed

lemma iter_end: "stands s (length content) \<Longrightarrow> \<exists>s'. reader_iter rd at_pos s = Some ([], None, s')"
  using read_loop_returns [of s "length content" None] unfolding moved_def
  by (subst reader_iter.simps) (auto simp: reader_read_def)

lemma iter_skip: "read_loop rd at_pos None s = read_loop rd at_pos None s' \<Longrightarrow> reader_iter rd at_pos s = reader_iter rd at_pos s'"
  by (subst (1 2) reader_iter.simps) (simp add: reader_read_def)

text \<open>
  A file that several writers have appended to, one after the other, from a block boundary on: all their
  records come back, in order.
\<close>

lemma length_records_bytes: "length (records_bytes ds) mod BLOCK_SIZE = 0"
proof -
  let ?n = "length (stream_bytes 0 ds)"
  have "block_remaining (?n + block_remaining ?n) = BLOCK_SIZE" by simp
  then have "(?n + block_remaining ?n) mod BLOCK_SIZE = 0"
    using mod_less_divisor [OF block_sizes(1), of "?n + block_remaining ?n"]
    unfolding block_remaining_def [of "?n + block_remaining ?n"] by linarith
  then show ?thesis by (simp add: records_bytes_def pad_bytes_def)
qed

lemma iter_files:
  assumes "stands s p" "p \<le> length content" "p mod BLOCK_SIZE = 0" "drop p content = concat (map records_bytes dss)"
  shows "\<exists>s'. reader_iter rd at_pos s = Some (concat dss, None, s')"
  using assms
proof (induction dss arbitrary: s p)
  case Nil
  then have "p = length content" by simp
  with Nil(1) iter_end show ?case by auto
next
  case (Cons ds dss)
  let ?n = "length (stream_bytes 0 ds)" and ?rest = "concat (map records_bytes dss)"
  have stream: "stream_bytes p ds = stream_bytes 0 ds" using Cons.prems(3) by (intro stream_bytes_cong) simp
  then have "drop p content = stream_bytes p ds @ pad_bytes ?n @ ?rest"
    using Cons.prems(4) by (simp add: records_bytes_def [of ds])
  from iter_records [OF Cons.prems(1) this] stream obtain s1 where s1: "reader_iter rd at_pos s =
            Option.bind (reader_iter rd at_pos s1) (\<lambda>(xs, stop, s''). Some (ds @ xs, stop, s''))"
            "stands s1 (p + ?n)" "drop (p + ?n) content = pad_bytes ?n @ ?rest" by auto
  have mod: "(p + ?n) mod BLOCK_SIZE = ?n mod BLOCK_SIZE" using Cons.prems(3) by (simp add: mod_add_eq [symmetric])
  let ?q = "p + length (records_bytes ds)"
  have "\<exists>s2. reader_iter rd at_pos s1 = reader_iter rd at_pos s2 \<and> stands s2 ?q \<and> drop ?q content = ?rest"
  proof (cases "?n mod BLOCK_SIZE = 0")
    case True
    then show ?thesis using s1(2,3) by (auto simp: pad_bytes_def records_bytes_def [of ds])
  next
    case False
    have br: "block_remaining (p + ?n) = block_remaining ?n" using mod by (rule block_remaining_cong)
    from skip_zeros [OF s1(2), of ?rest None] obtain s2 where "read_loop rd at_pos None s1 = read_loop rd at_pos None s2"
        "stands s2 (p + ?n + block_remaining ?n)" "drop (p + ?n + block_remaining ?n) content = ?rest"
      using False mod s1(3) br by (auto simp: pad_bytes_def)
    moreover have "?q = p + ?n + block_remaining ?n" using False by (simp add: records_bytes_def [of ds] pad_bytes_def)
    ultimately show ?thesis using iter_skip by metis
  qed
  then obtain s2 where s2: "reader_iter rd at_pos s1 = reader_iter rd at_pos s2" "stands s2 ?q" "drop ?q content = ?rest"
    by blast
  have aligned: "?q mod BLOCK_SIZE = 0" using Cons.prems(3) length_records_bytes [of ds] by (simp add: mod_add_eq [symmetric])
  have inside: "?q \<le> length content"
  proof -
    have "length (drop p content) = length (records_bytes ds) + length ?rest" unfolding Cons.prems(4) by simp
    then show ?thesis using Cons.prems(2) unfolding length_drop by linarith
  qed
  obtain s' where "reader_iter rd at_pos s2 = Some (concat dss, None, s')"
    using Cons.IH [OF s2(2) inside aligned s2(3)] by (elim exE)
  with s1(1) s2(1) show ?case by auto
qed


subsection \<open>Two readers of one content\<close>

text \<open>
  The plain reader below is the reference: its state is the position, a read is a slice. A reader that keeps the
  promise of the interface gives the same results as the plain one, step by step.
\<close>

lemma agree_rd: "stands s p \<Longrightarrow> agree stands (rd n s) (plain_read content n p)"
  using read_law [of s p n] by (auto simp: agree_def plain_read_def)

lemma agree_remaining: "stands s p \<Longrightarrow> reader_remaining at_pos s = reader_remaining int p"
  by (simp add: reader_remaining_def tell_law)

lemma agree_sync: "stands s p \<Longrightarrow> agree stands (reader_sync rd at_pos s) (reader_sync (plain_read content) int p)"
  unfolding reader_sync_def Let_def
  by (simp add: agree_remaining) (auto intro!: agree_bindA agree_rd agree_basic)

lemma agree_try_read:
  assumes s: "stands s p"
  shows "agree stands (try_read_record rd at_pos s) (try_read_record (plain_read content) int p)"
proof (cases "reader_remaining int p < int HEADER_LENGTH")
  case True
  then show ?thesis using s agree_remaining [OF s] by (simp add: try_read_record_def agree_basic)
next
  case False
  show ?thesis
    unfolding try_read_record_def Let_def agree_remaining [OF s] if_not_P [OF False]
    by (rule agree_bindA, rule agree_rd [OF s])
      (auto split: prod.splits intro!: agree_bindA agree_rd agree_basic)
qed

lemma agree_step:
  assumes s: "stands s p"
  shows "agree stands (read_step rd at_pos data s) (read_step (plain_read content) int data p)"
  unfolding read_step_def
  by (rule agree_catchA, rule agree_bindA, rule agree_try_read [OF s])
    (auto split: option.splits prod.splits intro!: agree_seqA agree_sync agree_basic)

lemma agree_loop:
  assumes "stands s p" "p \<le> length content"
  shows "\<exists>r s' p'. read_loop rd at_pos data s = Some (r, s') \<and> read_loop (plain_read content) int data p = Some (r, p') \<and>
           stands s' p' \<and> (r = Inl EOFError \<or> (\<exists>x. r = Inr x) \<and> p < p' \<and> p' \<le> length content)"
  using assms
proof (induction "length content - p" arbitrary: s p data rule: less_induct)
  case less
  obtain r s' r' p' where run: "read_step rd at_pos data s = (r, s')" "read_step (plain_read content) int data p = (r', p')"
    by (metis surj_pair)
  with agree_step [OF less.prems(1), of data] have same: "r' = r" "stands s' p'" by (simp_all add: agree_def)
  from step_progress [OF less.prems, of data] run consider
      (eof) "r = Inl EOFError" | (go) data' q where "r = Inr (Inl data')" "moved p s' q"
    | (return) x q where "r = Inr (Inr x)" "moved p s' q"
    by (metis Pair_inject sum.exhaust)
  then show ?case
  proof cases
    case eof
    then have "read_loop rd at_pos data s = Some (Inl EOFError, s')" "read_loop (plain_read content) int data p = Some (Inl EOFError, p')"
      using run same(1) by (subst read_loop.simps, simp)+
    with same(2) show ?thesis by blast
  next
    case go
    have q: "q = p'" using go(2) same(2) stands_unique unfolding moved_def by blast
    then have "length content - p' < length content - p" "stands s' p'" "p' \<le> length content" "p < p'"
      using go(2) by (auto simp: moved_def)
    from less.hyps [OF this(1-3), of data'] obtain r1 s1 p1 where IH: "read_loop rd at_pos data' s' = Some (r1, s1)"
        "read_loop (plain_read content) int data' p' = Some (r1, p1)" "stands s1 p1"
        "r1 = Inl EOFError \<or> (\<exists>x. r1 = Inr x) \<and> p' < p1 \<and> p1 \<le> length content" by blast
    have "read_loop rd at_pos data s = Some (r1, s1)" "read_loop (plain_read content) int data p = Some (r1, p1)"
      using run same(1) go(1) IH(1,2) by (subst read_loop.simps, simp)+
    moreover have "r1 = Inl EOFError \<or> (\<exists>x. r1 = Inr x) \<and> p < p1 \<and> p1 \<le> length content"
      using IH(4) \<open>p < p'\<close> by auto
    ultimately show ?thesis using IH(3) by blast
  next
    case return
    have "q = p'" using return(2) same(2) stands_unique unfolding moved_def by blast
    then have "p < p'" "p' \<le> length content" using return(2) by (auto simp: moved_def)
    moreover have "read_loop rd at_pos data s = Some (Inr x, s')" "read_loop (plain_read content) int data p = Some (Inr x, p')"
      using run same(1) return(1) by (subst read_loop.simps, simp)+
    ultimately show ?thesis using same(2) by blast
  qed
qed

text \<open>What is left on a file from a position on, as the plain reader reads it.\<close>

end

definition plain_records :: "byte list \<Rightarrow> nat \<Rightarrow> byte list list" where
  "plain_records c p = (case reader_iter (plain_read c) int p of Some (xs, _) \<Rightarrow> xs | None \<Rightarrow> [])"

interpretation plain: file_reader "plain_read c" int "\<lambda>s p. s = p" c for c
  by unfold_locales (simp_all add: plain_read_def)

context file_reader
begin

lemma read_plain:
  assumes "stands s p" "p \<le> length content"
  obtains (end_of_file) s' q where "reader_read rd at_pos s = Some (Inl EOFError, s')" "stands s' q"
        "plain_records content p = []"
    | (record_read) x s' q where "reader_read rd at_pos s = Some (Inr x, s')" "stands s' q" "p < q" "q \<le> length content"
        "plain_records content p = x # plain_records content q"
proof -
  obtain r s' p' where run: "read_loop rd at_pos None s = Some (r, s')" "read_loop (plain_read content) int None p = Some (r, p')"
      "stands s' p'" "r = Inl EOFError \<or> (\<exists>x. r = Inr x) \<and> p < p' \<and> p' \<le> length content"
    using agree_loop [OF assms] by blast
  show ?thesis
  proof (cases r)
    case (Inl e)
    then have "reader_iter (plain_read content) int p = Some ([], None, p')"
      using run(2,4) by (subst reader_iter.simps) (simp add: reader_read_def)
    then show ?thesis using run(1,3,4) Inl by (intro end_of_file [of s' p']) (simp_all add: reader_read_def plain_records_def)
  next
    case (Inr x)
    then have le: "p' \<le> length content" "p < p'" using run(4) by auto
    obtain xs q where rest: "reader_iter (plain_read content) int p' = Some (xs, None, q)"
      using plain.iter_returns [OF refl le(1)] by blast
    have "reader_iter (plain_read content) int p = Some (x # xs, None, q)"
      using run(2) Inr rest by (subst reader_iter.simps) (simp add: reader_read_def)
    then have "plain_records content p = x # plain_records content p'" using rest by (simp add: plain_records_def)
    then show ?thesis using run(1,3) Inr le by (intro record_read [of x s' p']) (simp_all add: reader_read_def)
  qed
qed

text \<open>A reader refines the plain one: from a position it yields the same records.\<close>

lemma iter_plain:
  assumes "stands s p" "p \<le> length content"
  shows "\<exists>s'. reader_iter rd at_pos s = Some (plain_records content p, None, s')"
  using assms
proof (induction "length content - p" arbitrary: s p rule: less_induct)
  case less
  show ?case
  proof (rule read_plain [OF less.prems])
    fix s' q assume "reader_read rd at_pos s = Some (Inl EOFError, s')" "plain_records content p = []"
    then show ?thesis by (subst reader_iter.simps) simp
  next
    fix x s' q assume step: "reader_read rd at_pos s = Some (Inr x, s')" "stands s' q" "p < q" "q \<le> length content"
      "plain_records content p = x # plain_records content q"
    then have "length content - q < length content - p" by simp
    from less.hyps [OF this step(2,4)] obtain s'' where "reader_iter rd at_pos s' = Some (plain_records content q, None, s'')"
      by blast
    with step(1,5) show ?thesis by (subst reader_iter.simps) simp
  qed
qed

subsection \<open>Damage\<close>

text \<open>
  A record whose data was changed in at most four neighbouring bytes is not returned: the reader drops what it
  has gathered and goes on at the next block.
\<close>

lemma damaged_record:
  assumes s: "stands s p" and content: "drop p content = take HEADER_LENGTH (frame_bytes t (xs @ as @ ys)) @ (xs @ bs @ ys) @ rest"
    and burst: "length as \<le> 4" "length bs = length as" "as \<noteq> bs"
    and fits: "length (xs @ as @ ys) + HEADER_LENGTH \<le> block_remaining p" and t: "t \<noteq> RECORD_TYPE_NONE"
  shows "\<exists>s'. try_read_record rd at_pos s = (Inl InvalidRecordError, s') \<and>
              stands s' (p + (HEADER_LENGTH + length (xs @ as @ ys)))"
proof -
  have "crc ((t # xs) @ as @ ys) \<noteq> crc ((t # xs) @ bs @ ys)" using crc_burst [OF burst(1,2)] burst(3) by blast
  then have "record_crc t (xs @ bs @ ys) \<noteq> record_crc t (xs @ as @ ys)" by (simp add: record_crc_crc)
  moreover have len: "length (xs @ bs @ ys) = length (xs @ as @ ys)" using burst(2) by simp
  moreover obtain s' where "stands s' (p + (HEADER_LENGTH + length (xs @ as @ ys)))"
      "try_read_record rd at_pos s = (if record_crc t (xs @ bs @ ys) = record_crc t (xs @ as @ ys)
         then Inr (xs @ bs @ ys, t) else Inl InvalidRecordError, s')"
    by (rule try_read_data [OF s content len fits t])
  ultimately show ?thesis by (intro exI [of _ s']) simp
qed

lemma damaged_step:
  assumes "try_read_record rd at_pos s = (Inl InvalidRecordError, s')" "stands s' q" "q \<le> length content"
  shows "\<exists>s''. read_step rd at_pos data s = (Inr (Inl None), s'') \<or> read_step rd at_pos data s = (Inl EOFError, s'')"
  using sync_progress [OF assms(2,3)] assms(1) by (auto simp: read_step_def catchA_def bindA_def seqA_def)

end

section \<open>Properties\<close>

text \<open>
  What is packed into a header is read back from it: the checksum through its mask, the length and the type.
\<close>

theorem header_round_trip:
  "pack_header (mask_crc c) n t = Inr h \<Longrightarrow>
     (case unpack_header h of (masked_crc, m, u) \<Rightarrow> (unmask_crc masked_crc, m, u)) = (c, n, t) \<and>
     length h = HEADER_LENGTH"
  using unpack_pack_header [of "mask_crc c" n t h] by (simp add: unmask_mask_crc)

theorem header_round_trip_witness:
  "(case unpack_header (the (case pack_header (mask_crc 7) 300 2 of Inr h \<Rightarrow> Some h | Inl _ \<Rightarrow> None)) of
      (masked_crc, m, u) \<Rightarrow> (unmask_crc masked_crc, m, u)) = (7, 300, 2)"
proof -
  have "\<exists>h. pack_header (mask_crc 7) 300 2 = Inr h" by (simp add: pack_header_def)
  then obtain h where h: "pack_header (mask_crc 7) 300 2 = Inr h" by blast
  with header_round_trip [OF h] show ?thesis by simp
qed

end
