(* ===== verification/RecordPools.thy ===== *)
theory RecordPools
  imports FilesApi Records "HOL-Library.Multiset"
begin

text \<open>
  The pools of \<open>mapreduce/output_writers.py\<close> that gather what a shard writes, and the input reader of
  \<open>mapreduce/input_readers.py\<close> that reads it back. A pool runs without a context (\<open>ctx\<close> is \<open>None\<close>), so no
  counters are incremented.
\<close>

section \<open>Sizes\<close>

definition FILES_API_FLUSH_SIZE :: nat where "FILES_API_FLUSH_SIZE = 128 * 1024"

definition FILES_API_MAX_SIZE :: nat where "FILES_API_MAX_SIZE = 1000 * 1024"

section \<open>The pool of plain files\<close>

text \<open>
  The append buffer is a dictionary; \<open>order\<close> is the order in which it hands out its items.
\<close>

record file_pool =
  fp_flush_size :: nat
  fp_append_buffer :: "(string \<times> bytes) list"
  fp_size :: nat

definition file_pool_init :: "nat \<Rightarrow> file_pool" where
  "file_pool_init flush_size_chars = \<lparr>fp_flush_size = flush_size_chars, fp_append_buffer = [], fp_size = 0\<rparr>"

fun buffer_add :: "string \<Rightarrow> bytes \<Rightarrow> (string \<times> bytes) list \<Rightarrow> (string \<times> bytes) list" where
  "buffer_add filename data [] = [(filename, data)]"
| "buffer_add filename data ((f, d) # rest) =
     (if f = filename then (f, d @ data) # rest else (f, d) # buffer_add filename data rest)"

definition file_pool_add :: "string \<Rightarrow> bytes \<Rightarrow> file_pool \<Rightarrow> file_pool" where
  "file_pool_add filename data p =
     p\<lparr>fp_append_buffer := buffer_add filename data (fp_append_buffer p), fp_size := fp_size p + length data\<rparr>"

definition file_pool_flush ::
    "'w file_service \<Rightarrow> ((string \<times> bytes) list \<Rightarrow> (string \<times> bytes) list) \<Rightarrow> (file_pool \<times> 'w, unit) act" where
  "file_pool_flush svc order = (\<lambda>(p, w).
     case forA (\<lambda>(filename, data).
            with_file svc filename ''a'' False
              (if length data > fp_flush_size p then raiseA MapreduceError else file_write svc data []))
          (order (fp_append_buffer p)) w of
       (Inl e, w') \<Rightarrow> (Inl e, (p, w'))
     | (Inr u, w') \<Rightarrow> (Inr (), (p\<lparr>fp_append_buffer := [], fp_size := 0\<rparr>, w')))"

definition file_pool_append ::
    "'w file_service \<Rightarrow> ((string \<times> bytes) list \<Rightarrow> (string \<times> bytes) list) \<Rightarrow> string \<Rightarrow> bytes \<Rightarrow>
     (file_pool \<times> 'w, unit) act" where
  "file_pool_append svc order filename data =
     seqA (\<lambda>(p, w). if fp_size p + length data > fp_flush_size p then file_pool_flush svc order (p, w) else (Inr (), (p, w)))
     (seqA (\<lambda>(p, w). if length data > FILES_API_MAX_SIZE then (Inl MapreduceError, (p, w))
                       else (Inr (), (file_pool_add filename data p, w)))
           (\<lambda>(p, w). if fp_size p > fp_flush_size p then file_pool_flush svc order (p, w) else (Inr (), (p, w))))"

section \<open>The pool of records\<close>

text \<open>\<open>_StringWriter\<close>: a file in memory for the records writer.\<close>

definition string_write :: "bytes \<Rightarrow> (bytes, unit) act" where
  "string_write data = modA (\<lambda>buf. buf @ data)"

record records_pool =
  rp_flush_size :: nat
  rp_buffer :: "bytes list"
  rp_size :: nat
  rp_filename :: string
  rp_exclusive :: bool

definition records_pool_init :: "string \<Rightarrow> nat \<Rightarrow> bool \<Rightarrow> records_pool" where
  "records_pool_init filename flush_size_chars exclusive =
     \<lparr>rp_flush_size = flush_size_chars, rp_buffer = [], rp_size = 0, rp_filename = filename, rp_exclusive = exclusive\<rparr>"

definition records_pool_flush :: "'w file_service \<Rightarrow> (records_pool \<times> 'w, unit) act" where
  "records_pool_flush svc = (\<lambda>(p, w).
     case with_records_writer string_write True (forA (writer_write string_write) (rp_buffer p)) [] of
       (Inl e, _) \<Rightarrow> (Inl e, (p, w))
     | (Inr _, str_buf) \<Rightarrow>
         if \<not> rp_exclusive p \<and> length str_buf > FILES_API_MAX_SIZE then (Inl MapreduceError, (p, w))
         else (case with_file svc (rp_filename p) ''a'' (rp_exclusive p) (file_write svc str_buf []) w of
                 (Inl e, w') \<Rightarrow> (Inl e, (p, w'))
               | (Inr _, w') \<Rightarrow> (Inr (), (p\<lparr>rp_buffer := [], rp_size := 0\<rparr>, w'))))"

definition records_pool_add :: "bytes \<Rightarrow> records_pool \<Rightarrow> records_pool" where
  "records_pool_add data p = p\<lparr>rp_buffer := rp_buffer p @ [data], rp_size := rp_size p + length data\<rparr>"

definition records_pool_append :: "'w file_service \<Rightarrow> bytes \<Rightarrow> (records_pool \<times> 'w, unit) act" where
  "records_pool_append svc data =
     seqA (\<lambda>(p, w). if rp_size p + length data > rp_flush_size p then records_pool_flush svc (p, w) else (Inr (), (p, w)))
     (seqA (\<lambda>(p, w). if \<not> rp_exclusive p \<and> length data > FILES_API_MAX_SIZE then (Inl MapreduceError, (p, w))
                       else (Inr (), (records_pool_add data p, w)))
           (\<lambda>(p, w). if rp_size p > rp_flush_size p then records_pool_flush svc (p, w) else (Inr (), (p, w))))"

text \<open>\<open>with RecordsPool(...) as pool: for data in records: pool.append(data)\<close>\<close>

definition write_records ::
    "'w file_service \<Rightarrow> string \<Rightarrow> nat \<Rightarrow> bool \<Rightarrow> bytes list \<Rightarrow> ('w, unit) act" where
  "write_records svc filename flush_size exclusive records w =
     (case forA (records_pool_append svc) records (records_pool_init filename flush_size exclusive, w) of
        (r, s) \<Rightarrow> (case records_pool_flush svc s of
                     (Inl e, (_, w')) \<Rightarrow> (Inl e, w')
                   | (Inr _, (_, w')) \<Rightarrow> (r, w')))"

section \<open>The reader of record files\<close>

text \<open>\<open>records.RecordsReader(files.BufferedFile(filename))\<close>, and its \<open>read\<close> and \<open>tell\<close>.\<close>

definition open_records :: "string \<Rightarrow> buffered" where
  "open_records filename = buffered_init filename BUFFER_SIZE"

definition read_file_record :: "'w file_service \<Rightarrow> 'w bstate \<Rightarrow> (bytes res \<times> 'w bstate) option" where
  "read_file_record svc = reader_read (buffered_read svc) buffered_tell"

definition iter_file_records :: "'w file_service \<Rightarrow> 'w bstate \<Rightarrow> (bytes list \<times> exn option \<times> 'w bstate) option" where
  "iter_file_records svc = reader_iter (buffered_read svc) buffered_tell"

section \<open>The interfaces\<close>

interpretation string_writer: file_writer string_write "\<lambda>buf. buf"
  by unfold_locales (simp add: string_write_def)

interpretation buffered: file_reader "buffered_read svc" buffered_tell "buffered_at svc name cont c" c
  for svc :: "'w file_service" and name :: string and cont :: "'w \<Rightarrow> bytes option" and c :: bytes
proof
  show "buffered_at svc name cont c s p \<Longrightarrow> buffered_tell s = int p" for s p
    by (cases s) (simp add: buffered_at_def buffered_tell_def)
  show "buffered_at svc name cont c s p \<Longrightarrow> \<exists>s'. buffered_read svc n s = (Inr (take n (drop p c)), s') \<and>
          buffered_at svc name cont c s' (p + length (take n (drop p c)))" for s p n
    by (rule buffered_read_serves)
qed

lemma open_records_at: "serves svc name cont \<Longrightarrow> cont w = Some c \<Longrightarrow> buffered_at svc name cont c (open_records name, w) 0"
  by (simp add: buffered_at_def open_records_def buffered_init_def BUFFER_SIZE_def)

section \<open>What a pool writes\<close>

lemma string_session: "with_records_writer string_write True (forA (writer_write string_write) ds) [] = (Inr (), records_bytes ds)"
  using string_writer.writer_session [of ds "[]"] by auto

lemma appends_open:
  assumes "appends svc name cont" "cont w = Some c"
  obtains w' where "svc_open svc name lock RAW APPEND w = (Inr (), w')" "cont w' = Some c"
  using assms unfolding appends_def by blast

lemma appends_close:
  assumes "appends svc name cont" "cont w = Some c"
  obtains w' where "svc_close svc name False w = (Inr (), w')" "cont w' = Some c"
  using assms unfolding appends_def by blast

lemma appends_append:
  assumes "appends svc name cont" "cont w = Some c"
  obtains w' where "svc_append svc name data [] w = (Inr (), w')" "cont w' = Some (c @ data)"
  using assms unfolding appends_def by blast

lemma append_to_file:
  assumes svc: "appends svc name cont" and "cont w = Some c"
  obtains w' where "with_file svc name ''a'' lock (file_write svc data []) w = (Inr (), w')" "cont w' = Some (c @ data)"
proof -
  obtain w1 where op: "svc_open svc name lock RAW APPEND w = (Inr (), w1)" "cont w1 = Some c"
    using appends_open [OF assms] .
  obtain w2 where ap: "svc_append svc name data [] w1 = (Inr (), w2)" "cont w2 = Some (c @ data)"
    using appends_append [OF svc op(2)] .
  obtain w3 where cl: "svc_close svc name False w2 = (Inr (), w3)" "cont w3 = Some (c @ data)"
    using appends_close [OF svc ap(2)] .
  let ?f = "new_file name ''a'' lock"
  have opened: "files_open svc name ''a'' RAW lock w = (Inr ?f, w1)"
    using svc op(1) by (intro files_open_Inr) (simp_all add: appends_def)
  have body: "file_write svc data [] (?f, w1) = (Inr (), (?f, w2))"
    using ap(1) by (simp add: file_write_def new_file_def call_simps)
  have "file_close svc False (?f, w2) = (Inr (), (?f\<lparr>f_closed := True\<rparr>, w3))"
    by (rule file_close_Inr) (use cl in \<open>simp_all add: new_file_def\<close>)
  then have "with_file svc name ''a'' lock (file_write svc data []) w = (Inr (), w3)"
    using with_file_Inr [OF opened, where body = "file_write svc data []"] body by blast
  then show ?thesis using cl(2) by (rule that)
qed

text \<open>A flush that succeeds has appended one padded piece with the records of the buffer.\<close>

lemma flush_appends:
  assumes svc: "appends svc (rp_filename p) cont" and "cont w = Some c"
  shows "(\<not> rp_exclusive p \<and> length (records_bytes (rp_buffer p)) > FILES_API_MAX_SIZE \<and>
            records_pool_flush svc (p, w) = (Inl MapreduceError, (p, w))) \<or>
         (\<exists>w'. records_pool_flush svc (p, w) = (Inr (), (p\<lparr>rp_buffer := [], rp_size := 0\<rparr>, w')) \<and>
               cont w' = Some (c @ records_bytes (rp_buffer p)))"
proof (cases "\<not> rp_exclusive p \<and> length (records_bytes (rp_buffer p)) > FILES_API_MAX_SIZE")
  case True
  then show ?thesis by (simp add: records_pool_flush_def string_session)
next
  case False
  obtain w' where "with_file svc (rp_filename p) ''a'' (rp_exclusive p)
      (file_write svc (records_bytes (rp_buffer p)) []) w = (Inr (), w')" "cont w' = Some (c @ records_bytes (rp_buffer p))"
    using append_to_file [OF assms] .
  with False show ?thesis by (auto simp: records_pool_flush_def string_session)
qed

text \<open>
  What is on the file and in the buffer are all the records so far: the file holds them in padded pieces.
\<close>

definition pool_holds :: "string \<Rightarrow> ('w \<Rightarrow> bytes option) \<Rightarrow> bytes list \<Rightarrow> records_pool \<times> 'w \<Rightarrow> bool" where
  "pool_holds name cont ds = (\<lambda>(p, w). rp_filename p = name \<and>
     (\<exists>dss. cont w = Some (concat (map records_bytes dss)) \<and> concat dss @ rp_buffer p = ds))"

lemma flush_holds:
  assumes "appends svc name cont" "pool_holds name cont ds s"
  obtains (raised) "fst (records_pool_flush svc s) = Inl MapreduceError" "snd (records_pool_flush svc s) = s"
      "\<not> rp_exclusive (fst s)"
    | (flushed) s' where "records_pool_flush svc s = (Inr (), s')" "pool_holds name cont ds s'" "rp_buffer (fst s') = []"
      "rp_exclusive (fst s') = rp_exclusive (fst s)"
proof -
  obtain p w where s: "s = (p, w)" by fastforce
  obtain dss where at: "rp_filename p = name" "cont w = Some (concat (map records_bytes dss))" "concat dss @ rp_buffer p = ds"
    using assms(2) s by (auto simp: pool_holds_def)
  have "appends svc (rp_filename p) cont" using assms(1) at(1) by simp
  from flush_appends [OF this at(2)] show ?thesis
  proof (elim disjE conjE exE)
    assume "records_pool_flush svc (p, w) = (Inl MapreduceError, (p, w))" "\<not> rp_exclusive p"
    with s raised show ?thesis by simp
  next
    fix w' assume run: "records_pool_flush svc (p, w) = (Inr (), (p\<lparr>rp_buffer := [], rp_size := 0\<rparr>, w'))"
      and "cont w' = Some (concat (map records_bytes dss) @ records_bytes (rp_buffer p))"
    then have "cont w' = Some (concat (map records_bytes (dss @ [rp_buffer p])))" by simp
    moreover have "concat (dss @ [rp_buffer p]) @ [] = ds" using at(3) by simp
    ultimately have "pool_holds name cont ds (p\<lparr>rp_buffer := [], rp_size := 0\<rparr>, w')"
      unfolding pool_holds_def using at(1) by fastforce
    with run s flushed show ?thesis by simp
  qed
qed


text \<open>An append either fails because the pool shares its file and has too much to write, or keeps the record.\<close>

definition pool_outcome :: "string \<Rightarrow> ('w \<Rightarrow> bytes option) \<Rightarrow> bytes list \<Rightarrow> bool \<Rightarrow> unit res \<times> (records_pool \<times> 'w) \<Rightarrow> bool" where
  "pool_outcome name cont ds exclusive = (\<lambda>(r, s).
     rp_exclusive (fst s) = exclusive \<and> (r = Inl MapreduceError \<and> \<not> exclusive \<or> r = Inr () \<and> pool_holds name cont ds s))"

lemma flush_outcome:
  assumes "appends svc name cont" "pool_holds name cont ds s"
  shows "pool_outcome name cont ds (rp_exclusive (fst s)) (records_pool_flush svc s)"
proof (rule flush_holds [OF assms])
  assume "fst (records_pool_flush svc s) = Inl MapreduceError" "snd (records_pool_flush svc s) = s" "\<not> rp_exclusive (fst s)"
  then show ?thesis by (cases "records_pool_flush svc s") (simp add: pool_outcome_def)
next
  fix s' assume "records_pool_flush svc s = (Inr (), s')" "pool_holds name cont ds s'"
      "rp_exclusive (fst s') = rp_exclusive (fst s)"
  then show ?thesis by (simp add: pool_outcome_def)
qed

lemma outcome_seqA:
  assumes "pool_outcome name cont ds x (m s)"
    and "\<And>s'. pool_holds name cont ds s' \<Longrightarrow> rp_exclusive (fst s') = x \<Longrightarrow> pool_outcome name cont ds' x (n s')"
  shows "pool_outcome name cont ds' x (seqA m n s)"
proof -
  obtain r s1 where Pair: "m s = (r, s1)" by (metis surj_pair)
  with assms(1) have r: "rp_exclusive (fst s1) = x" "r = Inl MapreduceError \<and> \<not> x \<or> r = Inr () \<and> pool_holds name cont ds s1"
    by (simp_all add: pool_outcome_def)
  show ?thesis
  proof (cases "r = Inr ()")
    case True
    with r have "pool_outcome name cont ds' x (n s1)" by (intro assms(2)) simp_all
    then show ?thesis using Pair True by (simp add: seqA_def bindA_def)
  next
    case False
    then show ?thesis using Pair r by (simp add: seqA_def bindA_def pool_outcome_def)
  qed
qed

lemma append_outcome:
  assumes svc: "appends svc name cont" and holds: "pool_holds name cont ds s"
  shows "pool_outcome name cont (ds @ [data]) (rp_exclusive (fst s)) (records_pool_append svc data s)"
proof -
  let ?x = "rp_exclusive (fst s)"
  have first: "pool_outcome name cont ds ?x
      ((\<lambda>(p, w). if rp_size p + length data > rp_flush_size p then records_pool_flush svc (p, w) else (Inr (), (p, w))) s)"
    using flush_outcome [OF svc holds] holds by (cases s) (simp add: pool_outcome_def)
  have add: "pool_outcome name cont (ds @ [data]) ?x
      ((\<lambda>(p, w). if \<not> rp_exclusive p \<and> length data > FILES_API_MAX_SIZE then (Inl MapreduceError, (p, w))
        else (Inr (), (records_pool_add data p, w))) s')"
    if "pool_holds name cont ds s'" "rp_exclusive (fst s') = ?x" for s'
    using that by (cases s') (auto simp: pool_outcome_def pool_holds_def records_pool_add_def)
  have last: "pool_outcome name cont (ds @ [data]) ?x
      ((\<lambda>(p, w). if rp_size p > rp_flush_size p then records_pool_flush svc (p, w) else (Inr (), (p, w))) s')"
    if "pool_holds name cont (ds @ [data]) s'" "rp_exclusive (fst s') = ?x" for s'
    using flush_outcome [OF svc that(1)] that by (cases s') (simp add: pool_outcome_def)
  show ?thesis unfolding records_pool_append_def
    by (rule outcome_seqA [where m = "\<lambda>(p, w). if rp_size p + length data > rp_flush_size p
          then records_pool_flush svc (p, w) else (Inr (), (p, w))", OF first],
        rule outcome_seqA [where m = "\<lambda>(p, w). if \<not> rp_exclusive p \<and> length data > FILES_API_MAX_SIZE
          then (Inl MapreduceError, (p, w)) else (Inr (), (records_pool_add data p, w))", OF add])
      (assumption | rule last)+
qed

lemma appends_outcome:
  assumes svc: "appends svc name cont"
  shows "pool_holds name cont ds s \<Longrightarrow>
     pool_outcome name cont (ds @ rs) (rp_exclusive (fst s)) (forA (records_pool_append svc) rs s)"
proof (induction rs arbitrary: ds s)
  case Nil
  then show ?case by (simp add: pool_outcome_def)
next
  case (Cons r rs)
  have "pool_outcome name cont (ds @ r # rs) (rp_exclusive (fst s))
      (seqA (records_pool_append svc r) (forA (records_pool_append svc) rs) s)"
  proof (rule outcome_seqA [where m = "records_pool_append svc r", OF append_outcome [OF svc Cons.prems]])
    fix s' assume "pool_holds name cont (ds @ [r]) s'" "rp_exclusive (fst s') = rp_exclusive (fst s)"
    with Cons.IH [of "ds @ [r]" s'] show "pool_outcome name cont (ds @ r # rs) (rp_exclusive (fst s))
        (forA (records_pool_append svc) rs s')" by simp
  qed
  then show ?case by simp
qed

text \<open>All records of a pool that did not raise are on the file when it is closed, in padded pieces.\<close>

lemma write_records_content:
  assumes svc: "appends svc name cont" and "cont w = Some (concat (map records_bytes dss))"
    and ok: "exclusive \<or> write_records svc name flush_size exclusive rs w = (Inr (), w'')"
  shows "\<exists>w' dss'. write_records svc name flush_size exclusive rs w = (Inr (), w') \<and>
            cont w' = Some (concat (map records_bytes dss')) \<and> concat dss' = concat dss @ rs"
proof -
  let ?s = "(records_pool_init name flush_size exclusive, w)"
  obtain r s1 where run: "forA (records_pool_append svc) rs ?s = (r, s1)" by (metis surj_pair)
  have "pool_holds name cont (concat dss) ?s" using assms(2) by (auto simp: pool_holds_def records_pool_init_def)
  from appends_outcome [OF svc this, of rs] run
  have out1: "rp_exclusive (fst s1) = exclusive" "r = Inl MapreduceError \<and> \<not> exclusive \<or> r = Inr () \<and> pool_holds name cont (concat dss @ rs) s1"
    by (auto simp: pool_outcome_def records_pool_init_def)
  obtain q p2 w2 where flush: "records_pool_flush svc s1 = (q, (p2, w2))" by (metis surj_pair)
  have whole: "write_records svc name flush_size exclusive rs w = (case q of Inl e \<Rightarrow> (Inl e, w2) | Inr u \<Rightarrow> (r, w2))"
    using run flush by (simp add: write_records_def split: sum.splits)
  have "r = Inr ()" using ok out1(2) whole by (auto split: sum.splits)
  with out1 have holds: "pool_holds name cont (concat dss @ rs) s1" by simp
  show ?thesis
  proof (rule flush_holds [OF svc holds])
    assume "fst (records_pool_flush svc s1) = Inl MapreduceError" "\<not> rp_exclusive (fst s1)"
    then show ?thesis using ok out1(1) whole flush by simp
  next
    fix s2 assume "records_pool_flush svc s1 = (Inr (), s2)" "pool_holds name cont (concat dss @ rs) s2" "rp_buffer (fst s2) = []"
    then show ?thesis using whole flush \<open>r = Inr ()\<close> by (auto simp: pool_holds_def)
  qed
qed

text \<open>Reading a file of padded pieces from its start gives the records of all of them.\<close>

lemma read_pieces:
  assumes "serves svc name cont" "cont w = Some (concat (map records_bytes dss))"
  shows "\<exists>s'. iter_file_records svc (open_records name, w) = Some (concat dss, None, s')"
  unfolding iter_file_records_def
  by (rule buffered.iter_files [OF open_records_at [OF assms]]) simp_all


section \<open>A file in memory\<close>

text \<open>A service that keeps its promises: the world is the content of the one file it has.\<close>

definition memory_service :: "bytes file_service" where
  "memory_service =
     \<lparr>svc_open = (\<lambda>_ _ _ _ w. (Inr (), w)),
      svc_close = (\<lambda>_ _ w. (Inr (), w)),
      svc_append = (\<lambda>_ data _ w. (Inr (), w @ data)),
      svc_read = (\<lambda>_ p k w. (Inr (take (nat k) (drop (nat p) w)), w)),
      svc_stat = (\<lambda>name w. (Inr [(name, True, int (length w))], w)),
      svc_create = (\<lambda>_ _ name _ w. (Inr (case name of None \<Rightarrow> ''/memory'' | Some n \<Rightarrow> n), w))\<rparr>"

lemma memory_appends: "name \<noteq> [] \<Longrightarrow> appends memory_service name Some"
  by (simp add: appends_def memory_service_def)

lemma memory_serves: "name \<noteq> [] \<Longrightarrow> serves memory_service name Some"
proof -
  have "\<exists>n. take (nat k) (drop p c) = take n (drop p c) \<and> int n \<le> k \<and> (p < length c \<longrightarrow> 0 < n)" if "0 < k"
    for k p and c :: bytes using that by (intro exI [of _ "nat k"]) simp
  then show "name \<noteq> [] \<Longrightarrow> serves memory_service name Some"
    by (simp add: serves_def memory_service_def)
qed

section \<open>Too many small records\<close>

lemma rest_bytes_length: "HEADER_LENGTH + length d \<le> length (rest_bytes d)"
proof (induction d rule: rest_bytes.induct)
  case (1 d)
  then show ?case by (cases "length d \<le> block_data") (auto simp: rest_bytes.simps [of d])
qed

lemma record_bytes_length: "HEADER_LENGTH + length d \<le> length (record_bytes p d)"
proof -
  have "HEADER_LENGTH + length d \<le> length (body_bytes r d)" for r
    using rest_bytes_length [of "drop (r - HEADER_LENGTH) d"] by (auto simp: body_bytes_def)
  then show ?thesis by (auto simp: record_bytes_def intro: trans_le_add2)
qed

lemma stream_bytes_length: "(\<Sum>d\<leftarrow>ds. HEADER_LENGTH + length d) \<le> length (stream_bytes p ds)"
proof (induction ds arbitrary: p)
  case (Cons d ds)
  then show ?case using record_bytes_length [of d p] by (auto intro!: add_mono)
qed simp

lemma records_bytes_length: "(\<Sum>d\<leftarrow>ds. HEADER_LENGTH + length d) \<le> length (records_bytes ds)"
  using stream_bytes_length [of ds 0] by (simp add: records_bytes_def)

text \<open>Records are only gathered while they fit the flush size.\<close>

lemma pool_fills:
  "rp_size p + n \<le> rp_flush_size p \<Longrightarrow> forA (records_pool_append svc) (replicate n [b]) (p, w) =
     (Inr (), (p\<lparr>rp_buffer := rp_buffer p @ replicate n [b], rp_size := rp_size p + n\<rparr>, w))"
proof (induction n arbitrary: p)
  case 0
  then show ?case by simp
next
  case (Suc n)
  let ?p = "records_pool_add [b] p"
  have step: "records_pool_append svc [b] (p, w) = (Inr (), (?p, w))"
    using Suc.prems
    by (simp add: records_pool_append_def seqA_def bindA_def records_pool_add_def FILES_API_MAX_SIZE_def)
  have "rp_size ?p + n \<le> rp_flush_size ?p" using Suc.prems by (simp add: records_pool_add_def)
  from Suc.IH [OF this] step show ?case
    by (simp add: seqA_def bindA_def records_pool_add_def)
qed

lemma flush_too_big:
  assumes "\<not> rp_exclusive p" "FILES_API_MAX_SIZE < (\<Sum>d\<leftarrow>rp_buffer p. HEADER_LENGTH + length d)"
  shows "records_pool_flush svc (p, w) = (Inl MapreduceError, (p, w))"
  using assms records_bytes_length [of "rp_buffer p"] by (simp add: records_pool_flush_def string_session)

lemma forA_append: "forA f (xs @ ys) s = seqA (forA f xs) (forA f ys) s"
  by (induction xs arbitrary: s) (simp_all add: seqA_def bindA_def split: sum.splits prod.splits)

section \<open>Properties\<close>

text \<open>C25: What a shard writes through its pool, which has the file for itself, is read back record for record.\<close>

theorem shard_records_round_trip:
  "serves svc name cont \<Longrightarrow> appends svc name cont \<Longrightarrow> cont w = Some [] \<Longrightarrow>
     \<exists>w' s'. write_records svc name flush_size True records w = (Inr (), w') \<and>
       iter_file_records svc (open_records name, w') = Some (records, None, s')"
proof -
  assume svc: "serves svc name cont" "appends svc name cont" and "cont w = Some []"
  then have "cont w = Some (concat (map records_bytes []))" by simp
  from write_records_content [OF svc(2) this, of True flush_size records] obtain w' dss where
      "write_records svc name flush_size True records w = (Inr (), w')"
      "cont w' = Some (concat (map records_bytes dss))" "concat dss = records" by auto
  with read_pieces [OF svc(1)] show ?thesis by metis
qed

theorem shard_records_round_trip_witness:
  "\<exists>w' s'. write_records memory_service ''f'' 10 True [[1, 2, 3], [], [4]] [] = (Inr (), w') \<and>
     iter_file_records memory_service (open_records ''f'', w') = Some ([[1, 2, 3], [], [4]], None, s')"
  by (rule shard_records_round_trip [of memory_service "''f''" Some])
    (simp_all add: memory_serves memory_appends)

text \<open>C26: Reading a file of records comes to its end on every file content, however damaged, and raises nothing.\<close>

theorem reading_records_returns:
  "serves svc name cont \<Longrightarrow> cont w = Some c \<Longrightarrow>
     \<exists>xs s'. iter_file_records svc (open_records name, w) = Some (xs, None, s')"
proof -
  assume "serves svc name cont" "cont w = Some c"
  from buffered.iter_returns [OF open_records_at [OF this]] show ?thesis unfolding iter_file_records_def by simp
qed

theorem reading_records_returns_witness:
  "\<exists>xs s'. iter_file_records memory_service (open_records ''f'', [9, 9, 9, 9, 200, 0, 1, 8]) = Some (xs, None, s')"
  by (rule reading_records_returns [of memory_service "''f''" Some]) (simp_all add: memory_serves)

text \<open>C29: Reading through a buffered file from any position yields the records that a plain reader of the content yields:
  the buffer and the chunks of the service do not show.\<close>

theorem buffered_reader_refines_plain:
  "serves svc name cont \<Longrightarrow> cont w = Some c \<Longrightarrow> p \<le> length c \<Longrightarrow>
     \<exists>s0 s'. buffered_seek (int p) 0 (open_records name, w) = (Inr (), s0) \<and>
       iter_file_records svc s0 = Some (plain_records c p, None, s')"
proof -
  assume svc: "serves svc name cont" "cont w = Some c" and p: "p \<le> length c"
  let ?s0 = "((open_records name)\<lparr>b_position := int p, b_buffer := [], b_buffer_pos := 0\<rparr>, w)"
  have seek: "buffered_seek (int p) 0 (open_records name, w) = (Inr (), ?s0)" by (simp add: buffered_seek_def)
  have "buffered_at svc name cont c ?s0 p"
    using svc by (simp add: buffered_at_def open_records_def buffered_init_def BUFFER_SIZE_def)
  from buffered.iter_plain [OF this p] seek show ?thesis unfolding iter_file_records_def by blast
qed

theorem buffered_reader_refines_plain_witness:
  "\<exists>s0 s'. buffered_seek (int 1) 0 (open_records ''f'', [9, 9, 9]) = (Inr (), s0) \<and>
     iter_file_records memory_service s0 = Some (plain_records [9, 9, 9] 1, None, s')"
  by (rule buffered_reader_refines_plain [of memory_service "''f''" Some]) (simp_all add: memory_serves)



text \<open>Written at any position, a record has the bytes of the format: the writer is a refinement of it.\<close>

theorem writer_writes_the_format:
  "w_entered w \<Longrightarrow> \<exists>w'. writer_write string_write data w = (Inr (), w') \<and>
     w_writer w' = w_writer w @ record_bytes (w_position w) data \<and>
     w_position w' = w_position w + length (record_bytes (w_position w) data)"
  using string_writer.writer_write_wrote [of w data] by (auto simp: wrote_def)

theorem writer_writes_the_format_witness:
  "\<exists>w'. writer_write string_write [5] ((records_writer_init [] True)\<lparr>w_entered := True\<rparr>) = (Inr (), w') \<and>
     w_writer w' = record_bytes 0 [5] \<and> w_position w' = length (record_bytes 0 [5])"
  using writer_writes_the_format [of "(records_writer_init [] True)\<lparr>w_entered := True\<rparr>" "[5]"]
  by (simp add: records_writer_init_def)

text \<open>A shared pool of the default size accepts 131072 records of one byte, and can write none of them: with their
  headers they exceed the largest request, so the next append fails and leaves the pool as it was.\<close>

theorem small_records_jam_the_pool:
  "forA (records_pool_append svc) (replicate FILES_API_FLUSH_SIZE [b] @ [[b]])
       (records_pool_init name FILES_API_FLUSH_SIZE False, w) =
     (Inl MapreduceError, ((records_pool_init name FILES_API_FLUSH_SIZE False)
        \<lparr>rp_buffer := replicate FILES_API_FLUSH_SIZE [b], rp_size := FILES_API_FLUSH_SIZE\<rparr>, w))"
proof -
  let ?p = "records_pool_init name FILES_API_FLUSH_SIZE False"
  let ?q = "?p\<lparr>rp_buffer := replicate FILES_API_FLUSH_SIZE [b], rp_size := FILES_API_FLUSH_SIZE\<rparr>"
  have full: "forA (records_pool_append svc) (replicate FILES_API_FLUSH_SIZE [b]) (?p, w) = (Inr (), (?q, w))"
    using pool_fills [of ?p FILES_API_FLUSH_SIZE svc b w] by (simp add: records_pool_init_def)
  have "records_pool_flush svc (?q, w) = (Inl MapreduceError, (?q, w))"
    by (rule flush_too_big)
      (simp_all add: records_pool_init_def sum_list_replicate map_replicate_const FILES_API_FLUSH_SIZE_def
        FILES_API_MAX_SIZE_def HEADER_LENGTH_def)
  then have "records_pool_append svc [b] (?q, w) = (Inl MapreduceError, (?q, w))"
    by (simp add: records_pool_append_def seqA_def bindA_def records_pool_init_def)
  with full show ?thesis by (simp add: forA_append seqA_def bindA_def)
qed

text \<open>Data between the flush size and the largest request passes the check of \<open>append\<close> and is then refused by
  \<open>flush\<close>: nothing is written, and the data stays in the pool.\<close>

theorem large_data_jams_the_file_pool:
  "appends svc name cont \<Longrightarrow> cont w = Some c \<Longrightarrow> (\<And>xs. mset (order xs) = mset xs) \<Longrightarrow>
     FILES_API_FLUSH_SIZE < length data \<Longrightarrow> length data \<le> FILES_API_MAX_SIZE \<Longrightarrow>
     \<exists>w'. file_pool_append svc order name data (file_pool_init FILES_API_FLUSH_SIZE, w) =
       (Inl MapreduceError, (file_pool_add name data (file_pool_init FILES_API_FLUSH_SIZE), w')) \<and> cont w' = Some c"
proof -
  assume svc: "appends svc name cont" and w: "cont w = Some c" and order: "\<And>xs. mset (order xs) = mset xs"
    and big: "FILES_API_FLUSH_SIZE < length data" and small: "length data \<le> FILES_API_MAX_SIZE"
  let ?p = "file_pool_init FILES_API_FLUSH_SIZE" and ?q = "file_pool_add name data (file_pool_init FILES_API_FLUSH_SIZE)"
  have orders: "order [] = []" "order [(name, data)] = [(name, data)]"
    using order [of "[]"] order [of "[(name, data)]"] by simp_all
  have empty: "file_pool_flush svc order (?p, w) = (Inr (), (?p, w))"
    by (simp add: file_pool_flush_def file_pool_init_def orders)
  obtain w1 where op: "svc_open svc name False RAW APPEND w = (Inr (), w1)" "cont w1 = Some c"
    using appends_open [OF svc w] .
  obtain w2 where cl: "svc_close svc name False w1 = (Inr (), w2)" "cont w2 = Some c"
    using appends_close [OF svc op(2)] .
  let ?f = "new_file name ''a'' False"
  have "files_open svc name ''a'' RAW False w = (Inr ?f, w1)"
    using svc op(1) by (intro files_open_Inr) (simp_all add: appends_def)
  moreover have "file_close svc False (?f, w1) = (Inr (), (?f\<lparr>f_closed := True\<rparr>, w2))"
    by (rule file_close_Inr) (use cl in \<open>simp_all add: new_file_def\<close>)
  ultimately have "with_file svc name ''a'' False (raiseA MapreduceError :: (_, unit) act) w = (Inl MapreduceError, w2)"
    using with_file_Inr [of svc name "''a''" False w ?f w1 "raiseA MapreduceError" "Inl MapreduceError" ?f w1] by simp
  then have refused: "file_pool_flush svc order (?q, w) = (Inl MapreduceError, (?q, w2))"
    using big orders by (simp add: file_pool_flush_def file_pool_add_def file_pool_init_def seqA_def bindA_def)
  have size: "fp_size ?p = 0" "fp_flush_size ?p = FILES_API_FLUSH_SIZE" "fp_size ?q = length data"
    "fp_flush_size ?q = FILES_API_FLUSH_SIZE" by (simp_all add: file_pool_init_def file_pool_add_def)
  have "file_pool_append svc order name data (?p, w) = (Inl MapreduceError, (?q, w2))"
    using big small by (simp add: file_pool_append_def seqA_def bindA_def empty size refused)
  with cl(2) show ?thesis by blast
qed

theorem large_data_jams_the_file_pool_witness:
  "\<exists>w'. file_pool_append memory_service (\<lambda>xs. xs) ''f'' (replicate 200000 0) (file_pool_init FILES_API_FLUSH_SIZE, [1]) =
       (Inl MapreduceError, (file_pool_add ''f'' (replicate 200000 0) (file_pool_init FILES_API_FLUSH_SIZE), w')) \<and>
     Some w' = Some [1]"
  by (rule large_data_jams_the_file_pool)
    (simp_all add: memory_appends FILES_API_FLUSH_SIZE_def FILES_API_MAX_SIZE_def)

end
