(* ===== verification/RecordsInput.thy ===== *)
theory RecordsInput
  imports RecordPools
begin

text \<open>
  \<open>RecordsReader\<close> of \<open>mapreduce/input_readers.py\<close>: the input reader of a shard, which goes through a list of
  record files and can be put away between two records and taken up again. It runs without a context.
\<close>

section \<open>The reader\<close>

record records_input =
  ri_filenames :: "string list"
  ri_reader :: "buffered option"

definition records_input_init :: "string list \<Rightarrow> int \<Rightarrow> records_input" where
  "records_input_init filenames position =
     \<lparr>ri_filenames = filenames,
      ri_reader = (if filenames \<noteq> []
                   then Some ((open_records (hd filenames))\<lparr>b_position := position, b_buffer := [], b_buffer_pos := 0\<rparr>)
                   else None)\<rparr>"

text \<open>
  \<open>__iter__\<close>, run to its next \<open>yield\<close>: \<open>Inr None\<close> when the loop has ended. At the end of a file the next file
  of the list is opened.
\<close>

function input_next :: "'w file_service \<Rightarrow> records_input \<times> 'w \<Rightarrow> (bytes option res \<times> (records_input \<times> 'w)) option" where
  "input_next svc (ri, w) =
     (case ri_reader ri of
        None \<Rightarrow> Some (Inr None, (ri, w))
      | Some b \<Rightarrow> (case read_file_record svc (b, w) of
            None \<Rightarrow> None
          | Some (Inr x, (b', w')) \<Rightarrow> Some (Inr (Some x), (ri\<lparr>ri_reader := Some b'\<rparr>, w'))
          | Some (Inl e, (b', w')) \<Rightarrow>
              if e = EOFError then
                (case ri_filenames ri of
                   [] \<Rightarrow> Some (Inl IndexError, (ri\<lparr>ri_reader := Some b'\<rparr>, w'))
                 | f # [] \<Rightarrow> Some (Inr None, (\<lparr>ri_filenames = [], ri_reader = None\<rparr>, w'))
                 | f # g # fs \<Rightarrow> input_next svc (\<lparr>ri_filenames = g # fs, ri_reader = Some (open_records g)\<rparr>, w'))
              else Some (Inl e, (ri\<lparr>ri_reader := Some b'\<rparr>, w'))))"
  by pat_completeness auto
termination
  by (relation "measure (\<lambda>(svc, ri, w). length (ri_filenames ri))") auto

declare input_next.simps [simp del]

text \<open>\<open>to_json\<close> and \<open>from_json\<close>: the files that are left and the position in the first of them.\<close>

definition input_to_json :: "records_input \<Rightarrow> string list \<times> int" where
  "input_to_json ri = (ri_filenames ri, case ri_reader ri of None \<Rightarrow> 0 | Some b \<Rightarrow> b_position b)"

definition input_from_json :: "string list \<times> int \<Rightarrow> records_input" where
  "input_from_json json = records_input_init (fst json) (snd json)"

section \<open>Splitting the input\<close>

text \<open>
  The batches of \<open>split_input\<close>: file names dealt out to the shards in turn, then sorted by length, longest
  first. Python's sort is stable, also in reverse.
\<close>

definition deal :: "nat \<Rightarrow> string list \<Rightarrow> string list list" where
  "deal shard_count filenames = fold (\<lambda>(i, f) batches. batches[i mod shard_count := batches ! (i mod shard_count) @ [f]])
     (enumerate 0 filenames) (replicate shard_count [])"

definition split_input :: "nat \<Rightarrow> string list \<Rightarrow> records_input list res" where
  "split_input shard_count filenames =
     (if shard_count = 0 \<and> filenames \<noteq> [] then Inl ZeroDivisionError
      else Inr (map (\<lambda>batch. records_input_init batch 0)
        (sort_key (\<lambda>batch. - int (length batch)) (deal shard_count filenames))))"

text \<open>The file names: a list, or one string with commas; without the parameter \<open>files\<close>, the one of \<open>file\<close>.\<close>

definition input_filenames :: "(string + string list) option \<Rightarrow> string \<Rightarrow> string list" where
  "input_filenames files file =
     (case files of Some (Inl names) \<Rightarrow> split_on CHR '','' names | Some (Inr names) \<Rightarrow> names | None \<Rightarrow> [file])"

section \<open>Runs\<close>

text \<open>All that the iteration still yields, and its first \<open>k\<close> records.\<close>

partial_function (option) input_iter ::
    "'w file_service \<Rightarrow> records_input \<times> 'w \<Rightarrow> (bytes list \<times> exn option \<times> (records_input \<times> 'w)) option" where
  "input_iter svc s =
     (case input_next svc s of
        None \<Rightarrow> None
      | Some (Inl e, s') \<Rightarrow> Some ([], Some e, s')
      | Some (Inr None, s') \<Rightarrow> Some ([], None, s')
      | Some (Inr (Some x), s') \<Rightarrow>
          Option.bind (input_iter svc s') (\<lambda>(xs, stop, s''). Some (x # xs, stop, s'')))"

fun input_take ::
    "'w file_service \<Rightarrow> nat \<Rightarrow> records_input \<times> 'w \<Rightarrow> (bytes list \<times> (records_input \<times> 'w)) option" where
  "input_take svc 0 s = Some ([], s)"
| "input_take svc (Suc k) s =
     (case input_next svc s of
        Some (Inr (Some x), s') \<Rightarrow>
          (case input_take svc k s' of None \<Rightarrow> None | Some (xs, s'') \<Rightarrow> Some (x # xs, s''))
      | _ \<Rightarrow> None)"

section \<open>What is left to read\<close>

text \<open>
  The files of the list are served, in every world that \<open>ok\<close> admits, with the contents \<open>content\<close>.
\<close>

definition file_of :: "('w \<Rightarrow> bool) \<Rightarrow> (string \<Rightarrow> bytes) \<Rightarrow> string \<Rightarrow> 'w \<Rightarrow> bytes option" where
  "file_of ok content name w = (if ok w then Some (content name) else None)"

definition remaining_records :: "(string \<Rightarrow> bytes) \<Rightarrow> string list \<times> nat \<Rightarrow> bytes list" where
  "remaining_records content = (\<lambda>(names, p). case names of [] \<Rightarrow> []
     | n # ns \<Rightarrow> plain_records (content n) p @ concat (map (\<lambda>m. plain_records (content m) 0) ns))"

text \<open>The reader stands at position \<open>p\<close> of the first of the files that are left.\<close>

definition input_at ::
    "'w file_service \<Rightarrow> ('w \<Rightarrow> bool) \<Rightarrow> (string \<Rightarrow> bytes) \<Rightarrow> records_input \<times> 'w \<Rightarrow> string list \<Rightarrow> nat \<Rightarrow> bool" where
  "input_at svc ok content = (\<lambda>(ri, w) names p. ok w \<and> ri_filenames ri = names \<and>
     (\<forall>n \<in> set names. serves svc n (file_of ok content n)) \<and>
     (case names of [] \<Rightarrow> ri_reader ri = None
      | n # ns \<Rightarrow> p \<le> length (content n) \<and> (\<exists>b. ri_reader ri = Some b \<and>
          buffered_at svc n (file_of ok content n) (content n) (b, w) p)))"


lemma input_at_open:
  assumes "serves svc n (file_of ok content n)" "ok w"
  shows "buffered_at svc n (file_of ok content n) (content n) (open_records n, w) 0"
  by (rule open_records_at [OF assms(1)]) (simp add: file_of_def assms(2))

lemma buffered_at_ok: "buffered_at svc n (file_of ok content n) c (b, w) p \<Longrightarrow> ok w"
  by (simp add: buffered_at_def file_of_def split: if_splits)

text \<open>
  The next record is the first of those left, and the reader stands before the others; when none is left the
  iteration ends.
\<close>

lemma input_next_at:
  assumes "input_at svc ok content (ri, w) names p"
  shows "(\<exists>s'. input_next svc (ri, w) = Some (Inr None, s') \<and> remaining_records content (names, p) = []) \<or>
         (\<exists>x ri' w' names' q. input_next svc (ri, w) = Some (Inr (Some x), (ri', w')) \<and>
            input_at svc ok content (ri', w') names' q \<and>
            remaining_records content (names, p) = x # remaining_records content (names', q))"
  using assms
proof (induction names arbitrary: ri w p)
  case Nil
  then have "ri_reader ri = None" by (simp add: input_at_def)
  then show ?case by (subst (1) input_next.simps) (simp add: remaining_records_def)
next
  case (Cons n ns)
  note IH = Cons.IH
  from Cons.prems obtain b where b: "ri_reader ri = Some b" "p \<le> length (content n)"
      "buffered_at svc n (file_of ok content n) (content n) (b, w) p"
    and names: "ri_filenames ri = n # ns" "\<forall>m \<in> set (n # ns). serves svc m (file_of ok content m)"
    by (auto simp: input_at_def)
  show ?case
  proof (rule buffered.read_plain [OF b(3,2)])
    fix s' q assume eof: "reader_read (buffered_read svc) buffered_tell (b, w) = Some (Inl EOFError, s')"
      and at: "buffered_at svc n (file_of ok content n) (content n) s' q" and none: "plain_records (content n) p = []"
    obtain b' w' where s': "s' = (b', w')" by fastforce
    show ?thesis
    proof (cases ns)
      case Nil
      have "input_next svc (ri, w) = Some (Inr None, (\<lparr>ri_filenames = [], ri_reader = None\<rparr>, w'))"
        using eof b(1) names(1) Nil s' by (subst input_next.simps) (simp add: read_file_record_def)
      with none Nil show ?thesis by (simp add: remaining_records_def)
    next
      case (Cons m ms)
      let ?ri = "\<lparr>ri_filenames = m # ms, ri_reader = Some (open_records m)\<rparr>"
      have ok: "ok w'" using at unfolding s' by (rule buffered_at_ok)
      have "serves svc m (file_of ok content m)" using names(2) Cons by simp
      then have "buffered_at svc m (file_of ok content m) (content m) (open_records m, w') 0"
        using ok by (rule input_at_open)
      then have "input_at svc ok content (?ri, w') ns 0"
        using names(2) Cons ok by (simp add: input_at_def)
      moreover have "input_next svc (ri, w) = input_next svc (?ri, w')"
        using eof b(1) names(1) Cons s' by (subst input_next.simps) (simp add: read_file_record_def)
      moreover have "remaining_records content (n # ns, p) = remaining_records content (ns, 0)"
        using none Cons by (simp add: remaining_records_def)
      ultimately show ?thesis using IH [of ?ri w' 0] by simp
    qed
  next
    fix x s' q assume step: "reader_read (buffered_read svc) buffered_tell (b, w) = Some (Inr x, s')"
      "buffered_at svc n (file_of ok content n) (content n) s' q" "q \<le> length (content n)"
      "plain_records (content n) p = x # plain_records (content n) q"
    obtain b' w' where s': "s' = (b', w')" by fastforce
    have "input_next svc (ri, w) = Some (Inr (Some x), (ri\<lparr>ri_reader := Some b'\<rparr>, w'))"
      using step(1) b(1) s' by (subst input_next.simps) (simp add: read_file_record_def)
    moreover have "input_at svc ok content (ri\<lparr>ri_reader := Some b'\<rparr>, w') (n # ns) q"
      using step(2,3) names s' buffered_at_ok by (auto simp: input_at_def)
    moreover have "remaining_records content (n # ns, p) = x # remaining_records content (n # ns, q)"
      using step(4) by (simp add: remaining_records_def)
    ultimately show ?thesis by blast
  qed
qed


lemma input_iter_at:
  "input_at svc ok content (ri, w) names p \<Longrightarrow>
     \<exists>s'. input_iter svc (ri, w) = Some (remaining_records content (names, p), None, s')"
proof (induction "length (remaining_records content (names, p))" arbitrary: ri w names p)
  case 0
  with input_next_at [OF 0(2)] show ?case by (subst input_iter.simps) auto
next
  case (Suc k)
  from input_next_at [OF Suc.prems] Suc.hyps(2) obtain x ri' w' names' q where
      step: "input_next svc (ri, w) = Some (Inr (Some x), (ri', w'))" "input_at svc ok content (ri', w') names' q"
      "remaining_records content (names, p) = x # remaining_records content (names', q)" by auto
  then have "k = length (remaining_records content (names', q))" using Suc.hyps(2) by simp
  from Suc.hyps(1) [OF this step(2)] obtain s' where
      "input_iter svc (ri', w') = Some (remaining_records content (names', q), None, s')" by blast
  with step(1,3) show ?case by (subst input_iter.simps) simp
qed

lemma input_take_at:
  "input_at svc ok content (ri, w) names p \<Longrightarrow> input_take svc k (ri, w) = Some (xs, (ri', w')) \<Longrightarrow>
     \<exists>names' q. input_at svc ok content (ri', w') names' q \<and>
       remaining_records content (names, p) = xs @ remaining_records content (names', q)"
proof (induction k arbitrary: ri w names p xs)
  case 0
  then show ?case by auto
next
  case (Suc k)
  from input_next_at [OF Suc.prems(1)] Suc.prems(2) obtain x ri1 w1 names1 q1 xs1 where
      step: "input_at svc ok content (ri1, w1) names1 q1"
      "remaining_records content (names, p) = x # remaining_records content (names1, q1)"
      "input_take svc k (ri1, w1) = Some (xs1, (ri', w'))" "xs = x # xs1"
    by (auto split: option.splits)
  from Suc.IH [OF step(1,3)] step(2,4) show ?case by auto
qed

text \<open>Taken up again from its JSON, the reader stands where it stood.\<close>

lemma input_restored:
  assumes "input_at svc ok content (ri, w) names p"
  shows "input_at svc ok content (input_from_json (input_to_json ri), w) names p"
proof (cases names)
  case Nil
  with assms show ?thesis by (simp add: input_at_def input_from_json_def input_to_json_def records_input_init_def)
next
  case (Cons n ns)
  with assms obtain b where b: "ri_reader ri = Some b" "p \<le> length (content n)"
      "buffered_at svc n (file_of ok content n) (content n) (b, w) p"
    by (auto simp: input_at_def)
  then have "b_position b = int p" by (simp add: buffered_at_def)
  then have "buffered_at svc n (file_of ok content n) (content n)
      ((open_records n)\<lparr>b_position := b_position b, b_buffer := [], b_buffer_pos := 0\<rparr>, w) p"
    using b(3) by (auto simp: buffered_at_def open_records_def buffered_init_def BUFFER_SIZE_def)
  with b assms Cons show ?thesis
    by (auto simp: input_at_def input_from_json_def input_to_json_def records_input_init_def)
qed

lemma input_fresh:
  assumes "\<forall>n \<in> set names. serves svc n (file_of ok content n)" "ok w"
  shows "input_at svc ok content (records_input_init names 0, w) names 0"
proof (cases names)
  case Nil
  with assms show ?thesis by (simp add: input_at_def records_input_init_def)
next
  case (Cons n ns)
  have "(open_records n)\<lparr>b_position := 0, b_buffer := [], b_buffer_pos := 0\<rparr> = open_records n"
    by (simp add: open_records_def buffered_init_def)
  with Cons assms show ?thesis by (auto simp: input_at_def records_input_init_def intro: input_at_open)
qed

lemma plain_records_pieces: "plain_records (concat (map records_bytes dss)) 0 = concat dss"
  using plain.iter_files [of 0 0 "concat (map records_bytes dss)" dss] by (auto simp: plain_records_def)

section \<open>Dealing\<close>

lemma deal_step:
  assumes "0 < k"
  shows "\<lbrakk>length batches = k\<rbrakk> \<Longrightarrow> mset (concat (fold (\<lambda>(i, f) batches. batches[i mod k := batches ! (i mod k) @ [f]])
           (enumerate j names) batches)) = mset (concat batches) + mset names"
proof (induction names arbitrary: j batches)
  case Nil
  then show ?case by simp
next
  case (Cons f names)
  let ?b = "batches[j mod k := batches ! (j mod k) @ [f]]"
  have less: "j mod k < length batches" using assms Cons.prems by simp
  have "mset (concat ?b) = mset (concat batches) + {#f#}"
    using less by (subst (2) id_take_nth_drop [OF less]) (simp add: upd_conv_take_nth_drop)
  then show ?case using Cons.IH [of ?b "Suc j"] Cons.prems by simp
qed

lemma mset_concat_perm: "mset xs = mset ys \<Longrightarrow> mset (concat xs) = mset (concat ys)"
  unfolding mset_concat sum_mset_sum_list [symmetric] mset_map by simp

lemma mset_concat_sort: "mset (concat (sort_key f xs)) = mset (concat xs)"
  by (rule mset_concat_perm) simp

lemma deal_mset: "0 < k \<Longrightarrow> mset (concat (deal k names)) = mset names"
  using deal_step [of k "replicate k []" 0 names] by (simp add: deal_def)

lemma deal_length: "length (deal k names) = k"
proof -
  have "length (fold (\<lambda>(i, f) batches. batches[i mod k := batches ! (i mod k) @ [f]]) xs b) = length b"
    for xs :: "(nat \<times> string) list" and b by (induction xs arbitrary: b) auto
  then show ?thesis by (simp add: deal_def)
qed

text \<open>The file in memory, under any name, as long as nothing is written.\<close>

lemma memory_files: "n \<noteq> [] \<Longrightarrow> serves memory_service n (file_of (\<lambda>w. w = c) (\<lambda>_. c) n)"
proof -
  have "\<exists>m. take (nat k) (drop p c) = take m (drop p c) \<and> int m \<le> k \<and> (p < length c \<longrightarrow> 0 < m)" if "0 < k"
    for k p using that by (intro exI [of _ "nat k"]) simp
  then show "n \<noteq> [] \<Longrightarrow> serves memory_service n (file_of (\<lambda>w. w = c) (\<lambda>_. c) n)"
    by (auto simp: serves_def memory_service_def file_of_def split: if_splits)
qed

section \<open>Properties\<close>

text \<open>C30: A reader that is put away after any number of records and taken up again from its JSON yields the rest:
  no record is lost, and none is read twice.\<close>

theorem input_resumes:
  "\<forall>n \<in> set names. serves svc n (file_of ok content n) \<Longrightarrow> ok w \<Longrightarrow>
     input_take svc k (records_input_init names 0, w) = Some (xs, (ri, w')) \<Longrightarrow>
     \<exists>s' ys s''. input_iter svc (records_input_init names 0, w) = Some (xs @ ys, None, s') \<and>
       input_iter svc (input_from_json (input_to_json ri), w') = Some (ys, None, s'')"
proof -
  assume files: "\<forall>n \<in> set names. serves svc n (file_of ok content n)" "ok w"
    and run: "input_take svc k (records_input_init names 0, w) = Some (xs, (ri, w'))"
  note fresh = input_fresh [OF files]
  from input_take_at [OF fresh run] obtain names' q where at: "input_at svc ok content (ri, w') names' q"
      "remaining_records content (names, 0) = xs @ remaining_records content (names', q)" by blast
  from input_iter_at [OF fresh] input_iter_at [OF input_restored [OF at(1)]] at(2) show ?thesis by auto
qed

theorem input_resumes_witness:
  "\<exists>ri w' ys s' s''. input_take memory_service 1 (records_input_init [''f''] 0, records_bytes [[1, 2], [3]]) =
       Some ([[1, 2]], (ri, w')) \<and>
     input_iter memory_service (records_input_init [''f''] 0, records_bytes [[1, 2], [3]]) = Some ([[1, 2]] @ ys, None, s') \<and>
     input_iter memory_service (input_from_json (input_to_json ri), w') = Some (ys, None, s'')"
proof -
  let ?c = "records_bytes [[1, 2], [3]]" and ?s = "(records_input_init [''f''] 0, records_bytes [[1, 2], [3]])"
  have files: "\<forall>n \<in> set [''f'']. serves memory_service n (file_of (\<lambda>w. w = ?c) (\<lambda>_. ?c) n)"
    by (simp add: memory_files)
  have "remaining_records (\<lambda>_. ?c) ([''f''], 0) = [[1, 2], [3]]"
    using plain_records_pieces [of "[[[1, 2], [3]]]"] by (simp add: remaining_records_def)
  with input_next_at [OF input_fresh [OF files refl]] obtain ri w' where
      "input_next memory_service ?s = Some (Inr (Some [1, 2]), (ri, w'))" by auto
  then have run: "input_take memory_service 1 ?s = Some ([[1, 2]], (ri, w'))" by simp
  from input_resumes [OF files refl run] run show ?thesis by blast
qed

text \<open>The reader yields the records of all its files, file by file, as they were written.\<close>

theorem input_reads_all_files:
  "\<forall>n \<in> set names. serves svc n (file_of ok content n) \<Longrightarrow> ok w \<Longrightarrow>
     \<forall>n \<in> set names. content n = concat (map records_bytes (pieces n)) \<Longrightarrow>
     \<exists>s'. input_iter svc (records_input_init names 0, w) = Some (concat (map (\<lambda>n. concat (pieces n)) names), None, s')"
proof -
  assume files: "\<forall>n \<in> set names. serves svc n (file_of ok content n)" "ok w"
    and content: "\<forall>n \<in> set names. content n = concat (map records_bytes (pieces n))"
  have "remaining_records content (names, 0) = concat (map (\<lambda>n. plain_records (content n) 0) names)"
    by (cases names) (simp_all add: remaining_records_def)
  also have "\<dots> = concat (map (\<lambda>n. concat (pieces n)) names)"
    using content by (intro arg_cong [of _ _ concat] map_cong refl) (simp add: plain_records_pieces)
  finally show ?thesis using input_iter_at [OF input_fresh [OF files]] by simp
qed

theorem input_reads_all_files_witness:
  "\<exists>s'. input_iter memory_service (records_input_init [''f'', ''g''] 0, concat (map records_bytes [[[1], [2]], [[]]])) =
     Some ([[1], [2], [], [1], [2], []], None, s')"
  using input_reads_all_files [of "[''f'', ''g'']" memory_service "\<lambda>w. w = concat (map records_bytes [[[1], [2]], [[]]])"
      "\<lambda>_. concat (map records_bytes [[[1], [2]], [[]]])" "concat (map records_bytes [[[1], [2]], [[]]])" "\<lambda>_. [[[1], [2]], [[]]]"]
    memory_files [of _ "concat (map records_bytes [[[1], [2]], [[]]])"] by simp

text \<open>
  Splitting the input deals every file to exactly one shard.
\<close>

theorem split_input_partitions:
  "0 < shard_count \<Longrightarrow> \<exists>readers. split_input shard_count names = Inr readers \<and>
     mset (concat (map ri_filenames readers)) = mset names \<and> length readers = shard_count"
  using deal_length [of shard_count names] deal_mset [of shard_count names]
  by (simp add: split_input_def comp_def records_input_init_def mset_concat_sort)

theorem split_input_partitions_witness:
  "\<exists>readers. split_input 2 [''a'', ''b'', ''c''] = Inr readers \<and>
     mset (concat (map ri_filenames readers)) = mset [''a'', ''b'', ''c''] \<and> length readers = 2"
  by (rule split_input_partitions) simp

end
