(* ===== verification/NamespaceRange.thy ===== *)
theory NamespaceRange
  imports Prelude "HOL-Library.List_Lexorder" "HOL-Library.Char_ord" "HOL-Library.Multiset"
begin

text \<open>
  \<open>mapreduce/namespace_range.py\<close>: ranges of datastore namespaces in lexicographic order, and how the input of
  a job is split into them. Strings compare as in Python, character by character. The constants of the module are
  a record, because \<open>_setup_constants\<close> computes them from an alphabet and a length. The datastore is not part of the
  repository: \<open>first\<close> is what \<open>make_datastore_query().Get(1)\<close> finds between two namespaces.
\<close>

section \<open>Constants\<close>

record ns_constants =
  NAMESPACE_CHARACTERS :: string
  MAX_NAMESPACE_LENGTH :: nat
  MAX_NAMESPACE :: string
  LEX_DISTANCE :: "nat list"

definition setup_constants :: "string \<Rightarrow> nat \<Rightarrow> ns_constants" where
  "setup_constants alphabet max_length =
     \<lparr>NAMESPACE_CHARACTERS = alphabet, MAX_NAMESPACE_LENGTH = max_length,
      MAX_NAMESPACE = replicate max_length (last alphabet),
      LEX_DISTANCE = fold (\<lambda>i ds. ds @ [ds ! (i - 1) * length alphabet + 1]) [1..<max_length] [1]\<rparr>"

definition MIN_NAMESPACE :: string where "MIN_NAMESPACE = []"

definition namespace_alphabet :: string where
  "namespace_alphabet =
     sort (''0123456789'' @ ''abcdefghijklmnopqrstuvwxyz'' @ ''ABCDEFGHIJKLMNOPQRSTUVWXYZ'' @ ''._-'')"

definition namespace_constants :: ns_constants where
  "namespace_constants = setup_constants namespace_alphabet 100"

section \<open>Ordinals\<close>

text \<open>\<open>xs[i]\<close>, where a negative index counts from the end.\<close>

definition py_index :: "'a list \<Rightarrow> int \<Rightarrow> 'a res" where
  "py_index xs i =
     (if 0 \<le> i \<and> i < int (length xs) then Inr (xs ! nat i)
      else if - int (length xs) \<le> i \<and> i < 0 then Inr (xs ! nat (int (length xs) + i))
      else Inl IndexError)"

text \<open>\<open>s.index(c)\<close>\<close>

fun index_of :: "char \<Rightarrow> string \<Rightarrow> nat res" where
  "index_of c [] = Inl ValueError"
| "index_of c (x # xs) = (if x = c then Inr 0 else bindR (index_of c xs) (\<lambda>i. Inr (i + 1)))"

function ord_to_namespace :: "ns_constants \<Rightarrow> int \<Rightarrow> int \<Rightarrow> string res" where
  "ord_to_namespace k n max_length =
     (case py_index (LEX_DISTANCE k) (max_length - 1) of
        Inl e \<Rightarrow> Inl e
      | Inr d \<Rightarrow>
          if n = 0 then Inr []
          else if d = 0 then Inl ZeroDivisionError
          else (case py_index (NAMESPACE_CHARACTERS k) ((n - 1) div int d) of
                  Inl e \<Rightarrow> Inl e
                | Inr c \<Rightarrow> bindR (ord_to_namespace k ((n - 1) mod int d) (max_length - 1)) (\<lambda>s. Inr (c # s))))"
  by pat_completeness auto
termination
proof (relation "measures [\<lambda>(k, n, m). if n < 0 then 1 else 0, \<lambda>(k, n, m). nat n]", goal_cases)
  case 1
  show ?case by simp
next
  case (2 k n max_length d c)
  then have "0 \<le> (n - 1) mod int d" by simp
  moreover have "(n - 1) mod int d \<le> n - 1" if "0 < n" using that by (intro zmod_le_nonneg_dividend) simp
  ultimately show ?case using 2(2) by (cases "n < 0") auto
qed

declare ord_to_namespace.simps [simp del]

fun to_ord_from :: "ns_constants \<Rightarrow> nat \<Rightarrow> string \<Rightarrow> nat res" where
  "to_ord_from k i [] = Inr 0"
| "to_ord_from k i (c # s) =
     bindR (py_index (LEX_DISTANCE k) (int (MAX_NAMESPACE_LENGTH k) - int i - 1)) (\<lambda>d.
       bindR (index_of c (NAMESPACE_CHARACTERS k)) (\<lambda>j.
         bindR (to_ord_from k (i + 1) s) (\<lambda>n. Inr (d * j + 1 + n))))"

definition namespace_to_ord :: "ns_constants \<Rightarrow> string \<Rightarrow> int res" where
  "namespace_to_ord k namespace = bindR (to_ord_from k 0 namespace) (\<lambda>n. Inr (int n))"

abbreviation to_namespace :: "ns_constants \<Rightarrow> int \<Rightarrow> string res" where
  "to_namespace k n \<equiv> ord_to_namespace k n (int (MAX_NAMESPACE_LENGTH k))"

section \<open>Ranges\<close>

record ns_range =
  namespace_start :: string
  namespace_end :: string
  ns_app :: "string option"

definition ns_range_init :: "ns_constants \<Rightarrow> string option \<Rightarrow> string option \<Rightarrow> string option \<Rightarrow> ns_range res" where
  "ns_range_init k start end_of app =
     (let s = (case start of None \<Rightarrow> MIN_NAMESPACE | Some s \<Rightarrow> s);
          e = (case end_of of None \<Rightarrow> MAX_NAMESPACE k | Some e \<Rightarrow> e)
      in if s > e then Inl ValueError
         else Inr \<lparr>namespace_start = s, namespace_end = e, ns_app = app\<rparr>)"

definition is_single_namespace :: "ns_range \<Rightarrow> bool" where
  "is_single_namespace r \<longleftrightarrow> namespace_start r = namespace_end r"

definition split_range :: "ns_constants \<Rightarrow> ns_range \<Rightarrow> ns_range list res" where
  "split_range k r =
     (if is_single_namespace r then Inr [r]
      else bindR (namespace_to_ord k (namespace_start r)) (\<lambda>a.
        bindR (namespace_to_ord k (namespace_end r)) (\<lambda>b.
          (let mid_point = (a + b) div 2 in
           bindR (to_namespace k mid_point) (\<lambda>left_end.
             bindR (ns_range_init k (Some (namespace_start r)) (Some left_end) (ns_app r)) (\<lambda>left.
               bindR (to_namespace k (mid_point + 1)) (\<lambda>right_start.
                 bindR (ns_range_init k (Some right_start) (Some (namespace_end r)) (ns_app r)) (\<lambda>right.
                   Inr [left, right]))))))))"

definition ns_eq :: "ns_range \<Rightarrow> ns_range \<Rightarrow> bool" where
  "ns_eq r o' \<longleftrightarrow> namespace_start r = namespace_start o' \<and> namespace_end r = namespace_end o'"

definition with_start_after :: "ns_constants \<Rightarrow> ns_range \<Rightarrow> string \<Rightarrow> ns_range res" where
  "with_start_after k r after_namespace =
     bindR (namespace_to_ord k after_namespace) (\<lambda>n.
       bindR (to_namespace k (n + 1)) (\<lambda>start.
         ns_range_init k (Some start) (Some (namespace_end r)) (ns_app r)))"

type_synonym first_namespace = "string option \<Rightarrow> string \<Rightarrow> string \<Rightarrow> string option"

definition normalized_start :: "ns_constants \<Rightarrow> first_namespace \<Rightarrow> ns_range \<Rightarrow> ns_range option res" where
  "normalized_start k first r =
     (case first (ns_app r) (namespace_start r) (namespace_end r) of
        None \<Rightarrow> Inr None
      | Some namespace \<Rightarrow>
          bindR (ns_range_init k (Some namespace) (Some (namespace_end r)) (ns_app r)) (\<lambda>r'. Inr (Some r')))"

text \<open>The JSON object of a range: start, end and, if it has one, the application.\<close>

definition ns_to_json :: "ns_range \<Rightarrow> (string \<times> string) list" where
  "ns_to_json r = [(''namespace_start'', namespace_start r), (''namespace_end'', namespace_end r)] @
     (case ns_app r of None \<Rightarrow> [] | Some a \<Rightarrow> [(''app'', a)])"

definition ns_from_json :: "ns_constants \<Rightarrow> (string \<times> string) list \<Rightarrow> ns_range res" where
  "ns_from_json k json =
     (case map_of json ''namespace_start'' of None \<Rightarrow> Inl KeyError
      | Some s \<Rightarrow> (case map_of json ''namespace_end'' of None \<Rightarrow> Inl KeyError
          | Some e \<Rightarrow> ns_range_init k (Some s) (Some e) (map_of json ''app'')))"

section \<open>Splitting the whole space\<close>

text \<open>
  \<open>can_query\<close> is a generator with a state \<open>'q\<close>. The default one answers True fifty times; the default argument
  is evaluated once, so its state is kept from one call of \<open>split\<close> to the next.
\<close>

type_synonym 'q can_query = "'q \<Rightarrow> bool \<times> 'q"

definition default_can_query :: "nat can_query" where
  "default_can_query q = (if q > 0 then (True, q - 1) else (False, q))"

definition default_queries :: nat where "default_queries = 50"

definition normalize_if :: "ns_constants \<Rightarrow> first_namespace \<Rightarrow> bool \<Rightarrow> ns_range \<Rightarrow> ns_range option res" where
  "normalize_if k first query r = (if query then normalized_start k first r else Inr (Some r))"

text \<open>The loop: the ranges still to be split, from the front, and the ranges of one namespace.\<close>

partial_function (option) split_loop ::
    "ns_constants \<Rightarrow> first_namespace \<Rightarrow> 'q can_query \<Rightarrow> nat \<Rightarrow> ns_range list \<Rightarrow> ns_range list \<Rightarrow> 'q \<Rightarrow>
     ((ns_range list \<times> ns_range list) res \<times> 'q) option" where
  "split_loop k first can n ranges singles q =
     (if ranges \<noteq> [] \<and> length ranges + length singles < n then
        (let r = hd ranges; rest = drop 1 ranges in
         if is_single_namespace r then split_loop k first can n rest (singles @ [r]) q
         else (case split_range k r of
                 Inl e \<Rightarrow> Some (Inl e, q)
               | Inr parts \<Rightarrow>
                   (case can q of (query, q') \<Rightarrow>
                      (case normalize_if k first query (parts ! 1) of
                         Inl e \<Rightarrow> Some (Inl e, q')
                       | Inr right \<Rightarrow>
                           split_loop k first can n
                             (rest @ (case right of None \<Rightarrow> [] | Some r' \<Rightarrow> [r']) @ [parts ! 0]) singles q'))))
      else Some (Inr (ranges, singles), q))"

text \<open>The ranges made contiguous: each ends right before the next one starts.\<close>

fun contiguous_ranges :: "ns_constants \<Rightarrow> string option \<Rightarrow> bool \<Rightarrow> ns_range list \<Rightarrow> ns_range list res" where
  "contiguous_ranges k app first_one [] = Inr []"
| "contiguous_ranges k app first_one (r # rs) =
     bindR (case rs of [] \<Rightarrow> Inr (MAX_NAMESPACE k)
            | r' # _ \<Rightarrow> bindR (namespace_to_ord k (namespace_start r')) (\<lambda>m. to_namespace k (m - 1))) (\<lambda>end_of.
       bindR (ns_range_init k (Some (if first_one then MIN_NAMESPACE else namespace_start r)) (Some end_of) app) (\<lambda>r1.
         bindR (contiguous_ranges k app False rs) (\<lambda>rest. Inr (r1 # rest))))"

definition ns_split ::
    "ns_constants \<Rightarrow> first_namespace \<Rightarrow> 'q can_query \<Rightarrow> nat \<Rightarrow> bool \<Rightarrow> string option \<Rightarrow> 'q \<Rightarrow> (ns_range list res \<times> 'q) option" where
  "ns_split k first can n contiguous app q =
     (if n < 1 then Some (Inl ValueError, q)
      else (case ns_range_init k None None app of
        Inl e \<Rightarrow> Some (Inl e, q)
      | Inr whole \<Rightarrow> (case can q of (query, q1) \<Rightarrow> (case normalize_if k first query whole of
          Inl e \<Rightarrow> Some (Inl e, q1)
        | Inr None \<Rightarrow> Some (Inr (if contiguous then [whole] else []), q1)
        | Inr (Some r) \<Rightarrow> (case split_loop k first can n [r] [] q1 of
            None \<Rightarrow> None
          | Some (Inl e, q2) \<Rightarrow> Some (Inl e, q2)
          | Some (Inr (ranges, singles), q2) \<Rightarrow>
              (let ns_ranges = sort_key namespace_start (singles @ ranges) in
               Some (if contiguous
                     then (if ns_ranges = [] then Inr [whole] else contiguous_ranges k app True ns_ranges)
                     else Inr ns_ranges, q2)))))))"


section \<open>The order of namespaces\<close>

text \<open>\<open>strings_upto a i\<close>: how many strings of at most \<open>i\<close> characters there are over \<open>a\<close> characters.\<close>

fun strings_upto :: "nat \<Rightarrow> nat \<Rightarrow> nat" where
  "strings_upto a 0 = 1"
| "strings_upto a (Suc i) = strings_upto a i * a + 1"

definition idx :: "string \<Rightarrow> char \<Rightarrow> nat" where
  "idx al c = (case index_of c al of Inr i \<Rightarrow> i | Inl _ \<Rightarrow> 0)"

fun ordn :: "string \<Rightarrow> nat \<Rightarrow> string \<Rightarrow> nat" where
  "ordn al m [] = 0"
| "ordn al m (c # s) = strings_upto (length al) (m - 1) * idx al c + 1 + ordn al (m - 1) s"

definition namespaces :: "ns_constants \<Rightarrow> string set" where
  "namespaces k = {s. length s \<le> MAX_NAMESPACE_LENGTH k \<and> set s \<subseteq> set (NAMESPACE_CHARACTERS k)}"

definition ordinal :: "ns_constants \<Rightarrow> string \<Rightarrow> nat" where
  "ordinal k s = ordn (NAMESPACE_CHARACTERS k) (MAX_NAMESPACE_LENGTH k) s"

lemma dist_pos [simp]: "0 < strings_upto a i"
  by (cases i) simp_all

lemma lex_distances: "fold (\<lambda>i ds. ds @ [ds ! (i - 1) * a + 1]) [1..<Suc l] [1] = map (strings_upto a) [0..<Suc l]"
proof (induction l)
  case (Suc l)
  let ?f = "\<lambda>i ds. ds @ [ds ! (i - 1) * a + 1]"
  have "fold ?f [1..<Suc (Suc l)] [1] = ?f (Suc l) (fold ?f [1..<Suc l] [1])" by simp
  also have "\<dots> = map (strings_upto a) [0..<Suc l] @ [map (strings_upto a) [0..<Suc l] ! l * a + 1]"
    unfolding Suc.IH by (simp del: upt_Suc)
  also have "map (strings_upto a) [0..<Suc l] ! l = strings_upto a l" by (simp del: upt_Suc)
  finally have eq: "fold ?f [1..<Suc (Suc l)] [1] =
      map (strings_upto a) [0..<Suc l] @ [strings_upto a l * a + 1]" .
  show ?case unfolding eq by simp
qed simp

lemma index_of_idx: "c \<in> set al \<Longrightarrow> index_of c al = Inr (idx al c) \<and> idx al c < length al \<and> al ! idx al c = c"
proof -
  assume "c \<in> set al"
  then have "\<exists>i. index_of c al = Inr i \<and> i < length al \<and> al ! i = c"
    by (induction al) auto
  then show ?thesis by (auto simp: idx_def)
qed

lemma idx_nth: "distinct al \<Longrightarrow> i < length al \<Longrightarrow> idx al (al ! i) = i"
  using index_of_idx [of "al ! i" al] nth_eq_iff_index_eq [of al "idx al (al ! i)" i] by simp

lemma idx_less: "sorted al \<Longrightarrow> distinct al \<Longrightarrow> c \<in> set al \<Longrightarrow> d \<in> set al \<Longrightarrow> idx al c < idx al d \<longleftrightarrow> c < d"
proof -
  assume al: "sorted al" "distinct al" and mem: "c \<in> set al" "d \<in> set al"
  then have i: "idx al c < length al" "idx al d < length al" "al ! idx al c = c" "al ! idx al d = d"
    using index_of_idx by auto
  have strict: "sorted_wrt (<) al" using al by (simp add: strict_sorted_iff)
  show ?thesis
    using sorted_wrt_nth_less [OF strict, of "idx al c" "idx al d"] sorted_wrt_nth_less [OF strict, of "idx al d" "idx al c"] i
    by (metis less_asym linorder_less_linear)
qed

locale ns_space =
  fixes al :: string and l :: nat and k :: ns_constants
  assumes alphabet: "al \<noteq> []" "sorted al" "distinct al" and len: "0 < l" and k: "k = setup_constants al l"
begin

abbreviation a :: nat where "a \<equiv> length al"

lemma constants [simp]:
  "NAMESPACE_CHARACTERS k = al" "MAX_NAMESPACE_LENGTH k = l" "MAX_NAMESPACE k = replicate l (last al)"
  by (simp_all add: k setup_constants_def)

lemma distances: "LEX_DISTANCE k = map (strings_upto a) [0..<l]"
  using lex_distances [of a "l - 1"] len by (simp add: k setup_constants_def)

lemma a_pos: "0 < a"
  using alphabet by simp

lemma lex_index: "1 \<le> m \<Longrightarrow> m \<le> l \<Longrightarrow> py_index (LEX_DISTANCE k) (int m - 1) = Inr (strings_upto a (m - 1))"
  by (simp add: py_index_def distances nat_diff_distrib)

lemma to_ord_from_ordn:
  "length s + i \<le> l \<Longrightarrow> set s \<subseteq> set al \<Longrightarrow> to_ord_from k i s = Inr (ordn al (l - i) s)"
proof (induction s arbitrary: i)
  case (Cons c s)
  have "py_index (LEX_DISTANCE k) (int l - int i - 1) = Inr (strings_upto a (l - i - 1))"
    using lex_index [of "l - i"] Cons.prems(1) by (simp add: of_nat_diff)
  moreover have "index_of c al = Inr (idx al c)" using index_of_idx Cons.prems(2) by simp
  moreover have "to_ord_from k (i + 1) s = Inr (ordn al (l - (i + 1)) s)"
    using Cons.prems by (intro Cons.IH) simp_all
  ultimately show ?case by simp
qed simp

lemma ordn_less: "length s \<le> m \<Longrightarrow> set s \<subseteq> set al \<Longrightarrow> ordn al m s < strings_upto a m"
proof (induction s arbitrary: m)
  case (Cons c s)
  then obtain m' where m: "m = Suc m'" by (cases m) auto
  have IH: "ordn al m' s < strings_upto a m'" using Cons m by simp
  have "idx al c < a" using index_of_idx [of c al] Cons.prems(2) by simp
  then have "strings_upto a m' * (idx al c + 1) \<le> strings_upto a m' * a" by (intro mult_le_mono2) simp
  with IH show ?case by (simp add: m)
qed simp

lemma ordn_Cons_div:
  assumes "length s \<le> m" "set s \<subseteq> set al"
  shows "(int (ordn al (Suc m) (c # s)) - 1) div int (strings_upto a m) = int (idx al c)"
    and "(int (ordn al (Suc m) (c # s)) - 1) mod int (strings_upto a m) = int (ordn al m s)"
proof -
  have less: "ordn al m s < strings_upto a m" using assms by (rule ordn_less)
  have n: "int (ordn al (Suc m) (c # s)) - 1 = int (ordn al m s) + int (strings_upto a m) * int (idx al c)" by simp
  show "(int (ordn al (Suc m) (c # s)) - 1) div int (strings_upto a m) = int (idx al c)"
    unfolding n using less by simp
  show "(int (ordn al (Suc m) (c # s)) - 1) mod int (strings_upto a m) = int (ordn al m s)"
    unfolding n using less by simp
qed

lemma ord_to_namespace_ordn:
  "length s \<le> m \<Longrightarrow> m \<le> l \<Longrightarrow> set s \<subseteq> set al \<Longrightarrow> ord_to_namespace k (int (ordn al m s)) (int m) = Inr s"
proof (induction s arbitrary: m)
  case Nil
  have "\<exists>d. py_index (LEX_DISTANCE k) (int m - 1) = Inr d"
    using Nil(2) len by (cases m) (auto simp: py_index_def distances)
  then show ?case by (subst ord_to_namespace.simps) auto
next
  case (Cons c s)
  then obtain m' where m: "m = Suc m'" by (cases m) auto
  have s: "length s \<le> m'" "set s \<subseteq> set al" using Cons.prems m by auto
  have "py_index (LEX_DISTANCE k) (int m - 1) = Inr (strings_upto a m')"
    using lex_index [of m] Cons.prems m by simp
  moreover have "py_index al (int (idx al c)) = Inr c"
    using index_of_idx [of c al] Cons.prems(3) by (simp add: py_index_def)
  moreover have "ord_to_namespace k (int (ordn al m' s)) (int m') = Inr s"
    using Cons.prems m by (intro Cons.IH) simp_all
  moreover have "int m - 1 = int m'" using m by simp
  moreover have "int (ordn al m (c # s)) \<noteq> 0" by (simp only: ordn.simps of_nat_eq_0_iff add_is_0 one_neq_zero simp_thms)
  ultimately show ?case
    using ordn_Cons_div [OF s, of c] unfolding m [symmetric]
    by (subst ord_to_namespace.simps) simp
qed

lemma ordn_surj: "m \<le> l \<Longrightarrow> n < strings_upto a m \<Longrightarrow> \<exists>s. length s \<le> m \<and> set s \<subseteq> set al \<and> ordn al m s = n"
proof (induction m arbitrary: n)
  case 0
  then show ?case by (intro exI [of _ "[]"]) simp
next
  case (Suc m)
  show ?case
  proof (cases n)
    case 0
    then show ?thesis by (intro exI [of _ "[]"]) simp
  next
    case (Suc n')
    with Suc.prems have n': "n' < strings_upto a m * a" by simp
    obtain s where s: "length s \<le> m" "set s \<subseteq> set al" "ordn al m s = n' mod strings_upto a m"
      using Suc.IH [of "n' mod strings_upto a m"] Suc.prems by auto
    have i: "n' div strings_upto a m < a" using n' by (simp add: less_mult_imp_div_less mult.commute)
    then have "ordn al (Suc m) (al ! (n' div strings_upto a m) # s) = n"
      using s(3) idx_nth [OF alphabet(3) i] Suc by simp
    with s(1,2) i show ?thesis by (intro exI [of _ "al ! (n' div strings_upto a m) # s"]) simp
  qed
qed

lemma ordn_mono:
  "length s \<le> m \<Longrightarrow> length t \<le> m \<Longrightarrow> set s \<subseteq> set al \<Longrightarrow> set t \<subseteq> set al \<Longrightarrow> s < t \<Longrightarrow> ordn al m s < ordn al m t"
proof (induction s arbitrary: m t)
  case Nil
  then show ?case by (cases t) simp_all
next
  case (Cons c s)
  then obtain m' where m: "m = Suc m'" by (cases m) auto
  obtain d t' where t: "t = d # t'" using Cons.prems(5) by (cases t) auto
  show ?case
  proof (cases "c = d")
    case True
    then have "s < t'" using Cons.prems(5) t by simp
    then have "ordn al m' s < ordn al m' t'" using Cons.prems m t by (intro Cons.IH) simp_all
    then show ?thesis using m t True by simp
  next
    case False
    then have "c < d" using Cons.prems(5) t by simp
    then have "idx al c < idx al d" using idx_less [OF alphabet(2,3)] Cons.prems(3,4) t by simp
    then have "strings_upto a m' * (idx al c + 1) \<le> strings_upto a m' * idx al d" by (intro mult_le_mono2) simp
    moreover have "ordn al m' s < strings_upto a m'" using Cons.prems m by (intro ordn_less) simp_all
    ultimately show ?thesis by (simp add: m t)
  qed
qed

end

context ns_space
begin

lemma namespace_to_ord_Inr: "s \<in> namespaces k \<Longrightarrow> namespace_to_ord k s = Inr (int (ordinal k s))"
  using to_ord_from_ordn [of s 0] by (simp add: namespace_to_ord_def namespaces_def ordinal_def)

lemma to_namespace_ordinal: "s \<in> namespaces k \<Longrightarrow> to_namespace k (int (ordinal k s)) = Inr s"
  using ord_to_namespace_ordn [of s l] by (simp add: namespaces_def ordinal_def)

lemma ordinal_mono: "s \<in> namespaces k \<Longrightarrow> t \<in> namespaces k \<Longrightarrow> ordinal k s < ordinal k t \<longleftrightarrow> s < t"
proof -
  assume st: "s \<in> namespaces k" "t \<in> namespaces k"
  have up: "s < t \<Longrightarrow> ordinal k s < ordinal k t" if "s \<in> namespaces k" "t \<in> namespaces k" for s t
    using that by (simp add: ordinal_def namespaces_def ordn_mono)
  show ?thesis using up [OF st] up [OF st(2,1)] by (metis less_asym linorder_less_linear)
qed

lemma ordinal_inj: "s \<in> namespaces k \<Longrightarrow> t \<in> namespaces k \<Longrightarrow> ordinal k s = ordinal k t \<Longrightarrow> s = t"
  using ordinal_mono [of s t] ordinal_mono [of t s] by (metis less_irrefl linorder_less_linear)

lemma ordinal_le: "s \<in> namespaces k \<Longrightarrow> t \<in> namespaces k \<Longrightarrow> ordinal k s \<le> ordinal k t \<longleftrightarrow> s \<le> t"
  using ordinal_mono [of t s] by (simp add: not_less [symmetric])

lemma ordinal_less: "s \<in> namespaces k \<Longrightarrow> ordinal k s < strings_upto a l"
  by (simp add: ordinal_def namespaces_def ordn_less)

lemma of_ordinal:
  assumes "n < strings_upto a l"
  obtains s where "s \<in> namespaces k" "ordinal k s = n" "to_namespace k (int n) = Inr s"
proof -
  obtain s where "s \<in> namespaces k" "ordinal k s = n"
    using ordn_surj [of l n] assms by (auto simp: namespaces_def ordinal_def)
  with to_namespace_ordinal show ?thesis by (intro that [of s]) auto
qed

lemma empty_namespace: "[] \<in> namespaces k" "ordinal k [] = 0"
  by (simp_all add: namespaces_def ordinal_def)

lemma ordn_replicate: "Suc (ordn al m (replicate m (last al))) = strings_upto a m"
proof (induction m)
  case (Suc m)
  have "last al = al ! (a - 1)" using alphabet(1) by (simp add: last_conv_nth)
  then have "idx al (last al) = a - 1" using idx_nth [OF alphabet(3), of "a - 1"] a_pos by simp
  then have "Suc (ordn al (Suc m) (replicate (Suc m) (last al))) = strings_upto a m * (a - 1) + 1 + strings_upto a m"
    using Suc by simp
  also have "\<dots> = strings_upto a m * (a - 1 + 1) + 1" by (simp only: add_mult_distrib2 mult_1_right)
  also have "a - 1 + 1 = a" using a_pos by linarith
  finally show ?case by simp
qed simp

lemma max_namespace: "MAX_NAMESPACE k \<in> namespaces k" "Suc (ordinal k (MAX_NAMESPACE k)) = strings_upto a l"
  using alphabet(1) ordn_replicate [of l] by (auto simp: namespaces_def ordinal_def)

lemma namespace_le_max: "s \<in> namespaces k \<Longrightarrow> s \<le> MAX_NAMESPACE k"
  using ordinal_less [of s] max_namespace ordinal_le [of s "MAX_NAMESPACE k"] by simp

end

section \<open>Splitting a range\<close>

definition range_ok :: "ns_constants \<Rightarrow> ns_range \<Rightarrow> bool" where
  "range_ok k r \<longleftrightarrow> namespace_start r \<in> namespaces k \<and> namespace_end r \<in> namespaces k \<and> namespace_start r \<le> namespace_end r"

definition in_range :: "string \<Rightarrow> ns_range \<Rightarrow> bool" where
  "in_range s r \<longleftrightarrow> namespace_start r \<le> s \<and> s \<le> namespace_end r"

text \<open>How many of the ranges a namespace lies in.\<close>

definition cover :: "ns_range list \<Rightarrow> string \<Rightarrow> nat" where
  "cover rs s = length (filter (in_range s) rs)"

lemma cover_simps [simp]:
  "cover [] s = 0" "cover (r # rs) s = (if in_range s r then 1 else 0) + cover rs s"
  "cover (xs @ ys) s = cover xs s + cover ys s"
  by (simp_all add: cover_def)

definition range_size :: "ns_constants \<Rightarrow> ns_range \<Rightarrow> nat" where
  "range_size k r = 2 * (ordinal k (namespace_end r) - ordinal k (namespace_start r)) + 1"

context ns_space
begin

lemma range_init_ok:
  "s \<in> namespaces k \<Longrightarrow> e \<in> namespaces k \<Longrightarrow> s \<le> e \<Longrightarrow>
     ns_range_init k (Some s) (Some e) app = Inr \<lparr>namespace_start = s, namespace_end = e, ns_app = app\<rparr>"
  by (simp add: ns_range_init_def)

lemma split_range_parts:
  assumes r: "range_ok k r" and "\<not> is_single_namespace r"
  obtains left right where "split_range k r = Inr [left, right]" "range_ok k left" "range_ok k right"
    "\<And>s. s \<in> namespaces k \<Longrightarrow> cover [left, right] s = cover [r] s"
    "range_size k left + range_size k right < range_size k r"
proof -
  let ?s = "namespace_start r" and ?e = "namespace_end r"
  have N: "?s \<in> namespaces k" "?e \<in> namespaces k" "?s \<le> ?e" using r by (simp_all add: range_ok_def)
  define m where "m = (ordinal k ?s + ordinal k ?e) div 2"
  have "?s < ?e" using assms(2) N(3) by (simp add: is_single_namespace_def)
  then have less: "ordinal k ?s < ordinal k ?e" using N ordinal_mono by simp
  then have m: "ordinal k ?s \<le> m" "m < ordinal k ?e" unfolding m_def by simp_all
  then have bound: "m + 1 < strings_upto a l" using ordinal_less [OF N(2)] by simp
  obtain p where p: "p \<in> namespaces k" "ordinal k p = m" "to_namespace k (int m) = Inr p"
    using of_ordinal [of m] bound by (metis add_lessD1)
  obtain q where q: "q \<in> namespaces k" "ordinal k q = m + 1" "to_namespace k (int (m + 1)) = Inr q"
    using of_ordinal [OF bound] .
  have le: "?s \<le> p" "q \<le> ?e" using m p(2) q(2) ordinal_le [OF N(1) p(1)] ordinal_le [OF q(1) N(2)] by linarith+
  let ?left = "\<lparr>namespace_start = ?s, namespace_end = p, ns_app = ns_app r\<rparr>"
  let ?right = "\<lparr>namespace_start = q, namespace_end = ?e, ns_app = ns_app r\<rparr>"
  have mid: "(int (ordinal k ?s) + int (ordinal k ?e)) div 2 = int m" unfolding m_def by (simp add: zdiv_int)
  have "split_range k r = Inr [?left, ?right]"
    unfolding split_range_def if_not_P [OF assms(2)] namespace_to_ord_Inr [OF N(1)] namespace_to_ord_Inr [OF N(2)]
      bindR_simps Let_def mid p(3) q(3) [unfolded of_nat_add of_nat_1] range_init_ok [OF N(1) p(1) le(1)]
      range_init_ok [OF q(1) N(2) le(2)] ..
  moreover have "range_ok k ?left" "range_ok k ?right" using N p(1) q(1) le by (simp_all add: range_ok_def)
  moreover have "cover [?left, ?right] s = cover [r] s" if s: "s \<in> namespaces k" for s
  proof -
    have "s \<le> p \<longleftrightarrow> \<not> q \<le> s" using p(2) q(2) ordinal_le [OF s p(1)] ordinal_le [OF q(1) s] by linarith
    moreover have "s \<le> p \<Longrightarrow> s \<le> ?e" "q \<le> s \<Longrightarrow> ?s \<le> s"
      using m p(2) q(2) ordinal_le [OF s p(1)] ordinal_le [OF s N(2)] ordinal_le [OF q(1) s] ordinal_le [OF N(1) s]
      by linarith+
    ultimately show ?thesis by (auto simp: in_range_def)
  qed
  moreover have "range_size k ?left + range_size k ?right < range_size k r"
    using m p(2) q(2) by (simp add: range_size_def)
  ultimately show ?thesis by (rule that)
qed

end

section \<open>Splitting the space\<close>

text \<open>
  What a query finds: a namespace of the range, none of the existing ones (\<open>E\<close>) before it.
\<close>

definition finds :: "ns_constants \<Rightarrow> first_namespace \<Rightarrow> string set \<Rightarrow> bool" where
  "finds k first E \<longleftrightarrow>
     (\<forall>app s e x. first app s e = Some x \<longrightarrow> x \<in> namespaces k \<and> s \<le> x \<and> x \<le> e) \<and>
     (\<forall>app s e. \<forall>y \<in> E. s \<le> y \<and> y \<le> e \<longrightarrow> (\<exists>x. first app s e = Some x \<and> x \<le> y))"

lemma finds_existing:
  "finds k first E \<Longrightarrow> y \<in> E \<Longrightarrow> s \<le> y \<Longrightarrow> y \<le> e \<Longrightarrow> \<exists>x. first app s e = Some x \<and> x \<le> y"
  unfolding finds_def by blast

text \<open>No namespace lies in two of the ranges, and every existing one lies in one.\<close>

definition split_inv :: "ns_constants \<Rightarrow> string set \<Rightarrow> ns_range list \<Rightarrow> bool" where
  "split_inv k E rs \<longleftrightarrow> (\<forall>r \<in> set rs. range_ok k r) \<and> (\<forall>s \<in> namespaces k. cover rs s \<le> 1) \<and> (\<forall>y \<in> E. cover rs y = 1)"

lemma split_inv_step:
  assumes "split_inv k E rs" "E \<subseteq> namespaces k" "\<forall>r \<in> set rs'. range_ok k r"
    and "\<And>s. s \<in> namespaces k \<Longrightarrow> cover rs' s \<le> cover rs s" "\<And>y. y \<in> E \<Longrightarrow> cover rs' y = cover rs y"
  shows "split_inv k E rs'"
  using assms unfolding split_inv_def by (metis le_trans)

context ns_space
begin

lemma normalize_cases:
  assumes r: "range_ok k r" and first: "finds k first E" and E: "E \<subseteq> namespaces k"
  obtains (nothing) "normalize_if k first query r = Inr None" "\<And>y. y \<in> E \<Longrightarrow> cover [r] y = 0"
    | (range) r' where "normalize_if k first query r = Inr (Some r')" "range_ok k r'"
        "\<And>s. s \<in> namespaces k \<Longrightarrow> cover [r'] s \<le> cover [r] s" "\<And>y. y \<in> E \<Longrightarrow> cover [r'] y = cover [r] y"
        "range_size k r' \<le> range_size k r"
proof (cases query)
  case False
  then show ?thesis using r by (intro range [of r]) (simp_all add: normalize_if_def)
next
  case True
  let ?x = "first (ns_app r) (namespace_start r) (namespace_end r)"
  show ?thesis
  proof (cases ?x)
    case None
    then have "\<not> in_range y r" if "y \<in> E" for y
      using finds_existing [OF first that, of "namespace_start r" "namespace_end r" "ns_app r"]
      by (auto simp: in_range_def)
    then have zero: "\<And>y. y \<in> E \<Longrightarrow> cover [r] y = 0" by simp
    have "normalize_if k first query r = Inr None"
      using None True by (simp add: normalize_if_def normalized_start_def)
    then show ?thesis by (rule nothing) (rule zero)
  next
    case (Some x)
    then have x: "x \<in> namespaces k" "namespace_start r \<le> x" "x \<le> namespace_end r"
      using first unfolding finds_def by blast+
    let ?r = "\<lparr>namespace_start = x, namespace_end = namespace_end r, ns_app = ns_app r\<rparr>"
    have e: "namespace_start r \<in> namespaces k" "namespace_end r \<in> namespaces k" using r by (simp_all add: range_ok_def)
    have "normalize_if k first query r = Inr (Some ?r)"
      using True Some by (simp add: normalize_if_def normalized_start_def range_init_ok [OF x(1) e(2) x(3)])
    moreover have "range_ok k ?r" using x e by (simp add: range_ok_def)
    moreover have "in_range s ?r \<Longrightarrow> in_range s r" for s using x(2) by (auto simp: in_range_def)
    moreover have "in_range y ?r" if "y \<in> E" "in_range y r" for y
      using finds_existing [OF first that(1), of "namespace_start r" "namespace_end r" "ns_app r"] that(2) Some
      by (auto simp: in_range_def)
    moreover have "range_size k ?r \<le> range_size k r"
      using ordinal_le [OF e(1) x(1)] x(2) by (simp add: range_size_def)
    ultimately show ?thesis by (intro range [of ?r]) auto
  qed
qed

lemma split_loop_returns:
  assumes first: "finds k first E" and E: "E \<subseteq> namespaces k"
  shows "split_inv k E (ranges @ singles) \<Longrightarrow> length ranges + length singles \<le> n \<Longrightarrow>
     \<exists>rs ss q'. split_loop k first can n ranges singles q = Some (Inr (rs, ss), q') \<and>
       split_inv k E (ss @ rs) \<and> length rs + length ss \<le> n"
proof (induction "sum_list (map (range_size k) ranges)" arbitrary: ranges singles q rule: less_induct)
  case less
  show ?case
  proof (cases "ranges \<noteq> [] \<and> length ranges + length singles < n")
    case False
    have "split_inv k E (singles @ ranges)"
      by (rule split_inv_step [OF less.prems(1) E]) (use less.prems(1) in \<open>auto simp: split_inv_def\<close>)
    moreover have "split_loop k first can n ranges singles q = Some (Inr (ranges, singles), q)"
      by (subst split_loop.simps) (use False in auto)
    ultimately show ?thesis using less.prems(2) by blast
  next
    case True
    then obtain r rest where ranges: "ranges = r # rest" by (cases ranges) auto
    have room: "length rest + length singles + 1 < n" using True ranges by simp
    have r: "range_ok k r" using less.prems(1) ranges by (simp add: split_inv_def)
    show ?thesis
    proof (cases "is_single_namespace r")
      case single: True
      have "split_inv k E (rest @ (singles @ [r]))"
        by (rule split_inv_step [OF less.prems(1) E]) (use less.prems(1) ranges in \<open>auto simp: split_inv_def\<close>)
      moreover have "sum_list (map (range_size k) rest) < sum_list (map (range_size k) ranges)"
        by (simp add: ranges range_size_def)
      ultimately have "\<exists>rs ss q'. split_loop k first can n rest (singles @ [r]) q = Some (Inr (rs, ss), q') \<and>
          split_inv k E (ss @ rs) \<and> length rs + length ss \<le> n"
        using room by (intro less.hyps) simp_all
      moreover have "split_loop k first can n ranges singles q = split_loop k first can n rest (singles @ [r]) q"
        by (subst split_loop.simps) (use True single in \<open>simp add: ranges Let_def\<close>)
      ultimately show ?thesis by simp
    next
      case False
      obtain left right where parts: "split_range k r = Inr [left, right]" "range_ok k left" "range_ok k right"
          "\<And>s. s \<in> namespaces k \<Longrightarrow> cover [left, right] s = cover [r] s"
          "range_size k left + range_size k right < range_size k r"
        using split_range_parts [OF r False] by metis
      obtain query q1 where q1: "can q = (query, q1)" by fastforce
      show ?thesis
      proof (rule normalize_cases [OF parts(3) first E, of query])
        assume none: "normalize_if k first query right = Inr None" "\<And>y. y \<in> E \<Longrightarrow> cover [right] y = 0"
        have covers: "cover ((rest @ [left]) @ singles) s \<le> cover (ranges @ singles) s" if "s \<in> namespaces k" for s
          using parts(4) [OF that] by (simp add: ranges)
        have same: "cover ((rest @ [left]) @ singles) y = cover (ranges @ singles) y" if "y \<in> E" for y
          using parts(4) [of y] none(2) [OF that] subsetD [OF E that] by (simp add: ranges)
        have "split_inv k E ((rest @ [left]) @ singles)"
          by (rule split_inv_step [OF less.prems(1) E _ covers same])
            (use less.prems(1) ranges parts(2) in \<open>auto simp: split_inv_def\<close>)
        moreover have "sum_list (map (range_size k) (rest @ [left])) < sum_list (map (range_size k) ranges)"
          using parts(5) by (simp add: ranges)
        ultimately have "\<exists>rs ss q'. split_loop k first can n (rest @ [left]) singles q1 = Some (Inr (rs, ss), q') \<and>
            split_inv k E (ss @ rs) \<and> length rs + length ss \<le> n"
          using room by (intro less.hyps) simp_all
        moreover have "split_loop k first can n ranges singles q = split_loop k first can n (rest @ [left]) singles q1"
          by (subst split_loop.simps) (use True False parts(1) q1 none(1) in \<open>simp add: ranges Let_def\<close>)
        ultimately show ?thesis by simp
      next
        fix right' assume some: "normalize_if k first query right = Inr (Some right')" "range_ok k right'"
          "\<And>s. s \<in> namespaces k \<Longrightarrow> cover [right'] s \<le> cover [right] s" "\<And>y. y \<in> E \<Longrightarrow> cover [right'] y = cover [right] y"
          "range_size k right' \<le> range_size k right"
        have covers: "cover ((rest @ [right', left]) @ singles) s \<le> cover (ranges @ singles) s" if "s \<in> namespaces k" for s
          using parts(4) [OF that] some(3) [OF that] by (simp add: ranges)
        have same: "cover ((rest @ [right', left]) @ singles) y = cover (ranges @ singles) y" if "y \<in> E" for y
          using parts(4) [of y] some(4) [OF that] subsetD [OF E that] by (simp add: ranges)
        have "split_inv k E ((rest @ [right', left]) @ singles)"
          by (rule split_inv_step [OF less.prems(1) E _ covers same])
            (use less.prems(1) ranges parts(2) some(2) in \<open>auto simp: split_inv_def\<close>)
        moreover have "sum_list (map (range_size k) (rest @ [right', left])) < sum_list (map (range_size k) ranges)"
          using parts(5) some(5) by (simp add: ranges)
        ultimately have "\<exists>rs ss q'. split_loop k first can n (rest @ [right', left]) singles q1 = Some (Inr (rs, ss), q') \<and>
            split_inv k E (ss @ rs) \<and> length rs + length ss \<le> n"
          using room by (intro less.hyps) simp_all
        moreover have "split_loop k first can n ranges singles q = split_loop k first can n (rest @ [right', left]) singles q1"
          by (subst split_loop.simps) (use True False parts(1) q1 some(1) in \<open>simp add: ranges Let_def\<close>)
        ultimately show ?thesis by simp
      qed
    qed
  qed
qed

end

section \<open>Contiguous ranges\<close>

lemma cover_sort: "cover (sort_key f rs) s = cover rs s"
proof -
  have "mset (filter (in_range s) (sort_key f rs)) = mset (filter (in_range s) rs)" by simp
  then show ?thesis unfolding cover_def by (rule mset_eq_length)
qed

lemma distinct_starts:
  "\<forall>r \<in> set rs. range_ok k r \<Longrightarrow> \<forall>s \<in> namespaces k. cover rs s \<le> 1 \<Longrightarrow> distinct (map namespace_start rs)"
proof (induction rs)
  case (Cons r rs)
  have no: "namespace_start r \<noteq> namespace_start r'" if "r' \<in> set rs" for r'
  proof
    assume eq: "namespace_start r = namespace_start r'"
    have ok: "range_ok k r" "range_ok k r'" using Cons.prems that by simp_all
    then have "in_range (namespace_start r) r" "in_range (namespace_start r) r'"
      using eq by (simp_all add: in_range_def range_ok_def)
    moreover from this(2) that have "0 < cover rs (namespace_start r)"
      by (auto simp: cover_def filter_empty_conv)
    ultimately have "2 \<le> cover (r # rs) (namespace_start r)" by simp
    moreover have "cover (r # rs) (namespace_start r) \<le> 1" using Cons.prems ok(1) unfolding range_ok_def by blast
    ultimately show False by simp
  qed
  have "\<forall>s \<in> namespaces k. cover rs s \<le> 1" using Cons.prems by (auto dest: le_trans [rotated])
  then have "distinct (map namespace_start rs)" using Cons by simp
  with no show ?case by auto
qed simp

context ns_space
begin

lemma predecessor:
  assumes t: "t \<in> namespaces k" "t \<noteq> []"
  obtains p where "bindR (namespace_to_ord k t) (\<lambda>m. to_namespace k (m - 1)) = Inr p" "p \<in> namespaces k"
    "\<And>s. s \<in> namespaces k \<Longrightarrow> s \<le> p \<longleftrightarrow> s < t"
proof -
  have "[] < t" using t(2) by (cases t) simp_all
  then have pos: "0 < ordinal k t" using ordinal_mono [OF empty_namespace(1) t(1)] empty_namespace(2) by simp
  have below: "ordinal k t - 1 < strings_upto a l" using ordinal_less [OF t(1)] by simp
  obtain p where p: "p \<in> namespaces k" "ordinal k p = ordinal k t - 1" "to_namespace k (int (ordinal k t - 1)) = Inr p"
    using of_ordinal [OF below] .
  have pred: "int (ordinal k t) - 1 = int (ordinal k t - 1)" using pos by simp
  have "bindR (namespace_to_ord k t) (\<lambda>m. to_namespace k (m - 1)) = Inr p"
    unfolding namespace_to_ord_Inr [OF t(1)] bindR_simps pred by (rule p(3))
  moreover have "s \<le> p \<longleftrightarrow> s < t" if s: "s \<in> namespaces k" for s
    using ordinal_le [OF s p(1)] ordinal_mono [OF s t(1)] p(2) pos by linarith
  ultimately show ?thesis using p(1) that by blast
qed

lemma contiguous_cover:
  "rs \<noteq> [] \<Longrightarrow> \<forall>r \<in> set rs. range_ok k r \<Longrightarrow> sorted_wrt (<) (map namespace_start rs) \<Longrightarrow>
     \<exists>out. contiguous_ranges k app b rs = Inr out \<and> length out = length rs \<and>
       (\<forall>s \<in> namespaces k. cover out s = (if b \<or> namespace_start (hd rs) \<le> s then 1 else 0))"
proof (induction rs arbitrary: b)
  case (Cons r rs)
  let ?start = "if b then MIN_NAMESPACE else namespace_start r"
  have start: "?start \<in> namespaces k" "?start \<le> namespace_start r"
    using Cons.prems(2) empty_namespace(1) by (auto simp: range_ok_def MIN_NAMESPACE_def)
  have from_start: "?start \<le> s \<longleftrightarrow> b \<or> namespace_start r \<le> s" for s by (simp add: MIN_NAMESPACE_def)
  show ?case
  proof (cases rs)
    case Nil
    let ?r = "\<lparr>namespace_start = ?start, namespace_end = MAX_NAMESPACE k, ns_app = app\<rparr>"
    have "contiguous_ranges k app b [r] = Inr [?r]"
      using range_init_ok [OF start(1) max_namespace(1) namespace_le_max [OF start(1)], of app] by simp
    moreover have "cover [?r] s = (if b \<or> namespace_start r \<le> s then 1 else 0)" if "s \<in> namespaces k" for s
      using namespace_le_max [OF that] from_start by (simp add: in_range_def)
    ultimately show ?thesis using Nil by simp
  next
    case (Cons r' rs')
    have r': "namespace_start r' \<in> namespaces k" "namespace_start r < namespace_start r'"
      using Cons.prems Cons by (auto simp: range_ok_def)
    then have "namespace_start r' \<noteq> []" by auto
    then obtain p where p: "bindR (namespace_to_ord k (namespace_start r')) (\<lambda>m. to_namespace k (m - 1)) = Inr p"
        "p \<in> namespaces k" "\<And>s. s \<in> namespaces k \<Longrightarrow> s \<le> p \<longleftrightarrow> s < namespace_start r'"
      using predecessor [OF r'(1)] by metis
    have le: "?start \<le> p" using p(3) [OF start(1)] start(2) r'(2) by (metis le_less_trans)
    let ?r = "\<lparr>namespace_start = ?start, namespace_end = p, ns_app = app\<rparr>"
    obtain out where out: "contiguous_ranges k app False rs = Inr out" "length out = length rs"
        "\<forall>s \<in> namespaces k. cover out s = (if namespace_start r' \<le> s then 1 else 0)"
      using Cons.IH [of False] Cons.prems Cons by auto
    have "contiguous_ranges k app b (r # rs) = Inr (?r # out)"
      using p(1) range_init_ok [OF start(1) p(2) le, of app] out(1) Cons by simp
    moreover have "cover (?r # out) s = (if b \<or> namespace_start r \<le> s then 1 else 0)" if s: "s \<in> namespaces k" for s
    proof -
      have "in_range s ?r \<longleftrightarrow> (b \<or> namespace_start r \<le> s) \<and> s < namespace_start r'"
        using from_start p(3) [OF s] by (simp add: in_range_def)
      moreover have "namespace_start r' \<le> s \<Longrightarrow> namespace_start r \<le> s" using r'(2) by simp
      ultimately show ?thesis using out(3) s by auto
    qed
    ultimately show ?thesis using out(2) by simp
  qed
qed simp

lemma split_returns:
  assumes "1 \<le> n" and first: "finds k first E" and E: "E \<subseteq> namespaces k"
  shows "\<exists>rs q'. ns_split k first can n contiguous app q = Some (Inr rs, q') \<and> length rs \<le> n \<and>
     (\<forall>s \<in> namespaces k. contiguous \<longrightarrow> cover rs s = 1) \<and> (\<forall>s \<in> namespaces k. cover rs s \<le> 1) \<and> (\<forall>y \<in> E. cover rs y = 1)"
proof -
  let ?whole = "\<lparr>namespace_start = MIN_NAMESPACE, namespace_end = MAX_NAMESPACE k, ns_app = app\<rparr>"
  have init: "ns_range_init k None None app = Inr ?whole" by (simp add: ns_range_init_def MIN_NAMESPACE_def)
  have whole: "range_ok k ?whole" "\<And>s. s \<in> namespaces k \<Longrightarrow> cover [?whole] s = 1"
    using empty_namespace(1) max_namespace(1) namespace_le_max by (simp_all add: range_ok_def in_range_def MIN_NAMESPACE_def)
  obtain query q1 where q1: "can q = (query, q1)" by fastforce
  show ?thesis
  proof (rule normalize_cases [OF whole(1) first E, of query])
    assume none: "normalize_if k first query ?whole = Inr None" "\<And>y. y \<in> E \<Longrightarrow> cover [?whole] y = 0"
    then have "E = {}" using whole(2) E by fastforce
    have "ns_split k first can n contiguous app q = Some (Inr (if contiguous then [?whole] else []), q1)"
      using assms(1) init q1 none(1) by (simp add: ns_split_def)
    then show ?thesis using whole(2) assms(1) \<open>E = {}\<close> by auto
  next
    fix r assume r: "normalize_if k first query ?whole = Inr (Some r)" "range_ok k r"
      "\<And>s. s \<in> namespaces k \<Longrightarrow> cover [r] s \<le> cover [?whole] s" "\<And>y. y \<in> E \<Longrightarrow> cover [r] y = cover [?whole] y"
    have "cover [r] y = 1" if "y \<in> E" for y using r(4) [OF that] whole(2) [OF subsetD [OF E that]] by simp
    moreover have "cover [r] s \<le> 1" for s by simp
    ultimately have "split_inv k E ([r] @ [])" using r(2) unfolding split_inv_def by simp
    then obtain rs ss q2 where loop: "split_loop k first can n [r] [] q1 = Some (Inr (rs, ss), q2)"
        "split_inv k E (ss @ rs)" "length rs + length ss \<le> n"
      using split_loop_returns [OF first E, of "[r]" "[]" n can q1] assms(1) by auto
    let ?rs = "sort_key namespace_start (ss @ rs)"
    have inv: "split_inv k E ?rs"
      by (rule split_inv_step [OF loop(2) E]) (use loop(2) in \<open>simp_all add: split_inv_def cover_sort\<close>)
    have run: "ns_split k first can n contiguous app q =
        Some (if contiguous then (if ?rs = [] then Inr [?whole] else contiguous_ranges k app True ?rs) else Inr ?rs, q2)"
      using assms(1) init q1 r(1) loop(1) by (simp add: ns_split_def Let_def)
    show ?thesis
    proof (cases "contiguous \<and> ?rs \<noteq> []")
      case False
      show ?thesis
      proof (cases contiguous)
        case True
        with False have "?rs = []" by simp
        then have "E = {}" using inv by (auto simp: split_inv_def)
        then show ?thesis using run True \<open>?rs = []\<close> whole(2) assms(1) by auto
      next
        case False
        then show ?thesis using run inv loop(3) by (auto simp: split_inv_def)
      qed
    next
      case True
      have "sorted (map namespace_start ?rs)" by simp
      then have "sorted_wrt (<) (map namespace_start ?rs)"
        using distinct_starts [of ?rs k] inv unfolding split_inv_def by (simp add: strict_sorted_iff)
      then obtain out where out: "contiguous_ranges k app True ?rs = Inr out" "length out = length ?rs"
          "\<forall>s \<in> namespaces k. cover out s = 1"
        using contiguous_cover [of ?rs app True] True inv by (auto simp: split_inv_def)
      have "length out \<le> n" using out(2) loop(3) by simp
      then show ?thesis using run True out(1,3) E by auto
    qed
  qed
qed

lemma nothing_after_max: "with_start_after k r (MAX_NAMESPACE k) = Inl IndexError"
proof -
  obtain l' where l: "l = Suc l'" using len by (cases l) auto
  let ?n = "int (ordinal k (MAX_NAMESPACE k)) + 1"
  have "ordinal k (MAX_NAMESPACE k) = strings_upto a l' * a"
    using max_namespace(2) unfolding l strings_upto.simps by linarith
  then have n: "?n - 1 = int (strings_upto a l') * int a" by (simp only: of_nat_mult add_diff_cancel_right')
  have lex: "py_index (LEX_DISTANCE k) (int l - 1) = Inr (strings_upto a l')" using lex_index [of l] l by simp
  have beyond: "(?n - 1) div int (strings_upto a l') = int a"
    unfolding n by (rule nonzero_mult_div_cancel_left) simp
  have none: "py_index (NAMESPACE_CHARACTERS k) (int a) = Inl IndexError" by (simp add: py_index_def)
  have nonzero: "?n \<noteq> 0" "strings_upto a l' \<noteq> 0" by simp_all
  have "to_namespace k ?n = Inl IndexError"
    unfolding constants(2) ord_to_namespace.simps [of k ?n "int l"] lex sum.case
      if_not_P [OF nonzero(1)] if_not_P [OF nonzero(2)] beyond none ..
  then show ?thesis unfolding with_start_after_def namespace_to_ord_Inr [OF max_namespace(1)] bindR_simps
    by (simp only: bindR_simps)
qed

end

section \<open>The deployed constants\<close>

lemma ns_alphabet: "sorted namespace_alphabet" "distinct namespace_alphabet" "namespace_alphabet \<noteq> []"
  by (simp_all add: namespace_alphabet_def)

interpretation deployed: ns_space namespace_alphabet 100 namespace_constants
  by unfold_locales (simp_all add: ns_alphabet namespace_constants_def)

section \<open>Properties\<close>

text \<open>Ordinals number the namespaces in lexicographic order: a namespace is read back from its ordinal, and a smaller
  one has a smaller ordinal.\<close>

theorem namespace_ordinals:
  "s \<in> namespaces namespace_constants \<Longrightarrow> t \<in> namespaces namespace_constants \<Longrightarrow>
     \<exists>m n. namespace_to_ord namespace_constants s = Inr m \<and> namespace_to_ord namespace_constants t = Inr n \<and>
       to_namespace namespace_constants m = Inr s \<and> (m < n \<longleftrightarrow> s < t)"
  using deployed.namespace_to_ord_Inr [of s] deployed.namespace_to_ord_Inr [of t] deployed.to_namespace_ordinal [of s]
    deployed.ordinal_mono [of s t] by simp

text \<open>C31: A contiguous split gives at most \<open>n\<close> ranges, and every namespace lies in exactly one of them, whatever the
  datastore holds and however many queries are allowed.\<close>

theorem split_is_a_partition:
  "1 \<le> n \<Longrightarrow> finds namespace_constants first E \<Longrightarrow> E \<subseteq> namespaces namespace_constants \<Longrightarrow>
     \<exists>rs q'. ns_split namespace_constants first can n True app q = Some (Inr rs, q') \<and> length rs \<le> n \<and>
       (\<forall>s \<in> namespaces namespace_constants. cover rs s = 1)"
  using deployed.split_returns [of n first E can True app q] by auto

text \<open>
  A split that is not contiguous loses no existing namespace: each lies in exactly one range.
\<close>

theorem split_keeps_existing:
  "1 \<le> n \<Longrightarrow> finds namespace_constants first E \<Longrightarrow> E \<subseteq> namespaces namespace_constants \<Longrightarrow>
     \<exists>rs q'. ns_split namespace_constants first can n False app q = Some (Inr rs, q') \<and> length rs \<le> n \<and>
       (\<forall>y \<in> E. cover rs y = 1)"
  using deployed.split_returns [of n first E can False app q] by auto

text \<open>Witnesses: the datastore holds the namespaces \<open>ab\<close> and \<open>b\<close>.\<close>

definition two_namespaces :: first_namespace where
  "two_namespaces app s e = find (\<lambda>x. s \<le> x \<and> x \<le> e) [''ab'', ''b'']"

lemma two_namespaces_known: "{''ab'', ''b''} \<subseteq> namespaces namespace_constants"
  by (simp add: namespaces_def namespace_constants_def setup_constants_def namespace_alphabet_def)

lemma two_namespaces_found: "finds namespace_constants two_namespaces {''ab'', ''b''}"
  using two_namespaces_known by (auto simp: finds_def two_namespaces_def split: if_splits)

theorem namespace_ordinals_witness:
  "\<exists>m n. namespace_to_ord namespace_constants ''ab'' = Inr m \<and> namespace_to_ord namespace_constants ''b'' = Inr n \<and>
     to_namespace namespace_constants m = Inr ''ab'' \<and> (m < n \<longleftrightarrow> ''ab'' < ''b'')"
  by (rule namespace_ordinals) (use two_namespaces_known in simp_all)

theorem split_is_a_partition_witness:
  "\<exists>rs q'. ns_split namespace_constants two_namespaces default_can_query 4 True None default_queries = Some (Inr rs, q') \<and>
     length rs \<le> 4 \<and> (\<forall>s \<in> namespaces namespace_constants. cover rs s = 1)"
  by (rule split_is_a_partition [OF _ two_namespaces_found two_namespaces_known]) simp

theorem split_keeps_existing_witness:
  "\<exists>rs q'. ns_split namespace_constants two_namespaces default_can_query 4 False None default_queries = Some (Inr rs, q') \<and>
     length rs \<le> 4 \<and> (\<forall>y \<in> {''ab'', ''b''}. cover rs y = 1)"
  by (rule split_keeps_existing [OF _ two_namespaces_found two_namespaces_known]) simp

text \<open>
  After the greatest namespace there is none: the documented ValueError is an IndexError.
\<close>

theorem nothing_after_the_last:
  "with_start_after namespace_constants r (MAX_NAMESPACE namespace_constants) = Inl IndexError"
  by (rule deployed.nothing_after_max)

text \<open>
  The default number of queries is not one per call: what a split has used up is missing for the next one, and
  once they are used up no split queries the datastore again.
\<close>

lemma default_can_query_le: "default_can_query q = (query, q') \<Longrightarrow> q' \<le> q"
  by (auto simp: default_can_query_def split: if_splits)

lemma default_split_loop_queries:
  assumes "split_loop k first default_can_query n ranges singles q = Some x"
  shows "snd x \<le> q"
proof -
  let ?P = "\<lambda>(k :: ns_constants) (first :: first_namespace) can (n :: nat) (ranges :: ns_range list) (singles :: ns_range list)
      (q :: nat) (x :: (ns_range list \<times> ns_range list) res \<times> nat). can = default_can_query \<longrightarrow> snd x \<le> q"
  have "?P k first default_can_query n ranges singles q x"
  proof (rule split_loop.raw_induct [where P = ?P, OF _ assms])
    fix f k first can n ranges singles q x
    assume IH: "\<And>k first can n ranges singles q x. f k first can n ranges singles q = Some x \<Longrightarrow> ?P k first can n ranges singles q x"
      and run: "(if ranges \<noteq> [] \<and> length ranges + length singles < n then
        (let r = hd ranges; rest = drop 1 ranges in
         if is_single_namespace r then f k first can n rest (singles @ [r]) q
         else (case split_range k r of
                 Inl e \<Rightarrow> Some (Inl e, q)
               | Inr parts \<Rightarrow>
                   (case can q of (query, q') \<Rightarrow>
                      (case normalize_if k first query (parts ! 1) of
                         Inl e \<Rightarrow> Some (Inl e, q')
                       | Inr right \<Rightarrow>
                           f k first can n
                             (rest @ (case right of None \<Rightarrow> [] | Some r' \<Rightarrow> [r']) @ [parts ! 0]) singles q'))))
      else Some (Inr (ranges, singles), q)) = Some x"
    show "?P k first can n ranges singles q x"
      using run by (auto simp: Let_def split: if_splits sum.splits prod.splits dest!: IH default_can_query_le intro: le_trans)
  qed
  then show ?thesis by simp
qed

theorem queries_are_used_up:
  "ns_split k first default_can_query n contiguous app q = Some (r, q') \<Longrightarrow> q' \<le> q"
  by (auto simp: ns_split_def Let_def split: if_splits sum.splits prod.splits option.splits
      dest!: default_can_query_le default_split_loop_queries intro: le_trans)

end
