(* ===== verification/Quota.thy ===== *)
theory Quota
  imports Prelude
begin

text \<open>
  \<open>mapreduce/quota.py\<close>: the processing quota of a job, a counter in memcache that the controller fills and
  that all shards of the job draw from at the same time. The memcache client is an argument, as in the code;
  \<open>counts\<close> is what its documentation says of the counter of a bucket. Since taking quota is two requests when
  the bucket runs dry, the shards are a step relation whose steps are single requests.
\<close>

section \<open>The quota manager\<close>

type_synonym bucket = string

record 'w memcache_client =
  client_incr :: "bucket \<Rightarrow> int \<Rightarrow> int \<Rightarrow> string \<Rightarrow> ('w, int option) act"
  client_decr :: "bucket \<Rightarrow> int \<Rightarrow> int \<Rightarrow> string \<Rightarrow> ('w, int option) act"
  client_get :: "bucket \<Rightarrow> string \<Rightarrow> ('w, int option) act"
  client_set :: "bucket \<Rightarrow> int \<Rightarrow> string \<Rightarrow> ('w, unit) act"

definition QUOTA_NAMESPACE :: string where "QUOTA_NAMESPACE = ''quota''"

definition QUOTA_OFFSET :: int where "QUOTA_OFFSET = 2 ^ 32"

definition manager_put :: "'w memcache_client \<Rightarrow> bucket \<Rightarrow> int \<Rightarrow> ('w, unit) act" where
  "manager_put mc bucket amount =
     bindA (client_incr mc bucket amount QUOTA_OFFSET QUOTA_NAMESPACE) (\<lambda>_. retA ())"

text \<open>
  What \<open>consume\<close> does with the value that \<open>decr\<close> returned: how much it puts back, if anything, and how much it
  consumed. \<open>None\<close> (memcache failed) is less than every number in Python 2.
\<close>

definition consume_decision :: "int \<Rightarrow> bool \<Rightarrow> int option \<Rightarrow> int option \<times> int" where
  "consume_decision amount consume_some new_quota =
     (case new_quota of
        None \<Rightarrow> (Some amount, 0)
      | Some new \<Rightarrow>
          if new \<ge> QUOTA_OFFSET then (None, amount)
          else if consume_some \<and> QUOTA_OFFSET - new < amount
               then (Some (QUOTA_OFFSET - new), amount - (QUOTA_OFFSET - new))
          else (Some amount, 0))"

definition manager_consume :: "'w memcache_client \<Rightarrow> bucket \<Rightarrow> int \<Rightarrow> bool \<Rightarrow> ('w, int) act" where
  "manager_consume mc bucket amount consume_some =
     bindA (client_decr mc bucket amount QUOTA_OFFSET QUOTA_NAMESPACE) (\<lambda>new_quota.
       case consume_decision amount consume_some new_quota of
         (None, delta) \<Rightarrow> retA delta
       | (Some back, delta) \<Rightarrow> seqA (manager_put mc bucket back) (retA delta))"

definition manager_get :: "'w memcache_client \<Rightarrow> bucket \<Rightarrow> ('w, int) act" where
  "manager_get mc bucket =
     bindA (client_get mc bucket QUOTA_NAMESPACE) (\<lambda>amount.
       retA (case amount of None \<Rightarrow> 0 | Some a \<Rightarrow> if a \<noteq> 0 then a - QUOTA_OFFSET else 0))"

definition manager_set :: "'w memcache_client \<Rightarrow> bucket \<Rightarrow> int \<Rightarrow> ('w, unit) act" where
  "manager_set mc bucket amount = client_set mc bucket (amount + QUOTA_OFFSET) QUOTA_NAMESPACE"

section \<open>The quota consumer\<close>

record quota_consumer =
  qc_bucket :: bucket
  qc_batch_size :: int
  qc_quota :: int

definition quota_consumer_init :: "bucket \<Rightarrow> int \<Rightarrow> quota_consumer" where
  "quota_consumer_init bucket batch_size = \<lparr>qc_bucket = bucket, qc_batch_size = batch_size, qc_quota = 0\<rparr>"

text \<open>\<open>consume\<close>; \<open>None\<close> is a loop that never ends.\<close>

partial_function (option) consumer_consume ::
    "'w memcache_client \<Rightarrow> int \<Rightarrow> quota_consumer \<times> 'w \<Rightarrow> (bool res \<times> (quota_consumer \<times> 'w)) option" where
  "consumer_consume mc amount s =
     (case s of (q, w) \<Rightarrow>
       if qc_quota q < amount
       then (case manager_consume mc (qc_bucket q) (qc_batch_size q) True w of
               (Inl e, w') \<Rightarrow> Some (Inl e, (q, w'))
             | (Inr delta, w') \<Rightarrow>
                 if delta = 0 then Some (Inr False, (q, w'))
                 else consumer_consume mc amount (q\<lparr>qc_quota := qc_quota q + delta\<rparr>, w'))
       else Some (Inr True, (q\<lparr>qc_quota := qc_quota q - amount\<rparr>, w)))"

definition consumer_put :: "int \<Rightarrow> quota_consumer \<Rightarrow> quota_consumer" where
  "consumer_put amount q = q\<lparr>qc_quota := qc_quota q + amount\<rparr>"

definition consumer_check :: "'w memcache_client \<Rightarrow> int \<Rightarrow> quota_consumer \<Rightarrow> ('w, bool) act" where
  "consumer_check mc amount q =
     (if qc_quota q \<ge> amount then retA True
      else bindA (manager_get mc (qc_bucket q)) (\<lambda>a. retA (qc_quota q + a \<ge> amount)))"

definition consumer_dispose :: "'w memcache_client \<Rightarrow> quota_consumer \<Rightarrow> ('w, unit) act" where
  "consumer_dispose mc q = manager_put mc (qc_bucket q) (qc_quota q)"

section \<open>A memcache that counts\<close>

text \<open>
  The documented behaviour of the counter of a bucket, whose value is \<open>raw\<close> (the initial value, while it has
  none): \<open>incr\<close> and \<open>decr\<close> are atomic and return the new value, and \<open>decr\<close> stops at zero.
\<close>

definition counts :: "'w memcache_client \<Rightarrow> bucket \<Rightarrow> ('w \<Rightarrow> int) \<Rightarrow> bool" where
  "counts mc bucket raw \<longleftrightarrow>
     (\<forall>w d. d \<ge> 0 \<longrightarrow>
        (\<exists>w'. client_incr mc bucket d QUOTA_OFFSET QUOTA_NAMESPACE w = (Inr (Some (raw w + d)), w') \<and> raw w' = raw w + d)) \<and>
     (\<forall>w d. d \<ge> 0 \<longrightarrow>
        (\<exists>w'. client_decr mc bucket d QUOTA_OFFSET QUOTA_NAMESPACE w = (Inr (Some (max 0 (raw w - d))), w') \<and>
              raw w' = max 0 (raw w - d))) \<and>
     (\<forall>w. \<exists>v. client_get mc bucket QUOTA_NAMESPACE w = (Inr v, w) \<and>
              (v = Some (raw w) \<or> v = None \<and> raw w = QUOTA_OFFSET)) \<and>
     (\<forall>w a. a \<ge> 0 \<longrightarrow> (\<exists>w'. client_set mc bucket a QUOTA_NAMESPACE w = (Inr (), w') \<and> raw w' = a))"

lemma counts_incr:
  assumes "counts mc bucket raw" and "d \<ge> 0"
  obtains w' where "client_incr mc bucket d QUOTA_OFFSET QUOTA_NAMESPACE w = (Inr (Some (raw w + d)), w')" "raw w' = raw w + d"
  using assms unfolding counts_def by metis

lemma counts_decr:
  assumes "counts mc bucket raw" and "d \<ge> 0"
  obtains w' where "client_decr mc bucket d QUOTA_OFFSET QUOTA_NAMESPACE w = (Inr (Some (max 0 (raw w - d))), w')"
    "raw w' = max 0 (raw w - d)"
  using assms unfolding counts_def by metis

lemma manager_put_counts:
  assumes "counts mc bucket raw" and "d \<ge> 0"
  obtains w' where "manager_put mc bucket d w = (Inr (), w')" "raw w' = raw w + d"
  using counts_incr [OF assms, of w] by (metis bindA_simps(1) manager_put_def act_run(1))

lemma manager_get_counts:
  assumes "counts mc bucket raw" and "raw w \<noteq> 0"
  shows "manager_get mc bucket w = (Inr (raw w - QUOTA_OFFSET), w)"
proof -
  obtain v where v: "client_get mc bucket QUOTA_NAMESPACE w = (Inr v, w)"
    "v = Some (raw w) \<or> v = None \<and> raw w = QUOTA_OFFSET"
    using assms(1) unfolding counts_def by blast
  then show ?thesis using assms(2) by (auto simp: manager_get_def)
qed

lemma manager_set_get:
  assumes "counts mc bucket raw" and "- QUOTA_OFFSET < amount"
  obtains w' where "manager_set mc bucket amount w = (Inr (), w')" "manager_get mc bucket w' = (Inr amount, w')"
proof -
  obtain w' where w': "client_set mc bucket (amount + QUOTA_OFFSET) QUOTA_NAMESPACE w = (Inr (), w')"
    "raw w' = amount + QUOTA_OFFSET"
    using assms unfolding counts_def by (metis add.commute add_le_cancel_left add.right_inverse less_imp_le)
  then have "manager_get mc bucket w' = (Inr amount, w')"
    using manager_get_counts [OF assms(1), of w'] assms(2) by simp
  then show ?thesis using that w'(1) by (simp add: manager_set_def)
qed

section \<open>One client\<close>

text \<open>Without interference, consuming takes what there is, up to the amount, or all of it or nothing.\<close>

definition available :: "('w \<Rightarrow> int) \<Rightarrow> 'w \<Rightarrow> int" where
  "available raw w = raw w - QUOTA_OFFSET"

lemma manager_consume_run:
  "client_decr mc bucket amount QUOTA_OFFSET QUOTA_NAMESPACE w = (Inr new, w1) \<Longrightarrow>
   manager_consume mc bucket amount consume_some w =
     (case consume_decision amount consume_some new of
        (None, delta) \<Rightarrow> (Inr delta, w1)
      | (Some b, delta) \<Rightarrow> seqA (manager_put mc bucket b) (retA delta) w1)"
  by (simp add: manager_consume_def bindA_def split: prod.split option.split)

lemma manager_consume_counts:
  assumes c: "counts mc bucket raw" and d: "0 \<le> d" "d \<le> QUOTA_OFFSET" and w: "QUOTA_OFFSET \<le> raw w"
  obtains w' taken where "manager_consume mc bucket d consume_some w = (Inr taken, w')"
    "taken = (if d \<le> available raw w then d else if consume_some then available raw w else 0)"
    "available raw w' = available raw w - taken"
proof -
  let ?new = "max 0 (raw w - d)"
  obtain w1 where w1: "client_decr mc bucket d QUOTA_OFFSET QUOTA_NAMESPACE w = (Inr (Some ?new), w1)" "raw w1 = ?new"
    using counts_decr [OF c d(1)] by blast
  have new: "?new = raw w - d" using d(2) w by simp
  obtain put_back delta where dec: "consume_decision d consume_some (Some ?new) = (put_back, delta)" by fastforce
  show ?thesis
  proof (cases put_back)
    case None
    have "manager_consume mc bucket d consume_some w = (Inr delta, w1)"
      using manager_consume_run [OF w1(1)] dec None by simp
    moreover have "delta = d" "d \<le> available raw w"
      using None dec new by (auto simp: consume_decision_def available_def split: if_splits)
    ultimately show ?thesis using that w1(2) new by (simp add: available_def)
  next
    case (Some b)
    have b: "0 \<le> b" using Some dec new d by (auto simp: consume_decision_def split: if_splits)
    obtain w2 where w2: "manager_put mc bucket b w1 = (Inr (), w2)" "raw w2 = raw w1 + b"
      using manager_put_counts [OF c b] by blast
    have run: "manager_consume mc bucket d consume_some w = (Inr delta, w2)"
      using manager_consume_run [OF w1(1)] dec Some w2(1) by simp
    have taken: "delta = (if d \<le> available raw w then d else if consume_some then available raw w else 0)"
      and d_eq: "d = b + delta"
      using Some dec new w by (auto simp: consume_decision_def available_def split: if_splits)
    have "available raw w2 = available raw w - delta"
      using d_eq w2(2) w1(2) new by (simp add: available_def)
    with run taken show ?thesis by (rule that)
  qed
qed

lemma consumer_consume_counts:
  assumes c: "counts mc (qc_bucket q) raw" and b: "0 < qc_batch_size q" "qc_batch_size q \<le> QUOTA_OFFSET"
    and w: "QUOTA_OFFSET \<le> raw w" and q: "0 \<le> qc_quota q"
  shows "\<exists>q' w'. consumer_consume mc amount (q, w) = Some (Inr (amount \<le> qc_quota q + available raw w), (q', w')) \<and>
     qc_bucket q' = qc_bucket q \<and> qc_batch_size q' = qc_batch_size q \<and> QUOTA_OFFSET \<le> raw w' \<and>
     (0 \<le> amount \<longrightarrow> 0 \<le> qc_quota q') \<and>
     qc_quota q' + available raw w' + (if amount \<le> qc_quota q + available raw w then amount else 0)
       = qc_quota q + available raw w"
  using c b w q
proof (induction "nat (amount - qc_quota q)" arbitrary: q w rule: less_induct)
  case less
  show ?case
  proof (cases "qc_quota q < amount")
    case False
    then show ?thesis using less.prems by (subst consumer_consume.simps) (simp add: available_def)
  next
    case True
    obtain w' taken where m: "manager_consume mc (qc_bucket q) (qc_batch_size q) True w = (Inr taken, w')"
      "taken = (if qc_batch_size q \<le> available raw w then qc_batch_size q else available raw w)"
      "available raw w' = available raw w - taken"
      by (rule manager_consume_counts [OF less.prems(1) less_imp_le [OF less.prems(2)] less.prems(3,4), of True]) simp
    show ?thesis
    proof (cases "taken = 0")
      case True
      then have "available raw w = 0" using m(2) less.prems(2) by (auto split: if_splits)
      then show ?thesis
        using True \<open>qc_quota q < amount\<close> m less.prems by (subst consumer_consume.simps) (simp add: available_def)
    next
      case False
      let ?q = "q\<lparr>qc_quota := qc_quota q + taken\<rparr>"
      have pos: "0 < taken" "QUOTA_OFFSET \<le> raw w'"
        using False m(2,3) less.prems(2,4) by (auto simp: available_def split: if_splits)
      have "nat (amount - qc_quota ?q) < nat (amount - qc_quota q)" using pos True by simp
      from less.hyps [OF this, of w'] less.prems pos
      obtain q' w'' where "consumer_consume mc amount (?q, w') =
            Some (Inr (amount \<le> qc_quota ?q + available raw w'), (q', w'')) \<and>
          qc_bucket q' = qc_bucket q \<and> qc_batch_size q' = qc_batch_size q \<and> QUOTA_OFFSET \<le> raw w'' \<and>
          (0 \<le> amount \<longrightarrow> 0 \<le> qc_quota q') \<and>
          qc_quota q' + available raw w'' + (if amount \<le> qc_quota ?q + available raw w' then amount else 0)
            = qc_quota ?q + available raw w'"
        by auto
      moreover have "consumer_consume mc amount (q, w) = consumer_consume mc amount (?q, w')"
        using True False m(1) by (subst consumer_consume.simps) simp
      moreover have "qc_quota ?q + available raw w' = qc_quota q + available raw w" using m(3) by simp
      ultimately show ?thesis by metis
    qed
  qed
qed

section \<open>Many clients\<close>

text \<open>
  Each client is idle, wants an amount, has taken too much and owes a part of it, or is disposed of. The
  steps are the requests of the clients to memcache and the local steps between them, in any order;
  \<open>qs_filled\<close> and \<open>qs_used\<close> record what the controller put in and what the clients consumed.
\<close>

datatype phase = Idle | Wanting int | Owing int int int | Disposed

record 'w quota_system =
  qs_world :: 'w
  qs_clients :: "(quota_consumer \<times> phase) list"
  qs_filled :: int
  qs_used :: int

text \<open>After \<open>manager.consume\<close> returned: go on with what was taken, or give up.\<close>

definition after_taking :: "quota_consumer \<Rightarrow> int \<Rightarrow> int \<Rightarrow> quota_consumer \<times> phase" where
  "after_taking q amount delta = (if delta = 0 then (q, Idle) else (consumer_put delta q, Wanting amount))"

inductive quota_step :: "'w memcache_client \<Rightarrow> bucket \<Rightarrow> 'w quota_system \<Rightarrow> 'w quota_system \<Rightarrow> bool" for mc bucket where
  fill: "0 \<le> amount \<Longrightarrow> manager_put mc bucket amount (qs_world s) = (Inr (), w') \<Longrightarrow>
    quota_step mc bucket s (s\<lparr>qs_world := w', qs_filled := qs_filled s + amount\<rparr>)"
| want: "i < length (qs_clients s) \<Longrightarrow> qs_clients s ! i = (q, Idle) \<Longrightarrow> 0 \<le> amount \<Longrightarrow>
    quota_step mc bucket s (s\<lparr>qs_clients := (qs_clients s)[i := (q, Wanting amount)]\<rparr>)"
| enough: "i < length (qs_clients s) \<Longrightarrow> qs_clients s ! i = (q, Wanting amount) \<Longrightarrow> amount \<le> qc_quota q \<Longrightarrow>
    quota_step mc bucket s (s\<lparr>qs_clients := (qs_clients s)[i := (consumer_put (- amount) q, Idle)],
      qs_used := qs_used s + amount\<rparr>)"
| take: "i < length (qs_clients s) \<Longrightarrow> qs_clients s ! i = (q, Wanting amount) \<Longrightarrow> qc_quota q < amount \<Longrightarrow>
    client_decr mc bucket (qc_batch_size q) QUOTA_OFFSET QUOTA_NAMESPACE (qs_world s) = (Inr new, w') \<Longrightarrow>
    consume_decision (qc_batch_size q) True new = (None, delta) \<Longrightarrow>
    quota_step mc bucket s (s\<lparr>qs_world := w', qs_clients := (qs_clients s)[i := after_taking q amount delta]\<rparr>)"
| short: "i < length (qs_clients s) \<Longrightarrow> qs_clients s ! i = (q, Wanting amount) \<Longrightarrow> qc_quota q < amount \<Longrightarrow>
    client_decr mc bucket (qc_batch_size q) QUOTA_OFFSET QUOTA_NAMESPACE (qs_world s) = (Inr new, w') \<Longrightarrow>
    consume_decision (qc_batch_size q) True new = (Some owed, delta) \<Longrightarrow>
    quota_step mc bucket s (s\<lparr>qs_world := w', qs_clients := (qs_clients s)[i := (q, Owing amount owed delta)]\<rparr>)"
| give_back: "i < length (qs_clients s) \<Longrightarrow> qs_clients s ! i = (q, Owing amount owed delta) \<Longrightarrow>
    manager_put mc bucket owed (qs_world s) = (Inr (), w') \<Longrightarrow>
    quota_step mc bucket s (s\<lparr>qs_world := w', qs_clients := (qs_clients s)[i := after_taking q amount delta]\<rparr>)"
| unused: "i < length (qs_clients s) \<Longrightarrow> qs_clients s ! i = (q, Idle) \<Longrightarrow> 0 \<le> amount \<Longrightarrow>
    quota_step mc bucket s (s\<lparr>qs_clients := (qs_clients s)[i := (consumer_put amount q, Idle)],
      qs_used := qs_used s - amount\<rparr>)"
| dispose: "i < length (qs_clients s) \<Longrightarrow> qs_clients s ! i = (q, Idle) \<Longrightarrow>
    consumer_dispose mc q (qs_world s) = (Inr (), w') \<Longrightarrow>
    quota_step mc bucket s (s\<lparr>qs_world := w', qs_clients := (qs_clients s)[i := (q, Disposed)]\<rparr>)"

text \<open>What a client holds, counting what it is about to give back, and what it owes the bucket.\<close>

fun held :: "quota_consumer \<times> phase \<Rightarrow> int" where
  "held (q, Owing amount owed delta) = qc_quota q + owed + delta"
| "held (q, Disposed) = 0"
| "held (q, _) = qc_quota q"

fun owes :: "quota_consumer \<times> phase \<Rightarrow> int" where
  "owes (q, Owing amount owed delta) = owed"
| "owes (q, _) = 0"

fun client_ok :: "bucket \<Rightarrow> quota_consumer \<times> phase \<Rightarrow> bool" where
  "client_ok bucket (q, ph) \<longleftrightarrow> qc_bucket q = bucket \<and> 0 \<le> qc_batch_size q \<and> 0 \<le> qc_quota q \<and>
     (case ph of Owing amount owed delta \<Rightarrow> 0 \<le> owed \<and> 0 \<le> delta \<and> owed \<le> qc_batch_size q | _ \<Rightarrow> True)"

definition batch_of :: "quota_consumer \<times> phase \<Rightarrow> int" where
  "batch_of c = qc_batch_size (fst c)"

definition in_all :: "(quota_consumer \<times> phase \<Rightarrow> int) \<Rightarrow> 'w quota_system \<Rightarrow> int" where
  "in_all f s = sum_list (map f (qs_clients s))"

definition quota_ok :: "bucket \<Rightarrow> ('w \<Rightarrow> int) \<Rightarrow> 'w quota_system \<Rightarrow> bool" where
  "quota_ok bucket raw s \<longleftrightarrow> (\<forall>c \<in> set (qs_clients s). client_ok bucket c) \<and>
     raw (qs_world s) + in_all held s + qs_used s = QUOTA_OFFSET + qs_filled s \<and>
     QUOTA_OFFSET \<le> raw (qs_world s) + in_all owes s \<and> in_all batch_of s \<le> QUOTA_OFFSET"

lemma sum_list_map_update:
  "i < length xs \<Longrightarrow> sum_list (map f (xs[i := x])) = sum_list (map f xs) - f (xs ! i) + (f x :: int)"
  by (induction xs arbitrary: i) (auto split: nat.split)

lemma in_all_update:
  "i < length (qs_clients s) \<Longrightarrow> qs_clients s ! i = c \<Longrightarrow>
   in_all f (s\<lparr>qs_clients := (qs_clients s)[i := c']\<rparr>) = in_all f s - f c + f c'"
  by (simp add: in_all_def sum_list_map_update)

lemma in_all_other [simp]:
  "in_all f (s\<lparr>qs_world := w\<rparr>) = in_all f s"
  "in_all f (s\<lparr>qs_filled := a\<rparr>) = in_all f s"
  "in_all f (s\<lparr>qs_used := a\<rparr>) = in_all f s"
  by (simp_all add: in_all_def)

lemma owes_batch: "client_ok bucket c \<Longrightarrow> 0 \<le> owes c \<and> owes c \<le> batch_of c"
  by (cases c; cases "snd c") (auto simp: batch_of_def)

lemma owes_nonneg:
  assumes "quota_ok bucket raw s"
  shows "0 \<le> in_all owes s"
proof -
  have "0 \<le> owes c" if "c \<in> set (qs_clients s)" for c
    using owes_batch assms that unfolding quota_ok_def by blast
  then show ?thesis unfolding in_all_def by (intro sum_list_nonneg) (simp only: set_map image_iff, blast)
qed

text \<open>While one client takes a batch, the others owe no more than theirs.\<close>

lemma owes_and_batch:
  assumes ok: "\<forall>c \<in> set (qs_clients s). client_ok bucket c" and i: "i < length (qs_clients s)" "qs_clients s ! i = (q, Wanting amount)"
  shows "in_all owes s + qc_batch_size q \<le> in_all batch_of s"
proof -
  have all: "\<forall>c \<in> set cs. client_ok bucket c \<Longrightarrow> sum_list (map owes cs) \<le> sum_list (map batch_of cs)" for cs
    using owes_batch by (intro sum_list_mono) blast
  have split: "qs_clients s = take i (qs_clients s) @ (q, Wanting amount) # drop (Suc i) (qs_clients s)" (is "_ = ?a @ _ # ?b")
    using i id_take_nth_drop by metis
  have "sum_list (map owes ?a) \<le> sum_list (map batch_of ?a)" "sum_list (map owes ?b) \<le> sum_list (map batch_of ?b)"
    using ok by (auto intro!: all dest: in_set_takeD in_set_dropD)
  moreover have "in_all owes s = sum_list (map owes ?a) + sum_list (map owes ?b)"
    "in_all batch_of s = sum_list (map batch_of ?a) + qc_batch_size q + sum_list (map batch_of ?b)"
    unfolding in_all_def by (subst split, simp add: batch_of_def)+
  ultimately show ?thesis by simp
qed

lemma quota_ok_update:
  assumes ok: "quota_ok bucket raw s" and i: "i < length (qs_clients s)" "qs_clients s ! i = c"
    and c': "client_ok bucket c'" "batch_of c' = batch_of c"
    and total: "raw w' + held c' + used' = raw (qs_world s) + held c + qs_used s"
    and debt: "QUOTA_OFFSET \<le> raw w' + in_all owes s - owes c + owes c'"
  shows "quota_ok bucket raw (s\<lparr>qs_world := w', qs_clients := (qs_clients s)[i := c'], qs_used := used'\<rparr>)"
proof -
  let ?s = "s\<lparr>qs_world := w', qs_clients := (qs_clients s)[i := c'], qs_used := used'\<rparr>"
  have all: "in_all f ?s = in_all f s - f c + f c'" for f
    using i by (simp add: in_all_def sum_list_map_update)
  have "\<forall>c \<in> set (qs_clients ?s). client_ok bucket c"
    using ok c'(1) by (auto simp: quota_ok_def dest!: set_update_subset_insert [THEN subsetD])
  then show ?thesis
    using ok total debt c'(2) unfolding quota_ok_def all by simp
qed

lemma after_taking_ok:
  assumes "client_ok bucket (q, ph)" and "0 \<le> delta"
  shows "client_ok bucket (after_taking q amount delta)" "batch_of (after_taking q amount delta) = batch_of (q, ph)"
    "held (after_taking q amount delta) = qc_quota q + delta" "owes (after_taking q amount delta) = 0"
  using assms by (auto simp: after_taking_def consumer_put_def batch_of_def)

lemma decision_cases:
  assumes "consume_decision d True (Some new) = (owed, delta)" and "0 \<le> d"
  shows "0 \<le> delta" "owed = None \<Longrightarrow> delta = d \<and> QUOTA_OFFSET \<le> new"
    "owed = Some b \<Longrightarrow> b + delta = d \<and> 0 \<le> b \<and> b \<le> d \<and> (b = d \<or> new + b = QUOTA_OFFSET)"
  using assms by (auto simp: consume_decision_def split: if_splits)

lemma quota_step_ok:
  assumes c: "counts mc bucket raw" and step: "quota_step mc bucket s t" and ok: "quota_ok bucket raw s"
  shows "quota_ok bucket raw t"
  using step
proof cases
  case (fill amount w')
  obtain w1 where w1: "manager_put mc bucket amount (qs_world s) = (Inr (), w1)" "raw w1 = raw (qs_world s) + amount"
    by (rule manager_put_counts [OF c fill(2)])
  then have w': "raw w' = raw (qs_world s) + amount" using fill(3) by simp
  have same: "in_all f t = in_all f s" for f by (simp add: fill(1) in_all_def)
  show ?thesis using ok w' fill(2) by (simp add: quota_ok_def same, simp add: fill(1))
next
  case (want i q amount)
  then have "client_ok bucket (q, Idle)" using ok by (metis nth_mem quota_ok_def)
  then have "quota_ok bucket raw (s\<lparr>qs_world := qs_world s, qs_clients := (qs_clients s)[i := (q, Wanting amount)], qs_used := qs_used s\<rparr>)"
    using ok by (intro quota_ok_update [OF ok want(2,3)]) (simp_all add: batch_of_def quota_ok_def)
  then show ?thesis using want(1) by simp
next
  case (enough i q amount)
  then have "client_ok bucket (q, Wanting amount)" using ok by (metis nth_mem quota_ok_def)
  then have "quota_ok bucket raw (s\<lparr>qs_world := qs_world s, qs_clients := (qs_clients s)[i := (consumer_put (- amount) q, Idle)],
      qs_used := qs_used s + amount\<rparr>)"
    using ok enough(4) by (intro quota_ok_update [OF ok enough(2,3)]) (simp_all add: batch_of_def quota_ok_def consumer_put_def)
  then show ?thesis using enough(1) by simp
next
  case (take i q amount new w' delta)
  have q: "client_ok bucket (q, Wanting amount)" using ok take(2,3) by (metis nth_mem quota_ok_def)
  obtain v where v: "new = Some v" "v = max 0 (raw (qs_world s) - qc_batch_size q)" "raw w' = v"
    using counts_decr [OF c, of "qc_batch_size q" "qs_world s"] q take(5) by auto
  have d: "delta = qc_batch_size q" "QUOTA_OFFSET \<le> v" "0 \<le> delta"
    using decision_cases(1,2) [OF take(6) [unfolded v(1)]] q by auto
  have "0 < v" using d(2) by (simp add: QUOTA_OFFSET_def)
  then have raw: "raw w' = raw (qs_world s) - delta" using v d(1) by simp
  note nonneg = owes_nonneg [OF ok]
  have "raw w' + (qc_quota q + delta) = raw (qs_world s) + qc_quota q" "QUOTA_OFFSET \<le> raw w' + in_all owes s"
    using nonneg raw d(2) v(3) by linarith+
  then have "quota_ok bucket raw (s\<lparr>qs_world := w', qs_clients := (qs_clients s)[i := after_taking q amount delta], qs_used := qs_used s\<rparr>)"
    by (intro quota_ok_update [OF ok take(2,3)]) (simp_all add: after_taking_ok [OF q d(3)])
  then show ?thesis using take(1) by simp
next
  case (short i q amount new w' owed delta)
  have q: "client_ok bucket (q, Wanting amount)" using ok short(2,3) by (metis nth_mem quota_ok_def)
  obtain v where v: "new = Some v" "v = max 0 (raw (qs_world s) - qc_batch_size q)" "raw w' = v"
    using counts_decr [OF c, of "qc_batch_size q" "qs_world s"] q short(5) by auto
  have batch: "0 \<le> qc_batch_size q" using q by simp
  note d = decision_cases(1,3) [OF short(6) [unfolded v(1)] batch]
  have d: "0 \<le> delta" "owed + delta = qc_batch_size q" "0 \<le> owed" "owed \<le> qc_batch_size q"
    "owed = qc_batch_size q \<or> v + owed = QUOTA_OFFSET"
    using d(1) d(2) [OF refl] by auto
  have owes: "in_all owes s + qc_batch_size q \<le> in_all batch_of s"
    using ok by (intro owes_and_batch [OF _ short(2,3), of bucket]) (simp add: quota_ok_def)
  have raw: "raw w' = raw (qs_world s) - qc_batch_size q" using v(2,3) owes ok unfolding quota_ok_def by linarith
  note nonneg = owes_nonneg [OF ok]
  have "QUOTA_OFFSET \<le> raw w' + in_all owes s + owed" using nonneg d(4,5) raw v(3) ok unfolding quota_ok_def by linarith
  then have "quota_ok bucket raw (s\<lparr>qs_world := w', qs_clients := (qs_clients s)[i := (q, Owing amount owed delta)], qs_used := qs_used s\<rparr>)"
    using raw d(1-4) q by (intro quota_ok_update [OF ok short(2,3)]) (auto simp: batch_of_def)
  then show ?thesis using short(1) by simp
next
  case (give_back i q amount owed delta w')
  have q: "client_ok bucket (q, Owing amount owed delta)" using ok give_back(2,3) by (metis nth_mem quota_ok_def)
  then have "0 \<le> owed" by simp
  then obtain w1 where "manager_put mc bucket owed (qs_world s) = (Inr (), w1)" "raw w1 = raw (qs_world s) + owed"
    using manager_put_counts [OF c] by metis
  then have raw: "raw w' = raw (qs_world s) + owed" using give_back(4) by simp
  have "0 \<le> delta" using q by simp
  then have "quota_ok bucket raw (s\<lparr>qs_world := w', qs_clients := (qs_clients s)[i := after_taking q amount delta], qs_used := qs_used s\<rparr>)"
    using raw ok by (intro quota_ok_update [OF ok give_back(2,3)]) (simp_all add: after_taking_ok [OF q] quota_ok_def)
  then show ?thesis using give_back(1) by simp
next
  case (unused i q amount)
  then have "client_ok bucket (q, Idle)" using ok by (metis nth_mem quota_ok_def)
  then have "quota_ok bucket raw (s\<lparr>qs_world := qs_world s, qs_clients := (qs_clients s)[i := (consumer_put amount q, Idle)],
      qs_used := qs_used s - amount\<rparr>)"
    using ok unused(4) by (intro quota_ok_update [OF ok unused(2,3)]) (simp_all add: batch_of_def quota_ok_def consumer_put_def)
  then show ?thesis using unused(1) by simp
next
  case (dispose i q w')
  have q: "client_ok bucket (q, Idle)" using ok dispose(2,3) by (metis nth_mem quota_ok_def)
  obtain w1 where "manager_put mc bucket (qc_quota q) (qs_world s) = (Inr (), w1)" "raw w1 = raw (qs_world s) + qc_quota q"
    using manager_put_counts [OF c] q by (metis client_ok.simps)
  then have raw: "raw w' = raw (qs_world s) + qc_quota q" using dispose(4) q by (simp add: consumer_dispose_def)
  have "quota_ok bucket raw (s\<lparr>qs_world := w', qs_clients := (qs_clients s)[i := (q, Disposed)], qs_used := qs_used s\<rparr>)"
    using raw ok q by (intro quota_ok_update [OF ok dispose(2,3)]) (simp_all add: batch_of_def quota_ok_def)
  then show ?thesis using dispose(1) by simp
qed

text \<open>A client that is not disturbed runs \<open>consume\<close>: a round of its loop is one step or two.\<close>

lemma round_is_a_run:
  assumes m: "manager_consume mc bucket (qc_batch_size q) True (qs_world s) = (Inr delta, w')"
    and i: "i < length (qs_clients s)" "qs_clients s ! i = (q, Wanting amount)" and a: "qc_quota q < amount"
  shows "(quota_step mc bucket)\<^sup>*\<^sup>* s (s\<lparr>qs_world := w', qs_clients := (qs_clients s)[i := after_taking q amount delta]\<rparr>)"
proof -
  obtain new w1 where w1: "client_decr mc bucket (qc_batch_size q) QUOTA_OFFSET QUOTA_NAMESPACE (qs_world s) = (Inr new, w1)"
    using m by (auto simp: manager_consume_def bindA_Inr_iff)
  obtain owed d where dec: "consume_decision (qc_batch_size q) True new = (owed, d)" by fastforce
  show ?thesis
  proof (cases owed)
    case None
    then have "d = delta" "w1 = w'" using m dec by (simp_all add: manager_consume_run [OF w1])
    then show ?thesis using take [OF i a w1] dec None by blast
  next
    case (Some b)
    have m': "seqA (manager_put mc bucket b) (retA d) w1 = (Inr delta, w')" using m dec Some by (simp add: manager_consume_run [OF w1])
    then have put: "manager_put mc bucket b w1 = (Inr (), w')" "d = delta" by (auto simp: seqA_def bindA_Inr_iff)
    let ?s = "s\<lparr>qs_world := w1, qs_clients := (qs_clients s)[i := (q, Owing amount b delta)]\<rparr>"
    have "quota_step mc bucket s ?s" using short [OF i a w1] dec Some put(2) by blast
    moreover have "quota_step mc bucket ?s (?s\<lparr>qs_world := w', qs_clients := (qs_clients ?s)[i := after_taking q amount delta]\<rparr>)"
      using i(1) put(1) by (intro give_back [where owed = b]) simp_all
    ultimately show ?thesis by (simp add: converse_rtranclp_into_rtranclp)
  qed
qed

lemma consume_runs:
  "consumer_consume mc amount x = Some r \<Longrightarrow> r = (Inr b, (q', w')) \<Longrightarrow> qc_bucket (fst x) = bucket \<Longrightarrow>
   i < length (qs_clients s) \<Longrightarrow> qs_clients s ! i = (fst x, Wanting amount) \<Longrightarrow> qs_world s = snd x \<Longrightarrow>
   (quota_step mc bucket)\<^sup>*\<^sup>* s (s\<lparr>qs_world := w', qs_clients := (qs_clients s)[i := (q', Idle)],
     qs_used := qs_used s + (if b then amount else 0)\<rparr>)"
proof (induction arbitrary: b q' w' s rule: consumer_consume.raw_induct [rotated, consumes 1])
  case (1 f mc amount x r)
  note IH = "1.IH" and body = "1.hyps" and r = "1.prems"(1) and q = "1.prems"(2) and i = "1.prems"(3,4) and w = "1.prems"(5)
  let ?final = "s\<lparr>qs_world := w', qs_clients := (qs_clients s)[i := (q', Idle)], qs_used := qs_used s + (if b then amount else 0)\<rparr>"
  obtain q0 w0 where x: "x = (q0, w0)" by (cases x)
  show ?case
  proof (cases "qc_quota q0 < amount")
    case False
    then have "b" "q' = consumer_put (- amount) q0" "w' = qs_world s" using body r x w by (auto simp: consumer_put_def)
    then show ?thesis using enough [of i s q0 amount mc bucket] i False x by simp
  next
    case True
    obtain delta w1 where m: "manager_consume mc bucket (qc_batch_size q0) True (qs_world s) = (Inr delta, w1)"
      using body r x q w True by (auto split: prod.splits sum.splits)
    have first: "(quota_step mc bucket)\<^sup>*\<^sup>* s (s\<lparr>qs_world := w1, qs_clients := (qs_clients s)[i := after_taking q0 amount delta]\<rparr>)"
      using round_is_a_run [OF m i(1)] i(2) x True by simp
    show ?thesis
    proof (cases "delta = 0")
      case True
      then have "\<not> b" "q' = q0" "w' = w1" using body r x q w m \<open>qc_quota q0 < amount\<close> by auto
      then show ?thesis using first True by (simp add: after_taking_def)
    next
      case False
      then have "f mc amount (consumer_put delta q0, w1) = Some r"
        using body x q w m True by (simp add: consumer_put_def)
      let ?s = "s\<lparr>qs_world := w1, qs_clients := (qs_clients s)[i := (consumer_put delta q0, Wanting amount)]\<rparr>"
      from IH [OF \<open>f mc amount _ = _\<close> r, of ?s] have "(quota_step mc bucket)\<^sup>*\<^sup>* ?s (?s\<lparr>qs_world := w', qs_clients := (qs_clients ?s)[i := (q', Idle)],
          qs_used := qs_used ?s + (if b then amount else 0)\<rparr>)"
        using r q x i(1) by (simp add: consumer_put_def)
      then show ?thesis using first False by (simp add: after_taking_def)
    qed
  qed
qed

lemma consume_is_a_run:
  assumes "consumer_consume mc amount (q, w) = Some (Inr b, (q', w'))"
    and "qc_bucket q = bucket" and "i < length (qs_clients s)" and "qs_clients s ! i = (q, Wanting amount)" and "qs_world s = w"
  shows "(quota_step mc bucket)\<^sup>*\<^sup>* s (s\<lparr>qs_world := w', qs_clients := (qs_clients s)[i := (q', Idle)],
    qs_used := qs_used s + (if b then amount else 0)\<rparr>)"
  using consume_runs [OF assms(1) refl, of bucket i s] assms(2-) by simp

section \<open>The quota of a job\<close>

text \<open>A new bucket and clients that have not started.\<close>

definition fresh_system :: "bucket \<Rightarrow> int list \<Rightarrow> 'w \<Rightarrow> 'w quota_system" where
  "fresh_system bucket batches w = \<lparr>qs_world = w,
     qs_clients = map (\<lambda>b. (quota_consumer_init bucket b, Idle)) batches, qs_filled = 0, qs_used = 0\<rparr>"

lemma quota_ok_fresh:
  assumes "raw w = QUOTA_OFFSET" and "\<forall>b \<in> set batches. 0 \<le> b" and "sum_list batches \<le> QUOTA_OFFSET"
  shows "quota_ok bucket raw (fresh_system bucket batches w)"
proof -
  have "map (batch_of \<circ> (\<lambda>b. (quota_consumer_init bucket b, Idle))) batches = batches"
    by (simp add: batch_of_def quota_consumer_init_def comp_def)
  moreover have "sum_list (map (held \<circ> (\<lambda>b. (quota_consumer_init bucket b, Idle))) batches) = 0"
      "sum_list (map (owes \<circ> (\<lambda>b. (quota_consumer_init bucket b, Idle))) batches) = 0"
    by (simp_all add: quota_consumer_init_def comp_def)
  ultimately show ?thesis
    using assms by (auto simp: quota_ok_def fresh_system_def in_all_def quota_consumer_init_def)
qed

lemma quota_run_ok:
  assumes "counts mc bucket raw" and "(quota_step mc bucket)\<^sup>*\<^sup>* s t" and "quota_ok bucket raw s"
  shows "quota_ok bucket raw t"
  using assms(2,3) by (induction rule: rtranclp_induct) (auto intro: quota_step_ok [OF assms(1)])

lemma held_ge_quota: "client_ok bucket c \<Longrightarrow> owes c \<le> held c"
  by (cases c; cases "snd c") auto


text \<open>A memcache in memory, a map from keys to counters.\<close>

definition memory_counters :: "(string \<Rightarrow> int option) memcache_client" where
  "memory_counters = \<lparr>
     client_incr = (\<lambda>key d initial ns m. let v = (case m key of None \<Rightarrow> initial | Some v \<Rightarrow> v) + d in (Inr (Some v), m(key := Some v))),
     client_decr = (\<lambda>key d initial ns m. let v = max 0 ((case m key of None \<Rightarrow> initial | Some v \<Rightarrow> v) - d) in (Inr (Some v), m(key := Some v))),
     client_get = (\<lambda>key ns m. (Inr (m key), m)),
     client_set = (\<lambda>key v ns m. (Inr (), m(key := Some v)))\<rparr>"

definition memory_raw :: "bucket \<Rightarrow> (string \<Rightarrow> int option) \<Rightarrow> int" where
  "memory_raw bucket m = (case m bucket of None \<Rightarrow> QUOTA_OFFSET | Some v \<Rightarrow> v)"

lemma memory_counters_count: "counts memory_counters bucket (memory_raw bucket)"
  by (auto simp: counts_def memory_counters_def memory_raw_def Let_def split: option.split)

text \<open>Two shards with batches of 10; three units are put in, the first shard wants two and gives back seven of its batch.\<close>

lemma quota_run_example:
  "\<exists>s. (quota_step memory_counters ''job'')\<^sup>*\<^sup>* (fresh_system ''job'' [10, 10] (\<lambda>_. None)) s \<and>
     qs_filled s = 3 \<and> qs_used s = 2 \<and> memory_raw ''job'' (qs_world s) = QUOTA_OFFSET"
proof -
  let ?run = "(quota_step memory_counters ''job'')\<^sup>*\<^sup>*"
  let ?s0 = "fresh_system ''job'' [10, 10] (\<lambda>_. None)"
  let ?s1 = "?s0\<lparr>qs_world := [''job'' \<mapsto> QUOTA_OFFSET + 3], qs_filled := 3\<rparr>"
  have "quota_step memory_counters ''job'' ?s0 ?s1"
    using fill [of 3 memory_counters "''job''" ?s0 "[''job'' \<mapsto> QUOTA_OFFSET + 3]"]
    by (simp add: fresh_system_def manager_put_def memory_counters_def bindA_def Let_def)
  moreover
  let ?q = "quota_consumer_init ''job'' 10"
  let ?s2 = "?s1\<lparr>qs_clients := [(?q, Wanting 2), (?q, Idle)]\<rparr>"
  have "quota_step memory_counters ''job'' ?s1 ?s2"
    using want [of 0 ?s1 ?q 2 memory_counters "''job''"] by (simp add: fresh_system_def)
  moreover
  let ?q' = "consumer_put 1 ?q"
  have consume: "consumer_consume memory_counters 2 (?q, [''job'' \<mapsto> QUOTA_OFFSET + 3]) =
      Some (Inr True, (?q', [''job'' \<mapsto> QUOTA_OFFSET]))"
    by (subst consumer_consume.simps, subst consumer_consume.simps)
       (simp add: quota_consumer_init_def manager_consume_def manager_put_def memory_counters_def bindA_def seqA_def
          Let_def consume_decision_def QUOTA_OFFSET_def consumer_put_def fun_upd_idem_iff)
  have "?run ?s2 (?s2\<lparr>qs_world := [''job'' \<mapsto> QUOTA_OFFSET], qs_clients := [(?q', Idle), (?q, Idle)], qs_used := 2\<rparr>)"
    using consume_is_a_run [OF consume, of "''job''" 0 ?s2] by (simp add: fresh_system_def quota_consumer_init_def)
  ultimately have "?run ?s0 (?s2\<lparr>qs_world := [''job'' \<mapsto> QUOTA_OFFSET], qs_clients := [(?q', Idle), (?q, Idle)], qs_used := 2\<rparr>)"
    by (meson converse_rtranclp_into_rtranclp)
  then show ?thesis
    by (rule exI [where x = "?s2\<lparr>qs_world := _, qs_clients := _, qs_used := 2\<rparr>", OF conjI]) (simp add: memory_raw_def)
qed


text \<open>
  When memcache fails to count down and answers None, \<open>consume\<close> still puts the amount back: the bucket grows
  by quota that nobody gave.
\<close>

theorem failed_request_creates_quota:
  assumes "client_decr mc bucket amount QUOTA_OFFSET QUOTA_NAMESPACE w = (Inr None, w)"
    and "client_incr mc bucket amount QUOTA_OFFSET QUOTA_NAMESPACE w = (Inr (Some (raw w + amount)), w')"
    and "raw w' = raw w + amount"
  shows "manager_consume mc bucket amount consume_some w = (Inr 0, w') \<and> available raw w' = available raw w + amount"
  using assms(2,3)
  by (simp add: manager_consume_run [OF assms(1)] consume_decision_def available_def manager_put_def bindA_def seqA_def)

end
