(* ===== verification/Slices.thy ===== *)
theory Slices
  imports Prelude
begin

text \<open>
  How a job reads its input: an input reader hands out items until it stops, and between two slices of work it
  is put away as JSON and taken up again in another request. The locales \<open>item_reader\<close> and \<open>resumable\<close> are what
  this asks of a reader; their lemmas are proved once for all of them.
\<close>

text \<open>\<open>for x in reader\<close>: all items until \<open>StopIteration\<close> (\<open>None\<close>); without an end there is no value.\<close>

partial_function (option) drain :: "('s \<Rightarrow> 'x option \<times> 's) \<Rightarrow> 's \<Rightarrow> 'x list option" where
  "drain nxt s = (case nxt s of (None, s') \<Rightarrow> Some []
     | (Some x, s') \<Rightarrow> Option.bind (drain nxt s') (\<lambda>xs. Some (x # xs)))"

text \<open>A slice of at most \<open>k\<close> items.\<close>

fun take_items :: "('s \<Rightarrow> 'x option \<times> 's) \<Rightarrow> nat \<Rightarrow> 's \<Rightarrow> 'x list \<times> 's" where
  "take_items nxt 0 s = ([], s)"
| "take_items nxt (Suc k) s =
     (case nxt s of (None, s') \<Rightarrow> ([], s')
      | (Some x, s') \<Rightarrow> (case take_items nxt k s' of (xs, s'') \<Rightarrow> (x # xs, s'')))"

text \<open>Slices of the given lengths, with the reader put away after each, and a last one to the end.\<close>

fun sliced :: "('s \<Rightarrow> 'x option \<times> 's) \<Rightarrow> ('s \<Rightarrow> 's) \<Rightarrow> nat list \<Rightarrow> 's \<Rightarrow> 'x list option" where
  "sliced nxt reload [] s = drain nxt s"
| "sliced nxt reload (k # ks) s =
     (case take_items nxt k s of (xs, s') \<Rightarrow> Option.bind (sliced nxt reload ks (reload s')) (\<lambda>ys. Some (xs @ ys)))"

locale item_reader =
  fixes nxt :: "'s \<Rightarrow> 'x option \<times> 's" and remaining :: "'s \<Rightarrow> 'x list" and ok :: "'s \<Rightarrow> bool"
  assumes stops: "ok s \<Longrightarrow> remaining s = [] \<Longrightarrow> \<exists>s'. nxt s = (None, s') \<and> ok s' \<and> remaining s' = []"
    and yields: "ok s \<Longrightarrow> remaining s = x # xs \<Longrightarrow> \<exists>s'. nxt s = (Some x, s') \<and> ok s' \<and> remaining s' = xs"
begin

lemma drains: "ok s \<Longrightarrow> drain nxt s = Some (remaining s)"
proof (induction "remaining s" arbitrary: s)
  case Nil
  then obtain s' where "nxt s = (None, s')" using stops by metis
  then show ?case using Nil by (subst drain.simps) simp
next
  case (Cons x xs)
  then obtain s' where s': "nxt s = (Some x, s')" "ok s'" "remaining s' = xs" using yields by metis
  then have "drain nxt s' = Some xs" using Cons by metis
  then show ?case using s'(1) Cons(2) by (subst drain.simps) simp
qed

lemma takes: "ok s \<Longrightarrow> \<exists>s'. take_items nxt k s = (take k (remaining s), s') \<and> ok s' \<and> remaining s' = drop k (remaining s)"
proof (induction k arbitrary: s)
  case (Suc k)
  show ?case
  proof (cases "remaining s")
    case Nil
    then show ?thesis using stops [OF Suc.prems] by auto
  next
    case (Cons x xs)
    obtain s' where s': "nxt s = (Some x, s')" "ok s'" "remaining s' = xs" using yields [OF Suc.prems Cons] by blast
    then show ?thesis using Suc.IH [OF s'(2)] Cons by fastforce
  qed
qed simp

end

locale resumable = item_reader nxt remaining ok
  for nxt :: "'s \<Rightarrow> 'x option \<times> 's" and remaining :: "'s \<Rightarrow> 'x list" and ok :: "'s \<Rightarrow> bool" +
  fixes to_json :: "'s \<Rightarrow> 'j" and from_json :: "'j \<Rightarrow> 's"
  assumes resumes: "ok s \<Longrightarrow> ok (from_json (to_json s)) \<and> remaining (from_json (to_json s)) = remaining s"
begin

text \<open>However the work is cut into slices, every item is handed out once and in order.\<close>

lemma slices_lose_nothing: "ok s \<Longrightarrow> sliced nxt (from_json \<circ> to_json) ks s = Some (remaining s)"
proof (induction ks arbitrary: s)
  case (Cons k ks)
  obtain s' where s': "take_items nxt k s = (take k (remaining s), s')" "ok s'" "remaining s' = drop k (remaining s)"
    using takes [OF Cons.prems] by blast
  then show ?case using Cons.IH [of "from_json (to_json s')"] resumes [OF s'(2)] by simp
qed (simp add: drains)

end

end
