(* ===== verification/BlobReaders.thy ===== *)
theory BlobReaders
  imports Slices PyString "HOL-Library.Multiset"
begin

text \<open>
  \<open>BlobstoreLineInputReader\<close> of \<open>mapreduce/input_readers.py\<close>: the lines of text blobs, cut into ranges for the
  shards. Opening a blob is an argument; \<open>reads_blobs\<close> is what the documentation says of
  \<open>blobstore.BlobReader\<close>.
\<close>

section \<open>Lines of a blob\<close>

record 'r blob_api =
  br_open :: "string \<Rightarrow> int \<Rightarrow> int \<Rightarrow> 'r"
  br_tell :: "'r \<Rightarrow> int"
  br_readline :: "'r \<Rightarrow> string \<times> 'r"

definition BLOB_BUFFER_SIZE :: int where "BLOB_BUFFER_SIZE = 64000"

definition BLOB_MAX_SHARD_COUNT :: int where "BLOB_MAX_SHARD_COUNT = 256"

record 'r line_reader =
  lr_blob_key :: string
  lr_blob_reader :: 'r
  lr_end_position :: int
  lr_has_iterated :: bool
  lr_read_before_start :: bool

definition line_reader_init :: "'r blob_api \<Rightarrow> string \<Rightarrow> int \<Rightarrow> int \<Rightarrow> 'r line_reader" where
  "line_reader_init api blob_key start_position end_position =
     \<lparr>lr_blob_key = blob_key, lr_blob_reader = br_open api blob_key BLOB_BUFFER_SIZE start_position,
      lr_end_position = end_position, lr_has_iterated = False, lr_read_before_start = (start_position \<noteq> 0)\<rparr>"

text \<open>\<open>next\<close>: \<open>None\<close> is \<open>StopIteration\<close>.\<close>

definition line_next :: "'r blob_api \<Rightarrow> 'r line_reader \<Rightarrow> (int \<times> string) option \<times> 'r line_reader" where
  "line_next api lr =
     (let r = lr_blob_reader lr;
          r = (if lr_read_before_start lr then snd (br_readline api r) else r);
          lr = lr\<lparr>lr_blob_reader := r, lr_has_iterated := True, lr_read_before_start := False\<rparr>;
          start_position = br_tell api r
      in if start_position > lr_end_position lr then (None, lr)
         else (case br_readline api r of (line, r') \<Rightarrow>
           if line = [] then (None, lr\<lparr>lr_blob_reader := r'\<rparr>)
           else (Some (start_position, rstrip_by (\<lambda>c. c = newline) line), lr\<lparr>lr_blob_reader := r'\<rparr>)))"

definition line_to_json :: "'r blob_api \<Rightarrow> 'r line_reader \<Rightarrow> string \<times> int \<times> int" where
  "line_to_json api lr =
     (let new_pos = br_tell api (lr_blob_reader lr) in
      (lr_blob_key lr, if lr_has_iterated lr then new_pos - 1 else new_pos, lr_end_position lr))"

definition line_from_json :: "'r blob_api \<Rightarrow> string \<times> int \<times> int \<Rightarrow> 'r line_reader" where
  "line_from_json api json = line_reader_init api (fst json) (fst (snd json)) (snd (snd json))"

section \<open>Splitting blobs into ranges\<close>

definition shards_per_blob :: "int \<Rightarrow> string list \<Rightarrow> int res" where
  "shards_per_blob shard_count blob_keys =
     (if blob_keys = [] then Inl ZeroDivisionError
      else let n = min BLOB_MAX_SHARD_COUNT shard_count div int (length blob_keys) in Inr (if n = 0 then 1 else n))"

definition blob_chunks :: "int \<Rightarrow> string \<times> int \<Rightarrow> (string \<times> int \<times> int) list" where
  "blob_chunks n blob = (case blob of (blob_key, blob_size) \<Rightarrow>
     let blob_chunk_size = blob_size div n in
     map (\<lambda>i. (blob_key, blob_chunk_size * i, blob_chunk_size * (i + 1))) [0..n - 2] @
       [(blob_key, blob_chunk_size * (n - 1), blob_size)])"

text \<open>
  \<open>BlobInfo.get(key).size\<close> for every key, as a dictionary; a blob without information raises. \<open>order\<close> is the
  order in which a dictionary hands out its items.
\<close>

definition put_size :: "(string \<Rightarrow> int option) \<Rightarrow> string \<Rightarrow> (string \<times> int) list res \<Rightarrow> (string \<times> int) list res" where
  "put_size blob_info key sizes = bindR sizes (\<lambda>kvs. case blob_info key of
     None \<Rightarrow> Inl AttributeError
   | Some n \<Rightarrow> Inr (if key \<in> fst ` set kvs then kvs else kvs @ [(key, n)]))"

definition blob_sizes :: "(string \<Rightarrow> int option) \<Rightarrow> string list \<Rightarrow> (string \<times> int) list res" where
  "blob_sizes blob_info blob_keys = fold (put_size blob_info) blob_keys (Inr [])"

definition line_split_input ::
    "'r blob_api \<Rightarrow> (string \<Rightarrow> int option) \<Rightarrow> ((string \<times> int) list \<Rightarrow> (string \<times> int) list) \<Rightarrow> int \<Rightarrow>
     string + string list \<Rightarrow> 'r line_reader list res" where
  "line_split_input api blob_info order shard_count blob_keys =
     (let keys = (case blob_keys of Inl names \<Rightarrow> split_on CHR '','' names | Inr keys \<Rightarrow> keys) in
      bindR (blob_sizes blob_info keys) (\<lambda>sizes.
        bindR (shards_per_blob shard_count keys) (\<lambda>n.
          Inr (map (line_from_json api) (concat (map (blob_chunks n) (order sizes)))))))"

section \<open>What a blob says\<close>

fun first_line :: "string \<Rightarrow> string" where
  "first_line [] = []"
| "first_line (c # s) = (if c = newline then [c] else c # first_line s)"

text \<open>A blob reader stands at a position of a blob and reads on from there.\<close>

definition reads_blobs :: "'r blob_api \<Rightarrow> (string \<Rightarrow> string) \<Rightarrow> ('r \<Rightarrow> string \<times> nat) \<Rightarrow> bool" where
  "reads_blobs api content at_pos \<longleftrightarrow>
     (\<forall>k n p. at_pos (br_open api k n (int p)) = (k, p)) \<and>
     (\<forall>r. br_tell api r = int (snd (at_pos r))) \<and>
     (\<forall>r. fst (br_readline api r) = first_line (drop (snd (at_pos r)) (content (fst (at_pos r)))) \<and>
          at_pos (snd (br_readline api r)) = (fst (at_pos r), snd (at_pos r) + length (fst (br_readline api r))))"

lemma first_line_length: "length (first_line s) \<le> length s"
  by (induction s) auto

lemma first_line_empty [simp]: "first_line s = [] \<longleftrightarrow> s = []"
  by (cases s) auto

lemma first_line_drop:
  assumes "i < length (first_line s)"
  shows "i + length (first_line (drop i s)) = length (first_line s)"
  using assms by (induction s arbitrary: i) (auto simp: drop_Cons split: nat.splits if_splits)

text \<open>The position after the line that runs at \<open>p\<close>, and the lines from \<open>p\<close> that start at \<open>e\<close> or before.\<close>

definition next_line :: "string \<Rightarrow> nat \<Rightarrow> nat" where
  "next_line c p = p + length (first_line (drop p c))"

lemma next_line_less [simp]: "p < length c \<Longrightarrow> p < next_line c p"
  by (simp add: next_line_def)

lemma next_line_end: "length c \<le> p \<Longrightarrow> next_line c p = p"
  by (simp add: next_line_def)

lemma next_line_within:
  assumes "p \<le> e" and "e < next_line c p"
  shows "next_line c e = next_line c p"
proof -
  have "e - p < length (first_line (drop p c))" using assms by (simp add: next_line_def)
  from first_line_drop [OF this] show ?thesis using assms(1) by (simp add: next_line_def)
qed

lemma next_line_bound: "p \<le> length c \<Longrightarrow> next_line c p \<le> length c"
  using first_line_length [of "drop p c"] by (simp add: next_line_def)

function lines_between :: "string \<Rightarrow> nat \<Rightarrow> nat \<Rightarrow> (int \<times> string) list" where
  "lines_between c p e = (if p < length c \<and> p \<le> e
     then (int p, rstrip_by (\<lambda>x. x = newline) (first_line (drop p c))) # lines_between c (next_line c p) e
     else [])"
  by pat_completeness auto
termination
  by (relation "measure (\<lambda>(c, p, e). length c - p)") (auto simp: diff_less_mono2)

declare lines_between.simps [simp del]

definition blob_lines :: "string \<Rightarrow> (int \<times> string) list" where
  "blob_lines c = lines_between c 0 (length c)"

text \<open>Cut at \<open>m\<close>, the second part begins with the first line that starts after \<open>m\<close>.\<close>

lemma lines_between_cut:
  "p \<le> m \<Longrightarrow> m \<le> e \<Longrightarrow> lines_between c p e = lines_between c p m @ lines_between c (next_line c m) e"
proof (induction c p e rule: lines_between.induct)
  case (1 c p e)
  show ?case
  proof (cases "p < length c")
    case False
    then show ?thesis using 1 by (simp add: lines_between.simps next_line_end)
  next
    case True
    show ?thesis
    proof (cases "next_line c p \<le> m")
      case True
      then have "lines_between c (next_line c p) e = lines_between c (next_line c p) m @ lines_between c (next_line c m) e"
        using 1 \<open>p < length c\<close> by simp
      then show ?thesis using \<open>p < length c\<close> 1(2,3)
        by (simp add: lines_between.simps [of c p e] lines_between.simps [of c p m])
    next
      case False
      then have "next_line c m = next_line c p" using next_line_within 1(2) by simp
      moreover have "lines_between c (next_line c p) m = []" using False by (simp add: lines_between.simps)
      ultimately show ?thesis using \<open>p < length c\<close> 1(2,3)
        by (simp add: lines_between.simps [of c p e] lines_between.simps [of c p m])
    qed
  qed
qed

section \<open>The line reader\<close>

text \<open>What a line reader still has to yield: its first line is skipped if it starts inside the blob.\<close>

definition lines_left :: "(string \<Rightarrow> string) \<Rightarrow> ('r \<Rightarrow> string \<times> nat) \<Rightarrow> 'r line_reader \<Rightarrow> (int \<times> string) list" where
  "lines_left content at_pos lr = (case at_pos (lr_blob_reader lr) of (k, p) \<Rightarrow>
     lines_between (content k) (if lr_read_before_start lr then next_line (content k) p else p) (nat (lr_end_position lr)))"

definition line_reader_ok :: "'r blob_api \<Rightarrow> (string \<Rightarrow> string) \<Rightarrow> ('r \<Rightarrow> string \<times> nat) \<Rightarrow> 'r line_reader \<Rightarrow> bool" where
  "line_reader_ok api content at_pos lr \<longleftrightarrow> reads_blobs api content at_pos \<and> 0 \<le> lr_end_position lr"

lemma reads_blobs_simps:
  assumes "reads_blobs api content at_pos"
  shows "at_pos (br_open api k n (int p)) = (k, p)" "br_tell api r = int (snd (at_pos r))"
    "fst (br_readline api r) = first_line (drop (snd (at_pos r)) (content (fst (at_pos r))))"
    "at_pos (snd (br_readline api r)) = (fst (at_pos r), next_line (content (fst (at_pos r))) (snd (at_pos r)))"
  using assms by (simp_all add: reads_blobs_def next_line_def)

text \<open>One call of \<open>next\<close>, by the position it reads at.\<close>

lemma line_next_eq:
  assumes r: "reads_blobs api content at_pos" and k: "at_pos (lr_blob_reader lr) = (k, p)" and e: "0 \<le> lr_end_position lr"
  defines "c \<equiv> content k" and "q \<equiv> (if lr_read_before_start lr then next_line (content k) p else p)"
  obtains r' where "at_pos r' = (k, if int q \<le> lr_end_position lr then next_line c q else q)"
    "line_next api lr =
      (if q < length c \<and> int q \<le> lr_end_position lr
       then Some (int q, rstrip_by (\<lambda>x. x = newline) (first_line (drop q c))) else None,
       lr\<lparr>lr_blob_reader := r', lr_has_iterated := True, lr_read_before_start := False\<rparr>)"
proof -
  define r1 where "r1 = (if lr_read_before_start lr then snd (br_readline api (lr_blob_reader lr)) else lr_blob_reader lr)"
  have r1: "at_pos r1 = (k, q)" using k by (simp add: r1_def q_def reads_blobs_simps [OF r])
  obtain line r2 where r2: "br_readline api r1 = (line, r2)" by fastforce
  have line: "line = first_line (drop q c)" "at_pos r2 = (k, next_line c q)"
    using reads_blobs_simps(3,4) [OF r, of r1] r1 r2 by (simp_all add: c_def)
  show ?thesis
  proof (rule that)
    show "at_pos (if int q \<le> lr_end_position lr then r2 else r1) = (k, if int q \<le> lr_end_position lr then next_line c q else q)"
      using r1 line(2) by simp
    show "line_next api lr =
      (if q < length c \<and> int q \<le> lr_end_position lr
       then Some (int q, rstrip_by (\<lambda>x. x = newline) (first_line (drop q c))) else None,
       lr\<lparr>lr_blob_reader := if int q \<le> lr_end_position lr then r2 else r1, lr_has_iterated := True, lr_read_before_start := False\<rparr>)"
      using line(1) r1 r2 by (simp add: line_next_def Let_def r1_def [symmetric] reads_blobs_simps(2) [OF r] not_less)
  qed
qed

lemma lines_between_next:
  "lines_between c q (nat e) = (if q < length c \<and> int q \<le> e
     then (int q, rstrip_by (\<lambda>x. x = newline) (first_line (drop q c))) # lines_between c (next_line c q) (nat e) else [])"
  if "0 \<le> e"
  using that by (subst lines_between.simps) auto

interpretation lines: item_reader "line_next api" "lines_left content at_pos" "line_reader_ok api content at_pos"
  for api content at_pos
proof
  fix lr :: "'a line_reader" assume ok: "line_reader_ok api content at_pos lr"
  then have r: "reads_blobs api content at_pos" "0 \<le> lr_end_position lr" by (simp_all add: line_reader_ok_def)
  obtain k p where k: "at_pos (lr_blob_reader lr) = (k, p)" by fastforce
  let ?c = "content k" and ?q = "if lr_read_before_start lr then next_line (content k) p else p"
  obtain r' where r': "at_pos r' = (k, if int ?q \<le> lr_end_position lr then next_line ?c ?q else ?q)"
    and nxt: "line_next api lr =
      (if ?q < length ?c \<and> int ?q \<le> lr_end_position lr
       then Some (int ?q, rstrip_by (\<lambda>x. x = newline) (first_line (drop ?q ?c))) else None,
       lr\<lparr>lr_blob_reader := r', lr_has_iterated := True, lr_read_before_start := False\<rparr>)"
    by (rule line_next_eq [OF r(1) k r(2)])
  have left: "lines_left content at_pos lr = lines_between ?c ?q (nat (lr_end_position lr))"
    using k by (simp add: lines_left_def)
  let ?lr = "lr\<lparr>lr_blob_reader := r', lr_has_iterated := True, lr_read_before_start := False\<rparr>"
  have ok': "line_reader_ok api content at_pos ?lr" using r by (simp add: line_reader_ok_def)
  have left': "lines_left content at_pos ?lr =
      lines_between ?c (if int ?q \<le> lr_end_position lr then next_line ?c ?q else ?q) (nat (lr_end_position lr))"
    using r' by (simp add: lines_left_def)
  {
    assume none: "lines_left content at_pos lr = []"
    then have stop: "\<not> (?q < length ?c \<and> int ?q \<le> lr_end_position lr)"
      unfolding left by (subst (asm) lines_between_next [OF r(2)]) (simp split: if_splits)
    then have "lines_left content at_pos ?lr = []"
      unfolding left' by (subst lines_between_next [OF r(2)]) (auto simp: next_line_end not_less)
    then show "\<exists>s'. line_next api lr = (None, s') \<and> line_reader_ok api content at_pos s' \<and> lines_left content at_pos s' = []"
      using nxt ok' stop by (intro exI [of _ ?lr]) simp
  }
  {
    fix x xs assume some: "lines_left content at_pos lr = x # xs"
    then have go: "?q < length ?c" "int ?q \<le> lr_end_position lr"
        "x = (int ?q, rstrip_by (\<lambda>x. x = newline) (first_line (drop ?q ?c)))"
        "xs = lines_between ?c (next_line ?c ?q) (nat (lr_end_position lr))"
      unfolding left by (subst (asm) lines_between_next [OF r(2)], simp split: if_splits)+
    then show "\<exists>s'. line_next api lr = (Some x, s') \<and> line_reader_ok api content at_pos s' \<and> lines_left content at_pos s' = xs"
      using nxt ok' left' by (intro exI [of _ ?lr]) simp
  }
qed

section \<open>Every line is read once\<close>

text \<open>What the reader of a range yields.\<close>

definition range_lines :: "string \<Rightarrow> nat \<Rightarrow> nat \<Rightarrow> (int \<times> string) list" where
  "range_lines c start e = lines_between c (if start = 0 then 0 else next_line c start) e"

lemma range_lines_cut:
  assumes "start \<le> m" and "m \<le> e" and "0 < m"
  shows "range_lines c start e = range_lines c start m @ range_lines c m e"
proof (cases "start = 0 \<or> next_line c start \<le> m")
  case True
  then have "(if start = 0 then 0 else next_line c start) \<le> m" by auto
  from lines_between_cut [OF this assms(2)] show ?thesis using assms(3) by (simp add: range_lines_def)
next
  case False
  then have "next_line c m = next_line c start" using next_line_within [OF assms(1)] by simp
  moreover have "lines_between c (next_line c start) m = []" using False by (simp add: lines_between.simps)
  ultimately show ?thesis using False assms(3) by (simp add: range_lines_def)
qed

lemma range_lines_chunks:
  assumes "0 < step" and "m * step \<le> e"
  shows "concat (map (\<lambda>i. range_lines c (i * step) (Suc i * step)) [0..<m]) @ range_lines c (m * step) e = range_lines c 0 e"
  using assms(2)
proof (induction m)
  case (Suc m)
  have "range_lines c (m * step) e = range_lines c (m * step) (Suc m * step) @ range_lines c (Suc m * step) e"
    using Suc.prems assms(1) by (intro range_lines_cut) simp_all
  then show ?case using Suc by simp
qed (simp add: range_lines_def)

lemma lines_left_from_json:
  assumes "reads_blobs api content at_pos"
  shows "lines_left content at_pos (line_from_json api (k, int start, e)) = range_lines (content k) start (nat e)"
  using reads_blobs_simps(1) [OF assms]
  by (simp add: lines_left_def line_from_json_def line_reader_init_def range_lines_def)

lemma map_int_upt_upto: "map int [0..<m] = [0..int m - 1]"
proof (induction m)
  case (Suc m)
  have "[0..int (Suc m) - 1] = [0..int m - 1] @ [int m]" using upto_rec2 [of 0 "int m"] by simp
  with Suc show ?case by simp
qed simp

lemma blob_chunks_nat:
  assumes "0 < n"
  shows "blob_chunks (int n) (k, int len) =
    map (\<lambda>i. (k, int (i * (len div n)), int (Suc i * (len div n)))) [0..<n - 1] @ [(k, int ((n - 1) * (len div n)), int len)]"
proof -
  have "map int [0..<n - 1] = [0..int (n - 1) - 1]" by (rule map_int_upt_upto)
  then have "[0..int n - 2] = map int [0..<n - 1]" using assms by (simp add: of_nat_diff)
  then show ?thesis using assms
    by (simp add: blob_chunks_def Let_def zdiv_int algebra_simps of_nat_diff)
qed

lemma chunk_lines:
  assumes r: "reads_blobs api content at_pos" and n: "0 < n" "n \<le> length (content k)"
  shows "concat (map (\<lambda>j. lines_left content at_pos (line_from_json api j)) (blob_chunks (int n) (k, int (length (content k))))) =
    blob_lines (content k)"
proof -
  let ?c = "content k" and ?step = "length (content k) div n"
  have "0 < ?step" using n by (simp add: div_greater_zero_iff)
  moreover have "(n - 1) * ?step \<le> length ?c"
    using div_times_less_eq_dividend [of "length ?c" n] by (metis diff_le_self le_trans mult.commute mult_le_mono1)
  ultimately have "concat (map (\<lambda>i. range_lines ?c (i * ?step) (Suc i * ?step)) [0..<n - 1]) @
      range_lines ?c ((n - 1) * ?step) (length ?c) = range_lines ?c 0 (length ?c)"
    by (rule range_lines_chunks)
  then show ?thesis
    unfolding blob_chunks_nat [OF n(1)]
    by (simp add: comp_def lines_left_from_json [OF r] blob_lines_def range_lines_def [of _ 0] del: mult_Suc of_nat_mult)
qed

lemma chunk_end: "0 \<le> bytes \<Longrightarrow> 0 < n \<Longrightarrow> j \<in> set (blob_chunks n (k, bytes)) \<Longrightarrow> 0 \<le> snd (snd j)"
  by (auto simp: blob_chunks_def Let_def pos_imp_zdiv_nonneg_iff)

lemma chunk_readers_drain:
  assumes r: "reads_blobs api content at_pos" and n: "0 < n" "n \<le> length (content k)"
  shows "\<exists>yss. map (\<lambda>j. drain (line_next api) (line_from_json api j)) (blob_chunks (int n) (k, int (length (content k)))) = map Some yss \<and>
    concat yss = blob_lines (content k)"
proof -
  have "drain (line_next api) (line_from_json api j) = Some (lines_left content at_pos (line_from_json api j))"
    if "j \<in> set (blob_chunks (int n) (k, int (length (content k))))" for j
    using chunk_end [OF _ _ that] n r
    by (intro lines.drains) (simp add: line_reader_ok_def line_from_json_def line_reader_init_def)
  then show ?thesis
    using chunk_lines [OF assms]
    by (intro exI [of _ "map (\<lambda>j. lines_left content at_pos (line_from_json api j)) (blob_chunks (int n) (k, int (length (content k))))"]) simp
qed

text \<open>The sizes of the blobs, each key once.\<close>

lemma blob_sizes_eq:
  assumes "\<forall>k \<in> set keys. blob_info k = Some (f k)"
  shows "\<exists>kvs. blob_sizes blob_info keys = Inr kvs \<and> map snd kvs = map (f \<circ> fst) kvs \<and> distinct (map fst kvs) \<and> fst ` set kvs = set keys"
  using assms
proof (induction keys rule: rev_induct)
  case (snoc k keys)
  then obtain kvs where kvs: "blob_sizes blob_info keys = Inr kvs" "map snd kvs = map (f \<circ> fst) kvs"
      "distinct (map fst kvs)" "fst ` set kvs = set keys"
    by auto
  have "blob_sizes blob_info (keys @ [k]) = Inr (if k \<in> fst ` set kvs then kvs else kvs @ [(k, f k)])"
    using kvs(1) snoc.prems by (simp add: blob_sizes_def put_size_def)
  then show ?case using kvs by auto
qed (simp add: blob_sizes_def)

lemma drain_blobs:
  assumes r: "reads_blobs api content at_pos" and n: "0 < n"
    and blobs: "\<forall>b \<in> set bs. snd b = int (length (content (fst b))) \<and> n \<le> length (content (fst b))"
  shows "\<exists>yss. map (drain (line_next api)) (map (line_from_json api) (concat (map (blob_chunks (int n)) bs))) = map Some yss \<and>
    concat yss = concat (map (\<lambda>b. blob_lines (content (fst b))) bs)"
  using blobs
proof (induction bs)
  case (Cons b bs)
  then obtain yss where yss: "map (drain (line_next api)) (map (line_from_json api) (concat (map (blob_chunks (int n)) bs))) = map Some yss"
    "concat yss = concat (map (\<lambda>b. blob_lines (content (fst b))) bs)"
    by auto
  obtain xss where xss: "map (\<lambda>j. drain (line_next api) (line_from_json api j)) (blob_chunks (int n) b) = map Some xss"
    "concat xss = blob_lines (content (fst b))"
    using chunk_readers_drain [OF r n, of "fst b"] Cons.prems by (metis list.set_intros(1) prod.collapse)
  show ?case
    by (rule exI [of _ "xss @ yss"]) (use xss yss in \<open>simp add: comp_def\<close>)
qed simp

lemma split_keys_nonempty: "split_on c s \<noteq> []"
  by simp


text \<open>A memory of blobs, whose readers are a key and a position.\<close>

definition memory_blobs :: "(string \<Rightarrow> string) \<Rightarrow> (string \<times> int) blob_api" where
  "memory_blobs content = \<lparr>br_open = (\<lambda>k n p. (k, p)), br_tell = (\<lambda>r. int (nat (snd r))),
     br_readline = (\<lambda>r. let line = first_line (drop (nat (snd r)) (content (fst r))) in
       (line, (fst r, int (nat (snd r) + length line))))\<rparr>"

lemma memory_reads_blobs: "reads_blobs (memory_blobs content) content (\<lambda>r. (fst r, nat (snd r)))"
  by (simp add: reads_blobs_def memory_blobs_def Let_def nat_add_distrib)

definition two_lines :: string where "two_lines = ''ab'' @ [newline] @ ''cd''"


text \<open>
  A blob with fewer bytes than shards is cut into empty ranges that all start at 0, and every one of them
  yields the first line.
\<close>

theorem small_blob_is_repeated:
  assumes r: "reads_blobs api content at_pos" and n: "0 < length (content k)" "length (content k) < n"
  shows "concat (map (\<lambda>j. lines_left content at_pos (line_from_json api j)) (blob_chunks (int n) (k, int (length (content k))))) =
    replicate (n - 1) (0, rstrip_by (\<lambda>x. x = newline) (first_line (content k))) @ blob_lines (content k)"
proof -
  have first: "lines_between (content k) 0 0 = [(0, rstrip_by (\<lambda>x. x = newline) (first_line (content k)))]"
  proof -
    have "lines_between (content k) (next_line (content k) 0) 0 = []"
      using next_line_less [OF n(1)] by (subst lines_between.simps) simp
    then show ?thesis using n(1) by (subst lines_between.simps) simp
  qed
  have "concat (map (\<lambda>i. [x]) [0..<m]) = replicate m x" for x :: "int \<times> string" and m
    by (induction m) (simp_all add: replicate_append_same)
  then show ?thesis
    using n unfolding blob_chunks_nat [OF le_less_trans [OF zero_le n(2)]]
    by (simp add: comp_def lines_left_from_json [OF r, of k 0, simplified] blob_lines_def range_lines_def first)
qed

section \<open>Lines across slices\<close>

text \<open>
  A line reader goes back by one byte when it is put away, so that the line it skips first ends right before
  the next one. This works where the first line of the blob has at least two bytes.
\<close>

definition line_start :: "string \<Rightarrow> nat \<Rightarrow> bool" where
  "line_start c p \<longleftrightarrow> 2 \<le> p \<and> (p \<le> length c \<longrightarrow> next_line c (p - 1) = p)"

definition line_reader_resumable :: "'r blob_api \<Rightarrow> (string \<Rightarrow> string) \<Rightarrow> ('r \<Rightarrow> string \<times> nat) \<Rightarrow> 'r line_reader \<Rightarrow> bool" where
  "line_reader_resumable api content at_pos lr \<longleftrightarrow> line_reader_ok api content at_pos lr \<and>
     (case at_pos (lr_blob_reader lr) of (k, p) \<Rightarrow> lr_blob_key lr = k \<and> 1 < length (first_line (content k)) \<and>
        (if lr_has_iterated lr then \<not> lr_read_before_start lr \<and> line_start (content k) p
         else lr_read_before_start lr = (p \<noteq> 0)))"

lemma line_start_next:
  assumes "1 < length (first_line c)" and "p < length c"
  shows "line_start c (next_line c p)"
proof -
  let ?q = "next_line c p"
  have "p < ?q" using assms(2) by simp
  have "2 \<le> ?q"
  proof (cases "p < next_line c 0")
    case True
    then have "?q = next_line c 0" using next_line_within by blast
    then show ?thesis using assms(1) by (simp add: next_line_def)
  next
    case False
    then show ?thesis using assms(1) \<open>p < ?q\<close> by (simp add: next_line_def)
  qed
  moreover have "next_line c (?q - 1) = ?q" using \<open>p < ?q\<close> by (intro next_line_within) simp_all
  ultimately show ?thesis by (simp add: line_start_def)
qed

lemma line_start_end:
  assumes "1 < length (first_line c)" and "length c \<le> p" and "p \<noteq> 0"
  shows "line_start c p"
proof -
  have len: "2 \<le> length c" using assms(1) first_line_length [of c] by simp
  then have "length c - 1 < next_line c (length c - 1)" by (intro next_line_less) simp
  then have "next_line c (length c - 1) = length c"
    using len next_line_bound [of "length c - 1" c] by linarith
  then show ?thesis using len assms(2) by (auto simp: line_start_def)
qed

interpretation lines_resume: resumable "line_next api" "lines_left content at_pos" "line_reader_resumable api content at_pos"
    "line_to_json api" "line_from_json api"
  for api content at_pos
proof
  have step: "\<exists>lr'. snd (line_next api lr) = lr' \<and> line_reader_resumable api content at_pos lr'"
    if "line_reader_resumable api content at_pos lr" for lr :: "'a line_reader"
  proof -
    obtain k p where k: "at_pos (lr_blob_reader lr) = (k, p)" by fastforce
    from that k have ok: "reads_blobs api content at_pos" "0 \<le> lr_end_position lr" "lr_blob_key lr = k" "1 < length (first_line (content k))"
      and st: "if lr_has_iterated lr then \<not> lr_read_before_start lr \<and> line_start (content k) p else lr_read_before_start lr = (p \<noteq> 0)"
      by (simp_all add: line_reader_resumable_def line_reader_ok_def)
    let ?c = "content k" and ?q = "if lr_read_before_start lr then next_line (content k) p else p"
    obtain r' where r': "at_pos r' = (k, if int ?q \<le> lr_end_position lr then next_line ?c ?q else ?q)"
      "snd (line_next api lr) = lr\<lparr>lr_blob_reader := r', lr_has_iterated := True, lr_read_before_start := False\<rparr>"
      by (rule line_next_eq [OF ok(1) k ok(2)]) simp
    have "?c \<noteq> []" using ok(4) by auto
    then have q: "?q = 0 \<or> line_start ?c ?q"
      using st ok(4) line_start_next [OF ok(4), of p] line_start_end [OF ok(4), of p] next_line_end [of ?c p]
      by (cases "p < length ?c") (auto split: if_splits)
    have "line_start ?c (if int ?q \<le> lr_end_position lr then next_line ?c ?q else ?q)"
    proof (cases "int ?q \<le> lr_end_position lr")
      case True
      show ?thesis
      proof (cases "?q < length ?c")
        case True
        then show ?thesis using line_start_next [OF ok(4)] \<open>int ?q \<le> _\<close> by simp
      next
        case False
        then show ?thesis using q \<open>?c \<noteq> []\<close> next_line_end [of ?c ?q] by auto
      qed
    next
      case False
      then have "?q \<noteq> 0" using ok(2) by (metis of_nat_0)
      then show ?thesis using False q by simp
    qed
    then show ?thesis using r' ok by (simp add: line_reader_resumable_def line_reader_ok_def)
  qed
  fix lr :: "'a line_reader" assume ok: "line_reader_resumable api content at_pos lr"
  then have weak: "line_reader_ok api content at_pos lr" by (simp add: line_reader_resumable_def)
  {
    assume "lines_left content at_pos lr = []"
    from lines.stops [OF weak this] step [OF ok]
    show "\<exists>s'. line_next api lr = (None, s') \<and> line_reader_resumable api content at_pos s' \<and> lines_left content at_pos s' = []"
      by auto
  }
  {
    fix x xs assume "lines_left content at_pos lr = x # xs"
    from lines.yields [OF weak this] step [OF ok]
    show "\<exists>s'. line_next api lr = (Some x, s') \<and> line_reader_resumable api content at_pos s' \<and> lines_left content at_pos s' = xs"
      by auto
  }
  obtain k p where k: "at_pos (lr_blob_reader lr) = (k, p)" by fastforce
  from ok k have r: "reads_blobs api content at_pos" "0 \<le> lr_end_position lr" "lr_blob_key lr = k" "1 < length (first_line (content k))"
    and st: "if lr_has_iterated lr then \<not> lr_read_before_start lr \<and> line_start (content k) p else lr_read_before_start lr = (p \<noteq> 0)"
    by (simp_all add: line_reader_resumable_def line_reader_ok_def)
  define p' where "p' = (if lr_has_iterated lr then p - 1 else p)"
  have json: "line_to_json api lr = (k, int p', lr_end_position lr)"
    using st k r(3) reads_blobs_simps(2) [OF r(1), of "lr_blob_reader lr"]
    by (auto simp: line_to_json_def p'_def line_start_def of_nat_diff)
  have left: "range_lines (content k) p' (nat (lr_end_position lr)) = lines_left content at_pos lr"
  proof (cases "lr_has_iterated lr")
    case True
    have "lines_between (content k) (next_line (content k) (p - 1)) e = lines_between (content k) p e" for e
    proof (cases "p \<le> length (content k)")
      case False
      then show ?thesis by (simp add: lines_between.simps next_line_end)
    qed (use True st in \<open>simp add: line_start_def\<close>)
    moreover have "p' = p - 1" "p - 1 \<noteq> 0" "\<not> lr_read_before_start lr"
      using True st by (auto simp: p'_def line_start_def)
    ultimately show ?thesis using k by (simp add: range_lines_def lines_left_def)
  next
    case False
    then show ?thesis using st k by (simp add: range_lines_def p'_def lines_left_def)
  qed
  have "line_reader_resumable api content at_pos (line_from_json api (k, int p', lr_end_position lr))"
    using r reads_blobs_simps(1) [OF r(1)]
    by (simp add: line_reader_resumable_def line_reader_ok_def line_from_json_def line_reader_init_def)
  then show "line_reader_resumable api content at_pos (line_from_json api (line_to_json api lr)) \<and>
      lines_left content at_pos (line_from_json api (line_to_json api lr)) = lines_left content at_pos lr"
    using left lines_left_from_json [OF r(1), of k p' "lr_end_position lr"] unfolding json by simp
qed

text \<open>
  However the reading of a range is cut into slices, its lines are handed out once and in order.
\<close>

theorem lines_survive_slices:
  assumes "reads_blobs api content at_pos" and "1 < length (first_line (content k))"
  shows "sliced (line_next api) (line_from_json api \<circ> line_to_json api) ks (line_from_json api (k, int start, int e)) =
    Some (range_lines (content k) start e)"
proof -
  have "line_reader_resumable api content at_pos (line_from_json api (k, int start, int e))"
    using assms reads_blobs_simps(1) [OF assms(1)]
    by (simp add: line_reader_resumable_def line_reader_ok_def line_from_json_def line_reader_init_def)
  from lines_resume.slices_lose_nothing [OF this, of ks] show ?thesis
    by (simp add: lines_left_from_json [OF assms(1)])
qed

lemma lines_survive_slices_witness:
  "sliced (line_next (memory_blobs (\<lambda>_. two_lines))) (line_from_json (memory_blobs (\<lambda>_. two_lines)) \<circ> line_to_json (memory_blobs (\<lambda>_. two_lines)))
     [1] (line_from_json (memory_blobs (\<lambda>_. two_lines)) (''k'', 0, 5)) = Some [(0, ''ab''), (3, ''cd'')]"
proof -
  have "range_lines two_lines 0 5 = [(0, ''ab''), (3, ''cd'')]"
    by (simp add: range_lines_def two_lines_def lines_between.simps next_line_def newline_char rstrip_by_def)
  then show ?thesis
    using lines_survive_slices [OF memory_reads_blobs [of "\<lambda>_. two_lines"], where k = "''k''" and ks = "[1]" and start = 0 and e = 5]
    by (simp add: two_lines_def newline_char)
qed

text \<open>
  Where the blob begins with an empty line, a reader that is put away after it goes back to 0 and reads that
  line again, as often as it is put away.
\<close>

theorem empty_first_line_is_repeated:
  fixes e :: nat
  assumes r: "reads_blobs api content at_pos" and c: "content k = newline # rest"
  defines "start \<equiv> line_from_json api (k, 0, int e)"
  shows "\<exists>lr. line_next api start = (Some (0, []), lr) \<and> line_from_json api (line_to_json api lr) = start"
proof -
  have at0: "at_pos (lr_blob_reader start) = (k, 0)" "0 \<le> lr_end_position start" "lr_end_position start = int e" "lr_blob_key start = k"
      "\<not> lr_read_before_start start"
    using reads_blobs_simps(1) [OF r, of k BLOB_BUFFER_SIZE 0] by (simp_all add: start_def line_from_json_def line_reader_init_def)
  obtain r' where r': "at_pos r' = (k, if int (if lr_read_before_start start then next_line (content k) 0 else 0) \<le> lr_end_position start
      then next_line (content k) (if lr_read_before_start start then next_line (content k) 0 else 0)
      else if lr_read_before_start start then next_line (content k) 0 else 0)"
    and nxt: "line_next api start =
      (if (if lr_read_before_start start then next_line (content k) 0 else 0) < length (content k) \<and>
          int (if lr_read_before_start start then next_line (content k) 0 else 0) \<le> lr_end_position start
       then Some (int (if lr_read_before_start start then next_line (content k) 0 else 0), rstrip_by (\<lambda>x. x = newline)
         (first_line (drop (if lr_read_before_start start then next_line (content k) 0 else 0) (content k)))) else None,
       start\<lparr>lr_blob_reader := r', lr_has_iterated := True, lr_read_before_start := False\<rparr>)"
    by (rule line_next_eq [OF r at0(1,2)])
  have pos: "at_pos r' = (k, 1)" using r' at0 c by (simp add: next_line_def)
  let ?lr = "start\<lparr>lr_blob_reader := r', lr_has_iterated := True, lr_read_before_start := False\<rparr>"
  have "line_next api start = (Some (0, []), ?lr)" using nxt at0 c by (simp add: rstrip_by_def)
  moreover have "line_to_json api ?lr = (k, 0, int e)"
    using pos at0 by (simp add: line_to_json_def reads_blobs_simps(2) [OF r])
  ultimately show ?thesis by (auto simp: start_def)
qed

end
