(* ===== verification/ZipReaders.thy ===== *)
theory ZipReaders
  imports BlobReaders
begin

text \<open>
  \<open>BlobstoreZipInputReader\<close> and \<open>BlobstoreZipLineInputReader\<close> of \<open>mapreduce/input_readers.py\<close>: the files of a
  zip archive in a blob, and the lines of these files. An archive is the list of its entries, names with
  contents; what a blob unpacks to is an argument.
\<close>

type_synonym zip_archive = "(string \<times> string) list"

text \<open>\<open>ZipFile.read(name)\<close>: of several entries with the name the last one counts.\<close>

definition zip_read :: "zip_archive \<Rightarrow> string \<Rightarrow> string" where
  "zip_read z name = (case map_of (rev z) name of Some body \<Rightarrow> body | None \<Rightarrow> [])"

definition file_size :: "string \<times> string \<Rightarrow> int" where
  "file_size entry = int (length (snd entry))"

text \<open>\<open>infolist()[first:last]\<close>\<close>

definition zip_slice :: "zip_archive \<Rightarrow> nat \<Rightarrow> nat \<Rightarrow> zip_archive" where
  "zip_slice z first_index last_index = drop first_index (take last_index z)"

lemma zip_slice_step: "i < j \<Longrightarrow> j \<le> length z \<Longrightarrow> zip_slice z i j = z ! i # zip_slice z (Suc i) j"
  by (simp add: zip_slice_def Cons_nth_drop_Suc [symmetric])

lemma zip_slice_cut:
  assumes "i \<le> m" and "m \<le> j"
  shows "zip_slice z i j = zip_slice z i m @ zip_slice z m j"
proof -
  have "take m (take j z) = take m z" using assms(2) by (simp add: min_absorb1)
  then have cut: "take j z = take m z @ drop m (take j z)" using append_take_drop_id [of m "take j z"] by simp
  have "drop (i - length (take m z)) (drop m (take j z)) = drop m (take j z)"
    using assms(1) by (cases "m \<le> length z") simp_all
  then show ?thesis unfolding zip_slice_def by (subst cut) (simp only: drop_append)
qed

lemma zip_slice_whole [simp]: "zip_slice z 0 (length z) = z"
  by (simp add: zip_slice_def)

section \<open>Files of an archive\<close>

record zip_reader =
  zr_blob_key :: string
  zr_start_index :: nat
  zr_end_index :: nat
  zr_entries :: "zip_archive option"

definition zip_reader_init :: "string \<Rightarrow> nat \<Rightarrow> nat \<Rightarrow> zip_reader" where
  "zip_reader_init blob_key start_index end_index =
     \<lparr>zr_blob_key = blob_key, zr_start_index = start_index, zr_end_index = end_index, zr_entries = None\<rparr>"

text \<open>\<open>next\<close>; the entries are kept in reverse, to be popped from the end. The opener is what it returns when called.\<close>

definition zip_next :: "(string \<Rightarrow> zip_archive) \<Rightarrow> zip_reader \<Rightarrow> ((string \<times> string) \<times> string) option \<times> zip_reader" where
  "zip_next unpack zr =
     (let z = unpack (zr_blob_key zr);
          entries = (case zr_entries zr of None \<Rightarrow> rev (zip_slice z (zr_start_index zr) (zr_end_index zr)) | Some es \<Rightarrow> es)
      in if entries = [] then (None, zr\<lparr>zr_entries := Some entries\<rparr>)
         else (Some (last entries, zip_read z (fst (last entries))),
               zr\<lparr>zr_entries := Some (butlast entries), zr_start_index := zr_start_index zr + 1\<rparr>))"

definition zip_to_json :: "zip_reader \<Rightarrow> string \<times> nat \<times> nat" where
  "zip_to_json zr = (zr_blob_key zr, zr_start_index zr, zr_end_index zr)"

definition zip_from_json :: "string \<times> nat \<times> nat \<Rightarrow> zip_reader" where
  "zip_from_json json = zip_reader_init (fst json) (fst (snd json)) (snd (snd json))"

text \<open>\<open>split_input\<close>: a shard ends with the file that makes it as large as an equal part.\<close>

fun shard_ends :: "int \<Rightarrow> int \<Rightarrow> nat \<Rightarrow> int list \<Rightarrow> nat list" where
  "shard_ends size_per_shard current i [] = []"
| "shard_ends size_per_shard current i (n # ns) =
     (if current + n \<ge> size_per_shard then (i + 1) # shard_ends size_per_shard 0 (i + 1) ns
      else shard_ends size_per_shard (current + n) (i + 1) ns)"

definition zip_split_input :: "(string \<Rightarrow> zip_archive) \<Rightarrow> int \<Rightarrow> string \<Rightarrow> zip_reader list res" where
  "zip_split_input unpack shard_count blob_key =
     (let files = unpack blob_key;
          num_shards = min shard_count BLOB_MAX_SHARD_COUNT
      in if num_shards = 0 then Inl ZeroDivisionError
         else let size_per_shard = sum_list (map file_size files) div num_shards;
                  starts = 0 # shard_ends size_per_shard 0 0 (map file_size files);
                  starts = (if last starts \<noteq> length files then starts @ [length files] else starts)
              in Inr (map (\<lambda>(i, j). zip_reader_init blob_key i j) (zip starts (drop 1 starts))))"

text \<open>What a reader still has to yield.\<close>

definition zip_items :: "zip_archive \<Rightarrow> zip_archive \<Rightarrow> ((string \<times> string) \<times> string) list" where
  "zip_items z es = map (\<lambda>e. (e, zip_read z (fst e))) es"

definition zip_left :: "(string \<Rightarrow> zip_archive) \<Rightarrow> zip_reader \<Rightarrow> ((string \<times> string) \<times> string) list" where
  "zip_left unpack zr = zip_items (unpack (zr_blob_key zr))
     (zip_slice (unpack (zr_blob_key zr)) (zr_start_index zr) (zr_end_index zr))"

definition zip_reader_ok :: "(string \<Rightarrow> zip_archive) \<Rightarrow> zip_reader \<Rightarrow> bool" where
  "zip_reader_ok unpack zr \<longleftrightarrow> zr_end_index zr \<le> length (unpack (zr_blob_key zr)) \<and>
     (\<forall>es. zr_entries zr = Some es \<longrightarrow>
        rev es = zip_slice (unpack (zr_blob_key zr)) (zr_start_index zr) (zr_end_index zr))"

lemma zip_next_eq:
  assumes "zip_reader_ok unpack zr"
  defines "z \<equiv> unpack (zr_blob_key zr)" and "i \<equiv> zr_start_index zr"
  shows "zip_next unpack zr =
    (if i < zr_end_index zr
     then (Some (z ! i, zip_read z (fst (z ! i))),
           zr\<lparr>zr_entries := Some (rev (zip_slice z (Suc i) (zr_end_index zr))), zr_start_index := Suc i\<rparr>)
     else (None, zr\<lparr>zr_entries := Some []\<rparr>))"
proof -
  have entries: "(case zr_entries zr of None \<Rightarrow> rev (zip_slice z i (zr_end_index zr)) | Some es \<Rightarrow> es) = rev (zip_slice z i (zr_end_index zr))"
    using assms by (auto simp: zip_reader_ok_def split: option.split) (metis rev_rev_ident)
  have nxt: "zip_next unpack zr = (let entries = rev (zip_slice z i (zr_end_index zr)) in
      if entries = [] then (None, zr\<lparr>zr_entries := Some entries\<rparr>)
      else (Some (last entries, zip_read z (fst (last entries))),
        zr\<lparr>zr_entries := Some (butlast entries), zr_start_index := i + 1\<rparr>))"
    unfolding zip_next_def Let_def entries [unfolded z_def i_def] z_def i_def ..
  show ?thesis
  proof (cases "i < zr_end_index zr")
    case True
    then have "zip_slice z i (zr_end_index zr) = z ! i # zip_slice z (Suc i) (zr_end_index zr)"
      using assms by (intro zip_slice_step) (simp_all add: zip_reader_ok_def)
    then show ?thesis using True unfolding nxt by (simp add: Let_def)
  next
    case False
    then have "zip_slice z i (zr_end_index zr) = []" by (simp add: zip_slice_def)
    then show ?thesis using False unfolding nxt by (simp add: Let_def)
  qed
qed

interpretation zip_files: resumable "zip_next unpack" "zip_left unpack" "zip_reader_ok unpack" zip_to_json zip_from_json for unpack
proof
  fix zr assume ok: "zip_reader_ok unpack zr"
  let ?z = "unpack (zr_blob_key zr)" and ?i = "zr_start_index zr"
  have left: "zip_left unpack zr = (if ?i < zr_end_index zr
      then (?z ! ?i, zip_read ?z (fst (?z ! ?i))) # zip_items ?z (zip_slice ?z (Suc ?i) (zr_end_index zr)) else [])"
  proof (cases "?i < zr_end_index zr")
    case True
    then have "zip_slice ?z ?i (zr_end_index zr) = ?z ! ?i # zip_slice ?z (Suc ?i) (zr_end_index zr)"
      using ok by (intro zip_slice_step) (simp_all add: zip_reader_ok_def)
    then show ?thesis using True by (simp add: zip_left_def zip_items_def)
  qed (simp add: zip_left_def zip_items_def zip_slice_def)
  {
    assume "zip_left unpack zr = []"
    then have i: "\<not> ?i < zr_end_index zr" using left by (simp split: if_splits)
    then have "zip_slice ?z ?i (zr_end_index zr) = []" by (simp add: zip_slice_def)
    then show "\<exists>s'. zip_next unpack zr = (None, s') \<and> zip_reader_ok unpack s' \<and> zip_left unpack s' = []"
      using i ok by (simp add: zip_next_eq [OF ok]) (simp add: zip_reader_ok_def zip_left_def zip_items_def)
  }
  {
    fix x xs assume "zip_left unpack zr = x # xs"
    then have "?i < zr_end_index zr" "x = (?z ! ?i, zip_read ?z (fst (?z ! ?i)))" "xs = zip_items ?z (zip_slice ?z (Suc ?i) (zr_end_index zr))"
      using left by (auto split: if_splits)
    then show "\<exists>s'. zip_next unpack zr = (Some x, s') \<and> zip_reader_ok unpack s' \<and> zip_left unpack s' = xs"
      using ok by (simp add: zip_next_eq [OF ok]) (simp add: zip_reader_ok_def zip_left_def)
  }
  show "zip_reader_ok unpack (zip_from_json (zip_to_json zr)) \<and> zip_left unpack (zip_from_json (zip_to_json zr)) = zip_left unpack zr"
    using ok by (simp add: zip_reader_ok_def zip_left_def zip_from_json_def zip_to_json_def zip_reader_init_def)
qed

section \<open>Every file is read once\<close>

lemma shard_ends_bounds: "x \<in> set (shard_ends per cur i ns) \<Longrightarrow> i < x \<and> x \<le> i + length ns"
  by (induction per cur i ns rule: shard_ends.induct) (force split: if_splits)+

lemma shard_ends_sorted: "sorted_wrt (<) (shard_ends per cur i ns)"
  by (induction per cur i ns rule: shard_ends.induct) (auto dest: shard_ends_bounds)

text \<open>Consecutive ranges put the archive together.\<close>

lemma ranges_slice:
  "sorted (i # js) \<Longrightarrow> concat (map (\<lambda>(a, b). zip_slice z a b) (zip (i # js) js)) = zip_slice z i (last (i # js))"
proof (induction js arbitrary: i)
  case Nil
  show ?case by (simp add: zip_slice_def)
next
  case (Cons j js)
  have "j \<le> last (j # js)" using Cons.prems by (cases js rule: rev_cases) auto
  then have "zip_slice z i (last (j # js)) = zip_slice z i j @ zip_slice z j (last (j # js))"
    using Cons.prems by (intro zip_slice_cut) auto
  moreover have "concat (map (\<lambda>(a, b). zip_slice z a b) (zip (j # js) js)) = zip_slice z j (last (j # js))"
    using Cons by simp
  ultimately show ?case by simp
qed

lemma zip_range_reader:
  "j \<le> length (unpack k) \<Longrightarrow> zip_reader_ok unpack (zip_reader_init k i j)"
  "zip_left unpack (zip_reader_init k i j) = zip_items (unpack k) (zip_slice (unpack k) i j)"
  by (simp_all add: zip_reader_ok_def zip_reader_init_def zip_left_def)

lemma zip_ranges_ok:
  assumes "sorted (i # js)" and "last (i # js) \<le> length (unpack k)"
  shows "list_all (zip_reader_ok unpack) (map (\<lambda>(i, j). zip_reader_init k i j) (zip (i # js) js))"
proof -
  have "b \<le> length (unpack k)" if "(a, b) \<in> set (zip (i # js) js)" for a b
  proof -
    have b: "b \<in> set (i # js)" using set_zip_rightD [OF that] by simp
    obtain ks x where ks: "i # js = ks @ [x]" by (cases "i # js" rule: rev_cases) simp
    then have "x \<le> length (unpack k)" using assms(2) by simp
    moreover have "b \<le> x" using assms(1) b unfolding ks by (auto simp: sorted_append)
    ultimately show ?thesis by simp
  qed
  then show ?thesis by (auto simp: list_all_iff intro: zip_range_reader)
qed

text \<open>The readers that \<open>split_input\<close> makes for an archive have together what the archive has.\<close>

lemma zip_split_covers:
  assumes "shard_count \<noteq> 0"
  shows "\<exists>readers. zip_split_input unpack shard_count k = Inr readers \<and> list_all (zip_reader_ok unpack) readers \<and>
    concat (map (zip_left unpack) readers) = zip_items (unpack k) (unpack k)"
proof -
  let ?z = "unpack k" and ?per = "sum_list (map file_size (unpack k)) div min shard_count BLOB_MAX_SHARD_COUNT"
  define ends where "ends = shard_ends ?per 0 0 (map file_size ?z)"
  define js where "js = (if last (0 # ends) \<noteq> length ?z then ends @ [length ?z] else ends)"
  let ?readers = "\<lambda>xs. map (\<lambda>(i, j). zip_reader_init k i j) xs"
  have bounds: "0 < x \<and> x \<le> length ?z" if "x \<in> set ends" for x
    using shard_ends_bounds that unfolding ends_def by fastforce
  have "sorted ends" using shard_ends_sorted strict_sorted_imp_sorted unfolding ends_def by blast
  then have sorted: "sorted (0 # js)" using bounds by (auto simp: js_def sorted_append)
  have last: "last (0 # js) = length ?z" by (simp add: js_def)
  have "min shard_count BLOB_MAX_SHARD_COUNT \<noteq> 0" using assms by (simp add: min_def BLOB_MAX_SHARD_COUNT_def)
  then have readers: "zip_split_input unpack shard_count k = Inr (?readers (zip (0 # js) js))"
    by (simp add: zip_split_input_def Let_def js_def ends_def)
  have "list_all (zip_reader_ok unpack) (?readers (zip (0 # js) js))"
    by (rule zip_ranges_ok [OF sorted]) (simp only: last order.refl)
  moreover have "concat (map (zip_left unpack) (?readers xs)) = zip_items ?z (concat (map (\<lambda>(i, j). zip_slice ?z i j) xs))" for xs
    by (induction xs) (auto simp: zip_range_reader zip_items_def)
  then have "concat (map (zip_left unpack) (?readers (zip (0 # js) js))) = zip_items ?z ?z"
    using ranges_slice [OF sorted, of ?z] last by simp
  ultimately show ?thesis using readers by blast
qed

text \<open>
  The readers that \<open>split_input\<close> makes for an archive hand out, together, every file of it
  exactly once and in order, for every number of shards but 0.
\<close>

theorem every_file_read_once:
  assumes "shard_count \<noteq> 0"
  shows "\<exists>readers yss. zip_split_input unpack shard_count k = Inr readers \<and>
    map (drain (zip_next unpack)) readers = map Some yss \<and> concat yss = zip_items (unpack k) (unpack k)"
proof -
  obtain readers where readers: "zip_split_input unpack shard_count k = Inr readers" "list_all (zip_reader_ok unpack) readers"
    "concat (map (zip_left unpack) readers) = zip_items (unpack k) (unpack k)" using zip_split_covers [OF assms] by blast
  then have "map (drain (zip_next unpack)) readers = map Some (map (zip_left unpack) readers)"
    by (auto simp: list_all_iff zip_files.drains)
  with readers show ?thesis by blast
qed

lemma every_file_read_once_witness:
  "\<exists>readers yss. zip_split_input (\<lambda>_. [(''a'', ''xx''), (''b'', ''y'')]) 2 ''k'' = Inr readers \<and>
     map (drain (zip_next (\<lambda>_. [(''a'', ''xx''), (''b'', ''y'')]))) readers = map Some yss \<and>
     concat yss = [((''a'', ''xx''), ''xx''), ((''b'', ''y''), ''y'')]"
  using every_file_read_once [of 2 "\<lambda>_. [(''a'', ''xx''), (''b'', ''y'')]" "''k''"]
  by (simp add: zip_items_def zip_read_def)

section \<open>Lines of the files of an archive\<close>

record zip_line_reader =
  zl_blob_key :: string
  zl_start_file_index :: nat
  zl_end_file_index :: nat
  zl_initial_offset :: nat
  zl_entries :: "zip_archive option"
  zl_filestream :: "(string \<times> nat) option"

definition zip_line_init :: "string \<Rightarrow> nat \<Rightarrow> nat \<Rightarrow> nat \<Rightarrow> zip_line_reader" where
  "zip_line_init blob_key start_file_index end_file_index offset =
     \<lparr>zl_blob_key = blob_key, zl_start_file_index = start_file_index, zl_end_file_index = end_file_index,
      zl_initial_offset = offset, zl_entries = None, zl_filestream = None\<rparr>"

type_synonym line_item = "(string \<times> nat \<times> nat) \<times> string"

text \<open>\<open>next\<close> with a file open; \<open>None\<close> when the file is at its end and has been closed.\<close>

definition zip_line_read :: "zip_line_reader \<Rightarrow> string \<Rightarrow> nat \<Rightarrow> line_item option \<times> zip_line_reader" where
  "zip_line_read zl body pos =
     (let line = first_line (drop pos body) in
      if line = [] then (None, zl\<lparr>zl_filestream := None, zl_start_file_index := zl_start_file_index zl + 1, zl_initial_offset := 0\<rparr>)
      else (Some ((zl_blob_key zl, zl_start_file_index zl, pos), rstrip_by (\<lambda>c. c = newline) line),
            zl\<lparr>zl_filestream := Some (body, pos + length line)\<rparr>))"

text \<open>Opening the next entry, at the offset: the line that runs there is skipped.\<close>

definition zip_line_open :: "zip_archive \<Rightarrow> zip_line_reader \<Rightarrow> zip_archive \<Rightarrow> string \<times> nat \<times> zip_line_reader" where
  "zip_line_open z zl entries =
     (let body = zip_read z (fst (last entries));
          pos = (if zl_initial_offset zl \<noteq> 0 then next_line body (zl_initial_offset zl) else 0)
      in (body, pos, zl\<lparr>zl_entries := Some (butlast entries), zl_filestream := Some (body, pos)\<rparr>))"

function zip_line_advance :: "zip_archive \<Rightarrow> zip_line_reader \<Rightarrow> zip_archive \<Rightarrow> line_item option \<times> zip_line_reader" where
  "zip_line_advance z zl entries =
     (if entries = [] then (None, zl\<lparr>zl_entries := Some []\<rparr>)
      else (case zip_line_open z zl entries of (body, pos, zl') \<Rightarrow>
        (case zip_line_read zl' body pos of
           (Some item, zl'') \<Rightarrow> (Some item, zl'')
         | (None, zl'') \<Rightarrow> zip_line_advance z zl'' (butlast entries))))"
  by pat_completeness auto
termination
  by (relation "measure (\<lambda>(z, zl, entries). length entries)") auto

declare zip_line_advance.simps [simp del]

definition zip_line_next :: "(string \<Rightarrow> zip_archive) \<Rightarrow> zip_line_reader \<Rightarrow> line_item option \<times> zip_line_reader" where
  "zip_line_next unpack zl =
     (let z = unpack (zl_blob_key zl);
          entries = (\<lambda>zl. case zl_entries zl of
            None \<Rightarrow> rev (zip_slice z (zl_start_file_index zl) (zl_end_file_index zl)) | Some es \<Rightarrow> es)
      in case zl_filestream zl of
           None \<Rightarrow> zip_line_advance z zl (entries zl)
         | Some (body, pos) \<Rightarrow> (case zip_line_read zl body pos of
             (Some item, zl') \<Rightarrow> (Some item, zl')
           | (None, zl') \<Rightarrow> zip_line_advance z zl' (entries zl')))"

definition next_offset :: "zip_line_reader \<Rightarrow> nat" where
  "next_offset zl = (case zl_filestream zl of
     Some (body, offset) \<Rightarrow> if offset \<noteq> 0 then offset - 1 else offset
   | None \<Rightarrow> zl_initial_offset zl)"

definition zip_line_to_json :: "zip_line_reader \<Rightarrow> string \<times> nat \<times> nat \<times> nat" where
  "zip_line_to_json zl = (zl_blob_key zl, zl_start_file_index zl, zl_end_file_index zl, next_offset zl)"

definition zip_line_from_json :: "string \<times> nat \<times> nat \<times> nat \<Rightarrow> zip_line_reader" where
  "zip_line_from_json json = (case json of (k, i, j, offset) \<Rightarrow> zip_line_init k i j offset)"

text \<open>\<open>split_input\<close>: ranges of files for one blob, and readers for all blobs.\<close>

fun file_ranges :: "int \<Rightarrow> int \<Rightarrow> nat \<Rightarrow> nat \<Rightarrow> int list \<Rightarrow> (nat \<times> nat) list" where
  "file_ranges size_per_shard current i j [] = (if current \<noteq> 0 then [(i, j)] else [])"
| "file_ranges size_per_shard current i j (n # ns) =
     (if current + n \<ge> size_per_shard then (i, j + 1) # file_ranges size_per_shard 0 (j + 1) (j + 1) ns
      else file_ranges size_per_shard (current + n) i (j + 1) ns)"

definition zip_line_split_input :: "(string \<Rightarrow> zip_archive) \<Rightarrow> int \<Rightarrow> string + string list \<Rightarrow> zip_line_reader list res" where
  "zip_line_split_input unpack shard_count blob_keys =
     (let keys = (case blob_keys of Inl names \<Rightarrow> split_on CHR '','' names | Inr keys \<Rightarrow> keys);
          total_size = sum_list (map (\<lambda>k. sum_list (map file_size (unpack k))) keys);
          shards = min BLOB_MAX_SHARD_COUNT shard_count
      in if shards = 0 then Inl ZeroDivisionError
         else Inr (concat (map (\<lambda>k. map (\<lambda>(i, j). zip_line_init k i j 0)
           (file_ranges (total_size div shards) 0 0 0 (map file_size (unpack k)))) keys)))"

subsection \<open>What is left to read\<close>

definition body_lines :: "string \<Rightarrow> nat \<Rightarrow> string \<Rightarrow> nat \<Rightarrow> line_item list" where
  "body_lines k i body p = map (\<lambda>(q, line). ((k, i, nat q), line)) (lines_between body p (length body))"

fun archive_lines :: "zip_archive \<Rightarrow> string \<Rightarrow> nat \<Rightarrow> zip_archive \<Rightarrow> line_item list" where
  "archive_lines z k i [] = []"
| "archive_lines z k i (e # es) = body_lines k i (zip_read z (fst e)) 0 @ archive_lines z k (Suc i) es"

text \<open>The lines from entry \<open>i\<close> on, its first ones skipped up to the offset.\<close>

definition lines_from :: "zip_archive \<Rightarrow> string \<Rightarrow> nat \<Rightarrow> nat \<Rightarrow> zip_archive \<Rightarrow> line_item list" where
  "lines_from z k i offset es = (case es of [] \<Rightarrow> []
     | e # es' \<Rightarrow> body_lines k i (zip_read z (fst e)) (if offset \<noteq> 0 then next_line (zip_read z (fst e)) offset else 0) @
         archive_lines z k (Suc i) es')"

definition zip_lines_left :: "(string \<Rightarrow> zip_archive) \<Rightarrow> zip_line_reader \<Rightarrow> line_item list" where
  "zip_lines_left unpack zl = (let z = unpack (zl_blob_key zl); k = zl_blob_key zl; i = zl_start_file_index zl in
     case zl_filestream zl of
       Some (body, p) \<Rightarrow> body_lines k i body p @ archive_lines z k (Suc i) (zip_slice z (Suc i) (zl_end_file_index zl))
     | None \<Rightarrow> lines_from z k i (zl_initial_offset zl) (zip_slice z i (zl_end_file_index zl)))"

text \<open>
  The entries kept are those after the current one. \<open>good\<close> is what is asked of the position in an open file.
\<close>

definition zip_lines_ok :: "(string \<Rightarrow> nat \<Rightarrow> bool) \<Rightarrow> (string \<Rightarrow> zip_archive) \<Rightarrow> zip_line_reader \<Rightarrow> bool" where
  "zip_lines_ok good unpack zl \<longleftrightarrow> (let z = unpack (zl_blob_key zl); i = zl_start_file_index zl; j = zl_end_file_index zl in
     j \<le> length z \<and>
     (\<forall>e \<in> set z. \<forall>p. p < length (zip_read z (fst e)) \<or> p \<noteq> 0 \<longrightarrow> good (zip_read z (fst e)) (next_line (zip_read z (fst e)) p)) \<and>
     (case zl_filestream zl of
        None \<Rightarrow> (case zl_entries zl of None \<Rightarrow> True | Some es \<Rightarrow> rev es = zip_slice z i j)
      | Some (body, p) \<Rightarrow> i < j \<and> body = zip_read z (fst (z ! i)) \<and> (p \<noteq> 0 \<longrightarrow> good body p) \<and>
          (\<exists>es. zl_entries zl = Some es \<and> rev es = zip_slice z (Suc i) j)))"

text \<open>The result of \<open>next\<close> is the first of the items, and the others are left.\<close>

definition hands_out :: "('s \<Rightarrow> bool) \<Rightarrow> ('s \<Rightarrow> 'x list) \<Rightarrow> 'x list \<Rightarrow> 'x option \<times> 's \<Rightarrow> bool" where
  "hands_out ok left items r \<longleftrightarrow> ok (snd r) \<and>
     (case items of [] \<Rightarrow> fst r = None \<and> left (snd r) = [] | x # xs \<Rightarrow> fst r = Some x \<and> left (snd r) = xs)"

lemma body_lines_step:
  "body_lines k i body p = (if p < length body
     then ((k, i, p), rstrip_by (\<lambda>c. c = newline) (first_line (drop p body))) # body_lines k i body (next_line body p) else [])"
  by (subst body_lines_def, subst lines_between.simps) (simp add: body_lines_def)

lemma lines_from_0 [simp]: "lines_from z k i 0 es = archive_lines z k i es"
  by (cases es) (simp_all add: lines_from_def)

lemma zip_line_read_within:
  "p < length body \<Longrightarrow> zip_line_read zl body p = (Some ((zl_blob_key zl, zl_start_file_index zl, p), rstrip_by (\<lambda>c. c = newline) (first_line (drop p body))),
     zl\<lparr>zl_filestream := Some (body, next_line body p)\<rparr>)"
  by (simp add: zip_line_read_def Let_def next_line_def)

lemma zip_line_read_end:
  "length body \<le> p \<Longrightarrow> zip_line_read zl body p =
     (None, zl\<lparr>zl_filestream := None, zl_start_file_index := zl_start_file_index zl + 1, zl_initial_offset := 0\<rparr>)"
  by (simp add: zip_line_read_def Let_def)

lemma read_within_hands_out:
  assumes "zip_lines_ok good unpack zl" and "zl_filestream zl = Some (body, p)" and "p < length body"
  shows "hands_out (zip_lines_ok good unpack) (zip_lines_left unpack) (zip_lines_left unpack zl) (zip_line_read zl body p)"
proof -
  let ?z = "unpack (zl_blob_key zl)" and ?i = "zl_start_file_index zl"
  have "?z ! ?i \<in> set ?z" using assms(1,2) by (auto simp: zip_lines_ok_def Let_def)
  then have "good body (next_line body p)" using assms by (auto simp: zip_lines_ok_def Let_def)
  then have "zip_lines_ok good unpack (zl\<lparr>zl_filestream := Some (body, next_line body p)\<rparr>)"
    using assms(1,2) by (simp add: zip_lines_ok_def Let_def)
  then show ?thesis
    using assms(2,3)
    by (simp add: hands_out_def zip_line_read_within zip_lines_left_def Let_def body_lines_step [of _ _ body p])
qed

lemma advance_hands_out:
  assumes "zip_lines_ok good unpack zl" and "zl_filestream zl = None"
    and "z = unpack (zl_blob_key zl)" and "rev entries = zip_slice z (zl_start_file_index zl) (zl_end_file_index zl)"
  shows "hands_out (zip_lines_ok good unpack) (zip_lines_left unpack) (zip_lines_left unpack zl) (zip_line_advance z zl entries)"
  using assms
proof (induction z zl entries rule: zip_line_advance.induct)
  case (1 z zl entries)
  let ?k = "zl_blob_key zl" and ?i = "zl_start_file_index zl" and ?j = "zl_end_file_index zl"
  show ?case
  proof (cases "entries = []")
    case True
    then have none: "zip_slice z ?i ?j = []" using 1(5) by simp
    then have "zip_lines_ok good unpack (zl\<lparr>zl_entries := Some []\<rparr>)" using 1(2-4) by (simp add: zip_lines_ok_def Let_def)
    then show ?thesis using True none 1(3,4)
      by (subst zip_line_advance.simps) (simp add: hands_out_def zip_lines_left_def Let_def lines_from_def)
  next
    case False
    have nonempty: "zip_slice z ?i ?j \<noteq> []" using False 1(5) by auto
    then have i: "?i < ?j" "?j \<le> length z" using 1(2,4) by (auto simp: zip_slice_def zip_lines_ok_def Let_def)
    then have slice: "zip_slice z ?i ?j = z ! ?i # zip_slice z (Suc ?i) ?j" by (rule zip_slice_step)
    then have "entries = rev (zip_slice z (Suc ?i) ?j) @ [z ! ?i]" using 1(5) by (metis rev.simps(2) rev_rev_ident)
    then have entries: "last entries = z ! ?i" "rev (butlast entries) = zip_slice z (Suc ?i) ?j" by simp_all
    let ?body = "zip_read z (fst (z ! ?i))" and ?pos = "if zl_initial_offset zl \<noteq> 0 then next_line (zip_read z (fst (z ! ?i))) (zl_initial_offset zl) else 0"
    let ?zl = "zl\<lparr>zl_entries := Some (butlast entries), zl_filestream := Some (?body, ?pos)\<rparr>"
    have op: "zip_line_open z zl entries = (?body, ?pos, ?zl)" using entries(1) by (simp add: zip_line_open_def Let_def)
    have "z ! ?i \<in> set z" using i by simp
    then have "?pos \<noteq> 0 \<longrightarrow> good ?body ?pos" using 1(2,4) by (auto simp: zip_lines_ok_def Let_def)
    then have ok: "zip_lines_ok good unpack ?zl" using 1(2,4) i entries(2) by (simp add: zip_lines_ok_def Let_def)
    have left: "zip_lines_left unpack ?zl = zip_lines_left unpack zl"
      using 1(3,4) slice by (simp add: zip_lines_left_def Let_def lines_from_def)
    show ?thesis
    proof (cases "?pos < length ?body")
      case True
      from read_within_hands_out [OF ok _ True] have "hands_out (zip_lines_ok good unpack) (zip_lines_left unpack) (zip_lines_left unpack ?zl)
          (zip_line_read ?zl ?body ?pos)" by simp
      moreover have "zip_line_advance z zl entries = zip_line_read ?zl ?body ?pos"
        using False op zip_line_read_within [OF True, of ?zl] by (subst zip_line_advance.simps) simp
      ultimately show ?thesis using left by simp
    next
      case end_of: False
      let ?zl' = "?zl\<lparr>zl_filestream := None, zl_start_file_index := Suc ?i, zl_initial_offset := 0\<rparr>"
      have rd: "zip_line_read ?zl ?body ?pos = (None, ?zl')" using zip_line_read_end [of ?body ?pos ?zl] end_of by (simp add: not_less)
      have "zip_line_advance z zl entries = zip_line_advance z ?zl' (butlast entries)"
        using False op rd by (subst zip_line_advance.simps) simp
      moreover have ok': "zip_lines_ok good unpack ?zl'" using ok 1(4) entries(2) by (simp add: zip_lines_ok_def Let_def)
      moreover have "zip_lines_left unpack ?zl' = zip_lines_left unpack zl"
      proof -
        have "body_lines ?k ?i ?body ?pos = []" using end_of by (subst body_lines_step) (simp only: if_False)
        moreover have "zip_lines_left unpack ?zl = body_lines ?k ?i ?body ?pos @ archive_lines z ?k (Suc ?i) (zip_slice z (Suc ?i) ?j)"
          by (simp add: zip_lines_left_def Let_def 1(4))
        moreover have "zip_lines_left unpack ?zl' = archive_lines z ?k (Suc ?i) (zip_slice z (Suc ?i) ?j)"
          by (simp add: zip_lines_left_def Let_def 1(4))
        ultimately show ?thesis using left by (metis append_Nil)
      qed
      moreover have "hands_out (zip_lines_ok good unpack) (zip_lines_left unpack) (zip_lines_left unpack ?zl')
          (zip_line_advance z ?zl' (butlast entries))"
        using op rd ok' 1(4) entries(2) by (intro 1(1) [OF False op [symmetric] refl rd [symmetric] refl]) simp_all
      ultimately show ?thesis by simp
    qed
  qed
qed

lemma zip_line_next_hands_out:
  assumes ok: "zip_lines_ok good unpack zl"
  shows "hands_out (zip_lines_ok good unpack) (zip_lines_left unpack) (zip_lines_left unpack zl) (zip_line_next unpack zl)"
proof -
  let ?z = "unpack (zl_blob_key zl)" and ?k = "zl_blob_key zl" and ?i = "zl_start_file_index zl" and ?j = "zl_end_file_index zl"
  show ?thesis
  proof (cases "zl_filestream zl")
    case None
    define entries where "entries = (case zl_entries zl of None \<Rightarrow> rev (zip_slice ?z ?i ?j) | Some es \<Rightarrow> es)"
    have "rev entries = zip_slice ?z ?i ?j"
      using ok None by (auto simp: entries_def zip_lines_ok_def Let_def split: option.splits)
    from advance_hands_out [OF ok None refl this] show ?thesis
      using None by (simp add: zip_line_next_def Let_def entries_def)
  next
    case (Some bp)
    then obtain body p where open_at: "zl_filestream zl = Some (body, p)" by (cases bp) simp
    show ?thesis
    proof (cases "p < length body")
      case True
      from read_within_hands_out [OF ok open_at True] show ?thesis
        using zip_line_read_within [OF True, of zl] open_at by (simp add: zip_line_next_def Let_def)
    next
      case False
      let ?zl = "zl\<lparr>zl_filestream := None, zl_start_file_index := Suc ?i, zl_initial_offset := 0\<rparr>"
      obtain es where es: "zl_entries zl = Some es" "rev es = zip_slice ?z (Suc ?i) ?j"
        using ok open_at by (auto simp: zip_lines_ok_def Let_def)
      have ok': "zip_lines_ok good unpack ?zl" using ok es open_at by (simp add: zip_lines_ok_def Let_def)
      have rd: "zip_line_read zl body p = (None, ?zl)" using zip_line_read_end [of body p zl] False by simp
      have nxt: "zip_line_next unpack zl = zip_line_advance ?z ?zl es"
        using rd es(1) open_at by (simp add: zip_line_next_def Let_def)
      have "body_lines ?k ?i body p = []" using False by (subst body_lines_step) (simp only: if_False)
      then have left: "zip_lines_left unpack zl = zip_lines_left unpack ?zl"
        using open_at by (simp add: zip_lines_left_def Let_def)
      show ?thesis
        unfolding nxt left by (rule advance_hands_out [OF ok']) (simp_all add: es(2))
    qed
  qed
qed

lemma hands_outD:
  "hands_out ok left [] r \<Longrightarrow> \<exists>s'. r = (None, s') \<and> ok s' \<and> left s' = []"
  "hands_out ok left (x # xs) r \<Longrightarrow> \<exists>s'. r = (Some x, s') \<and> ok s' \<and> left s' = xs"
  by (cases r; simp add: hands_out_def)+

interpretation zip_lines: item_reader "zip_line_next unpack" "zip_lines_left unpack" "zip_lines_ok (\<lambda>_ _. True) unpack" for unpack
  by unfold_locales (metis hands_outD zip_line_next_hands_out)+

text \<open>
  Taking up a file one byte before \<open>p\<close> gives the lines from \<open>p\<close> on. This holds at every line when the
  first line of the file is empty only if the file is.
\<close>

definition resumes_at :: "string \<Rightarrow> nat \<Rightarrow> bool" where
  "resumes_at body p \<longleftrightarrow>
     lines_between body (if p - 1 \<noteq> 0 then next_line body (p - 1) else 0) (length body) = lines_between body p (length body)"

lemma resumes_at_line:
  assumes "length (first_line body) \<noteq> 1" and "q < length body \<or> q \<noteq> 0"
  shows "resumes_at body (next_line body q)"
proof (cases "body = []")
  case True
  then show ?thesis by (simp add: resumes_at_def lines_between.simps)
next
  case False
  then have two: "1 < length (first_line body)" using assms(1) by (cases "first_line body") auto
  have "line_start body (next_line body q)"
  proof (cases "q < length body")
    case True
    then show ?thesis by (rule line_start_next [OF two])
  next
    case False
    then show ?thesis using assms(2) line_start_end [OF two, of q] by (simp add: next_line_end)
  qed
  then show ?thesis
    by (cases "next_line body q \<le> length body")
       (auto simp: resumes_at_def line_start_def lines_between.simps [of body _ "length body"] next_line_end)
qed

definition zip_lines_resumable :: "(string \<Rightarrow> zip_archive) \<Rightarrow> zip_line_reader \<Rightarrow> bool" where
  "zip_lines_resumable unpack zl \<longleftrightarrow> zip_lines_ok resumes_at unpack zl"

interpretation zip_lines_resume: resumable "zip_line_next unpack" "zip_lines_left unpack" "zip_lines_resumable unpack"
    zip_line_to_json zip_line_from_json for unpack
proof
  fix zl assume ok: "zip_lines_resumable unpack zl"
  then have ok': "zip_lines_ok resumes_at unpack zl" by (simp add: zip_lines_resumable_def)
  note out = zip_line_next_hands_out [OF ok']
  show "zip_lines_left unpack zl = [] \<Longrightarrow> \<exists>s'. zip_line_next unpack zl = (None, s') \<and> zip_lines_resumable unpack s' \<and> zip_lines_left unpack s' = []"
    "zip_lines_left unpack zl = x # xs \<Longrightarrow> \<exists>s'. zip_line_next unpack zl = (Some x, s') \<and> zip_lines_resumable unpack s' \<and> zip_lines_left unpack s' = xs" for x xs
    unfolding zip_lines_resumable_def using hands_outD out by metis+
  let ?r = "zip_line_from_json (zip_line_to_json zl)"
  have "zip_lines_ok resumes_at unpack ?r"
    using ok' by (simp add: zip_line_from_json_def zip_line_to_json_def zip_line_init_def zip_lines_ok_def Let_def)
  moreover have "zip_lines_left unpack ?r = zip_lines_left unpack zl"
  proof (cases "zl_filestream zl")
    case None
    then show ?thesis
      by (simp add: zip_line_from_json_def zip_line_to_json_def zip_line_init_def zip_lines_left_def Let_def next_offset_def)
  next
    case (Some bp)
    then obtain body p where open_at: "zl_filestream zl = Some (body, p)" by (cases bp) simp
    let ?z = "unpack (zl_blob_key zl)" and ?i = "zl_start_file_index zl" and ?j = "zl_end_file_index zl"
    have i: "?i < ?j" "?j \<le> length ?z" and body: "body = zip_read ?z (fst (?z ! ?i))" and p: "p \<noteq> 0 \<longrightarrow> resumes_at body p"
      using ok' open_at by (auto simp: zip_lines_ok_def Let_def)
    have same: "body_lines k ?i body (if p - 1 \<noteq> 0 then next_line body (p - 1) else 0) = body_lines k ?i body p" for k
      using p by (cases "p = 0") (simp_all add: body_lines_def resumes_at_def)
    have "body_lines k ?i body 0 = body_lines k ?i body p" if "p \<le> Suc 0" for k
      using same [of k] that by (simp split: if_splits)
    moreover have "body_lines k ?i body (next_line body (p - Suc 0)) = body_lines k ?i body p" if "\<not> p \<le> Suc 0" for k
      using same [of k] that by (simp split: if_splits)
    moreover have "next_offset zl = p - 1" using open_at by (simp add: next_offset_def)
    moreover note zip_slice_step [OF i]
    ultimately show ?thesis
      using open_at body [symmetric]
      by (simp add: zip_line_from_json_def zip_line_to_json_def zip_line_init_def zip_lines_left_def Let_def lines_from_def)
  qed
  ultimately show "zip_lines_resumable unpack ?r \<and> zip_lines_left unpack ?r = zip_lines_left unpack zl"
    by (simp add: zip_lines_resumable_def)
qed

section \<open>Every line of every file is read once\<close>

lemma archive_lines_append: "archive_lines z k i (es @ fs) = archive_lines z k i es @ archive_lines z k (i + length es) fs"
  by (induction es arbitrary: i) simp_all

lemma archive_lines_empty:
  "\<forall>e \<in> set es. zip_read z (fst e) = [] \<Longrightarrow> archive_lines z k i es = []"
  by (induction es arbitrary: i) (simp_all add: body_lines_def lines_between.simps)

lemma length_zip_slice: "i \<le> j \<Longrightarrow> j \<le> length z \<Longrightarrow> length (zip_slice z i j) = j - i"
  by (simp add: zip_slice_def)

text \<open>The ranges put together are the archive, but for files at its end that have no bytes.\<close>

lemma file_ranges_lines:
  assumes "i \<le> j" and "j \<le> length z" and "0 \<le> current" and "current = 0 \<longrightarrow> i = j \<or> (\<forall>e \<in> set (zip_slice z i j). zip_read z (fst e) = [])"
    and "\<forall>e \<in> set z. snd e = [] \<longrightarrow> zip_read z (fst e) = []"
  shows "concat (map (\<lambda>(a, b). archive_lines z k a (zip_slice z a b)) (file_ranges per current i j (map file_size (drop j z)))) =
      archive_lines z k i (drop i z) \<and>
    (\<forall>(a, b) \<in> set (file_ranges per current i j (map file_size (drop j z))). b \<le> length z)"
  using assms
proof (induction "length z - j" arbitrary: i j current)
  case 0
  then have j: "j = length z" by simp
  then have slice: "zip_slice z i j = drop i z" by (simp add: zip_slice_def)
  show ?case
  proof (cases "current = 0")
    case True
    then have "\<forall>e \<in> set (drop i z). zip_read z (fst e) = []" using 0(5) j slice by auto
    then show ?thesis using True j by (simp add: archive_lines_empty)
  qed (use j slice in simp)
next
  case (Suc n)
  then have j: "j < length z" by simp
  then have d: "drop j z = z ! j # drop (Suc j) z" by (simp add: Cons_nth_drop_Suc)
  have mem: "z ! j \<in> set z" using j by simp
  have size: "0 \<le> file_size (z ! j)" "file_size (z ! j) = 0 \<longleftrightarrow> snd (z ! j) = []" by (simp_all add: file_size_def)
  have slice: "zip_slice z i (Suc j) = zip_slice z i j @ [z ! j]"
    using zip_slice_cut [of i j "Suc j" z] zip_slice_step [of j "Suc j" z] Suc.prems(1) j by (simp add: zip_slice_def)
  show ?case
  proof (cases "current + file_size (z ! j) \<ge> per")
    case True
    have "drop i z = zip_slice z i (Suc j) @ drop (Suc j) z"
      using zip_slice_cut [of i "Suc j" "length z" z] Suc.prems(1) j by (simp add: zip_slice_def)
    then have "archive_lines z k i (drop i z) = archive_lines z k i (zip_slice z i (Suc j)) @ archive_lines z k (Suc j) (drop (Suc j) z)"
      using Suc.prems(1) j by (simp add: archive_lines_append length_zip_slice)
    moreover have "concat (map (\<lambda>(a, b). archive_lines z k a (zip_slice z a b)) (file_ranges per 0 (Suc j) (Suc j) (map file_size (drop (Suc j) z)))) =
        archive_lines z k (Suc j) (drop (Suc j) z) \<and>
      (\<forall>(a, b) \<in> set (file_ranges per 0 (Suc j) (Suc j) (map file_size (drop (Suc j) z))). b \<le> length z)"
      using Suc.hyps(2) j Suc.prems(5) by (intro Suc.hyps(1)) simp_all
    ultimately show ?thesis using True j by (simp add: d)
  next
    case False
    have "concat (map (\<lambda>(a, b). archive_lines z k a (zip_slice z a b))
          (file_ranges per (current + file_size (z ! j)) i (Suc j) (map file_size (drop (Suc j) z)))) =
        archive_lines z k i (drop i z) \<and>
      (\<forall>(a, b) \<in> set (file_ranges per (current + file_size (z ! j)) i (Suc j) (map file_size (drop (Suc j) z))). b \<le> length z)"
    proof (rule Suc.hyps(1))
      show "current + file_size (z ! j) = 0 \<longrightarrow> i = Suc j \<or> (\<forall>e \<in> set (zip_slice z i (Suc j)). zip_read z (fst e) = [])"
      proof
        assume "current + file_size (z ! j) = 0"
        then have zero: "current = 0" "snd (z ! j) = []" using size Suc.prems(3) by auto
        then have "zip_read z (fst (z ! j)) = []" using Suc.prems(5) mem by blast
        then show "i = Suc j \<or> (\<forall>e \<in> set (zip_slice z i (Suc j)). zip_read z (fst e) = [])"
          using Suc.prems(4) zero(1) slice by (auto simp: zip_slice_def)
      qed
    qed (use Suc.hyps(2) Suc.prems size j in simp_all)
    then show ?thesis using False by (simp add: d)
  qed
qed

lemma zip_line_range_drains:
  assumes "j \<le> length (unpack k)"
  shows "drain (zip_line_next unpack) (zip_line_init k i j 0) = Some (archive_lines (unpack k) k i (zip_slice (unpack k) i j))"
proof -
  have "zip_lines_ok (\<lambda>_ _. True) unpack (zip_line_init k i j 0)" using assms by (simp add: zip_lines_ok_def zip_line_init_def)
  from zip_lines.drains [OF this] show ?thesis by (simp add: zip_lines_left_def zip_line_init_def Let_def)
qed

text \<open>C34: The readers that \<open>split_input\<close> makes for archives hand out, together, every line of every
  file of every archive exactly once and in order, with its place, if the names within an archive are distinct.
\<close>

theorem every_archive_line_read_once:
  assumes "shard_count \<noteq> 0" and "\<forall>k \<in> set keys. distinct (map fst (unpack k))"
  shows "\<exists>readers yss. zip_line_split_input unpack shard_count (Inr keys) = Inr readers \<and>
    map (drain (zip_line_next unpack)) readers = map Some yss \<and>
    concat yss = concat (map (\<lambda>k. archive_lines (unpack k) k 0 (unpack k)) keys)"
proof -
  define per where "per = sum_list (map (\<lambda>k. sum_list (map file_size (unpack k))) keys) div min BLOB_MAX_SHARD_COUNT shard_count"
  define ranges where "ranges k = file_ranges per 0 0 0 (map file_size (unpack k))" for k
  let ?readers = "\<lambda>ks. concat (map (\<lambda>k. map (\<lambda>(i, j). zip_line_init k i j 0) (ranges k)) ks)"
  have "min BLOB_MAX_SHARD_COUNT shard_count \<noteq> 0" using assms(1) by (simp add: min_def BLOB_MAX_SHARD_COUNT_def)
  then have "zip_line_split_input unpack shard_count (Inr keys) = Inr (?readers keys)"
    by (simp add: zip_line_split_input_def Let_def ranges_def per_def)
  moreover have "\<exists>yss. map (drain (zip_line_next unpack)) (?readers ks) = map Some yss \<and>
      concat yss = concat (map (\<lambda>k. archive_lines (unpack k) k 0 (unpack k)) ks)" if "set ks \<subseteq> set keys" for ks
    using that
  proof (induction ks)
    case (Cons k ks)
    let ?z = "unpack k"
    have "\<forall>e \<in> set ?z. snd e = [] \<longrightarrow> zip_read ?z (fst e) = []"
    proof (intro ballI impI)
      fix e assume e: "e \<in> set ?z" "snd e = []"
      have "distinct (map fst (rev ?z))" using assms(2) Cons.prems by (simp add: rev_map [symmetric])
      then have "map_of (rev ?z) (fst e) = Some (snd e)" using e(1) by (simp add: map_of_eq_Some_iff)
      then show "zip_read ?z (fst e) = []" using e(2) by (simp add: zip_read_def)
    qed
    from file_ranges_lines [of 0 0 ?z 0, OF _ _ _ _ this, of k per]
    have ranges: "concat (map (\<lambda>(a, b). archive_lines ?z k a (zip_slice ?z a b)) (ranges k)) = archive_lines ?z k 0 ?z"
        "\<forall>(a, b) \<in> set (ranges k). b \<le> length ?z" by (simp_all add: ranges_def)
    have first: "map (drain (zip_line_next unpack)) (map (\<lambda>(i, j). zip_line_init k i j 0) (ranges k)) =
        map Some (map (\<lambda>(a, b). archive_lines ?z k a (zip_slice ?z a b)) (ranges k))"
      using ranges(2) by (auto simp: zip_line_range_drains)
    obtain yss where yss: "map (drain (zip_line_next unpack)) (?readers ks) = map Some yss"
      "concat yss = concat (map (\<lambda>k. archive_lines (unpack k) k 0 (unpack k)) ks)" using Cons by auto
    show ?case
      by (rule exI [of _ "map (\<lambda>(a, b). archive_lines ?z k a (zip_slice ?z a b)) (ranges k) @ yss"])
         (use first yss ranges(1) in simp)
  qed simp
  ultimately show ?thesis by blast
qed

lemma every_archive_line_read_once_witness:
  "\<exists>readers yss. zip_line_split_input (\<lambda>_. [(''a'', two_lines), (''b'', ''e'')]) 2 (Inr [''k'']) = Inr readers \<and>
     map (drain (zip_line_next (\<lambda>_. [(''a'', two_lines), (''b'', ''e'')]))) readers = map Some yss \<and>
     concat yss = [((''k'', 0, 0), ''ab''), ((''k'', 0, 3), ''cd''), ((''k'', 1, 0), ''e'')]"
proof -
  have "archive_lines [(''a'', two_lines), (''b'', ''e'')] ''k'' 0 [(''a'', two_lines), (''b'', ''e'')] =
      [((''k'', 0, 0), ''ab''), ((''k'', 0, 3), ''cd''), ((''k'', 1, 0), ''e'')]"
    by (simp add: body_lines_def zip_read_def two_lines_def lines_between.simps next_line_def newline_char rstrip_by_def)
  then show ?thesis
    using every_archive_line_read_once [of 2 "[''k'']" "\<lambda>_. [(''a'', two_lines), (''b'', ''e'')]"] by simp
qed

text \<open>
  However the reading is cut into slices, the lines are handed out once and in order, where no
  file of the archive has a first line of a single byte.
\<close>

theorem archive_lines_survive_slices:
  assumes "\<forall>e \<in> set (unpack k). length (first_line (zip_read (unpack k) (fst e))) \<noteq> 1" and "j \<le> length (unpack k)"
  shows "sliced (zip_line_next unpack) (zip_line_from_json \<circ> zip_line_to_json) ks (zip_line_init k i j 0) =
    Some (archive_lines (unpack k) k i (zip_slice (unpack k) i j))"
proof -
  have "zip_lines_resumable unpack (zip_line_init k i j 0)"
    using assms by (simp add: zip_lines_resumable_def zip_lines_ok_def zip_line_init_def resumes_at_line)
  from zip_lines_resume.slices_lose_nothing [OF this, of ks] show ?thesis
    by (simp add: zip_lines_left_def zip_line_init_def Let_def)
qed

end
