(* ===== verification/Heapq.thy ===== *)
theory Heapq
  imports "HOL-Library.Multiset"
begin

text \<open>
  The two operations of Python's \<open>heapq\<close> module that the merge of sorted files uses, on a list whose elements
  are compared by \<open>lt\<close>. A position of the list is empty while an element is moved; the element is put there
  in the end.
\<close>

section \<open>The operations\<close>

definition parent :: "nat \<Rightarrow> nat" where
  "parent i = (i - 1) div 2"

lemma parent_less [simp]: "0 < i \<Longrightarrow> parent i < i"
  by (simp add: parent_def)

lemma parent_children [simp]: "parent (2 * i + 1) = i" "parent (2 * i + 2) = i" "parent (Suc (2 * i)) = i" "parent (Suc (Suc (2 * i))) = i"
  by (simp_all add: parent_def)

lemma children_of: "0 < i \<Longrightarrow> parent i = p \<longleftrightarrow> i = 2 * p + 1 \<or> i = 2 * p + 2"
  by (auto simp: parent_def)

text \<open>\<open>_siftdown\<close>: \<open>x\<close> goes up from \<open>pos\<close> towards the root while it is less than the parent.\<close>

function siftdown :: "('a \<Rightarrow> 'a \<Rightarrow> bool) \<Rightarrow> 'a list \<Rightarrow> nat \<Rightarrow> nat \<Rightarrow> 'a \<Rightarrow> 'a list" where
  "siftdown lt heap startpos pos x =
     (if pos > startpos \<and> lt x (heap ! parent pos)
      then siftdown lt (heap[pos := heap ! parent pos]) startpos (parent pos) x
      else heap[pos := x])"
  by pat_completeness auto
termination
  by (relation "measure (\<lambda>(lt, heap, startpos, pos, x). pos)") auto

text \<open>The loop of \<open>_siftup\<close>: the smaller children move up until a leaf is empty.\<close>

definition least_child :: "('a \<Rightarrow> 'a \<Rightarrow> bool) \<Rightarrow> 'a list \<Rightarrow> nat \<Rightarrow> nat" where
  "least_child lt heap pos =
     (let childpos = 2 * pos + 1; rightpos = childpos + 1
      in if rightpos < length heap \<and> \<not> lt (heap ! childpos) (heap ! rightpos) then rightpos else childpos)"

lemma least_child_bounds:
  "2 * pos + 1 < length heap \<Longrightarrow> pos < least_child lt heap pos \<and> least_child lt heap pos < length heap \<and> parent (least_child lt heap pos) = pos"
  by (simp add: least_child_def Let_def)

function hole_to_leaf :: "('a \<Rightarrow> 'a \<Rightarrow> bool) \<Rightarrow> 'a list \<Rightarrow> nat \<Rightarrow> 'a list \<times> nat" where
  "hole_to_leaf lt heap pos =
     (if 2 * pos + 1 < length heap
      then hole_to_leaf lt (heap[pos := heap ! least_child lt heap pos]) (least_child lt heap pos)
      else (heap, pos))"
  by pat_completeness auto
termination
  by (relation "measure (\<lambda>(lt, heap, pos). length heap - pos)") (use least_child_bounds in \<open>force intro!: diff_less_mono2\<close>)+

declare siftdown.simps [simp del] hole_to_leaf.simps [simp del]

lemma siftdown_stop: "\<not> (startpos < pos \<and> lt x (heap ! parent pos)) \<Longrightarrow> siftdown lt heap startpos pos x = heap[pos := x]"
  by (subst siftdown.simps) (simp only: if_False)

lemma siftdown_up:
  "startpos < pos \<and> lt x (heap ! parent pos) \<Longrightarrow>
   siftdown lt heap startpos pos x = siftdown lt (heap[pos := heap ! parent pos]) startpos (parent pos) x"
  by (subst siftdown.simps) (simp only: if_True simp_thms)

definition siftup :: "('a \<Rightarrow> 'a \<Rightarrow> bool) \<Rightarrow> 'a list \<Rightarrow> nat \<Rightarrow> 'a list" where
  "siftup lt heap pos =
     (let x = heap ! pos in case hole_to_leaf lt heap pos of (heap', pos') \<Rightarrow> siftdown lt (heap'[pos' := x]) pos pos' x)"

text \<open>\<open>heapreplace\<close> and \<open>heappop\<close> on a heap that is not empty; what they return is not used.\<close>

definition heapreplace :: "('a \<Rightarrow> 'a \<Rightarrow> bool) \<Rightarrow> 'a list \<Rightarrow> 'a \<Rightarrow> 'a list" where
  "heapreplace lt heap item = siftup lt (heap[0 := item]) 0"

definition heappop :: "('a \<Rightarrow> 'a \<Rightarrow> bool) \<Rightarrow> 'a list \<Rightarrow> 'a list" where
  "heappop lt heap =
     (let lastelt = last heap; heap' = butlast heap in
      if heap' \<noteq> [] then siftup lt (heap'[0 := lastelt]) 0 else heap')"

section \<open>The elements\<close>

lemma mset_hole:
  "i < length xs \<Longrightarrow> j < length xs \<Longrightarrow> i \<noteq> j \<Longrightarrow> mset (xs[i := xs ! j, j := x]) = mset (xs[i := x])"
  by (simp add: mset_update)

lemma siftdown_mset:
  "pos < length heap \<Longrightarrow> mset (siftdown lt heap startpos pos x) = mset (heap[pos := x])"
proof (induction lt heap startpos pos x rule: siftdown.induct)
  case (1 lt heap startpos pos x)
  show ?case
  proof (cases "pos > startpos \<and> lt x (heap ! parent pos)")
    case True
    then have p: "parent pos < pos" by simp
    then have "mset (siftdown lt (heap[pos := heap ! parent pos]) startpos (parent pos) x) =
        mset (heap[pos := heap ! parent pos, parent pos := x])"
      using 1(1) [OF True] less_trans [OF p 1(2)] by simp
    then show ?thesis using p 1(2) siftdown_up [of startpos pos lt x heap, OF True] by (simp add: mset_hole)
  qed (simp add: siftdown_stop)
qed

lemma hole_to_leaf_mset:
  "pos < length heap \<Longrightarrow> hole_to_leaf lt heap pos = (heap', pos') \<Longrightarrow>
   length heap' = length heap \<and> pos' < length heap \<and> mset (heap'[pos' := x]) = mset (heap[pos := x])"
proof (induction lt heap pos rule: hole_to_leaf.induct)
  case (1 lt heap pos)
  show ?case
  proof (cases "2 * pos + 1 < length heap")
    case True
    let ?c = "least_child lt heap pos"
    have c: "?c < length heap" "?c \<noteq> pos" using least_child_bounds [OF True, of lt] by simp_all
    have "hole_to_leaf lt (heap[pos := heap ! ?c]) ?c = (heap', pos')"
      using 1(3) True by (subst (asm) hole_to_leaf.simps) simp
    then have "length heap' = length heap \<and> pos' < length heap \<and> mset (heap'[pos' := x]) = mset (heap[pos := heap ! ?c, ?c := x])"
      using 1(1) [OF True] c by simp
    then show ?thesis using c 1(2) by (simp add: mset_hole)
  next
    case False
    then show ?thesis using 1(2,3) by (subst (asm) hole_to_leaf.simps) simp
  qed
qed

lemma siftup_mset:
  assumes "pos < length heap"
  shows "mset (siftup lt heap pos) = mset heap"
proof -
  obtain heap' pos' where h: "hole_to_leaf lt heap pos = (heap', pos')" by fastforce
  from hole_to_leaf_mset [OF assms h, of "heap ! pos"] show ?thesis
    by (simp add: siftup_def h siftdown_mset Let_def)
qed

section \<open>The order\<close>

text \<open>
  Elements are compared by a key. A heap has every parent before its children; with an empty place, this holds
  around it and across it.
\<close>

definition is_heap :: "('a \<Rightarrow> 'k :: linorder) \<Rightarrow> 'a list \<Rightarrow> bool" where
  "is_heap f h \<longleftrightarrow> (\<forall>i. 0 < i \<and> i < length h \<longrightarrow> f (h ! parent i) \<le> f (h ! i))"

definition hole_heap :: "('a \<Rightarrow> 'k :: linorder) \<Rightarrow> 'a list \<Rightarrow> nat \<Rightarrow> bool" where
  "hole_heap f h pos \<longleftrightarrow>
     (\<forall>i. 0 < i \<and> i < length h \<and> i \<noteq> pos \<and> parent i \<noteq> pos \<longrightarrow> f (h ! parent i) \<le> f (h ! i)) \<and>
     (\<forall>i. 0 < i \<and> i < length h \<and> parent i = pos \<and> 0 < pos \<longrightarrow> f (h ! parent pos) \<le> f (h ! i))"

lemma hole_heap_root: "is_heap f h \<Longrightarrow> hole_heap f (h[0 := x]) 0"
  by (auto simp: is_heap_def hole_heap_def nth_list_update)

lemma hole_heap_any: "hole_heap f h pos \<Longrightarrow> hole_heap f (h[pos := x]) pos"
proof -
  assume h: "hole_heap f h pos"
  have "h[pos := x] ! parent pos = h ! parent pos" if "0 < pos" using parent_less [OF that] by simp
  moreover have "h[pos := x] ! i = h ! i" if "0 < i" "parent i = pos" for i using parent_less [OF that(1)] that(2) by simp
  ultimately show ?thesis using h by (simp add: hole_heap_def)
qed

lemma is_heap_root:
  assumes "is_heap f h" and "i < length h"
  shows "f (h ! 0) \<le> f (h ! i)"
  using assms(2)
proof (induction i rule: less_induct)
  case (less i)
  show ?case
  proof (cases "i = 0")
    case False
    then have "f (h ! 0) \<le> f (h ! parent i)" using less by simp
    also have "\<dots> \<le> f (h ! i)" using assms(1) less.prems False by (simp add: is_heap_def)
    finally show ?thesis .
  qed simp
qed

lemma hole_to_leaf_heap:
  "pos < length heap \<Longrightarrow> hole_heap f heap pos \<Longrightarrow> hole_to_leaf (\<lambda>x y. f x < f y) heap pos = (heap', pos') \<Longrightarrow>
   hole_heap f heap' pos' \<and> length heap' \<le> 2 * pos' + 1"
proof (induction "\<lambda>x y. f x < f y" heap pos rule: hole_to_leaf.induct)
  case (1 heap pos)
  show ?case
  proof (cases "2 * pos + 1 < length heap")
    case True
    define c where "c = least_child (\<lambda>x y. f x < f y) heap pos"
    have c: "c < length heap" "c \<noteq> pos" "parent c = pos" "0 < c" using least_child_bounds [OF True] unfolding c_def by (metis less_irrefl, metis less_irrefl, metis, metis gr_zeroI not_less_zero)
    have least: "f (heap ! c) \<le> f (heap ! i)" if "0 < i" "i < length heap" "parent i = pos" for i
      using that children_of [OF that(1), of pos] by (auto simp: c_def least_child_def Let_def)
    let ?h = "heap[pos := heap ! c]"
    have "hole_heap f ?h c"
      unfolding hole_heap_def
    proof (intro conjI allI impI; elim conjE)
      fix i assume i: "0 < i" "i < length ?h" "i \<noteq> c" "parent i \<noteq> c"
      show "f (?h ! parent i) \<le> f (?h ! i)"
      proof (cases "i = pos \<or> parent i = pos")
        case True
        then show ?thesis
          using 1(3) c i least [of i] parent_less [OF i(1)] 1(2)
          by (auto simp: hole_heap_def nth_list_update)
      next
        case False
        then show ?thesis using 1(3) i by (simp add: hole_heap_def)
      qed
    next
      fix i assume i: "0 < i" "i < length ?h" "parent i = c" "0 < c"
      then have "i \<noteq> pos" using c parent_less [OF c(4)] parent_less [OF i(1)] by auto
      moreover have "f (heap ! c) \<le> f (heap ! i)" using 1(3) c i \<open>i \<noteq> pos\<close> by (auto simp: hole_heap_def)
      ultimately show "f (?h ! parent c) \<le> f (?h ! i)" using c 1(2) by simp
    qed
    moreover have "hole_to_leaf (\<lambda>x y. f x < f y) ?h c = (heap', pos')"
      using 1(4) True by (subst (asm) hole_to_leaf.simps) (simp add: c_def)
    ultimately show ?thesis using 1(1) [OF True] c(1) by (simp add: c_def)
  next
    case False
    then show ?thesis using 1(3,4) by (subst (asm) hole_to_leaf.simps) simp
  qed
qed

lemma siftdown_heap:
  "pos < length heap \<Longrightarrow> hole_heap f heap pos \<Longrightarrow> \<forall>i. 0 < i \<and> i < length heap \<and> parent i = pos \<longrightarrow> f x \<le> f (heap ! i) \<Longrightarrow>
   is_heap f (siftdown (\<lambda>x y. f x < f y) heap 0 pos x)"
proof (induction "\<lambda>x y. f x < f y" heap "0 :: nat" pos x rule: siftdown.induct)
  case (1 heap pos x)
  let ?p = "parent pos"
  show ?case
  proof (cases "0 < pos \<and> f x < f (heap ! ?p)")
    case True
    then have pos: "0 < pos" "?p < pos" "f x < f (heap ! ?p)" by simp_all
    let ?h = "heap[pos := heap ! ?p]"
    have p_edge: "f (heap ! parent ?p) \<le> f (heap ! ?p)" if "0 < ?p"
    proof -
      have "parent ?p \<noteq> pos" using parent_less [OF that] pos(2) by simp
      then show ?thesis using 1(3) that pos(2) 1(2) by (simp add: hole_heap_def)
    qed
    have sibling: "f (heap ! ?p) \<le> f (?h ! i)" if "0 < i" "i < length heap" "parent i = ?p" for i
      using that 1(3) pos(2) 1(2) by (cases "i = pos") (auto simp: hole_heap_def)
    have "hole_heap f ?h ?p"
      unfolding hole_heap_def
    proof (intro conjI allI impI; elim conjE)
      fix i assume i: "0 < i" "i < length ?h" "i \<noteq> ?p" "parent i \<noteq> ?p"
      show "f (?h ! parent i) \<le> f (?h ! i)"
      proof (cases "parent i = pos")
        case True
        then have "i \<noteq> pos" using parent_less [OF i(1)] by auto
        then show ?thesis using True 1(2,3) pos(1) i by (simp add: hole_heap_def)
      next
        case False
        then have "i \<noteq> pos" using i(4) by auto
        then show ?thesis using False 1(3) i by (simp add: hole_heap_def)
      qed
    next
      fix i assume i: "0 < i" "i < length ?h" "parent i = ?p" "0 < ?p"
      have "parent ?p \<noteq> pos" using parent_less [OF i(4)] pos(2) by simp
      then show "f (?h ! parent ?p) \<le> f (?h ! i)"
        using order_trans [OF p_edge [OF i(4)] sibling [of i]] i by simp
    qed
    moreover have "\<forall>i. 0 < i \<and> i < length ?h \<and> parent i = ?p \<longrightarrow> f x \<le> f (?h ! i)"
      using sibling pos(3) by (metis length_list_update less_imp_le order_trans)
    ultimately have "is_heap f (siftdown (\<lambda>x y. f x < f y) ?h 0 ?p x)"
      using 1(1) True pos(2) 1(2) by simp
    then show ?thesis using siftdown_up [of 0 pos "\<lambda>x y. f x < f y" x heap, OF True] by simp
  next
    case False
    have "is_heap f (heap[pos := x])"
      unfolding is_heap_def
    proof (intro allI impI; elim conjE)
      fix i assume i: "0 < i" "i < length (heap[pos := x])"
      then have "parent i \<noteq> i" using parent_less [OF i(1)] by simp
      then show "f (heap[pos := x] ! parent i) \<le> f (heap[pos := x] ! i)"
        using 1(2-4) i False parent_less [OF i(1)]
        by (cases "i = pos"; cases "parent i = pos") (auto simp: hole_heap_def)
    qed
    then show ?thesis using siftdown_stop [of 0 pos "\<lambda>x y. f x < f y" x heap, OF False] by simp
  qed
qed

lemma siftup_heap:
  assumes "heap \<noteq> []" and "hole_heap f heap 0"
  shows "is_heap f (siftup (\<lambda>x y. f x < f y) heap 0)"
proof -
  obtain heap' pos' where h: "hole_to_leaf (\<lambda>x y. f x < f y) heap 0 = (heap', pos')" by fastforce
  have len: "length heap' = length heap" "pos' < length heap" using hole_to_leaf_mset [OF _ h] assms(1) by auto
  have leaf: "hole_heap f heap' pos'" "length heap' \<le> 2 * pos' + 1" using hole_to_leaf_heap [OF _ assms(2) h] assms(1) by auto
  have no_child: "\<not> (0 < i \<and> i < length heap' \<and> parent i = pos')" for i
    using leaf(2) children_of [of i pos'] by auto
  have "hole_heap f (heap'[pos' := heap ! 0]) pos'"
    by (rule hole_heap_any [OF leaf(1)])
  then have "is_heap f (siftdown (\<lambda>x y. f x < f y) (heap'[pos' := heap ! 0]) 0 pos' (heap ! 0))"
    using len no_child by (intro siftdown_heap) auto
  then show ?thesis by (simp add: siftup_def h Let_def)
qed

section \<open>A queue of least elements\<close>

text \<open>
  What the merge relies on: an operation that replaces the least element and one that removes it, where the
  least element is the first of the list.
\<close>

locale min_queue =
  fixes f :: "'a \<Rightarrow> 'k :: linorder" and good :: "'a list \<Rightarrow> bool" and replace_min :: "'a list \<Rightarrow> 'a \<Rightarrow> 'a list" and drop_min :: "'a list \<Rightarrow> 'a list"
  assumes first_least: "good q \<Longrightarrow> x \<in># mset q \<Longrightarrow> f (hd q) \<le> f x"
    and replace_mset: "good q \<Longrightarrow> q \<noteq> [] \<Longrightarrow> mset (replace_min q x) = add_mset x (mset q - {#hd q#})"
    and replace_good: "good q \<Longrightarrow> q \<noteq> [] \<Longrightarrow> good (replace_min q x)"
    and drop_mset: "good q \<Longrightarrow> q \<noteq> [] \<Longrightarrow> mset (drop_min q) = mset q - {#hd q#}"
    and drop_good: "good q \<Longrightarrow> q \<noteq> [] \<Longrightarrow> good (drop_min q)"

lemma is_heap_butlast:
  assumes "is_heap f h"
  shows "is_heap f (butlast h)"
  unfolding is_heap_def
proof (intro allI impI; elim conjE)
  fix i assume i: "0 < i" "i < length (butlast h)"
  have "parent i < length (butlast h)" using less_trans [OF parent_less [OF i(1)] i(2)] .
  then show "f (butlast h ! parent i) \<le> f (butlast h ! i)" using i assms by (simp add: nth_butlast is_heap_def)
qed

interpretation heapq: min_queue f "is_heap f" "heapreplace (\<lambda>x y. f x < f y)" "heappop (\<lambda>x y. f x < f y)" for f :: "'a \<Rightarrow> 'k :: linorder"
proof
  fix q :: "'a list" assume q: "is_heap f q"
  {
    fix x assume "x \<in># mset q"
    then obtain i where "i < length q" "x = q ! i" by (auto simp: in_set_conv_nth)
    then show "f (hd q) \<le> f x" using is_heap_root [OF q, of i] by (cases q) auto
  }
  assume ne: "q \<noteq> []"
  {
    fix x
    show "mset (heapreplace (\<lambda>x y. f x < f y) q x) = add_mset x (mset q - {#hd q#})"
      using ne by (simp add: heapreplace_def siftup_mset mset_update hd_conv_nth)
    show "is_heap f (heapreplace (\<lambda>x y. f x < f y) q x)"
      unfolding heapreplace_def using ne q by (intro siftup_heap hole_heap_root) simp_all
  }
  obtain xs y where snoc: "q = xs @ [y]" using ne by (cases q rule: rev_cases) auto
  have "is_heap f xs" using is_heap_butlast [OF q] snoc by simp
  then have "is_heap f (siftup (\<lambda>x y. f x < f y) (xs[0 := y]) 0)" if "xs \<noteq> []"
    using that by (intro siftup_heap hole_heap_root) simp_all
  then show "is_heap f (heappop (\<lambda>x y. f x < f y) q)"
    using snoc by (simp add: heappop_def Let_def is_heap_def)
  show "mset (heappop (\<lambda>x y. f x < f y) q) = mset q - {#hd q#}"
    using snoc by (cases xs) (simp_all add: heappop_def Let_def siftup_mset)
qed

end
