(* ===== verification/Merging.thy ===== *)
theory Merging
  imports RecordsInput Heapq "HOL-Library.List_Lexorder" "HOL-Library.Product_Lexorder" "HOL-Library.Option_ord"
begin

text \<open>
  \<open>_MergingReader\<close> of \<open>mapreduce/shuffler.py\<close>: it merges the sorted key-value files of a shard with a heap and
  gathers neighbouring values of the same key. Strings are compared byte by byte and tuples from the left, as in
  Python; \<open>None\<close> is less than any string. Its counters are not modelled. The protocol buffer of a key and a
  value is not parsed here: \<open>parse\<close> stands for it.
\<close>

section \<open>The reader\<close>

type_synonym key_value = "bytes \<times> bytes"

text \<open>What is yielded: a key, values, and whether more values of the key may follow.\<close>

type_synonym key_group = "bytes \<times> bytes list \<times> bool"

record merging =
  mg_offsets :: "int list"
  mg_max_values_count :: int
  mg_max_values_size :: int

text \<open>
  An entry of the heap is \<open>(key, value, index, reader)\<close>, where key and value are both \<open>None\<close> at first. Entries
  have different indices, so the reader is never compared.
\<close>

type_synonym entry = "key_value option \<times> nat \<times> buffered"

definition entry_order :: "entry \<Rightarrow> key_value option \<times> nat" where
  "entry_order e = (fst e, fst (snd e))"

definition entry_less :: "entry \<Rightarrow> entry \<Rightarrow> bool" where
  "entry_less = (\<lambda>x y. entry_order x < entry_order y)"

text \<open>
  One value joins the group of its key: \<open>current_result\<close>, \<open>current_count\<close> and \<open>current_size\<close> before and after,
  and what is yielded on the way.
\<close>

type_synonym gathering = "key_group option \<times> nat \<times> nat"

definition absorb :: "int \<Rightarrow> int \<Rightarrow> key_value \<Rightarrow> gathering \<Rightarrow> key_group option \<times> gathering" where
  "absorb max_count max_size = (\<lambda>(key, value) (current, count, sz).
     let count = count + 1; sz = sz + length value;
         (should_yield, current) =
           (case current of
              None \<Rightarrow> (False, None)
            | Some (k, vs, partial) \<Rightarrow>
                if key \<noteq> k then (True, Some (k, vs, partial))
                else if max_count \<noteq> - 1 \<and> int count \<ge> max_count then (True, Some (k, vs, True))
                else if max_size \<noteq> - 1 \<and> int sz \<ge> max_size then (True, Some (k, vs, True))
                else (False, Some (k, vs, partial)))
     in case (if should_yield then None else current) of
          None \<Rightarrow> (if should_yield then current else None, (Some (key, [value], False), 0, 0))
        | Some (k, vs, partial) \<Rightarrow> (None, (Some (k, vs @ [value], partial), count, sz)))"

text \<open>
  The loop of \<open>__iter__\<close>, run to its end: what it yields, each with the offsets the reader has at that moment,
  and the exception that stops it, if one does.
\<close>

partial_function (option) merge_loop ::
    "'w file_service \<Rightarrow> (bytes \<Rightarrow> key_value res) \<Rightarrow> int \<Rightarrow> int \<Rightarrow> gathering \<Rightarrow> int list \<Rightarrow> entry list \<Rightarrow> 'w \<Rightarrow>
     ((key_group \<times> int list) list \<times> exn option \<times> int list \<times> 'w) option" where
  "merge_loop svc parse max_count max_size gathered offsets readers w =
     (case readers of
        [] \<Rightarrow> Some (case fst gathered of None \<Rightarrow> [] | Some g \<Rightarrow> [(g, offsets)], None, offsets, w)
      | (head, index, reader) # rest \<Rightarrow>
          let (yielded, gathered') = (case head of None \<Rightarrow> (None, gathered) | Some kv \<Rightarrow> absorb max_count max_size kv gathered);
              out = (case yielded of None \<Rightarrow> [] | Some g \<Rightarrow> [(g, offsets)]);
              offsets' = offsets[index := buffered_tell (reader, w)]
          in (case read_file_record svc (reader, w) of
                None \<Rightarrow> None
              | Some (binary_record, (reader', w')) \<Rightarrow>
                  (case bindR binary_record parse of
                     Inl e \<Rightarrow>
                       if e = EOFError
                       then Option.bind (merge_loop svc parse max_count max_size gathered' offsets' (heappop entry_less readers) w')
                              (\<lambda>(ys, stop). Some (out @ ys, stop))
                       else Some (out, Some e, offsets', w')
                   | Inr kv \<Rightarrow>
                       Option.bind (merge_loop svc parse max_count max_size gathered' offsets'
                                      (heapreplace entry_less readers (Some kv, index, reader')) w')
                         (\<lambda>(ys, stop). Some (out @ ys, stop)))))"

text \<open>The heap at the start: every file open at its offset and no record read yet.\<close>

definition merge_readers :: "string list \<Rightarrow> int list \<Rightarrow> entry list" where
  "merge_readers filenames offsets =
     map (\<lambda>(i, filename). (None, i, (open_records filename)\<lparr>b_position := offsets ! i, b_buffer := [], b_buffer_pos := 0\<rparr>))
       (enumerate 0 filenames)"

definition merge_iter ::
    "'w file_service \<Rightarrow> (bytes \<Rightarrow> key_value res) \<Rightarrow> string list \<Rightarrow> merging \<Rightarrow> 'w \<Rightarrow>
     ((key_group \<times> int list) list \<times> exn option \<times> int list \<times> 'w) option" where
  "merge_iter svc parse filenames r w =
     (if length filenames \<noteq> length (mg_offsets r) then Some ([], Some PlainException, mg_offsets r, w)
      else merge_loop svc parse (mg_max_values_count r) (mg_max_values_size r) (None, 0, 0) (mg_offsets r)
             (merge_readers filenames (mg_offsets r)) w)"

definition merge_from_json :: "int list \<times> int \<times> int \<Rightarrow> merging" where
  "merge_from_json json = \<lparr>mg_offsets = fst json, mg_max_values_count = fst (snd json), mg_max_values_size = snd (snd json)\<rparr>"

definition merge_to_json :: "merging \<Rightarrow> int list \<times> int \<times> int" where
  "merge_to_json r = (mg_offsets r, mg_max_values_count r, mg_max_values_size r)"

text \<open>\<open>split_input\<close>: the parameters are \<open>files\<close>, \<open>max_values_count\<close> and \<open>max_values_size\<close> if given.\<close>

definition merge_split_input :: "string list list \<Rightarrow> int option \<Rightarrow> int option \<Rightarrow> merging list" where
  "merge_split_input filelists max_count max_size =
     map (\<lambda>files. \<lparr>mg_offsets = replicate (length files) 0,
                     mg_max_values_count = (case max_count of None \<Rightarrow> - 1 | Some n \<Rightarrow> n),
                     mg_max_values_size = (case max_size of None \<Rightarrow> - 1 | Some n \<Rightarrow> n)\<rparr>) filelists"

section \<open>The merge of lists\<close>

text \<open>
  What the heap computes: again and again the least of the first elements, of the first list that has it.
\<close>

definition heads :: "'a list list \<Rightarrow> ('a \<times> nat) list" where
  "heads xss = map (\<lambda>(i, xs). (hd xs, i)) (filter (\<lambda>(i, xs). xs \<noteq> []) (enumerate 0 xss))"

lemma in_heads: "(x, i) \<in> set (heads xss) \<longleftrightarrow> i < length xss \<and> xss ! i \<noteq> [] \<and> x = hd (xss ! i)"
  by (auto simp: heads_def in_set_enumerate_eq image_iff)

lemma heads_Nil: "heads xss = [] \<longleftrightarrow> (\<forall>xs \<in> set xss. xs = [])"
proof -
  have "heads xss = [] \<longleftrightarrow> (\<forall>p \<in> set (enumerate 0 xss). snd p = [])"
    by (auto simp: heads_def filter_empty_conv case_prod_beta)
  also have "\<dots> \<longleftrightarrow> (\<forall>xs \<in> snd ` set (enumerate 0 xss). xs = [])" by simp
  also have "snd ` set (enumerate 0 xss) = set xss" by (metis list.set_map map_snd_enumerate)
  finally show ?thesis .
qed

lemma least_head:
  assumes "heads xss \<noteq> []"
  obtains x i xs where "Min (set (heads xss)) = (x, i)" "i < length xss" "xss ! i = x # xs"
proof -
  have "Min (set (heads xss)) \<in> set (heads xss)" using assms by (intro Min_in) auto
  moreover obtain x i where "Min (set (heads xss)) = (x, i)" by fastforce
  ultimately show ?thesis using that by (metis in_heads list.collapse)
qed

lemma sum_list_length_tl:
  "i < length xss \<Longrightarrow> xss ! i = x # xs \<Longrightarrow> sum_list (map length (xss[i := xs])) + 1 = sum_list (map length xss)"
proof (induction xss arbitrary: i)
  case (Cons ys xss)
  then show ?case by (cases i) auto
qed simp

function kmerge :: "'a :: linorder list list \<Rightarrow> 'a list" where
  "kmerge xss = (if heads xss = [] then [] else
     case Min (set (heads xss)) of (x, i) \<Rightarrow> x # kmerge (xss[i := tl (xss ! i)]))"
  by pat_completeness auto
termination
proof (relation "measure (\<lambda>xss. sum_list (map length xss))", goal_cases)
  case (2 xss x i)
  then show ?case
    using sum_list_length_tl [of i xss "hd (xss ! i)" "tl (xss ! i)"] by (elim least_head) (auto simp: less_eq_Suc_le)
qed simp

declare kmerge.simps [simp del]

lemma kmerge_none: "\<forall>xs \<in> set xss. xs = [] \<Longrightarrow> kmerge xss = []"
  by (subst kmerge.simps) (simp add: heads_Nil)

lemma kmerge_pick:
  assumes "i < length xss" "xss ! i = x # xs"
    and least: "\<And>j. j < length xss \<Longrightarrow> xss ! j \<noteq> [] \<Longrightarrow> (x, i) \<le> (hd (xss ! j), j)"
  shows "kmerge xss = x # kmerge (xss[i := xs])"
proof -
  have mem: "(x, i) \<in> set (heads xss)" using assms(1,2) by (simp add: in_heads)
  have "Min (set (heads xss)) = (x, i)"
    using least by (intro Min_eqI mem) (auto simp: in_heads)
  then show ?thesis using mem assms(2) by (subst kmerge.simps) auto
qed

lemma mset_concat_tl:
  "i < length xss \<Longrightarrow> xss ! i = x # xs \<Longrightarrow> mset (concat xss) = add_mset x (mset (concat (xss[i := xs])))"
proof (induction xss arbitrary: i)
  case (Cons ys xss)
  then show ?case by (cases i) auto
qed simp

text \<open>Nothing is lost, and the merge of sorted lists is sorted.\<close>

lemma kmerge_mset: "mset (kmerge xss) = mset (concat xss)"
proof (induction xss rule: kmerge.induct)
  case (1 xss)
  show ?case
  proof (cases "heads xss = []")
    case True
    then show ?thesis by (subst kmerge.simps) (simp add: heads_Nil)
  next
    case False
    then obtain x i xs where l: "Min (set (heads xss)) = (x, i)" "i < length xss" "xss ! i = x # xs" by (rule least_head)
    have "mset (kmerge (xss[i := xs])) = mset (concat (xss[i := xs]))" using 1 [OF False l(1) [symmetric]] l(3) by simp
    then show ?thesis using False l mset_concat_tl [OF l(2,3)] by (subst kmerge.simps) simp
  qed
qed

lemma kmerge_sorted:
  fixes f :: "'a :: linorder \<Rightarrow> 'k :: linorder"
  assumes mono: "\<And>x y. x \<le> y \<Longrightarrow> f x \<le> f y"
  shows "\<forall>xs \<in> set xss. sorted (map f xs) \<Longrightarrow> sorted (map f (kmerge xss))"
proof (induction xss rule: kmerge.induct)
  case (1 xss)
  show ?case
  proof (cases "heads xss = []")
    case True
    then show ?thesis by (subst kmerge.simps) simp
  next
    case False
    then obtain x i xs where l: "Min (set (heads xss)) = (x, i)" "i < length xss" "xss ! i = x # xs" by (rule least_head)
    have sorted_x: "sorted (map f (x # xs))" using 1(2) l(2,3) by (metis nth_mem)
    have rest: "\<forall>ys \<in> set (xss[i := xs]). sorted (map f ys)"
      using 1(2) sorted_x by (auto dest!: set_update_subset_insert [THEN subsetD])
    then have IH: "sorted (map f (kmerge (xss[i := xs])))" using 1(1) [OF False l(1) [symmetric]] l(3) by simp
    have least: "f x \<le> f y" if mem: "y \<in> set (concat (xss[i := xs]))" for y
    proof -
      obtain ys where "ys \<in> set (xss[i := xs])" "y \<in> set ys" using mem by auto
      then obtain j where j: "j < length xss" "y \<in> set (xss[i := xs] ! j)" by (metis in_set_conv_nth length_list_update)
      then have y: "y \<in> set (xss ! j)" using l by (cases "j = i") auto
      then have "xss ! j \<noteq> []" by auto
      then have "(x, i) \<le> (hd (xss ! j), j)"
        unfolding l(1) [symmetric] using j(1) by (intro Min_le) (simp_all add: in_heads)
      then have "x \<le> hd (xss ! j)" by (auto simp: less_eq_prod_def)
      moreover have "f (hd (xss ! j)) \<le> f y"
        using 1(2) j(1) y by (cases "xss ! j") (auto dest!: nth_mem)
      ultimately show ?thesis using mono order_trans by blast
    qed
    have "set (kmerge (xss[i := xs])) = set (concat (xss[i := xs]))" by (metis kmerge_mset mset_eq_setD)
    then have "sorted (map f (x # kmerge (xss[i := xs])))" using IH least by simp
    then show ?thesis using False l by (subst kmerge.simps) simp
  qed
qed

section \<open>The groups\<close>

text \<open>What is yielded for a sequence of keys and values, and back.\<close>

fun key_groups :: "int \<Rightarrow> int \<Rightarrow> gathering \<Rightarrow> key_value list \<Rightarrow> key_group list" where
  "key_groups max_count max_size gathered [] = (case fst gathered of None \<Rightarrow> [] | Some g \<Rightarrow> [g])"
| "key_groups max_count max_size gathered (kv # kvs) =
     (case absorb max_count max_size kv gathered of
        (None, gathered') \<Rightarrow> key_groups max_count max_size gathered' kvs
      | (Some g, gathered') \<Rightarrow> g # key_groups max_count max_size gathered' kvs)"

definition ungroup :: "key_group \<Rightarrow> key_value list" where
  "ungroup g = map (Pair (fst g)) (fst (snd g))"

text \<open>The cases of \<open>absorb\<close>: a first value, a value that joins the group, and one that starts another.\<close>

lemma absorb_None: "absorb mc ms (k, v) (None, c, s) = (None, (Some (k, [v], False), 0, 0))"
  by (simp add: absorb_def Let_def)

definition joins :: "int \<Rightarrow> int \<Rightarrow> key_value \<Rightarrow> bytes \<Rightarrow> nat \<Rightarrow> nat \<Rightarrow> bool" where
  "joins mc ms kv key c s \<longleftrightarrow> fst kv = key \<and> (mc \<noteq> - 1 \<longrightarrow> int (c + 1) < mc) \<and> (ms \<noteq> - 1 \<longrightarrow> int (s + length (snd kv)) < ms)"

lemma absorb_Some:
  "absorb mc ms (k, v) (Some (key, vs, p), c, s) =
     (if joins mc ms (k, v) key c s then (None, (Some (key, vs @ [v], p), c + 1, s + length v))
      else (Some (key, vs, p \<or> k = key), (Some (k, [v], False), 0, 0)))"
  by (auto simp: absorb_def joins_def Let_def)

lemma key_groups_first:
  "\<exists>vs' p gs. key_groups mc ms (Some (key, vs, False), c, s) kvs = (key, vs @ vs', p) # gs"
proof (induction kvs arbitrary: vs c s)
  case (Cons kv kvs)
  obtain k v where kv: "kv = (k, v)" by fastforce
  show ?case
  proof (cases "joins mc ms (k, v) key c s")
    case True
    then show ?thesis using Cons [of "vs @ [v]" "c + 1" "s + length v"] kv by (auto simp: absorb_Some)
  next
    case False
    then have "key_groups mc ms (Some (key, vs, False), c, s) (kv # kvs) =
        (key, vs @ [], k = key) # key_groups mc ms (Some (k, [v], False), 0, 0) kvs" by (simp add: kv absorb_Some)
    then show ?thesis by blast
  qed
qed (simp, blast)

lemma key_groups_start: "key_groups mc ms (None, c, s) ((k, v) # kvs) = key_groups mc ms (Some (k, [v], False), 0, 0) kvs"
  by (simp add: absorb_None)

text \<open>Every value is in one group, in order.\<close>

lemma key_groups_ungroup:
  "concat (map ungroup (key_groups mc ms (Some (key, vs, False), c, s) kvs)) = map (Pair key) vs @ kvs"
proof (induction kvs arbitrary: key vs c s)
  case (Cons kv kvs)
  obtain k v where kv: "kv = (k, v)" by fastforce
  show ?case
    using Cons [of k "[v]" 0 0] Cons [of key "vs @ [v]" "c + 1" "s + length v"]
    by (auto simp: kv absorb_Some ungroup_def joins_def)
qed (simp add: ungroup_def)

lemma key_groups_all: "concat (map ungroup (key_groups mc ms (None, c, s) kvs)) = kvs"
proof (cases kvs)
  case (Cons kv kvs')
  then show ?thesis by (cases kv) (simp add: key_groups_start key_groups_ungroup del: key_groups.simps)
qed simp

text \<open>A group is partial exactly when the next one has the same key.\<close>

fun flags_right :: "key_group list \<Rightarrow> bool" where
  "flags_right [] = True"
| "flags_right [(k, vs, p)] = (\<not> p)"
| "flags_right ((k, vs, p) # (k', vs', p') # gs) = (p = (k = k') \<and> flags_right ((k', vs', p') # gs))"

lemma key_groups_flags: "flags_right (key_groups mc ms (Some (key, vs, False), c, s) kvs)"
proof (induction kvs arbitrary: key vs c s)
  case (Cons kv kvs)
  obtain k v where kv: "kv = (k, v)" by fastforce
  show ?case
  proof (cases "joins mc ms (k, v) key c s")
    case True
    then show ?thesis using Cons by (simp add: kv absorb_Some)
  next
    case False
    obtain vs' p gs where "key_groups mc ms (Some (k, [v], False), 0, 0) kvs = (k, [v] @ vs', p) # gs"
      using key_groups_first by blast
    then show ?thesis using False Cons [of k "[v]" 0 0] by (auto simp: kv absorb_Some)
  qed
qed simp

text \<open>No group has more values than the limit, and only the first value may take it over the limit of sizes.\<close>

definition in_limits :: "int \<Rightarrow> int \<Rightarrow> key_group \<Rightarrow> bool" where
  "in_limits mc ms = (\<lambda>(k, vs, p). vs \<noteq> [] \<and> (0 < mc \<longrightarrow> int (length vs) \<le> mc) \<and>
     (0 < ms \<longrightarrow> int (sum_list (map length (tl vs))) < ms))"

lemma key_groups_limits:
  "in_limits mc ms (key, vs, False) \<Longrightarrow> c + 1 = length vs \<Longrightarrow> s = sum_list (map length (tl vs)) \<Longrightarrow>
     \<forall>g \<in> set (key_groups mc ms (Some (key, vs, False), c, s) kvs). in_limits mc ms g"
proof (induction kvs arbitrary: key vs c s)
  case (Cons kv kvs)
  obtain k v where kv: "kv = (k, v)" by fastforce
  have fresh: "\<forall>g \<in> set (key_groups mc ms (Some (k, [v], False), 0, 0) kvs). in_limits mc ms g"
    by (rule Cons.IH) (auto simp: in_limits_def)
  show ?case
  proof (cases "joins mc ms (k, v) key c s")
    case True
    have "in_limits mc ms (key, vs @ [v], False)" using True Cons.prems by (auto simp: in_limits_def joins_def)
    then have "\<forall>g \<in> set (key_groups mc ms (Some (key, vs @ [v], False), c + 1, s + length v) kvs). in_limits mc ms g"
      using Cons.prems by (intro Cons.IH) (auto simp: in_limits_def)
    then show ?thesis using True by (simp add: kv absorb_Some)
  next
    case False
    then show ?thesis using fresh Cons.prems(1) by (auto simp: kv absorb_Some in_limits_def)
  qed
qed simp

section \<open>Where the readers stand\<close>

text \<open>From position \<open>p\<close> on, the records of a file are the keys and values \<open>xs\<close>.\<close>

definition readable :: "(bytes \<Rightarrow> key_value res) \<Rightarrow> bytes \<Rightarrow> nat \<Rightarrow> key_value list \<Rightarrow> bool" where
  "readable parse c p xs \<longleftrightarrow> p \<le> length c \<and> map parse (plain_records c p) = map Inr xs"

definition offsets_at ::
    "(string \<Rightarrow> bytes) \<Rightarrow> (bytes \<Rightarrow> key_value res) \<Rightarrow> string list \<Rightarrow> int list \<Rightarrow> key_value list list \<Rightarrow> bool" where
  "offsets_at content parse names offsets xss \<longleftrightarrow> length offsets = length names \<and> length xss = length names \<and>
     (\<forall>i < length names. \<exists>p. offsets ! i = int p \<and> readable parse (content (names ! i)) p (xss ! i))"

definition entry_at ::
    "'w file_service \<Rightarrow> ('w \<Rightarrow> bool) \<Rightarrow> (string \<Rightarrow> bytes) \<Rightarrow> (bytes \<Rightarrow> key_value res) \<Rightarrow> string list \<Rightarrow> 'w \<Rightarrow>
     key_value list list \<Rightarrow> entry \<Rightarrow> bool" where
  "entry_at svc ok content parse names w xss = (\<lambda>(head, i, b). i < length names \<and>
     (\<exists>p ys. buffered_at svc (names ! i) (file_of ok content (names ! i)) (content (names ! i)) (b, w) p \<and>
        readable parse (content (names ! i)) p ys \<and> xss ! i = (case head of None \<Rightarrow> ys | Some x \<Rightarrow> x # ys)))"

abbreviation entry_index :: "entry \<Rightarrow> nat" where
  "entry_index e \<equiv> fst (snd e)"

text \<open>
  The loop at its beginning: \<open>xss\<close> is what each file has left, its record in the heap included. A file whose
  reader is no longer in the heap has nothing left.
\<close>

definition merging_at ::
    "'w file_service \<Rightarrow> ('w \<Rightarrow> bool) \<Rightarrow> (string \<Rightarrow> bytes) \<Rightarrow> (bytes \<Rightarrow> key_value res) \<Rightarrow> string list \<Rightarrow>
     int list \<Rightarrow> entry list \<Rightarrow> key_value list list \<Rightarrow> 'w \<Rightarrow> bool" where
  "merging_at svc ok content parse names offsets readers xss w \<longleftrightarrow>
     ok w \<and> offsets_at content parse names offsets xss \<and> is_heap entry_order readers \<and>
     distinct (map entry_index readers) \<and> (\<forall>e \<in> set readers. entry_at svc ok content parse names w xss e) \<and>
     (\<forall>i < length names. i \<notin> entry_index ` set readers \<longrightarrow> xss ! i = [])"

lemma buffered_at_world:
  "buffered_at svc n (file_of ok content n) (content n) (b, w) p \<Longrightarrow> ok w' \<Longrightarrow>
   buffered_at svc n (file_of ok content n) (content n) (b, w') p"
  by (auto simp: buffered_at_def file_of_def)

lemma entry_at_other:
  "entry_at svc ok content parse names w xss e \<Longrightarrow> ok w' \<Longrightarrow> entry_index e \<noteq> i \<Longrightarrow>
   entry_at svc ok content parse names w' (xss[i := xs]) e"
  by (cases e) (auto simp: entry_at_def dest: buffered_at_world)

lemma entry_read:
  assumes "buffered_at svc n (file_of ok content n) (content n) (b, w) p" "readable parse (content n) p ys"
  obtains (end_of_file) b' w' where "read_file_record svc (b, w) = Some (Inl EOFError, (b', w'))" "ok w'" "ys = []"
    | (record_read) y ys' r b' w' q where "read_file_record svc (b, w) = Some (Inr r, (b', w'))" "parse r = Inr y" "ys = y # ys'"
        "buffered_at svc n (file_of ok content n) (content n) (b', w') q" "readable parse (content n) q ys'" "ok w'"
proof -
  have p: "p \<le> length (content n)" "map parse (plain_records (content n) p) = map Inr ys"
    using assms(2) by (simp_all add: readable_def)
  show ?thesis
  proof (rule buffered.read_plain [OF assms(1) p(1)])
    fix s' q assume "reader_read (buffered_read svc) buffered_tell (b, w) = Some (Inl EOFError, s')"
      "buffered_at svc n (file_of ok content n) (content n) s' q" "plain_records (content n) p = []"
    then show ?thesis using p(2) buffered_at_ok
      by (cases s') (auto simp: read_file_record_def intro!: end_of_file)
  next
    fix r s' q assume step: "reader_read (buffered_read svc) buffered_tell (b, w) = Some (Inr r, s')"
      "buffered_at svc n (file_of ok content n) (content n) s' q" "q \<le> length (content n)"
      "plain_records (content n) p = r # plain_records (content n) q"
    obtain b' w' where s': "s' = (b', w')" by fastforce
    obtain y ys' where ys: "ys = y # ys'" "parse r = Inr y" "map parse (plain_records (content n) q) = map Inr ys'"
      using p(2) step(4) by (cases ys) auto
    show ?thesis
      by (rule record_read [of r b' w' y ys' q])
        (use step s' ys in \<open>auto simp: read_file_record_def readable_def intro: buffered_at_ok\<close>)
  qed
qed

text \<open>The value at the front of the heap is the next of the merge.\<close>

lemma first_entry_next:
  assumes at: "merging_at svc ok content parse names offsets ((Some x, i, b) # rest) xss w"
  obtains xs where "i < length xss" "xss ! i = x # xs" "kmerge xss = x # kmerge (xss[i := xs])"
proof -
  let ?q = "(Some x, i, b) # rest"
  have len: "length xss = length names" and heap: "is_heap entry_order ?q"
    and entries: "\<forall>e \<in> set ?q. entry_at svc ok content parse names w xss e"
    and gone: "\<forall>j < length names. j \<notin> entry_index ` set ?q \<longrightarrow> xss ! j = []"
    using at by (simp_all add: merging_at_def offsets_at_def)
  have least: "(Some x, i) \<le> entry_order e" if "e \<in> set ?q" for e
    using heapq.first_least [OF heap, of e] that by (simp add: entry_order_def)
  obtain xs where i: "i < length xss" "xss ! i = x # xs"
    using entries len by (auto simp: entry_at_def)
  have "(x, i) \<le> (hd (xss ! j), j)" if j: "j < length xss" "xss ! j \<noteq> []" for j
  proof -
    obtain h b' where e: "(h, j, b') \<in> set ?q" using gone j len by force
    then have le: "(Some x, i) \<le> (h, j)" using least by (force simp: entry_order_def)
    then obtain y where "h = Some y" by (cases h) (auto simp: less_eq_prod_def)
    moreover from this obtain ys where "xss ! j = y # ys" using entries e by (force simp: entry_at_def)
    ultimately show ?thesis using le by (auto simp: less_eq_prod_def)
  qed
  then show ?thesis using that i kmerge_pick [OF i] by blast
qed

lemma offsets_at_update:
  assumes "offsets_at content parse names offsets xss" "readable parse (content (names ! i)) p ys"
  shows "offsets_at content parse names (offsets[i := int p]) (xss[i := ys])"
  unfolding offsets_at_def
proof (intro conjI allI impI)
  fix j assume "j < length names"
  then show "\<exists>p'. offsets[i := int p] ! j = int p' \<and> readable parse (content (names ! j)) p' (xss[i := ys] ! j)"
    using assms by (cases "j = i") (auto simp: offsets_at_def)
qed (use assms in \<open>simp_all add: offsets_at_def\<close>)

lemma same_elements:
  assumes "mset xs = mset ys"
  shows "distinct (map f xs) = distinct (map f ys) \<and> set (map f xs) = set (map f ys) \<and> set xs = set ys"
proof -
  have "mset (map f xs) = mset (map f ys)" using assms by simp
  from mset_eq_imp_distinct_iff [OF this] mset_eq_setD [OF this] mset_eq_setD [OF assms] show ?thesis by blast
qed

text \<open>After the turn of the loop for file \<open>i\<close>: its reader is gone from the heap, or back in it with a record.\<close>

lemma merging_step:
  assumes at: "merging_at svc ok content parse names offsets ((h, i, b) # rest) xss w"
    and p: "readable parse (content (names ! i)) p ys" and "ok w'" and heap: "is_heap entry_order q"
    and back_in: "mset q = mset rest \<and> ys = [] \<or>
      (\<exists>y b'. mset q = add_mset (Some y, i, b') (mset rest) \<and> entry_at svc ok content parse names w' (xss[i := ys]) (Some y, i, b'))"
  shows "merging_at svc ok content parse names (offsets[i := int p]) q (xss[i := ys]) w'"
proof -
  have q: "distinct (map entry_index q) \<and> set (map entry_index q) \<union> {i} = set (map entry_index ((h, i, b) # rest)) \<and>
      (i \<notin> set (map entry_index q) \<longrightarrow> ys = []) \<and> (\<forall>e \<in> set q. e \<in> set rest \<or> entry_at svc ok content parse names w' (xss[i := ys]) e)"
    using back_in
  proof (elim disjE conjE exE)
    assume *: "mset q = mset rest" "ys = []"
    show ?thesis using at *(2) same_elements [OF *(1), of entry_index] by (auto simp: merging_at_def)
  next
    fix y b' assume *: "mset q = add_mset (Some y, i, b') (mset rest)"
      "entry_at svc ok content parse names w' (xss[i := ys]) (Some y, i, b')"
    then have "mset q = mset ((Some y, i, b') # rest)" by simp
    from same_elements [OF this, of entry_index] show ?thesis using at *(2) by (auto simp: merging_at_def)
  qed
  have "offsets_at content parse names (offsets[i := int p]) (xss[i := ys])"
    using at p by (simp add: merging_at_def offsets_at_update)
  moreover have "entry_at svc ok content parse names w' (xss[i := ys]) e" if "e \<in> set q" for e
  proof (cases "e \<in> set rest")
    case True
    then have "entry_index e \<noteq> i" "entry_at svc ok content parse names w xss e" using at by (auto simp: merging_at_def)
    then show ?thesis using \<open>ok w'\<close> by (intro entry_at_other)
  qed (use q that in blast)
  moreover have "xss[i := ys] ! j = []" if j: "j < length names" "j \<notin> entry_index ` set q" for j
  proof (cases "j = i")
    case True
    then have "ys = []" using q j(2) by auto
    moreover have "i < length xss" using True j(1) at by (simp add: merging_at_def offsets_at_def)
    ultimately show ?thesis using True by simp
  next
    case False
    then have "j \<notin> entry_index ` set ((h, i, b) # rest)" using q j(2) by auto
    then have "xss ! j = []" using at j(1) by (simp add: merging_at_def)
    then show ?thesis using False by simp
  qed
  ultimately show ?thesis using q heap \<open>ok w'\<close> by (simp add: merging_at_def)
qed

text \<open>
  What the loop yields are the groups of the merge. And each time, the offsets are those from which the rest
  would be read.
\<close>

fun snapshots_right ::
    "(int list \<Rightarrow> key_value list list \<Rightarrow> bool) \<Rightarrow> int \<Rightarrow> int \<Rightarrow> (key_group \<times> int list) list \<Rightarrow> bool" where
  "snapshots_right stand mc ms [] = True"
| "snapshots_right stand mc ms ((g, offsets) # ys) \<longleftrightarrow>
     (\<exists>xss. stand offsets xss \<and> map fst ys = key_groups mc ms (None, 0, 0) (kmerge xss)) \<and> snapshots_right stand mc ms ys"

lemma absorb_restart:
  "absorb mc ms kv g = (Some y, g') \<Longrightarrow> key_groups mc ms g' kvs = key_groups mc ms (None, 0, 0) (kv # kvs)"
  by (cases kv; cases g; cases "fst g") (auto simp: absorb_None absorb_Some split: if_splits)

lemma snapshot_out:
  assumes "absorb mc ms kv g = (yielded, g')" and "stand offsets xss" "kmerge xss = kv # kvs"
    and "map fst ys = key_groups mc ms g' kvs" "snapshots_right stand mc ms ys"
  shows "map fst ((case yielded of None \<Rightarrow> [] | Some y \<Rightarrow> [(y, offsets)]) @ ys) = key_groups mc ms g (kv # kvs)"
    and "snapshots_right stand mc ms ((case yielded of None \<Rightarrow> [] | Some y \<Rightarrow> [(y, offsets)]) @ ys)"
proof -
  show "map fst ((case yielded of None \<Rightarrow> [] | Some y \<Rightarrow> [(y, offsets)]) @ ys) = key_groups mc ms g (kv # kvs)"
    using assms by (cases yielded) simp_all
  show "snapshots_right stand mc ms ((case yielded of None \<Rightarrow> [] | Some y \<Rightarrow> [(y, offsets)]) @ ys)"
  proof (cases yielded)
    case (Some y)
    then have "map fst ys = key_groups mc ms (None, 0, 0) (kmerge xss)"
      using absorb_restart [of mc ms kv g y g' kvs] assms(1,3,4) by (simp del: key_groups.simps)
    then show ?thesis using Some assms(2,5) by auto
  qed (use assms(5) in simp)
qed

definition unloaded :: "entry list \<Rightarrow> nat" where
  "unloaded readers = size (filter_mset (\<lambda>e. fst e = None) (mset readers))"

lemma unloaded_Cons: "unloaded ((h, i, b) # rest) = unloaded rest + (if h = None then 1 else 0)"
  by (simp add: unloaded_def)

text \<open>One turn of the loop, with the operations of \<open>heapq\<close>.\<close>

lemma merge_turn:
  assumes at: "merging_at svc ok content parse names offsets ((h, i, b) # rest) xss w"
  obtains r reader' w' q ys p where
    "read_file_record svc (b, w) = Some (r, (reader', w'))" "buffered_tell (b, w) = int p"
    "xss ! i = (case h of None \<Rightarrow> ys | Some x \<Rightarrow> x # ys)" "i < length xss" "unloaded q = unloaded rest"
    "merging_at svc ok content parse names (offsets[i := int p]) q (xss[i := ys]) w'"
    "bindR r parse = Inl EOFError \<and> q = heappop entry_less ((h, i, b) # rest) \<or>
     (\<exists>y. bindR r parse = Inr y \<and> q = heapreplace entry_less ((h, i, b) # rest) (Some y, i, reader'))"
proof -
  let ?q = "(h, i, b) # rest"
  have heap: "is_heap entry_order ?q" and i: "i < length xss" "i < length names"
    using at by (auto simp: merging_at_def offsets_at_def entry_at_def)
  obtain p ys where p: "buffered_at svc (names ! i) (file_of ok content (names ! i)) (content (names ! i)) (b, w) p"
      "readable parse (content (names ! i)) p ys" "xss ! i = (case h of None \<Rightarrow> ys | Some x \<Rightarrow> x # ys)"
    using at by (auto simp: merging_at_def entry_at_def)
  have tell: "buffered_tell (b, w) = int p" using p(1) by (simp add: buffered_at_def buffered_tell_def)
  show ?thesis
  proof (rule entry_read [OF p(1,2)])
    fix b' w' assume eof: "read_file_record svc (b, w) = Some (Inl EOFError, (b', w'))" "ok w'" "ys = []"
    let ?q' = "heappop entry_less ?q"
    have q: "mset ?q' = mset rest" "is_heap entry_order ?q'"
      using heapq.drop_mset [OF heap] heapq.drop_good [OF heap] by (simp_all add: entry_less_def)
    have "merging_at svc ok content parse names (offsets[i := int p]) ?q' (xss[i := ys]) w'"
      using merging_step [OF at p(2) eof(2) q(2)] q(1) eof(3) by blast
    moreover have "unloaded ?q' = unloaded rest" by (simp add: unloaded_def q(1))
    ultimately show ?thesis using that [OF eof(1) tell p(3) i(1)] by simp
  next
    fix y ys' r b' w' q' assume rd: "read_file_record svc (b, w) = Some (Inr r, (b', w'))" "parse r = Inr y" "ys = y # ys'"
      "buffered_at svc (names ! i) (file_of ok content (names ! i)) (content (names ! i)) (b', w') q'"
      "readable parse (content (names ! i)) q' ys'" "ok w'"
    let ?q' = "heapreplace entry_less ?q (Some y, i, b')"
    have q: "mset ?q' = add_mset (Some y, i, b') (mset rest)" "is_heap entry_order ?q'"
      using heapq.replace_mset [OF heap] heapq.replace_good [OF heap] by (simp_all add: entry_less_def)
    have "entry_at svc ok content parse names w' (xss[i := ys]) (Some y, i, b')"
      using rd(3-5) i by (auto simp: entry_at_def)
    then have "merging_at svc ok content parse names (offsets[i := int p]) ?q' (xss[i := ys]) w'"
      using merging_step [OF at p(2) rd(6) q(2)] q(1) by blast
    moreover have "unloaded ?q' = unloaded rest" by (simp add: unloaded_def q(1))
    ultimately show ?thesis using that [OF rd(1) tell p(3) i(1)] rd(2) by simp
  qed
qed

lemma merge_loop_at:
  "merging_at svc ok content parse names offsets readers xss w \<Longrightarrow>
     \<exists>ys offsets' w'. merge_loop svc parse mc ms g offsets readers w = Some (ys, None, offsets', w') \<and>
       map fst ys = key_groups mc ms g (kmerge xss) \<and> snapshots_right (offsets_at content parse names) mc ms ys"
proof (induction "2 * sum_list (map length xss) + unloaded readers" arbitrary: offsets readers xss w g rule: less_induct)
  case less
  note at = less.prems
  have stand: "offsets_at content parse names offsets xss" using at by (simp add: merging_at_def)
  show ?case
  proof (cases readers)
    case Nil
    then have "\<forall>xs \<in> set xss. xs = []" using at by (auto simp: merging_at_def offsets_at_def in_set_conv_nth)
    then have none: "kmerge xss = []" by (rule kmerge_none)
    show ?thesis using stand none Nil
      by (subst merge_loop.simps) (auto split: option.splits)
  next
    case (Cons e rest)
    obtain h i b where e: "e = (h, i, b)" by (metis surj_pair)
    note at' = at [unfolded Cons e]
    obtain r reader' w' q ys p where turn: "read_file_record svc (b, w) = Some (r, (reader', w'))" "buffered_tell (b, w) = int p"
      "xss ! i = (case h of None \<Rightarrow> ys | Some x \<Rightarrow> x # ys)" "i < length xss" "unloaded q = unloaded rest"
      "merging_at svc ok content parse names (offsets[i := int p]) q (xss[i := ys]) w'"
      "bindR r parse = Inl EOFError \<and> q = heappop entry_less ((h, i, b) # rest) \<or>
       (\<exists>y. bindR r parse = Inr y \<and> q = heapreplace entry_less ((h, i, b) # rest) (Some y, i, reader'))"
      by (rule merge_turn [OF at'])
    obtain yielded g' where ab: "(case h of None \<Rightarrow> (None, g) | Some kv \<Rightarrow> absorb mc ms kv g) = (yielded, g')" by (rule prod.exhaust)
    have smaller: "2 * sum_list (map length (xss[i := ys])) + unloaded q < 2 * sum_list (map length xss) + unloaded readers"
      using turn(3-5) sum_list_length_tl [of i xss _ ys] Cons e by (cases h) (auto simp: unloaded_Cons)
    from less.hyps [OF this turn(6), of g'] obtain zs offsets' w'' where
      IH: "merge_loop svc parse mc ms g' (offsets[i := int p]) q w' = Some (zs, None, offsets', w'')"
        "map fst zs = key_groups mc ms g' (kmerge (xss[i := ys]))" "snapshots_right (offsets_at content parse names) mc ms zs"
      by blast
    let ?out = "case yielded of None \<Rightarrow> [] | Some y \<Rightarrow> [(y, offsets)]"
    have "merge_loop svc parse mc ms g offsets readers w = Some (?out @ zs, None, offsets', w'')"
      using turn(7) ab turn(1,2) IH(1) by (subst merge_loop.simps) (auto simp: Cons e)
    moreover have "map fst (?out @ zs) = key_groups mc ms g (kmerge xss) \<and>
        snapshots_right (offsets_at content parse names) mc ms (?out @ zs)"
    proof (cases h)
      case None
      then have "xss[i := ys] = xss" using turn(3) list_update_id [of xss i] by simp
      then show ?thesis using ab None IH by simp
    next
      case (Some x)
      obtain xs where "xss ! i = x # xs" "kmerge xss = x # kmerge (xss[i := xs])"
        using first_entry_next [OF at' [unfolded Some]] by blast
      then have "kmerge xss = x # kmerge (xss[i := ys])" using turn(3) Some by simp
      moreover from this have "absorb mc ms x g = (yielded, g')" using ab Some by simp
      ultimately show ?thesis using snapshot_out [OF _ stand _ IH(2,3)] by metis
    qed
    ultimately show ?thesis by blast
  qed
qed

section \<open>The reader of a shard\<close>

text \<open>
  The files of a shard are served, and they hold the keys and values \<open>kvs\<close> in the pieces a records pool writes.
  The protocol buffer is only asked to read back what it wrote there.
\<close>

definition merge_input ::
    "'w file_service \<Rightarrow> ('w \<Rightarrow> bool) \<Rightarrow> (string \<Rightarrow> bytes) \<Rightarrow> (key_value \<Rightarrow> bytes) \<Rightarrow> (bytes \<Rightarrow> key_value res) \<Rightarrow>
     (string \<Rightarrow> key_value list) \<Rightarrow> string list \<Rightarrow> bool" where
  "merge_input svc ok content encode parse kvs names \<longleftrightarrow>
     (\<forall>n \<in> set names. serves svc n (file_of ok content n) \<and>
        (\<exists>dss. content n = concat (map records_bytes dss) \<and> concat dss = map encode (kvs n)) \<and>
        (\<forall>kv \<in> set (kvs n). parse (encode kv) = Inr kv))"

lemma merge_input_readable:
  assumes "merge_input svc ok content encode parse kvs names" "n \<in> set names"
  shows "readable parse (content n) 0 (kvs n)"
proof -
  obtain dss where dss: "content n = concat (map records_bytes dss)" "concat dss = map encode (kvs n)"
      "\<forall>kv \<in> set (kvs n). parse (encode kv) = Inr kv"
    using assms by (auto simp: merge_input_def)
  then show ?thesis by (simp add: readable_def plain_records_pieces comp_def)
qed

lemma merge_input_offsets:
  "merge_input svc ok content encode parse kvs names \<Longrightarrow>
   offsets_at content parse names (replicate (length names) 0) (map kvs names)"
  by (auto simp: offsets_at_def intro!: exI [of _ 0] merge_input_readable)

lemma merge_readers_index: "map entry_index (merge_readers names offsets) = [0..<length names]"
  by (simp add: merge_readers_def comp_def case_prod_beta)

lemma merge_readers_at:
  assumes files: "\<forall>n \<in> set names. serves svc n (file_of ok content n)" "ok w" and stand: "offsets_at content parse names offsets xss"
  shows "merging_at svc ok content parse names offsets (merge_readers names offsets) xss w"
proof -
  let ?q = "merge_readers names offsets"
  have nth: "?q ! i = (None, i, (open_records (names ! i))\<lparr>b_position := offsets ! i, b_buffer := [], b_buffer_pos := 0\<rparr>)"
    if "i < length names" for i using that by (simp add: merge_readers_def nth_enumerate_eq)
  have len: "length ?q = length names" by (simp add: merge_readers_def)
  have "is_heap entry_order ?q"
    unfolding is_heap_def
  proof (intro allI impI; elim conjE)
    fix i assume i: "0 < i" "i < length ?q"
    have "parent i < length names" using less_trans [OF parent_less [OF i(1)]] i(2) len by simp
    then show "entry_order (?q ! parent i) \<le> entry_order (?q ! i)"
      using i len parent_less [OF i(1)] by (simp add: nth entry_order_def less_eq_prod_def less_imp_le)
  qed
  moreover have "entry_at svc ok content parse names w xss e" if e: "e \<in> set ?q" for e
  proof -
    obtain i where i: "i < length names" "e = ?q ! i" using e len by (metis in_set_conv_nth)
    obtain p where p: "offsets ! i = int p" "readable parse (content (names ! i)) p (xss ! i)"
      using stand i(1) by (auto simp: offsets_at_def)
    have "serves svc (names ! i) (file_of ok content (names ! i))" using files(1) i(1) by simp
    then have "buffered_at svc (names ! i) (file_of ok content (names ! i)) (content (names ! i))
        ((open_records (names ! i))\<lparr>b_position := offsets ! i, b_buffer := [], b_buffer_pos := 0\<rparr>, w) p"
      using files(2) p(1) by (auto simp: buffered_at_def open_records_def buffered_init_def BUFFER_SIZE_def file_of_def)
    then show ?thesis using i p(2) by (auto simp: entry_at_def nth)
  qed
  moreover have "set (map entry_index ?q) = {0..<length names}" by (simp only: merge_readers_index set_upt)
  moreover have "entry_index ` set ?q = {0..<length names}" using calculation(3) by simp
  moreover have "distinct (map entry_index ?q)" by (simp only: merge_readers_index distinct_upt)
  ultimately show ?thesis using files stand by (simp add: merging_at_def)
qed

lemma merge_iter_at:
  assumes "\<forall>n \<in> set names. serves svc n (file_of ok content n)" "ok w" "offsets_at content parse names (mg_offsets r) xss"
  shows "\<exists>ys offsets w'. merge_iter svc parse names r w = Some (ys, None, offsets, w') \<and>
     map fst ys = key_groups (mg_max_values_count r) (mg_max_values_size r) (None, 0, 0) (kmerge xss) \<and>
     snapshots_right (offsets_at content parse names) (mg_max_values_count r) (mg_max_values_size r) ys"
  using merge_loop_at [OF merge_readers_at [OF assms]] assms(3) by (simp add: merge_iter_def offsets_at_def)

lemma snapshots_nth:
  "snapshots_right stand mc ms ys \<Longrightarrow> m < length ys \<Longrightarrow>
     \<exists>xss. stand (snd (ys ! m)) xss \<and> map fst (drop (Suc m) ys) = key_groups mc ms (None, 0, 0) (kmerge xss)"
proof (induction ys arbitrary: m)
  case (Cons y ys)
  then show ?case by (cases y; cases m) auto
qed simp

lemma key_groups_in_limits: "\<forall>g \<in> set (key_groups mc ms (None, 0, 0) kvs). in_limits mc ms g"
proof (cases kvs)
  case (Cons kv kvs')
  obtain k v where kv: "kv = (k, v)" by fastforce
  show ?thesis unfolding Cons kv key_groups_start
    by (rule key_groups_limits) (auto simp: in_limits_def)
qed simp

lemma key_groups_flags_right: "flags_right (key_groups mc ms (None, 0, 0) kvs)"
proof (cases kvs)
  case (Cons kv kvs')
  obtain k v where kv: "kv = (k, v)" by fastforce
  show ?thesis unfolding Cons kv key_groups_start by (rule key_groups_flags)
qed simp

text \<open>Without limits no group is partial, and the keys of sorted input are those of the groups, each once.\<close>

lemma key_groups_whole: "\<forall>g \<in> set (key_groups (- 1) (- 1) (Some (key, vs, False), c, s) kvs). \<not> snd (snd g)"
proof (induction kvs arbitrary: key vs c s)
  case (Cons kv kvs)
  obtain k v where kv: "kv = (k, v)" by fastforce
  show ?case
    by (cases "k = key") (use Cons [of k "[v]" 0 0] Cons [of key "vs @ [v]" "c + 1" "s + length v"] in
      \<open>simp_all add: kv absorb_Some joins_def\<close>)
qed simp

lemma flags_sorted:
  "flags_right gs \<Longrightarrow> \<forall>g \<in> set gs. \<not> snd (snd g) \<and> fst (snd g) \<noteq> [] \<Longrightarrow> sorted (map fst (concat (map ungroup gs))) \<Longrightarrow>
   sorted_wrt (<) (map fst gs)"
proof (induction gs rule: flags_right.induct)
  case (3 k vs p k' vs' p' gs)
  have "k < k'"
    using 3(2-4) by (cases vs; cases vs') (auto simp: ungroup_def)
  then show ?case using 3 by (auto simp: ungroup_def sorted_append)
qed simp_all

lemma key_groups_sorted:
  assumes "sorted (map fst kvs)"
  shows "sorted_wrt (<) (map fst (key_groups (- 1) (- 1) (None, 0, 0) kvs))"
proof (rule flags_sorted [OF key_groups_flags_right])
  show "sorted (map fst (concat (map ungroup (key_groups (- 1) (- 1) (None, 0, 0) kvs))))"
    using assms by (simp add: key_groups_all)
  have "\<not> snd (snd g)" if "g \<in> set (key_groups (- 1) (- 1) (None, 0, 0) kvs)" for g
  proof (cases kvs)
    case (Cons kv kvs')
    obtain k v where kv: "kv = (k, v)" by fastforce
    show ?thesis using that unfolding Cons kv key_groups_start using key_groups_whole by blast
  qed (use that in simp)
  moreover have "fst (snd g) \<noteq> []" if "g \<in> set (key_groups (- 1) (- 1) (None, 0, 0) kvs)" for g
    using key_groups_in_limits [of "- 1" "- 1" kvs] that by (auto simp: in_limits_def)
  ultimately show "\<forall>g \<in> set (key_groups (- 1) (- 1) (None, 0, 0) kvs). \<not> snd (snd g) \<and> fst (snd g) \<noteq> []" by blast
qed

text \<open>A fresh reader yields the groups of the merged files.\<close>

lemma merge_fresh:
  assumes "merge_input svc ok content encode parse kvs names" "ok w"
    and "merge_split_input [names] max_count max_size = [r]"
  shows "\<exists>ys offsets w'. merge_iter svc parse names r w = Some (ys, None, offsets, w') \<and>
     map fst ys = key_groups (mg_max_values_count r) (mg_max_values_size r) (None, 0, 0) (kmerge (map kvs names)) \<and>
     snapshots_right (offsets_at content parse names) (mg_max_values_count r) (mg_max_values_size r) ys"
proof (rule merge_iter_at)
  show "\<forall>n \<in> set names. serves svc n (file_of ok content n)" using assms(1) by (simp add: merge_input_def)
  show "offsets_at content parse names (mg_offsets r) (map kvs names)"
    using merge_input_offsets [OF assms(1)] assms(3) by (auto simp: merge_split_input_def)
qed (rule assms(2))

section \<open>A small input\<close>

text \<open>Keys of one byte, written before their values, and files in memory that all hold the same.\<close>

definition plain_encode :: "key_value \<Rightarrow> bytes" where "plain_encode kv = fst kv @ snd kv"

definition plain_parse :: "bytes \<Rightarrow> key_value res" where "plain_parse r = Inr (take 1 r, drop 1 r)"

definition small_kvs :: "key_value list" where "small_kvs = [([1], [10]), ([1], [11]), ([2], [20])]"

definition small_content :: bytes where "small_content = records_bytes (map plain_encode small_kvs)"

lemma small_input: "merge_input memory_service (\<lambda>w. w = small_content) (\<lambda>_. small_content) plain_encode plain_parse (\<lambda>_. small_kvs) [''f'', ''g'']"
proof -
  have "\<exists>dss. small_content = concat (map records_bytes dss) \<and> concat dss = map plain_encode small_kvs"
    by (rule exI [of _ "[map plain_encode small_kvs]"]) (simp add: small_content_def)
  moreover have "\<forall>kv \<in> set small_kvs. plain_parse (plain_encode kv) = Inr kv"
    by (simp add: small_kvs_def plain_parse_def plain_encode_def)
  ultimately show ?thesis by (simp add: merge_input_def memory_files)
qed

section \<open>Properties\<close>

text \<open>C35: Merging sorted files without limits yields every key once, in order, and all the values of the files.\<close>

theorem merge_yields_each_key_once:
  "merge_input svc ok content encode parse kvs names \<Longrightarrow> ok w \<Longrightarrow> \<forall>n \<in> set names. sorted (map fst (kvs n)) \<Longrightarrow>
     merge_split_input [names] None None = [r] \<Longrightarrow>
     \<exists>ys offsets w'. merge_iter svc parse names r w = Some (ys, None, offsets, w') \<and>
       sorted_wrt (<) (map (fst \<circ> fst) ys) \<and>
       mset (concat (map (ungroup \<circ> fst) ys)) = mset (concat (map kvs names))"
proof -
  assume files: "merge_input svc ok content encode parse kvs names" "ok w" and sorted: "\<forall>n \<in> set names. sorted (map fst (kvs n))"
    and r: "merge_split_input [names] None None = [r]"
  obtain ys offsets w' where run: "merge_iter svc parse names r w = Some (ys, None, offsets, w')"
      "map fst ys = key_groups (- 1) (- 1) (None, 0, 0) (kmerge (map kvs names))"
    using merge_fresh [OF files r] r by (auto simp: merge_split_input_def)
  have "sorted (map fst (kmerge (map kvs names)))" by (rule kmerge_sorted) (use sorted in \<open>auto simp: less_eq_prod_def\<close>)
  then have "sorted_wrt (<) (map fst (map fst ys))" unfolding run(2) by (rule key_groups_sorted)
  moreover have "mset (concat (map ungroup (map fst ys))) = mset (concat (map kvs names))"
    unfolding run(2) by (simp add: key_groups_all kmerge_mset)
  ultimately show ?thesis using run(1) by auto
qed

theorem merge_yields_each_key_once_witness:
  "\<exists>r ys offsets w'. merge_split_input [[''f'', ''g'']] None None = [r] \<and>
     merge_iter memory_service plain_parse [''f'', ''g''] r small_content = Some (ys, None, offsets, w') \<and>
     sorted_wrt (<) (map (fst \<circ> fst) ys) \<and> mset (concat (map (ungroup \<circ> fst) ys)) = mset (small_kvs @ small_kvs)"
  using merge_yields_each_key_once [OF small_input refl, of "hd (merge_split_input [[''f'', ''g'']] None None)"]
  by (simp add: merge_split_input_def) (simp add: small_kvs_def)

text \<open>C37: With limits, too, no value is lost or repeated; a group is marked partial exactly when the next has the same
  key, and it has at most \<open>max_values_count\<close> values.
\<close>

theorem merge_respects_limits:
  "merge_input svc ok content encode parse kvs names \<Longrightarrow> ok w \<Longrightarrow> merge_split_input [names] max_count max_size = [r] \<Longrightarrow>
     \<exists>ys offsets w'. merge_iter svc parse names r w = Some (ys, None, offsets, w') \<and>
       mset (concat (map (ungroup \<circ> fst) ys)) = mset (concat (map kvs names)) \<and> flags_right (map fst ys) \<and>
       list_all (in_limits (mg_max_values_count r) (mg_max_values_size r)) (map fst ys)"
proof -
  assume files: "merge_input svc ok content encode parse kvs names" "ok w" and r: "merge_split_input [names] max_count max_size = [r]"
  from merge_fresh [OF files r] obtain ys offsets w' where run: "merge_iter svc parse names r w = Some (ys, None, offsets, w')"
      "map fst ys = key_groups (mg_max_values_count r) (mg_max_values_size r) (None, 0, 0) (kmerge (map kvs names))" by blast
  have "mset (concat (map ungroup (map fst ys))) = mset (concat (map kvs names))"
    unfolding run(2) by (simp add: key_groups_all kmerge_mset)
  moreover have "\<forall>g \<in> set (map fst ys). in_limits (mg_max_values_count r) (mg_max_values_size r) g"
    unfolding run(2) by (rule key_groups_in_limits)
  moreover have "flags_right (map fst ys)" unfolding run(2) by (rule key_groups_flags_right)
  ultimately show ?thesis using run(1) by (auto simp: list_all_iff)
qed

theorem merge_respects_limits_witness:
  "\<exists>r ys offsets w'. merge_split_input [[''f'', ''g'']] (Some 2) None = [r] \<and>
     merge_iter memory_service plain_parse [''f'', ''g''] r small_content = Some (ys, None, offsets, w') \<and>
     mset (concat (map (ungroup \<circ> fst) ys)) = mset (small_kvs @ small_kvs) \<and> flags_right (map fst ys) \<and>
     list_all (in_limits 2 (- 1)) (map fst ys)"
  using merge_respects_limits [OF small_input refl, of "Some 2" None "hd (merge_split_input [[''f'', ''g'']] (Some 2) None)"]
  by (simp add: merge_split_input_def)

text \<open>C36: Put away after any group and taken up again from its JSON, the reader yields the groups that were left.\<close>

theorem merge_resumes:
  "merge_input svc ok content encode parse kvs names \<Longrightarrow> ok w \<Longrightarrow> ok w' \<Longrightarrow>
     merge_split_input [names] max_count max_size = [r] \<Longrightarrow>
     merge_iter svc parse names r w = Some (ys, stop) \<Longrightarrow> m < length ys \<Longrightarrow>
     \<exists>zs stop'. merge_iter svc parse names
         (merge_from_json (merge_to_json (r\<lparr>mg_offsets := snd (ys ! m)\<rparr>))) w' = Some (zs, None, stop') \<and>
       map fst zs = map fst (drop (Suc m) ys)"
proof -
  assume files: "merge_input svc ok content encode parse kvs names" "ok w" "ok w'"
    and r: "merge_split_input [names] max_count max_size = [r]"
    and run: "merge_iter svc parse names r w = Some (ys, stop)" "m < length ys"
  from merge_fresh [OF files(1,2) r] run(1)
  have "snapshots_right (offsets_at content parse names) (mg_max_values_count r) (mg_max_values_size r) ys" by auto
  then obtain xss where xss: "offsets_at content parse names (snd (ys ! m)) xss"
      "map fst (drop (Suc m) ys) = key_groups (mg_max_values_count r) (mg_max_values_size r) (None, 0, 0) (kmerge xss)"
    using snapshots_nth [OF _ run(2)] by blast
  let ?r = "merge_from_json (merge_to_json (r\<lparr>mg_offsets := snd (ys ! m)\<rparr>))"
  have served: "\<forall>n \<in> set names. serves svc n (file_of ok content n)" using files(1) by (simp add: merge_input_def)
  have "offsets_at content parse names (mg_offsets ?r) xss" using xss(1) by (simp add: merge_from_json_def merge_to_json_def)
  from merge_iter_at [OF served files(3) this] xss(2) show ?thesis by (auto simp: merge_from_json_def merge_to_json_def)
qed

theorem merge_resumes_witness:
  "\<exists>r ys stop zs stop'. merge_split_input [[''f'', ''g'']] (Some 2) None = [r] \<and>
     merge_iter memory_service plain_parse [''f'', ''g''] r small_content = Some (ys, stop) \<and>
     merge_iter memory_service plain_parse [''f'', ''g'']
       (merge_from_json (merge_to_json (r\<lparr>mg_offsets := snd (ys ! 0)\<rparr>))) small_content = Some (zs, None, stop') \<and>
     map fst zs = map fst (drop 1 ys)"
proof -
  obtain r where r: "merge_split_input [[''f'', ''g'']] (Some 2) None = [r]" by (simp add: merge_split_input_def)
  obtain ys offsets w' where run: "merge_iter memory_service plain_parse [''f'', ''g''] r small_content = Some (ys, None, offsets, w')"
      "map fst ys = key_groups (mg_max_values_count r) (mg_max_values_size r) (None, 0, 0) (kmerge [small_kvs, small_kvs])"
    using merge_fresh [OF small_input refl r] by auto
  have "mset (concat (map ungroup (map fst ys))) = mset (small_kvs @ small_kvs)"
    unfolding run(2) by (simp add: key_groups_all kmerge_mset)
  then have "0 < length ys" by (cases ys) (auto simp: small_kvs_def)
  from merge_resumes [OF small_input refl refl r run(1) this] show ?thesis using r run(1) by auto
qed

text \<open>
  The size of the first value of a group is not counted: a group may be larger than \<open>max_values_size\<close>.
\<close>

theorem size_limit_skips_first_value:
  "max_size \<noteq> - 1 \<Longrightarrow> int (length v') < max_size \<Longrightarrow>
     key_groups (- 1) max_size (None, 0, 0) [(k, v), (k, v')] = [(k, [v, v'], False)]"
  by (simp add: absorb_None absorb_Some joins_def)

theorem size_limit_skips_first_value_witness:
  "key_groups (- 1) 10 (None, 0, 0) [([1], replicate 100 0), ([1], replicate 9 0)] = [([1], [replicate 100 0, replicate 9 0], False)]"
  by (rule size_limit_skips_first_value) simp_all

end
