(* ===== verification/MutationPool.thy ===== *)
theory MutationPool
  imports Prelude
begin

text \<open>
  \<open>mapreduce/context.py\<close>: the pool that gathers the changes a mapper makes to the datastore and applies them in
  batches, and the context that holds this and other pools and flushes them together. The datastore is not part
  of the repository: it is a record of its calls.
\<close>

section \<open>Constants\<close>

definition MAX_POOL_SIZE :: nat where "MAX_POOL_SIZE = 900 * 1000"

definition MAX_ENTITY_COUNT :: nat where "MAX_ENTITY_COUNT = 500"

definition DATASTORE_DEADLINE :: nat where "DATASTORE_DEADLINE = 15"

section \<open>The datastore\<close>

text \<open>
  The batch calls of the two interfaces, with a deadline and \<open>force_writes\<close>, the lengths of encoded entities and
  keys, the key of an entity, and the key that a string stands for, if it does.
\<close>

record ('w, 'e, 'k) datastore =
  ds_Put :: "nat \<times> bool \<Rightarrow> 'e list \<Rightarrow> ('w, unit) act"
  ds_Delete :: "nat \<times> bool \<Rightarrow> 'k list \<Rightarrow> ('w, unit) act"
  ds_put_multi :: "nat \<times> bool \<Rightarrow> 'e list \<Rightarrow> ('w, unit) act"
  ds_delete_multi :: "nat \<times> bool \<Rightarrow> 'k list \<Rightarrow> ('w, unit) act"
  ds_entity_size :: "'e \<Rightarrow> nat"
  ds_key_size :: "'k \<Rightarrow> nat"
  ds_key :: "'e \<Rightarrow> 'k"
  ds_parse_key :: "string \<Rightarrow> 'k res"

text \<open>What is put, and what is given to \<open>delete\<close>: of the \<open>db\<close> or of the \<open>ndb\<close> interface.\<close>

datatype 'e model = Db_model 'e | Ndb_model 'e

datatype ('e, 'k) target = Entity "'e model" | Db_key 'k | Key_string string | Ndb_key 'k

definition normalize_entity :: "'e model \<Rightarrow> 'e option" where
  "normalize_entity m = (case m of Ndb_model e \<Rightarrow> None | Db_model e \<Rightarrow> Some e)"

definition normalize_key :: "('w, 'e, 'k) datastore \<Rightarrow> ('e, 'k) target \<Rightarrow> 'k option res" where
  "normalize_key ds v = (case v of
      Entity (Ndb_model e) \<Rightarrow> Inr None
    | Ndb_key k \<Rightarrow> Inr None
    | Entity (Db_model e) \<Rightarrow> Inr (Some (ds_key ds e))
    | Key_string s \<Rightarrow> bindR (ds_parse_key ds s) (\<lambda>k. Inr (Some k))
    | Db_key k \<Rightarrow> Inr (Some k))"

section \<open>Item lists\<close>

record 'a item_list =
  il_items :: "'a list"
  il_length :: nat
  il_size :: nat

definition item_list_init :: "'a item_list" where
  "item_list_init = \<lparr>il_items = [], il_length = 0, il_size = 0\<rparr>"

definition item_list_append :: "'a \<Rightarrow> nat \<Rightarrow> 'a item_list \<Rightarrow> 'a item_list" where
  "item_list_append item item_size l =
     \<lparr>il_items = il_items l @ [item], il_length = il_length l + 1, il_size = il_size l + item_size\<rparr>"

definition item_list_clear :: "'a item_list \<Rightarrow> 'a item_list" where
  "item_list_clear l = \<lparr>il_items = [], il_length = 0, il_size = 0\<rparr>"

section \<open>The pool\<close>

record ('e, 'k) mutation_pool =
  mp_max_pool_size :: nat
  mp_max_entity_count :: nat
  mp_force_writes :: bool
  mp_puts :: "'e item_list"
  mp_deletes :: "'k item_list"
  mp_ndb_puts :: "'e item_list"
  mp_ndb_deletes :: "'k item_list"

definition mutation_pool_init :: "nat \<Rightarrow> nat \<Rightarrow> bool \<Rightarrow> ('e, 'k) mutation_pool" where
  "mutation_pool_init max_pool_size max_entity_count force_ops_writes =
     \<lparr>mp_max_pool_size = max_pool_size, mp_max_entity_count = max_entity_count, mp_force_writes = force_ops_writes,
      mp_puts = item_list_init, mp_deletes = item_list_init, mp_ndb_puts = item_list_init, mp_ndb_deletes = item_list_init\<rparr>"

definition create_config :: "('e, 'k) mutation_pool \<Rightarrow> nat \<times> bool" where
  "create_config p = (DATASTORE_DEADLINE, mp_force_writes p)"

text \<open>A batch is sent unless it is empty; the list is cleared only when the call returns.\<close>

definition flush_puts :: "('w, 'e, 'k) datastore \<Rightarrow> (('e, 'k) mutation_pool \<times> 'w, unit) act" where
  "flush_puts ds = (\<lambda>(p, w).
     case (if il_length (mp_puts p) \<noteq> 0 then ds_Put ds (create_config p) (il_items (mp_puts p)) w else (Inr (), w)) of
       (Inl e, w') \<Rightarrow> (Inl e, (p, w'))
     | (Inr _, w') \<Rightarrow> (Inr (), (p\<lparr>mp_puts := item_list_clear (mp_puts p)\<rparr>, w')))"

definition flush_deletes :: "('w, 'e, 'k) datastore \<Rightarrow> (('e, 'k) mutation_pool \<times> 'w, unit) act" where
  "flush_deletes ds = (\<lambda>(p, w).
     case (if il_length (mp_deletes p) \<noteq> 0 then ds_Delete ds (create_config p) (il_items (mp_deletes p)) w else (Inr (), w)) of
       (Inl e, w') \<Rightarrow> (Inl e, (p, w'))
     | (Inr _, w') \<Rightarrow> (Inr (), (p\<lparr>mp_deletes := item_list_clear (mp_deletes p)\<rparr>, w')))"

definition flush_ndb_puts :: "('w, 'e, 'k) datastore \<Rightarrow> (('e, 'k) mutation_pool \<times> 'w, unit) act" where
  "flush_ndb_puts ds = (\<lambda>(p, w).
     case (if il_length (mp_ndb_puts p) \<noteq> 0 then ds_put_multi ds (create_config p) (il_items (mp_ndb_puts p)) w else (Inr (), w)) of
       (Inl e, w') \<Rightarrow> (Inl e, (p, w'))
     | (Inr _, w') \<Rightarrow> (Inr (), (p\<lparr>mp_ndb_puts := item_list_clear (mp_ndb_puts p)\<rparr>, w')))"

definition flush_ndb_deletes :: "('w, 'e, 'k) datastore \<Rightarrow> (('e, 'k) mutation_pool \<times> 'w, unit) act" where
  "flush_ndb_deletes ds = (\<lambda>(p, w).
     case (if il_length (mp_ndb_deletes p) \<noteq> 0
           then ds_delete_multi ds (create_config p) (il_items (mp_ndb_deletes p)) w else (Inr (), w)) of
       (Inl e, w') \<Rightarrow> (Inl e, (p, w'))
     | (Inr _, w') \<Rightarrow> (Inr (), (p\<lparr>mp_ndb_deletes := item_list_clear (mp_ndb_deletes p)\<rparr>, w')))"

definition mutation_pool_flush :: "('w, 'e, 'k) datastore \<Rightarrow> (('e, 'k) mutation_pool \<times> 'w, unit) act" where
  "mutation_pool_flush ds =
     seqA (flush_puts ds) (seqA (flush_deletes ds) (seqA (flush_ndb_puts ds) (flush_ndb_deletes ds)))"

text \<open>The test before an item is added.\<close>

definition is_full :: "('e, 'k) mutation_pool \<Rightarrow> 'a item_list \<Rightarrow> nat \<Rightarrow> bool" where
  "is_full p l item_size \<longleftrightarrow> il_length l \<ge> mp_max_entity_count p \<or> il_size l + item_size > mp_max_pool_size p"

definition ndb_put :: "('w, 'e, 'k) datastore \<Rightarrow> 'e \<Rightarrow> (('e, 'k) mutation_pool \<times> 'w, unit) act" where
  "ndb_put ds entity = (let entity_size = ds_entity_size ds entity in
     seqA (\<lambda>(p, w). if is_full p (mp_ndb_puts p) entity_size then flush_ndb_puts ds (p, w) else (Inr (), (p, w)))
       (modA (\<lambda>(p, w). (p\<lparr>mp_ndb_puts := item_list_append entity entity_size (mp_ndb_puts p)\<rparr>, w))))"

definition mutation_pool_put :: "('w, 'e, 'k) datastore \<Rightarrow> 'e model \<Rightarrow> (('e, 'k) mutation_pool \<times> 'w, unit) act" where
  "mutation_pool_put ds entity =
     (case normalize_entity entity of
        None \<Rightarrow> (case entity of Ndb_model e \<Rightarrow> ndb_put ds e | Db_model e \<Rightarrow> raiseA PlainException)
      | Some actual_entity \<Rightarrow> (let entity_size = ds_entity_size ds actual_entity in
          seqA (\<lambda>(p, w). if is_full p (mp_puts p) entity_size then flush_puts ds (p, w) else (Inr (), (p, w)))
            (modA (\<lambda>(p, w). (p\<lparr>mp_puts := item_list_append actual_entity entity_size (mp_puts p)\<rparr>, w)))))"

definition ndb_delete :: "('w, 'e, 'k) datastore \<Rightarrow> 'k \<Rightarrow> (('e, 'k) mutation_pool \<times> 'w, unit) act" where
  "ndb_delete ds key = (let key_size = ds_key_size ds key in
     seqA (\<lambda>(p, w). if is_full p (mp_ndb_deletes p) key_size then flush_ndb_deletes ds (p, w) else (Inr (), (p, w)))
       (modA (\<lambda>(p, w). (p\<lparr>mp_ndb_deletes := item_list_append key key_size (mp_ndb_deletes p)\<rparr>, w))))"

definition mutation_pool_delete :: "('w, 'e, 'k) datastore \<Rightarrow> ('e, 'k) target \<Rightarrow> (('e, 'k) mutation_pool \<times> 'w, unit) act" where
  "mutation_pool_delete ds entity = bindA (liftR (normalize_key ds entity)) (\<lambda>key.
     case key of
       None \<Rightarrow> (case entity of Entity (Ndb_model e) \<Rightarrow> ndb_delete ds (ds_key ds e) | Ndb_key k \<Rightarrow> ndb_delete ds k | _ \<Rightarrow> raiseA AttributeError)
     | Some key \<Rightarrow> (let key_size = ds_key_size ds key in
         seqA (\<lambda>(p, w). if is_full p (mp_deletes p) key_size then flush_deletes ds (p, w) else (Inr (), (p, w)))
           (modA (\<lambda>(p, w). (p\<lparr>mp_deletes := item_list_append key key_size (mp_deletes p)\<rparr>, w)))))"

section \<open>The context\<close>

text \<open>
  The pools by name, in a dictionary; \<open>flush\<close> says how a pool is flushed and \<open>order\<close> in which order the
  dictionary hands them out.
\<close>

type_synonym 'p pools = "(string \<times> 'p) list"

fun register_pool :: "string \<Rightarrow> 'p \<Rightarrow> 'p pools \<Rightarrow> 'p pools" where
  "register_pool key pool [] = [(key, pool)]"
| "register_pool key pool ((k, p) # ps) = (if k = key then (k, pool) # ps else (k, p) # register_pool key pool ps)"

definition get_pool :: "'p pools \<Rightarrow> string \<Rightarrow> 'p option" where
  "get_pool pools key = map_of pools key"

definition on_pool :: "('p \<times> 'w, 'a) act \<Rightarrow> string \<Rightarrow> 'p \<Rightarrow> ('p pools \<times> 'w, 'a) act" where
  "on_pool m key pool = (\<lambda>(pools, w). case m (pool, w) of (r, (pool', w')) \<Rightarrow> (r, (register_pool key pool' pools, w')))"

definition context_flush ::
    "('p \<times> 'w, unit) act \<Rightarrow> (string list \<Rightarrow> string list) \<Rightarrow> ('p pools \<times> 'w, unit) act" where
  "context_flush flush order = (\<lambda>(pools, w).
     forA (\<lambda>key (pools, w). case get_pool pools key of
               None \<Rightarrow> (Inr (), (pools, w))
             | Some pool \<Rightarrow> on_pool flush key pool (pools, w))
       (order (map fst pools)) (pools, w))"

lemma get_register_pool: "get_pool (register_pool key pool pools) k = (if k = key then Some pool else get_pool pools k)"
  by (induction key pool pools rule: register_pool.induct) (auto simp: get_pool_def)

lemma register_pool_keys: "fst ` set (register_pool key pool pools) = insert key (fst ` set pools)"
  by (induction key pool pools rule: register_pool.induct) auto

lemma get_pool_SomeD: "get_pool pools key = Some pool \<Longrightarrow> key \<in> fst ` set pools"
  unfolding get_pool_def by (metis domI dom_map_of_conv_image_fst)

text \<open>The mutation pool of a context gets smaller with every retry of its task.\<close>

definition context_mutation_pool :: "nat \<Rightarrow> bool \<Rightarrow> ('e, 'k) mutation_pool" where
  "context_mutation_pool task_retry_count force_ops_writes =
     mutation_pool_init (MAX_POOL_SIZE div 2 ^ task_retry_count) (MAX_ENTITY_COUNT div 2 ^ task_retry_count) force_ops_writes"

section \<open>Operations as writes\<close>

text \<open>The four lists of a pool, and what it means to write their items: an entity for a key, or none.\<close>

datatype kind = Puts | Deletes | Ndb_puts | Ndb_deletes

fun writes :: "('w, 'e, 'k) datastore \<Rightarrow> kind \<Rightarrow> ('e, 'k) mutation_pool \<Rightarrow> ('k \<times> 'e option) list" where
  "writes ds Puts p = map (\<lambda>e. (ds_key ds e, Some e)) (il_items (mp_puts p))"
| "writes ds Deletes p = map (\<lambda>k. (k, None)) (il_items (mp_deletes p))"
| "writes ds Ndb_puts p = map (\<lambda>e. (ds_key ds e, Some e)) (il_items (mp_ndb_puts p))"
| "writes ds Ndb_deletes p = map (\<lambda>k. (k, None)) (il_items (mp_ndb_deletes p))"

definition written :: "('k \<times> 'e option) list \<Rightarrow> ('k \<rightharpoonup> 'e) \<Rightarrow> ('k \<rightharpoonup> 'e)" where
  "written ws m = fold (\<lambda>(k, v) m. m(k := v)) ws m"

lemma written_simps [simp]:
  "written [] m = m"
  "written (ws @ [(k, v)]) m = (written ws m)(k := v)"
  "written ((k, v) # ws) m = written ws (m(k := v))"
  by (simp_all add: written_def)

lemma written_other: "k \<notin> fst ` set ws \<Longrightarrow> written ws m k = m k"
  by (induction ws arbitrary: m) auto

lemma written_cong: "m k = m' k \<Longrightarrow> written ws m k = written ws m' k"
proof (induction ws arbitrary: m m')
  case (Cons kv ws)
  obtain k' v where kv: "kv = (k', v)" by fastforce
  show ?case unfolding kv written_simps by (rule Cons.IH) (simp add: Cons.prems)
qed simp

datatype ('e, 'k) mutation = Put "'e model" | Delete "('e, 'k) target"

fun mutate :: "('w, 'e, 'k) datastore \<Rightarrow> ('e, 'k) mutation \<Rightarrow> (('e, 'k) mutation_pool \<times> 'w, unit) act" where
  "mutate ds (Put m) = mutation_pool_put ds m"
| "mutate ds (Delete t) = mutation_pool_delete ds t"

lemma all_kinds: "(\<forall>j. P j) \<longleftrightarrow> P Puts \<and> P Deletes \<and> P Ndb_puts \<and> P Ndb_deletes"
  by (metis kind.exhaust)

text \<open>The write that an operation asks for, and the list it goes to.\<close>

fun write_of :: "('w, 'e, 'k) datastore \<Rightarrow> ('e, 'k) mutation \<Rightarrow> (kind \<times> 'k \<times> 'e option) res" where
  "write_of ds (Put (Db_model e)) = Inr (Puts, ds_key ds e, Some e)"
| "write_of ds (Put (Ndb_model e)) = Inr (Ndb_puts, ds_key ds e, Some e)"
| "write_of ds (Delete (Entity (Db_model e))) = Inr (Deletes, ds_key ds e, None)"
| "write_of ds (Delete (Entity (Ndb_model e))) = Inr (Ndb_deletes, ds_key ds e, None)"
| "write_of ds (Delete (Db_key k)) = Inr (Deletes, k, None)"
| "write_of ds (Delete (Ndb_key k)) = Inr (Ndb_deletes, k, None)"
| "write_of ds (Delete (Key_string s)) = bindR (ds_parse_key ds s) (\<lambda>k. Inr (Deletes, k, None))"

text \<open>What is asked of the datastore: a batch writes its items in order and nothing else.\<close>

definition stores :: "('w, 'e, 'k) datastore \<Rightarrow> ('w \<Rightarrow> 'k \<rightharpoonup> 'e) \<Rightarrow> bool" where
  "stores ds st \<longleftrightarrow>
     (\<forall>c es w. \<exists>w'. ds_Put ds c es w = (Inr (), w') \<and> st w' = written (map (\<lambda>e. (ds_key ds e, Some e)) es) (st w)) \<and>
     (\<forall>c ks w. \<exists>w'. ds_Delete ds c ks w = (Inr (), w') \<and> st w' = written (map (\<lambda>k. (k, None)) ks) (st w)) \<and>
     (\<forall>c es w. \<exists>w'. ds_put_multi ds c es w = (Inr (), w') \<and> st w' = written (map (\<lambda>e. (ds_key ds e, Some e)) es) (st w)) \<and>
     (\<forall>c ks w. \<exists>w'. ds_delete_multi ds c ks w = (Inr (), w') \<and> st w' = written (map (\<lambda>k. (k, None)) ks) (st w))"

text \<open>The counts of a list are those of its items, and it is within the limits of the pool or has one item.\<close>

definition list_ok :: "('e, 'k) mutation_pool \<Rightarrow> ('a \<Rightarrow> nat) \<Rightarrow> 'a item_list \<Rightarrow> bool" where
  "list_ok p item_size l \<longleftrightarrow> il_length l = length (il_items l) \<and> il_size l = sum_list (map item_size (il_items l)) \<and>
     il_length l \<le> max 1 (mp_max_entity_count p) \<and> (il_size l \<le> mp_max_pool_size p \<or> il_length l \<le> 1)"

definition pool_ok :: "('w, 'e, 'k) datastore \<Rightarrow> ('e, 'k) mutation_pool \<Rightarrow> bool" where
  "pool_ok ds p \<longleftrightarrow> list_ok p (ds_entity_size ds) (mp_puts p) \<and> list_ok p (ds_key_size ds) (mp_deletes p) \<and>
     list_ok p (ds_entity_size ds) (mp_ndb_puts p) \<and> list_ok p (ds_key_size ds) (mp_ndb_deletes p)"

fun flush_kind :: "('w, 'e, 'k) datastore \<Rightarrow> kind \<Rightarrow> (('e, 'k) mutation_pool \<times> 'w, unit) act" where
  "flush_kind ds Puts = flush_puts ds"
| "flush_kind ds Deletes = flush_deletes ds"
| "flush_kind ds Ndb_puts = flush_ndb_puts ds"
| "flush_kind ds Ndb_deletes = flush_ndb_deletes ds"

lemmas flush_defs = flush_puts_def flush_deletes_def flush_ndb_puts_def flush_ndb_deletes_def
lemmas item_list_defs = item_list_init_def item_list_append_def item_list_clear_def

lemma list_ok_clear: "list_ok p f (item_list_clear l)"
  by (simp add: list_ok_def item_list_clear_def)

lemma list_ok_append: "list_ok p f l \<Longrightarrow> \<not> is_full p l (f x) \<Longrightarrow> list_ok p f (item_list_append x (f x) l)"
  by (auto simp: list_ok_def is_full_def item_list_append_def)

lemma list_ok_one: "list_ok p f (item_list_append x (f x) (item_list_clear l))"
  by (auto simp: list_ok_def item_list_defs)

lemma list_ok_limits [simp]:
  "list_ok (p\<lparr>mp_puts := a\<rparr>) = list_ok p" "list_ok (p\<lparr>mp_deletes := b\<rparr>) = list_ok p"
  "list_ok (p\<lparr>mp_ndb_puts := a\<rparr>) = list_ok p" "list_ok (p\<lparr>mp_ndb_deletes := b\<rparr>) = list_ok p"
  by (simp_all add: list_ok_def fun_eq_iff)

lemma flush_kind_ok: "pool_ok ds (fst s) \<Longrightarrow> pool_ok ds (fst (snd (flush_kind ds i s)))"
  by (cases i; cases s) (auto simp: flush_defs pool_ok_def list_ok_clear split: prod.splits sum.splits if_splits)

lemma list_ok_count: "list_ok p f l \<Longrightarrow> il_length l = length (il_items l)"
  by (simp add: list_ok_def)

fun batch :: "('w, 'e, 'k) datastore \<Rightarrow> kind \<Rightarrow> ('e, 'k) mutation_pool \<Rightarrow> ('w, unit) act" where
  "batch ds Puts p = ds_Put ds (create_config p) (il_items (mp_puts p))"
| "batch ds Deletes p = ds_Delete ds (create_config p) (il_items (mp_deletes p))"
| "batch ds Ndb_puts p = ds_put_multi ds (create_config p) (il_items (mp_ndb_puts p))"
| "batch ds Ndb_deletes p = ds_delete_multi ds (create_config p) (il_items (mp_ndb_deletes p))"

lemma stores_batch:
  assumes "stores ds st"
  obtains w' where "batch ds i p w = (Inr (), w')" "st w' = written (writes ds i p) (st w)"
proof -
  have "\<exists>w'. batch ds i p w = (Inr (), w') \<and> st w' = written (writes ds i p) (st w)"
    using assms by (cases i) (simp_all add: stores_def create_config_def)
  then show ?thesis using that by blast
qed

lemma flush_kind_run:
  assumes "stores ds st" "pool_ok ds p"
  obtains p' w' where "flush_kind ds i (p, w) = (Inr (), (p', w'))" "st w' = written (writes ds i p) (st w)"
    "writes ds i p' = []" "\<forall>j. j \<noteq> i \<longrightarrow> writes ds j p' = writes ds j p" "pool_ok ds p'"
proof -
  have ok: "pool_ok ds (fst (snd (flush_kind ds i (p, w))))" by (rule flush_kind_ok) (simp add: assms(2))
  have counts: "il_length (mp_puts p) = length (il_items (mp_puts p))" "il_length (mp_deletes p) = length (il_items (mp_deletes p))"
    "il_length (mp_ndb_puts p) = length (il_items (mp_ndb_puts p))" "il_length (mp_ndb_deletes p) = length (il_items (mp_ndb_deletes p))"
    using assms(2) by (simp_all add: pool_ok_def list_ok_def)
  obtain w' where sent: "batch ds i p w = (Inr (), w')" "st w' = written (writes ds i p) (st w)"
    by (rule stores_batch [OF assms(1)])
  have "\<exists>p' w'. flush_kind ds i (p, w) = (Inr (), (p', w')) \<and> st w' = written (writes ds i p) (st w) \<and>
      writes ds i p' = [] \<and> (\<forall>j. j \<noteq> i \<longrightarrow> writes ds j p' = writes ds j p)"
    using sent counts by (cases i) (simp_all add: flush_defs item_list_clear_def all_kinds)
  then show ?thesis using that ok by auto
qed

text \<open>An operation, whatever its kind: make room if there is none, then add an item.\<close>

fun full_for :: "('w, 'e, 'k) datastore \<Rightarrow> kind \<Rightarrow> 'k \<Rightarrow> 'e option \<Rightarrow> ('e, 'k) mutation_pool \<Rightarrow> bool" where
  "full_for ds Puts k v p = is_full p (mp_puts p) (ds_entity_size ds (the v))"
| "full_for ds Deletes k v p = is_full p (mp_deletes p) (ds_key_size ds k)"
| "full_for ds Ndb_puts k v p = is_full p (mp_ndb_puts p) (ds_entity_size ds (the v))"
| "full_for ds Ndb_deletes k v p = is_full p (mp_ndb_deletes p) (ds_key_size ds k)"

fun add_item :: "('w, 'e, 'k) datastore \<Rightarrow> kind \<Rightarrow> 'k \<Rightarrow> 'e option \<Rightarrow> ('e, 'k) mutation_pool \<Rightarrow> ('e, 'k) mutation_pool" where
  "add_item ds Puts k v p = p\<lparr>mp_puts := item_list_append (the v) (ds_entity_size ds (the v)) (mp_puts p)\<rparr>"
| "add_item ds Deletes k v p = p\<lparr>mp_deletes := item_list_append k (ds_key_size ds k) (mp_deletes p)\<rparr>"
| "add_item ds Ndb_puts k v p = p\<lparr>mp_ndb_puts := item_list_append (the v) (ds_entity_size ds (the v)) (mp_ndb_puts p)\<rparr>"
| "add_item ds Ndb_deletes k v p = p\<lparr>mp_ndb_deletes := item_list_append k (ds_key_size ds k) (mp_ndb_deletes p)\<rparr>"

definition well_formed_write :: "('w, 'e, 'k) datastore \<Rightarrow> kind \<Rightarrow> 'k \<Rightarrow> 'e option \<Rightarrow> bool" where
  "well_formed_write ds i k v \<longleftrightarrow> (if i = Puts \<or> i = Ndb_puts then \<exists>e. v = Some e \<and> k = ds_key ds e else v = None)"

lemma write_of_well_formed: "write_of ds op = Inr (i, k, v) \<Longrightarrow> well_formed_write ds i k v"
  by (cases "(ds, op)" rule: write_of.cases) (auto simp: well_formed_write_def bindR_Inr_iff)

lemma mutate_form:
  "write_of ds op = Inr (i, k, v) \<Longrightarrow> mutate ds op =
     seqA (\<lambda>(p, w). if full_for ds i k v p then flush_kind ds i (p, w) else (Inr (), (p, w)))
       (modA (\<lambda>(p, w). (add_item ds i k v p, w)))"
  by (cases "(ds, op)" rule: write_of.cases)
    (auto simp: mutation_pool_put_def normalize_entity_def ndb_put_def mutation_pool_delete_def normalize_key_def
      ndb_delete_def bindA_def bindR_Inr_iff fun_eq_iff Let_def cong: if_cong)

lemma add_item_writes:
  "well_formed_write ds i k v \<Longrightarrow> writes ds i (add_item ds i k v p) = writes ds i p @ [(k, v)]"
  "j \<noteq> i \<Longrightarrow> writes ds j (add_item ds i k v p) = writes ds j p"
  by (cases i; auto simp: well_formed_write_def item_list_append_def) (cases i; cases j; simp)

lemma add_item_ok:
  assumes "pool_ok ds p" "\<not> full_for ds i k v p \<or> writes ds i p = []"
  shows "pool_ok ds (add_item ds i k v p)"
proof -
  have empty: "list_ok p f (item_list_append x (f x) l)" if "list_ok p f l" "il_items l = []" for f :: "'x \<Rightarrow> nat" and x l
    using that by (auto simp: list_ok_def item_list_append_def)
  show ?thesis using assms by (cases i) (auto simp: pool_ok_def intro: list_ok_append empty)
qed

lemma mutate_run:
  assumes "stores ds st" "pool_ok ds p" "write_of ds op = Inr (i, k, v)"
  obtains p' w' ws where "mutate ds op (p, w) = (Inr (), (p', w'))" "pool_ok ds p'"
    "ws = writes ds i p \<and> st w' = st w \<or> ws = [] \<and> st w' = written (writes ds i p) (st w)"
    "writes ds i p' = ws @ [(k, v)]" "\<forall>j. j \<noteq> i \<longrightarrow> writes ds j p' = writes ds j p"
proof (cases "full_for ds i k v p")
  case False
  note wf = write_of_well_formed [OF assms(3)]
  show ?thesis
    by (rule that [of "add_item ds i k v p" w "writes ds i p"])
      (use False assms(2) in \<open>simp_all add: mutate_form [OF assms(3)] seqA_def bindA_def add_item_ok add_item_writes wf\<close>)
next
  case True
  note wf = write_of_well_formed [OF assms(3)]
  obtain p1 w1 where flushed: "flush_kind ds i (p, w) = (Inr (), (p1, w1))" "st w1 = written (writes ds i p) (st w)"
    "writes ds i p1 = []" "\<forall>j. j \<noteq> i \<longrightarrow> writes ds j p1 = writes ds j p" "pool_ok ds p1"
    by (rule flush_kind_run [OF assms(1,2)])
  show ?thesis
    by (rule that [of "add_item ds i k v p1" w1 "[]"])
      (use True flushed in \<open>simp_all add: mutate_form [OF assms(3)] seqA_def bindA_def add_item_ok add_item_writes wf\<close>)
qed

section \<open>What a flush leads to\<close>

text \<open>
  When every key is only changed by one kind of operation (\<open>kind_of\<close>), what a flush will make of a key depends on
  one list of the pool.
\<close>

definition sorted_out :: "('w, 'e, 'k) datastore \<Rightarrow> ('k \<Rightarrow> kind) \<Rightarrow> ('e, 'k) mutation_pool \<Rightarrow> bool" where
  "sorted_out ds kind_of p \<longleftrightarrow> (\<forall>i. \<forall>kv \<in> set (writes ds i p). kind_of (fst kv) = i)"

definition promised :: "('w, 'e, 'k) datastore \<Rightarrow> ('k \<Rightarrow> kind) \<Rightarrow> ('e, 'k) mutation_pool \<Rightarrow> ('k \<rightharpoonup> 'e) \<Rightarrow> ('k \<rightharpoonup> 'e)" where
  "promised ds kind_of p m = (\<lambda>k. written (writes ds (kind_of k) p) m k)"

lemma flush_promised:
  assumes "sorted_out ds kind_of p" "writes ds i p' = []" "\<And>j. j \<noteq> i \<Longrightarrow> writes ds j p' = writes ds j p"
  shows "promised ds kind_of p' (written (writes ds i p) m) = promised ds kind_of p m \<and> sorted_out ds kind_of p'"
proof
  show "promised ds kind_of p' (written (writes ds i p) m) = promised ds kind_of p m"
  proof
    fix k
    show "promised ds kind_of p' (written (writes ds i p) m) k = promised ds kind_of p m k"
    proof (cases "kind_of k = i")
      case False
      then have "k \<notin> fst ` set (writes ds i p)" using assms(1) by (auto simp: sorted_out_def)
      then have "written (writes ds i p) m k = m k" by (rule written_other)
      then show ?thesis using False assms(3) by (simp add: promised_def) (rule written_cong)
    qed (use assms(2) in \<open>simp add: promised_def\<close>)
  qed
  show "sorted_out ds kind_of p'" using assms unfolding sorted_out_def by (metis empty_iff list.set(1))
qed

lemma mutate_promised:
  assumes ds: "stores ds st" and p: "pool_ok ds p" "sorted_out ds kind_of p" and op: "write_of ds op = Inr (kind_of k, k, v)"
  shows "\<exists>p' w'. mutate ds op (p, w) = (Inr (), (p', w')) \<and> pool_ok ds p' \<and> sorted_out ds kind_of p' \<and>
           promised ds kind_of p' (st w') = (promised ds kind_of p (st w))(k := v)"
proof -
  let ?i = "kind_of k"
  obtain p' w' ws where run: "mutate ds op (p, w) = (Inr (), (p', w'))" "pool_ok ds p'"
    "ws = writes ds ?i p \<and> st w' = st w \<or> ws = [] \<and> st w' = written (writes ds ?i p) (st w)"
    "writes ds ?i p' = ws @ [(k, v)]" "\<forall>j. j \<noteq> ?i \<longrightarrow> writes ds j p' = writes ds j p"
    by (rule mutate_run [OF ds p(1) op])
  have "set ws \<subseteq> set (writes ds ?i p)" using run(3) by auto
  then have "kind_of (fst kv) = i" if "kv \<in> set (writes ds i p')" for i kv
    using that run(4,5) p(2) by (cases "i = ?i") (auto simp: sorted_out_def)
  then have "sorted_out ds kind_of p'" by (simp add: sorted_out_def)
  moreover have "promised ds kind_of p' (st w') = (promised ds kind_of p (st w))(k := v)"
  proof
    fix k'
    consider (same) "kind_of k' = ?i" | (other) "kind_of k' \<noteq> ?i" by blast
    then show "promised ds kind_of p' (st w') k' = ((promised ds kind_of p (st w))(k := v)) k'"
    proof cases
      case same
      have "written ws (st w') k' = written (writes ds ?i p) (st w) k'" using run(3) by auto
      then show ?thesis using same run(4) by (simp add: promised_def)
    next
      case other
      then have "k' \<notin> fst ` set (writes ds ?i p)" "k' \<noteq> k" using p(2) by (auto simp: sorted_out_def)
      then have "st w' k' = st w k'" using run(3) written_other by metis
      then show ?thesis using other run(5) \<open>k' \<noteq> k\<close> by (simp add: promised_def) (rule written_cong)
    qed
  qed
  ultimately show ?thesis using run(1,2) by blast
qed

lemma mutations_promised:
  assumes ds: "stores ds st"
  shows "pool_ok ds p \<Longrightarrow> sorted_out ds kind_of p \<Longrightarrow> list_all2 (\<lambda>op (k, v). write_of ds op = Inr (kind_of k, k, v)) ops ws \<Longrightarrow>
     \<exists>p' w'. forA (mutate ds) ops (p, w) = (Inr (), (p', w')) \<and> pool_ok ds p' \<and> sorted_out ds kind_of p' \<and>
       promised ds kind_of p' (st w') = written ws (promised ds kind_of p (st w))"
proof (induction ops arbitrary: p w ws)
  case (Cons op ops)
  obtain k v ws' where ws: "ws = (k, v) # ws'" "write_of ds op = Inr (kind_of k, k, v)"
      "list_all2 (\<lambda>op (k, v). write_of ds op = Inr (kind_of k, k, v)) ops ws'"
    using Cons.prems(3) by (auto simp: list_all2_Cons1)
  from mutate_promised [OF ds Cons.prems(1,2) ws(2)] obtain p1 w1 where step: "mutate ds op (p, w) = (Inr (), (p1, w1))"
      "pool_ok ds p1" "sorted_out ds kind_of p1" "promised ds kind_of p1 (st w1) = (promised ds kind_of p (st w))(k := v)" by blast
  have "forA (mutate ds) (op # ops) (p, w) = forA (mutate ds) ops (p1, w1)" using step(1) by (simp add: seqA_def bindA_def)
  with Cons.IH [OF step(2,3) ws(3), of w1, unfolded step(4)] show ?case unfolding ws(1) written_simps by metis
qed simp

lemma pool_flush_promised:
  assumes ds: "stores ds st" and p: "pool_ok ds p" "sorted_out ds kind_of p"
  shows "\<exists>p' w'. mutation_pool_flush ds (p, w) = (Inr (), (p', w')) \<and> st w' = promised ds kind_of p (st w) \<and>
    (\<forall>i. writes ds i p' = [])"
proof -
  have step: "\<exists>p' w'. flush_kind ds i (p, w) = (Inr (), (p', w')) \<and> pool_ok ds p' \<and> sorted_out ds kind_of p' \<and>
      promised ds kind_of p' (st w') = promised ds kind_of p (st w) \<and> writes ds i p' = [] \<and>
      (\<forall>j. writes ds j p = [] \<longrightarrow> writes ds j p' = [])" if p: "pool_ok ds p" "sorted_out ds kind_of p" for i p w
  proof -
    obtain p' w' where run: "flush_kind ds i (p, w) = (Inr (), (p', w'))" "st w' = written (writes ds i p) (st w)"
      "writes ds i p' = []" "\<forall>j. j \<noteq> i \<longrightarrow> writes ds j p' = writes ds j p" "pool_ok ds p'"
      by (rule flush_kind_run [OF ds p(1)])
    have "\<forall>j. writes ds j p = [] \<longrightarrow> writes ds j p' = []" using run(3,4) by metis
    with flush_promised [OF p(2) run(3), of "st w"] run show ?thesis by auto
  qed
  obtain p1 w1 where 1: "flush_kind ds Puts (p, w) = (Inr (), (p1, w1))" "pool_ok ds p1" "sorted_out ds kind_of p1"
    "promised ds kind_of p1 (st w1) = promised ds kind_of p (st w)" "writes ds Puts p1 = []"
    using step [OF p] by blast
  obtain p2 w2 where 2: "flush_kind ds Deletes (p1, w1) = (Inr (), (p2, w2))" "pool_ok ds p2" "sorted_out ds kind_of p2"
    "promised ds kind_of p2 (st w2) = promised ds kind_of p1 (st w1)" "writes ds Deletes p2 = []" "writes ds Puts p2 = []"
    using step [OF 1(2,3)] 1(5) by blast
  obtain p3 w3 where 3: "flush_kind ds Ndb_puts (p2, w2) = (Inr (), (p3, w3))" "pool_ok ds p3" "sorted_out ds kind_of p3"
    "promised ds kind_of p3 (st w3) = promised ds kind_of p2 (st w2)" "writes ds Ndb_puts p3 = []" "writes ds Deletes p3 = []"
    "writes ds Puts p3 = []"
    using step [OF 2(2,3)] 2(5,6) by blast
  obtain p4 w4 where 4: "flush_kind ds Ndb_deletes (p3, w3) = (Inr (), (p4, w4))" "sorted_out ds kind_of p4"
    "promised ds kind_of p4 (st w4) = promised ds kind_of p3 (st w3)" "writes ds Ndb_deletes p4 = []" "writes ds Ndb_puts p4 = []"
    "writes ds Deletes p4 = []" "writes ds Puts p4 = []"
    using step [OF 3(2,3)] 3(5,6,7) by blast
  have empty: "\<forall>i. writes ds i p4 = []" using 4(4-7) by (simp only: all_kinds simp_thms)
  then have "promised ds kind_of p4 (st w4) = st w4" by (simp add: promised_def)
  then have "st w4 = promised ds kind_of p (st w)" using 1(4) 2(4) 3(4) 4(3) by simp
  then show ?thesis using 1(1) 2(1) 3(1) 4(1) empty by (simp add: mutation_pool_flush_def seqA_def bindA_def)
qed

lemma fresh_pool: "pool_ok ds (mutation_pool_init a b c)" "writes ds i (mutation_pool_init a b c) = []"
  by (simp_all add: pool_ok_def list_ok_def mutation_pool_init_def item_list_init_def) (cases i; simp)

lemma mutate_ok:
  assumes "pool_ok ds (fst s)"
  shows "pool_ok ds (fst (snd (mutate ds op s)))"
proof -
  obtain p w where s: "s = (p, w)" by fastforce
  show ?thesis
  proof (cases "write_of ds op")
    case (Inl e)
    then have "mutate ds op s = (Inl e, s)"
      by (cases "(ds, op)" rule: write_of.cases) (auto simp: mutation_pool_delete_def normalize_key_def bindA_def bindR_Inl_iff)
    then show ?thesis using assms by simp
  next
    case (Inr x)
    obtain i k v where x: "write_of ds op = Inr (i, k, v)" using Inr by (cases x) auto
    obtain r p1 w1 where flushed: "flush_kind ds i (p, w) = (r, (p1, w1))" by (metis surj_pair)
    have ok: "pool_ok ds p1" using flush_kind_ok [of ds "(p, w)" i] assms flushed s by simp
    have "writes ds i p1 = []" if "r = Inr ()"
      using flushed that by (cases i) (auto simp: flush_defs item_list_clear_def split: prod.splits sum.splits if_splits)
    then show ?thesis
      using ok assms flushed by (cases r) (auto simp: s mutate_form [OF x] seqA_def bindA_def intro: add_item_ok)
  qed
qed

section \<open>A datastore in memory\<close>

definition memory_datastore :: "(nat \<rightharpoonup> nat \<times> nat, nat \<times> nat, nat) datastore" where
  "memory_datastore =
     \<lparr>ds_Put = (\<lambda>_ es w. (Inr (), written (map (\<lambda>e. (fst e, Some e)) es) w)),
      ds_Delete = (\<lambda>_ ks w. (Inr (), written (map (\<lambda>k. (k, None)) ks) w)),
      ds_put_multi = (\<lambda>_ es w. (Inr (), written (map (\<lambda>e. (fst e, Some e)) es) w)),
      ds_delete_multi = (\<lambda>_ ks w. (Inr (), written (map (\<lambda>k. (k, None)) ks) w)),
      ds_entity_size = (\<lambda>_. 1), ds_key_size = (\<lambda>_. 1), ds_key = fst, ds_parse_key = (\<lambda>_. Inl ValueError)\<rparr>"

lemma memory_stores: "stores memory_datastore (\<lambda>w. w)"
  by (simp add: stores_def memory_datastore_def)

section \<open>Properties\<close>

text \<open>C40: Whatever batches a pool makes of them, the changes of a mapper take effect as if each had been made at once, when
  no key is changed by two kinds of operations.
\<close>

theorem pool_applies_all_changes:
  "stores ds st \<Longrightarrow> list_all2 (\<lambda>op (k, v). write_of ds op = Inr (kind_of k, k, v)) ops ws \<Longrightarrow>
     \<exists>p' w'. seqA (forA (mutate ds) ops) (mutation_pool_flush ds) (mutation_pool_init max_size max_count force, w) = (Inr (), (p', w')) \<and>
       st w' = written ws (st w)"
proof -
  assume ds: "stores ds st" and ops: "list_all2 (\<lambda>op (k, v). write_of ds op = Inr (kind_of k, k, v)) ops ws"
  let ?p = "mutation_pool_init max_size max_count force"
  have "sorted_out ds kind_of ?p" by (simp add: sorted_out_def fresh_pool(2))
  from mutations_promised [OF ds fresh_pool(1) this ops] obtain p1 w1 where
    run: "forA (mutate ds) ops (?p, w) = (Inr (), (p1, w1))" "pool_ok ds p1" "sorted_out ds kind_of p1"
      "promised ds kind_of p1 (st w1) = written ws (promised ds kind_of ?p (st w))" by blast
  have "promised ds kind_of ?p (st w) = st w" by (simp add: promised_def fresh_pool(2))
  with pool_flush_promised [OF ds run(2,3), of w1] run(1,4) show ?thesis by (auto simp: seqA_def bindA_def)
qed

theorem pool_applies_all_changes_witness:
  "\<exists>p' w'. seqA (forA (mutate memory_datastore) [Put (Db_model (1, 10)), Delete (Db_key 2), Put (Ndb_model (3, 30)), Put (Db_model (1, 11))])
       (mutation_pool_flush memory_datastore) (mutation_pool_init 2 1 False, [2 \<mapsto> (2, 20)]) = (Inr (), (p', w')) \<and>
     w' = written [(1, Some (1, 10)), (2, None), (3, Some (3, 30)), (1, Some (1, 11))] [2 \<mapsto> (2, 20)]"
  by (rule pool_applies_all_changes [OF memory_stores, where kind_of = "\<lambda>k. if k = 1 then Puts else if k = 2 then Deletes else Ndb_puts"])
    (simp add: memory_datastore_def)

text \<open>
  A pool never holds, and so never sends, more than its limits, except for a single item that is too big by
  itself; it does not matter what the datastore does.
\<close>

theorem batches_within_limits:
  "pool_ok ds (fst s) \<Longrightarrow> pool_ok ds (fst (snd (forA (mutate ds) ops s)))"
proof (induction ops arbitrary: s)
  case (Cons op ops)
  have "pool_ok ds (fst (snd (mutate ds op s)))" by (rule mutate_ok [OF Cons.prems])
  with Cons.IH show ?case by (auto simp: seqA_def bindA_def split: prod.splits sum.splits)
qed simp

theorem batches_within_limits_witness:
  "pool_ok memory_datastore (fst (snd (forA (mutate memory_datastore) [Put (Db_model (1, 10)), Put (Db_model (2, 20))]
     (mutation_pool_init 2 1 False, Map.empty))))"
  by (rule batches_within_limits) (simp add: fresh_pool)

text \<open>
  Deletes are flushed after puts: an entity that is deleted and then put is gone.
\<close>

theorem put_after_delete_is_lost:
  "snd (snd (seqA (forA (mutate memory_datastore) [Delete (Db_key 1), Put (Db_model (1, 10))])
     (mutation_pool_flush memory_datastore) (context_mutation_pool 0 False, Map.empty))) 1 = None"
  by (simp add: seqA_def bindA_def mutation_pool_delete_def mutation_pool_put_def normalize_entity_def normalize_key_def
      context_mutation_pool_def mutation_pool_init_def item_list_defs is_full_def MAX_POOL_SIZE_def MAX_ENTITY_COUNT_def
      mutation_pool_flush_def flush_defs memory_datastore_def)

text \<open>And a full list of deletes is sent before the puts: an entity that is put and then deleted is there.\<close>

theorem delete_overtakes_put:
  "snd (snd (seqA (forA (mutate memory_datastore) [Put (Db_model (1, 10)), Delete (Db_key 1), Delete (Db_key 2)])
     (mutation_pool_flush memory_datastore) (mutation_pool_init 100 1 False, Map.empty))) 1 = Some (1, 10)"
  by (simp add: seqA_def bindA_def mutation_pool_delete_def mutation_pool_put_def normalize_entity_def normalize_key_def
      mutation_pool_init_def item_list_defs is_full_def mutation_pool_flush_def flush_defs memory_datastore_def)

end
