(* ===== verification/Shuffle.thy ===== *)
theory Shuffle
  imports Merging MutationPool PyString
begin

text \<open>
  The other steps of \<open>mapreduce/shuffler.py\<close>: keys and values are written to one of several files by the hash of
  the key, the records of a file are read in batches, and each batch is sorted into a file of its own, which the
  merge reads. The files are blobs (\<open>mapreduce/lib/files/blobstore.py\<close>). The counters of a context and its
  mutation pool are left out here.
\<close>

section \<open>Blobstore files\<close>

text \<open>
  The datastore calls that the blobstore files make: the key in the file index of a ticket, whether a blob with a
  key exists, the key of the blob with a creation handle, and the deletion of a blob.
\<close>

record 'w blob_service =
  bs_file_index :: "string \<Rightarrow> ('w, string option) act"
  bs_info :: "string \<Rightarrow> ('w, bool) act"
  bs_query :: "string \<Rightarrow> ('w, string option) act"
  bs_delete :: "string \<Rightarrow> ('w, unit) act"

definition BLOBSTORE_FILESYSTEM :: string where "BLOBSTORE_FILESYSTEM = ''blobstore''"

definition BLOBSTORE_DIRECTORY :: string where "BLOBSTORE_DIRECTORY = ''/'' @ BLOBSTORE_FILESYSTEM @ ''/''"

definition CREATION_HANDLE_PREFIX :: string where "CREATION_HANDLE_PREFIX = ''writable:''"

definition blobstore_create :: "'w file_service \<Rightarrow> string \<Rightarrow> string option \<Rightarrow> ('w, string) act" where
  "blobstore_create svc mime_type filename =
     (if mime_type = [] then raiseA (FilesError InvalidArgumentError)
      else files_create svc BLOBSTORE_FILESYSTEM RAW None
        ((''content_type'', mime_type) # (case filename of Some n \<Rightarrow> if n = [] then [] else [(''file_name'', n)] | None \<Rightarrow> [])))"

definition get_blob_key :: "'w blob_service \<Rightarrow> string \<Rightarrow> ('w, string option) act" where
  "get_blob_key bs create_file_name =
     (if create_file_name = [] then raiseA (FilesError InvalidArgumentError)
      else if \<not> starts_with BLOBSTORE_DIRECTORY create_file_name then raiseA (FilesError InvalidFileNameError)
      else let ticket = drop (length BLOBSTORE_DIRECTORY) create_file_name in
        if \<not> starts_with CREATION_HANDLE_PREFIX ticket then retA (Some ticket)
        else bindA (bs_file_index bs ticket) (\<lambda>blob_file_index.
          case blob_file_index of
            Some blob_key \<Rightarrow> bindA (bs_info bs blob_key) (\<lambda>found. retA (if found then Some blob_key else None))
          | None \<Rightarrow> bs_query bs ticket))"

definition get_file_name :: "string option \<Rightarrow> string res" where
  "get_file_name blob_key = (case blob_key of None \<Rightarrow> Inl (FilesError InvalidArgumentError) | Some k \<Rightarrow> Inr (BLOBSTORE_DIRECTORY @ k))"

definition blobstore_delete :: "'w blob_service \<Rightarrow> string \<Rightarrow> ('w, unit) act" where
  "blobstore_delete bs filename = bindA (get_blob_key bs filename) (\<lambda>blob_key.
     case blob_key of None \<Rightarrow> retA ()
     | Some k \<Rightarrow> bindA (bs_info bs k) (\<lambda>found. if \<not> found then retA () else bs_delete bs k))"

text \<open>The name of a finished blob: what \<open>get_file_name\<close> makes of its key is read back by \<open>get_blob_key\<close>.\<close>

definition finished_name :: "'w file_service \<Rightarrow> 'w blob_service \<Rightarrow> string \<Rightarrow> ('w, string) act" where
  "finished_name svc bs filename =
     seqA (files_finalize svc filename RAW) (bindA (get_blob_key bs filename) (\<lambda>k. liftR (get_file_name k)))"

lemma blob_key_of_file_name:
  "\<not> starts_with CREATION_HANDLE_PREFIX k \<Longrightarrow> get_file_name (Some k) = Inr n \<Longrightarrow> get_blob_key bs n w = (Inr (Some k), w)"
  by (auto simp: get_file_name_def get_blob_key_def BLOBSTORE_DIRECTORY_def BLOBSTORE_FILESYSTEM_def starts_with_def)

section \<open>Batches of records\<close>

definition BATCH_SIZE :: nat where "BATCH_SIZE = 1024 * 1024 * 3"

text \<open>\<open>_BatchRecordsReader.__iter__\<close>, run to its next \<open>yield\<close>: \<open>records\<close> and \<open>size\<close> are those of the loop.\<close>

partial_function (option) batch_next ::
    "'w file_service \<Rightarrow> bytes list \<Rightarrow> nat \<Rightarrow> records_input \<times> 'w \<Rightarrow> (bytes list option res \<times> (records_input \<times> 'w)) option" where
  "batch_next svc records sz s =
     (case input_next svc s of
        None \<Rightarrow> None
      | Some (Inl e, s') \<Rightarrow> Some (Inl e, s')
      | Some (Inr None, s') \<Rightarrow> Some (Inr (if records \<noteq> [] then Some records else None), s')
      | Some (Inr (Some record), s') \<Rightarrow>
          if sz + length record > BATCH_SIZE then Some (Inr (Some (records @ [record])), s')
          else batch_next svc (records @ [record]) (sz + length record) s')"

partial_function (option) batch_iter ::
    "'w file_service \<Rightarrow> records_input \<times> 'w \<Rightarrow> (bytes list list \<times> exn option \<times> (records_input \<times> 'w)) option" where
  "batch_iter svc s =
     (case batch_next svc [] 0 s of
        None \<Rightarrow> None
      | Some (Inl e, s') \<Rightarrow> Some ([], Some e, s')
      | Some (Inr None, s') \<Rightarrow> Some ([], None, s')
      | Some (Inr (Some records), s') \<Rightarrow>
          Option.bind (batch_iter svc s') (\<lambda>(xs, stop, s''). Some (records # xs, stop, s'')))"

section \<open>Sorting a batch\<close>

text \<open>
  \<open>_sort_records_map\<close>: the records are parsed, sorted by key and written to a new file, whose final name is put
  in the datastore. \<open>put_output\<close> is the put of the \<open>_OutputFile\<close> entity with this name.
\<close>

definition parse_records :: "(bytes \<Rightarrow> key_value res) \<Rightarrow> bytes list \<Rightarrow> (bytes \<times> bytes) list res" where
  "parse_records parse = mapR (\<lambda>r. bindR (parse r) (\<lambda>(key, value). Inr (key, r)))"

definition sort_records_map ::
    "'w file_service \<Rightarrow> 'w blob_service \<Rightarrow> (string \<Rightarrow> ('w, unit) act) \<Rightarrow> (bytes \<Rightarrow> key_value res) \<Rightarrow> string \<Rightarrow> string \<Rightarrow>
     bytes list \<Rightarrow> ('w, unit) act" where
  "sort_records_map svc bs put_output parse name mapreduce_id records =
     bindA (liftR (parse_records parse records)) (\<lambda>key_records.
     bindA (blobstore_create svc ''application/octet-stream'' (Some (name @ ''-'' @ mapreduce_id @ ''-output''))) (\<lambda>output_path.
     seqA (write_records svc output_path FILES_API_FLUSH_SIZE False (map snd (sort_key fst key_records)))
       (bindA (finished_name svc bs output_path) put_output)))"

section \<open>Writing by hash\<close>

text \<open>\<open>init_job\<close> and \<open>finalize_job\<close> of \<open>_HashingBlobstoreOutputWriter\<close>; the state of the writer is its file names.\<close>

fun mapA :: "('x \<Rightarrow> ('s, 'a) act) \<Rightarrow> 'x list \<Rightarrow> ('s, 'a list) act" where
  "mapA f [] = retA []"
| "mapA f (x # xs) = bindA (f x) (\<lambda>y. bindA (mapA f xs) (\<lambda>ys. retA (y # ys)))"

definition hashing_init_job :: "'w file_service \<Rightarrow> string \<Rightarrow> string \<Rightarrow> nat \<Rightarrow> ('w, string list) act" where
  "hashing_init_job svc name mapreduce_id shards =
     mapA (\<lambda>i. blobstore_create svc ''application/octet-stream'' (Some (name @ ''-'' @ mapreduce_id @ ''-output-'' @ show_nat i))) [0..<shards]"

definition hashing_finalize_job :: "'w file_service \<Rightarrow> 'w blob_service \<Rightarrow> string list \<Rightarrow> ('w, string list) act" where
  "hashing_finalize_job svc bs filenames = mapA (finished_name svc bs) filenames"

definition kv_pool_name :: "nat \<Rightarrow> string" where
  "kv_pool_name i = ''kv_pool'' @ show_nat i"

text \<open>
  \<open>write\<close>: \<open>data\<close> is a sequence whose items are already strings. One that does not have two items is logged, not
  refused. \<open>hash\<close> is Python's hash of a string, \<open>encode\<close> the protocol buffer of a key and a value.
\<close>

definition hashing_write ::
    "'w file_service \<Rightarrow> (bytes \<Rightarrow> int) \<Rightarrow> (key_value \<Rightarrow> bytes) \<Rightarrow> string list \<Rightarrow> bytes list \<Rightarrow> (records_pool pools \<times> 'w, unit) act" where
  "hashing_write svc hash encode filenames data = (\<lambda>(pools, w).
     case data of
       key # value # rest \<Rightarrow>
         if filenames = [] then (Inl ZeroDivisionError, (pools, w))
         else
           let file_index = nat (hash key mod int (length filenames)); pool_name = kv_pool_name file_index;
               filename = filenames ! file_index;
               pool = (case get_pool pools pool_name of
                         None \<Rightarrow> records_pool_init filename FILES_API_FLUSH_SIZE False | Some pool \<Rightarrow> pool)
           in on_pool (records_pool_append svc (encode (key, value))) pool_name pool (pools, w)
     | _ \<Rightarrow> (Inl IndexError, (pools, w)))"

section \<open>What the batches are\<close>

fun batched :: "bytes list \<Rightarrow> nat \<Rightarrow> bytes list \<Rightarrow> bytes list list" where
  "batched records sz [] = (if records \<noteq> [] then [records] else [])"
| "batched records sz (r # rs) =
     (if sz + length r > BATCH_SIZE then (records @ [r]) # batched [] 0 rs else batched (records @ [r]) (sz + length r) rs)"

lemma concat_batched: "concat (batched records sz rs) = records @ rs"
  by (induction records sz rs rule: batched.induct) auto

text \<open>A batch is not empty, and without its last record it is no larger than \<open>BATCH_SIZE\<close>.\<close>

definition batch_fits :: "bytes list \<Rightarrow> bool" where
  "batch_fits b \<longleftrightarrow> b \<noteq> [] \<and> sum_list (map length (butlast b)) \<le> BATCH_SIZE"

lemma batched_fit:
  "sz = sum_list (map length records) \<Longrightarrow> sz \<le> BATCH_SIZE \<Longrightarrow> list_all batch_fits (batched records sz rs)"
proof (induction records sz rs rule: batched.induct)
  case (1 records sz)
  have "sum_list (map length (butlast records)) \<le> sum_list (map length records)"
    by (cases records rule: rev_cases) simp_all
  then show ?case using 1 by (auto simp: batch_fits_def)
next
  case (2 records sz r rs)
  then show ?case by (auto simp: batch_fits_def)
qed

text \<open>At its end the iteration over the records stays.\<close>

lemma input_next_stays: "input_next svc s = Some (Inr None, s') \<Longrightarrow> input_next svc s' = Some (Inr None, s')"
proof (induction svc s rule: input_next.induct)
  case (1 svc ri w)
  have done_: "input_next svc (r, v) = Some (Inr None, (r, v))" if "ri_reader r = None" for r v
    using that by (subst input_next.simps) simp
  show ?case
  proof (cases "ri_reader ri")
    case None
    then show ?thesis using 1(2) done_ [OF None, of w] by auto
  next
    case (Some b)
    obtain r b' w' where rd: "read_file_record svc (b, w) = Some (r, (b', w'))"
      using 1(2) Some by (subst (asm) input_next.simps) (auto split: option.splits)
    obtain e where e: "r = Inl e" "e = EOFError"
      using 1(2) Some rd by (subst (asm) input_next.simps) (auto split: sum.splits if_splits)
    consider (last) f where "ri_filenames ri = [f]" | (more) f g fs where "ri_filenames ri = f # g # fs"
      using 1(2) Some rd e by (subst (asm) input_next.simps) (auto split: list.splits)
    then show ?thesis
    proof cases
      case last
      then have "s' = (\<lparr>ri_filenames = [], ri_reader = None\<rparr>, w')"
        using 1(2) Some rd e by (subst (asm) input_next.simps) simp
      then show ?thesis using done_ by simp
    next
      case more
      then have "input_next svc (\<lparr>ri_filenames = g # fs, ri_reader = Some (open_records g)\<rparr>, w') = Some (Inr None, s')"
        using 1(2) Some rd e by (subst (asm) input_next.simps) simp
      then show ?thesis using 1(1) [OF Some rd refl e(1) refl e(2) more refl] by simp
    qed
  qed
qed

lemma batch_next_at:
  "input_at svc ok content (ri, w) names p \<Longrightarrow>
   (\<exists>s'. batch_next svc records sz (ri, w) = Some (Inr None, s') \<and> batched records sz (remaining_records content (names, p)) = []) \<or>
   (\<exists>b s'. batch_next svc records sz (ri, w) = Some (Inr (Some b), s') \<and> input_next svc s' = Some (Inr None, s') \<and>
      batched records sz (remaining_records content (names, p)) = [b]) \<or>
   (\<exists>b ri' w' names' q. batch_next svc records sz (ri, w) = Some (Inr (Some b), (ri', w')) \<and>
      input_at svc ok content (ri', w') names' q \<and>
      length (remaining_records content (names', q)) < length (remaining_records content (names, p)) \<and>
      batched records sz (remaining_records content (names, p)) = b # batched [] 0 (remaining_records content (names', q)))"
proof (induction "length (remaining_records content (names, p))" arbitrary: ri w names p records sz rule: less_induct)
  case less
  from input_next_at [OF less.prems] show ?case
  proof (elim disjE exE conjE)
    fix s' assume stop: "input_next svc (ri, w) = Some (Inr None, s')" "remaining_records content (names, p) = []"
    then have run: "batch_next svc records sz (ri, w) = Some (Inr (if records \<noteq> [] then Some records else None), s')"
      by (subst batch_next.simps) simp
    then show ?thesis using stop(2) input_next_stays [OF stop(1)] by (cases "records = []") simp_all
  next
    fix x ri' w' names' q assume step: "input_next svc (ri, w) = Some (Inr (Some x), (ri', w'))"
      "input_at svc ok content (ri', w') names' q"
      "remaining_records content (names, p) = x # remaining_records content (names', q)"
    show ?thesis
    proof (cases "sz + length x > BATCH_SIZE")
      case True
      then have "batch_next svc records sz (ri, w) = Some (Inr (Some (records @ [x])), (ri', w'))"
        using step(1) by (subst batch_next.simps) simp
      then show ?thesis using True step(2,3) by auto
    next
      case False
      have eq: "batch_next svc records sz (ri, w) = batch_next svc (records @ [x]) (sz + length x) (ri', w')"
        using step(1) False by (subst batch_next.simps) simp
      have smaller: "length (remaining_records content (names', q)) < length (remaining_records content (names, p))" using step(3) by simp
      have spec: "batched records sz (remaining_records content (names, p)) =
          batched (records @ [x]) (sz + length x) (remaining_records content (names', q))" using False step(3) by simp
      from less.hyps [OF smaller step(2), of "records @ [x]" "sz + length x"] show ?thesis
        unfolding eq spec
      proof (elim disjE exE conjE, goal_cases)
        case (3 b ri2 w2 names2 q2)
        with less_trans [OF 3(3) smaller] show ?case by blast
      qed blast+
    qed
  qed
qed

lemma batch_iter_at:
  "input_at svc ok content (ri, w) names p \<Longrightarrow>
     \<exists>s'. batch_iter svc (ri, w) = Some (batched [] 0 (remaining_records content (names, p)), None, s')"
proof (induction "length (remaining_records content (names, p))" arbitrary: ri w names p rule: less_induct)
  case less
  from batch_next_at [OF less.prems, of "[]" 0] show ?case
  proof (elim disjE exE conjE, goal_cases)
    case (1 s')
    then show ?case by (subst batch_iter.simps) simp
  next
    case (2 b s')
    have "batch_next svc [] 0 s' = Some (Inr None, s')" using 2(2) by (subst batch_next.simps) simp
    then have "batch_iter svc s' = Some ([], None, s')" by (subst batch_iter.simps) simp
    then show ?case using 2(1,3) by (subst batch_iter.simps) simp
  next
    case (3 b ri' w' names' q)
    from less.hyps [OF 3(3,2)] obtain s' where
      "batch_iter svc (ri', w') = Some (batched [] 0 (remaining_records content (names', q)), None, s')" by blast
    then show ?case using 3(1,4) by (subst batch_iter.simps) simp
  qed
qed

section \<open>What sorting writes\<close>

lemma parse_encoded:
  "\<forall>kv \<in> set kvs. parse (encode kv) = Inr kv \<Longrightarrow> parse_records parse (map encode kvs) = Inr (map (\<lambda>kv. (fst kv, encode kv)) kvs)"
  unfolding parse_records_def by (induction kvs) auto

lemma sorted_records: "map snd (sort_key fst (map (\<lambda>kv. (fst kv, encode kv)) kvs)) = map encode (sort_key fst kvs)"
  by (simp add: sort_key_map comp_def)

text \<open>A few short records fit one block.\<close>

lemma short_stream:
  "p + (\<Sum>d\<leftarrow>ds. HEADER_LENGTH + length d) \<le> BLOCK_SIZE \<Longrightarrow> length (stream_bytes p ds) = (\<Sum>d\<leftarrow>ds. HEADER_LENGTH + length d)"
proof (induction ds arbitrary: p)
  case (Cons d ds)
  have "p < BLOCK_SIZE" using Cons.prems by (simp add: HEADER_LENGTH_def)
  then have "record_bytes p d = frame_bytes RECORD_TYPE_FULL d"
    using Cons.prems by (simp add: record_bytes_def body_bytes_def block_remaining_def)
  then show ?case using Cons.IH [of "p + (HEADER_LENGTH + length d)"] Cons.prems by simp
qed simp

lemma short_records: "(\<Sum>d\<leftarrow>ds. HEADER_LENGTH + length d) \<le> BLOCK_SIZE \<Longrightarrow> length (records_bytes ds) \<le> 2 * BLOCK_SIZE"
  using short_stream [of 0 ds] block_remaining_le [of "\<Sum>d\<leftarrow>ds. HEADER_LENGTH + length d"]
  by (simp add: records_bytes_def pad_bytes_def)

lemma short_appends:
  "rp_size p + (\<Sum>d\<leftarrow>ds. HEADER_LENGTH + length d) \<le> BLOCK_SIZE \<Longrightarrow> BLOCK_SIZE \<le> rp_flush_size p \<Longrightarrow>
   forA (records_pool_append svc) ds (p, w) =
     (Inr (), (p\<lparr>rp_buffer := rp_buffer p @ ds, rp_size := rp_size p + sum_list (map length ds)\<rparr>, w))"
proof (induction ds arbitrary: p)
  case (Cons d ds)
  have "length d \<le> BLOCK_SIZE" using Cons.prems by simp
  then have "records_pool_append svc d (p, w) = (Inr (), (records_pool_add d p, w))"
    using Cons.prems by (simp add: records_pool_append_def seqA_def bindA_def FILES_API_MAX_SIZE_def BLOCK_SIZE_def records_pool_add_def)
  then show ?case using Cons.IH [of "records_pool_add d p"] Cons.prems
    by (simp add: seqA_def bindA_def records_pool_add_def HEADER_LENGTH_def)
qed simp

lemma short_write:
  assumes "appends svc name cont" "cont w = Some c" "(\<Sum>d\<leftarrow>ds. HEADER_LENGTH + length d) \<le> BLOCK_SIZE"
  obtains w' where "write_records svc name FILES_API_FLUSH_SIZE False ds w = (Inr (), w')" "cont w' = Some (c @ records_bytes ds)"
proof -
  let ?p = "(records_pool_init name FILES_API_FLUSH_SIZE False)\<lparr>rp_buffer := ds, rp_size := sum_list (map length ds)\<rparr>"
  have run: "forA (records_pool_append svc) ds (records_pool_init name FILES_API_FLUSH_SIZE False, w) = (Inr (), (?p, w))"
    using short_appends [of "records_pool_init name FILES_API_FLUSH_SIZE False" ds svc w] assms(3)
    by (simp add: records_pool_init_def FILES_API_FLUSH_SIZE_def BLOCK_SIZE_def)
  have "appends svc (rp_filename ?p) cont" using assms(1) by (simp add: records_pool_init_def)
  from flush_appends [OF this assms(2)] obtain w' where "records_pool_flush svc (?p, w) = (Inr (), (?p\<lparr>rp_buffer := [], rp_size := 0\<rparr>, w'))"
      "cont w' = Some (c @ records_bytes ds)"
    using short_records [OF assms(3)] by (auto simp: FILES_API_MAX_SIZE_def BLOCK_SIZE_def)
  then show ?thesis using that run by (simp add: write_records_def)
qed

text \<open>
  What a run of the mapper leaves in its file, when the calls after the writing leave the content of the file
  alone.
\<close>

lemma sort_records_map_content:
  assumes parse: "\<forall>kv \<in> set kvs. parse (encode kv) = Inr kv"
    and create: "blobstore_create svc ''application/octet-stream'' (Some (name @ ''-'' @ mapreduce_id @ ''-output'')) w = (Inr path, w1)"
    and out: "appends svc path cont" "cont w1 = Some []"
    and finish: "\<forall>v. cont (snd (bindA (finished_name svc bs path) put_output v)) = cont v"
    and run: "sort_records_map svc bs put_output parse name mapreduce_id (map encode kvs) w = (Inr (), w')"
  shows "\<exists>dss. cont w' = Some (concat (map records_bytes dss)) \<and> concat dss = map encode (sort_key fst kvs)"
proof -
  let ?rs = "map encode (sort_key fst kvs)"
  have run': "seqA (write_records svc path FILES_API_FLUSH_SIZE False ?rs) (bindA (finished_name svc bs path) put_output) w1 = (Inr (), w')"
    using run create by (simp add: sort_records_map_def parse_encoded [where encode = encode, OF parse] bindA_def sorted_records)
  obtain w2 where wrote: "write_records svc path FILES_API_FLUSH_SIZE False ?rs w1 = (Inr (), w2)"
      "bindA (finished_name svc bs path) put_output w2 = (Inr (), w')"
    using run' by (auto simp: seqA_def bindA_Inr_iff)
  have "cont w1 = Some (concat (map records_bytes []))" using out(2) by simp
  from write_records_content [OF out(1) this disjI2 [OF wrote(1)]] wrote(1) obtain dss where
    "cont w2 = Some (concat (map records_bytes dss))" "concat dss = ?rs" by auto
  moreover have "cont w' = cont w2" using finish wrote(2) by (metis snd_conv)
  ultimately show ?thesis by auto
qed

section \<open>Files in memory\<close>

text \<open>A service with any number of files, and one blob that can be created.\<close>

definition shelf_service :: "(string \<Rightarrow> bytes) file_service" where
  "shelf_service =
     \<lparr>svc_open = (\<lambda>_ _ _ _ w. (Inr (), w)),
      svc_close = (\<lambda>_ _ w. (Inr (), w)),
      svc_append = (\<lambda>n data _ w. (Inr (), w(n := w n @ data))),
      svc_read = (\<lambda>n p k w. (Inr (take (nat k) (drop (nat p) (w n))), w)),
      svc_stat = (\<lambda>name w. (Inr [(name, True, int (length (w name)))], w)),
      svc_create = (\<lambda>_ _ _ _ w. (Inr ''/blobstore/writable:1'', w))\<rparr>"

definition shelf_blobs :: "(string \<Rightarrow> bytes) blob_service" where
  "shelf_blobs = \<lparr>bs_file_index = (\<lambda>_ w. (Inr (Some ''blob''), w)), bs_info = (\<lambda>_ w. (Inr True, w)),
                  bs_query = (\<lambda>_ w. (Inr None, w)), bs_delete = (\<lambda>_ w. (Inr (), w))\<rparr>"

definition put_nothing :: "string \<Rightarrow> ('w, unit) act" where
  "put_nothing name = retA ()"

lemma shelf_appends: "n \<noteq> [] \<Longrightarrow> appends shelf_service n (\<lambda>w. Some (w n))"
  by (simp add: appends_def shelf_service_def)

lemma shelf_finish: "bindA (finished_name shelf_service shelf_blobs ''/blobstore/writable:1'') put_nothing w = (Inr (), w)"
proof -
  have "files_finalize shelf_service ''/blobstore/writable:1'' RAW w = (Inr (), w)"
    by (simp add: files_finalize_def catchA_def bindA_def files_open_def file_reopen_def file_close_def shelf_service_def
        make_call_def open_mode_of_def seqA_def on_world_def retry_open_def retry_call_def RAW_def)
  moreover have "get_blob_key shelf_blobs ''/blobstore/writable:1'' w = (Inr (Some ''blob''), w)"
    by (simp add: get_blob_key_def shelf_blobs_def BLOBSTORE_DIRECTORY_def BLOBSTORE_FILESYSTEM_def CREATION_HANDLE_PREFIX_def
        starts_with_def bindA_def)
  ultimately show ?thesis by (simp add: finished_name_def seqA_def bindA_def get_file_name_def put_nothing_def)
qed

section \<open>What writing by hash leaves\<close>

definition bucket :: "(bytes \<Rightarrow> int) \<Rightarrow> nat \<Rightarrow> key_value \<Rightarrow> nat" where
  "bucket hash n kv = nat (hash (fst kv) mod int n)"

lemma bucket_less: "0 < n \<Longrightarrow> bucket hash n kv < n"
  by (simp add: bucket_def nat_less_iff)

lemma kv_pool_name_inj [simp]: "kv_pool_name i = kv_pool_name j \<longleftrightarrow> i = j"
  unfolding kv_pool_name_def by (metis nat_of_show_nat same_append_eq)

text \<open>The content of one file while the other files are as in world \<open>v\<close>.\<close>

definition alone :: "(string \<Rightarrow> 'w \<Rightarrow> bytes) \<Rightarrow> string list \<Rightarrow> string \<Rightarrow> 'w \<Rightarrow> 'w \<Rightarrow> bytes option" where
  "alone content names n v w = (if \<forall>m \<in> set names. m \<noteq> n \<longrightarrow> content m w = content m v then Some (content n w) else None)"

text \<open>Writing to one of the files appends to it and leaves the others as they are.\<close>

definition files_apart :: "'w file_service \<Rightarrow> (string \<Rightarrow> 'w \<Rightarrow> bytes) \<Rightarrow> string list \<Rightarrow> bool" where
  "files_apart svc content names \<longleftrightarrow> distinct names \<and> (\<forall>n \<in> set names. \<forall>v. appends svc n (alone content names n v))"

abbreviation holds_in :: "(string \<Rightarrow> 'w \<Rightarrow> bytes) \<Rightarrow> string \<Rightarrow> bytes list \<Rightarrow> records_pool \<times> 'w \<Rightarrow> bool" where
  "holds_in content n \<equiv> pool_holds n (\<lambda>w. Some (content n w))"

lemma pool_holds_alone:
  "pool_holds n (alone content names n v) ds (p, w) \<longleftrightarrow>
     (\<forall>m \<in> set names. m \<noteq> n \<longrightarrow> content m w = content m v) \<and> holds_in content n ds (p, w)"
  by (auto simp: pool_holds_def alone_def split: if_splits)

text \<open>The pool of file \<open>i\<close> and the file hold \<open>part i\<close>; without a pool there is nothing yet.\<close>

definition kv_pool :: "records_pool pools \<Rightarrow> string list \<Rightarrow> nat \<Rightarrow> records_pool" where
  "kv_pool pools names i = (case get_pool pools (kv_pool_name i) of
     None \<Rightarrow> records_pool_init (names ! i) FILES_API_FLUSH_SIZE False | Some pool \<Rightarrow> pool)"

definition kv_holds ::
    "(string \<Rightarrow> 'w \<Rightarrow> bytes) \<Rightarrow> string list \<Rightarrow> (nat \<Rightarrow> bytes list) \<Rightarrow> records_pool pools \<times> 'w \<Rightarrow> bool" where
  "kv_holds content names part = (\<lambda>(pools, w).
     fst ` set pools \<subseteq> kv_pool_name ` {..<length names} \<and>
     (\<forall>i < length names. holds_in content (names ! i) (part i) (kv_pool pools names i, w)))"

lemma kv_pool_register:
  "kv_pool (register_pool (kv_pool_name i) p pools) names j = (if j = i then p else kv_pool pools names j)"
  by (simp add: kv_pool_def get_register_pool)

lemma kv_holds_update:
  assumes "kv_holds content names part (pools, w)" "files_apart svc content names" "i < length names"
    and "pool_holds (names ! i) (alone content names (names ! i) w) ds (p, w')"
  shows "kv_holds content names (part(i := ds)) (register_pool (kv_pool_name i) p pools, w')"
proof -
  have same: "content (names ! j) w' = content (names ! j) w" if "j < length names" "j \<noteq> i" for j
    using assms(2-4) that by (auto simp: pool_holds_alone files_apart_def nth_eq_iff_index_eq)
  have "holds_in content (names ! j) ((part(i := ds)) j) (kv_pool (register_pool (kv_pool_name i) p pools) names j, w')"
    if j: "j < length names" for j
  proof (cases "j = i")
    case True
    then show ?thesis using assms(4) by (simp add: pool_holds_alone kv_pool_register)
  next
    case False
    then show ?thesis using assms(1) j same [OF j False] by (auto simp: kv_holds_def kv_pool_register pool_holds_def)
  qed
  then show ?thesis using assms(1,3) by (auto simp: kv_holds_def register_pool_keys)
qed

definition written_or_raised :: "('s \<Rightarrow> bool) \<Rightarrow> unit res \<times> 's \<Rightarrow> bool" where
  "written_or_raised P rs \<longleftrightarrow> (case rs of (Inl e, _) \<Rightarrow> e = MapreduceError | (Inr _, s) \<Rightarrow> P s)"

lemma hashing_write_holds:
  assumes at: "kv_holds content names part (pools, w)" and files: "files_apart svc content names" "names \<noteq> []"
    and i_def: "i = bucket hash (length names) (k, v)"
  shows "written_or_raised (kv_holds content names (part(i := part i @ [encode (k, v)])))
           (hashing_write svc hash encode names [k, v] (pools, w))"
proof -
  have i: "i < length names" using files(2) by (simp add: i_def bucket_less)
  let ?n = "names ! i" and ?p = "kv_pool pools names i"
  have svc: "appends svc ?n (alone content names ?n w)" using files(1) i by (simp add: files_apart_def)
  have "pool_holds ?n (alone content names ?n w) (part i) (?p, w)" using at i by (simp add: pool_holds_alone kv_holds_def)
  from append_outcome [OF svc this, of "encode (k, v)"] obtain r p' w' where
    run: "records_pool_append svc (encode (k, v)) (?p, w) = (r, (p', w'))"
      "r = Inl MapreduceError \<or> r = Inr () \<and> pool_holds ?n (alone content names ?n w) (part i @ [encode (k, v)]) (p', w')"
    by (cases "records_pool_append svc (encode (k, v)) (?p, w)") (auto simp: pool_outcome_def)
  have "hashing_write svc hash encode names [k, v] (pools, w) = (r, (register_pool (kv_pool_name i) p' pools, w'))"
    using files(2) run(1) by (simp add: hashing_write_def on_pool_def i_def bucket_def kv_pool_def Let_def)
  then show ?thesis using run(2) kv_holds_update [OF at files(1) i] by (auto simp: written_or_raised_def)
qed

definition write_pairs ::
    "'w file_service \<Rightarrow> (bytes \<Rightarrow> int) \<Rightarrow> (key_value \<Rightarrow> bytes) \<Rightarrow> string list \<Rightarrow> key_value list \<Rightarrow> (records_pool pools \<times> 'w, unit) act" where
  "write_pairs svc hash encode names kvs = forA (\<lambda>(k, v). hashing_write svc hash encode names [k, v]) kvs"

lemma written_or_raised_seqA:
  assumes "written_or_raised P (m s)" "\<And>s'. P s' \<Longrightarrow> written_or_raised Q (n s')"
  shows "written_or_raised Q (seqA m n s)"
proof -
  obtain r s' where run: "m s = (r, s')" by fastforce
  show ?thesis
  proof (cases r)
    case (Inr u)
    then have "P s'" using assms(1) run by (simp add: written_or_raised_def)
    then show ?thesis using assms(2) run Inr by (simp add: seqA_def bindA_def)
  qed (use assms(1) run in \<open>simp add: written_or_raised_def seqA_def bindA_def\<close>)
qed

lemma write_pairs_holds:
  assumes files: "files_apart svc content names" "names \<noteq> []"
  shows "kv_holds content names part s \<Longrightarrow>
     written_or_raised (kv_holds content names (\<lambda>i. part i @ map encode (filter (\<lambda>kv. bucket hash (length names) kv = i) kvs)))
       (write_pairs svc hash encode names kvs s)"
proof (induction kvs arbitrary: part s)
  case Nil
  then show ?case by (simp add: write_pairs_def written_or_raised_def)
next
  case (Cons kv kvs)
  obtain k v pools w where kv: "kv = (k, v)" "s = (pools, w)" by (metis surj_pair)
  let ?i = "bucket hash (length names) (k, v)" and ?part = "part(bucket hash (length names) (k, v) := part (bucket hash (length names) (k, v)) @ [encode (k, v)])"
  have split: "(\<lambda>i. part i @ map encode (filter (\<lambda>x. bucket hash (length names) x = i) (kv # kvs))) =
      (\<lambda>i. ?part i @ map encode (filter (\<lambda>x. bucket hash (length names) x = i) kvs))" by (auto simp: kv)
  have "written_or_raised (kv_holds content names (\<lambda>i. ?part i @ map encode (filter (\<lambda>x. bucket hash (length names) x = i) kvs)))
      (seqA (hashing_write svc hash encode names [k, v]) (write_pairs svc hash encode names kvs) s)"
  proof (rule written_or_raised_seqA [where m = "hashing_write svc hash encode names [k, v]" and P = "kv_holds content names ?part"])
    show "written_or_raised (kv_holds content names ?part) (hashing_write svc hash encode names [k, v] s)"
      unfolding kv(2) by (rule hashing_write_holds [OF Cons.prems [unfolded kv(2)] files refl])
    show "written_or_raised (kv_holds content names (\<lambda>i. ?part i @ map encode (filter (\<lambda>x. bucket hash (length names) x = i) kvs)))
        (write_pairs svc hash encode names kvs s')" if "kv_holds content names ?part s'" for s'
      by (rule Cons.IH [OF that])
  qed
  then show ?case unfolding split by (simp add: write_pairs_def kv)
qed

text \<open>The flush of the context: the pools of the context are those of \<open>keys\<close>, and the ones of \<open>flushed\<close> are empty.\<close>

definition kv_flushed :: "string set \<Rightarrow> records_pool pools \<Rightarrow> string set \<Rightarrow> bool" where
  "kv_flushed keys pools flushed \<longleftrightarrow> fst ` set pools = keys \<and> (\<forall>key \<in> flushed. \<forall>p. get_pool pools key = Some p \<longrightarrow> rp_buffer p = [])"

definition flush_key :: "'w file_service \<Rightarrow> string \<Rightarrow> (records_pool pools \<times> 'w, unit) act" where
  "flush_key svc key = (\<lambda>(pools, w). case get_pool pools key of
      None \<Rightarrow> (Inr (), (pools, w)) | Some pool \<Rightarrow> on_pool (records_pool_flush svc) key pool (pools, w))"

lemma flush_key_holds:
  assumes at: "kv_holds content names part (pools, w)" "kv_flushed ks pools flushed" and files: "files_apart svc content names"
  shows "written_or_raised (\<lambda>(pools', w'). kv_holds content names part (pools', w') \<and> kv_flushed ks pools' (insert key flushed))
           (flush_key svc key (pools, w))"
proof (cases "get_pool pools key")
  case None
  then show ?thesis using at by (simp add: flush_key_def written_or_raised_def kv_flushed_def)
next
  case (Some p)
  then have "key \<in> fst ` set pools" by (rule get_pool_SomeD)
  then obtain i where i: "i < length names" "key = kv_pool_name i" using at(1) by (auto simp: kv_holds_def)
  let ?n = "names ! i"
  have svc: "appends svc ?n (alone content names ?n w)" using files i(1) by (simp add: files_apart_def)
  have pool: "kv_pool pools names i = p" using Some i(2) by (simp add: kv_pool_def)
  have holds: "pool_holds ?n (alone content names ?n w) (part i) (p, w)" using at(1) i(1) pool by (auto simp: pool_holds_alone kv_holds_def)
  show ?thesis
  proof (rule flush_holds [OF svc holds])
    assume "fst (records_pool_flush svc (p, w)) = Inl MapreduceError"
    then show ?thesis using Some
      by (cases "records_pool_flush svc (p, w)") (auto simp: flush_key_def on_pool_def written_or_raised_def)
  next
    fix s' assume run: "records_pool_flush svc (p, w) = (Inr (), s')" "pool_holds ?n (alone content names ?n w) (part i) s'" "rp_buffer (fst s') = []"
    obtain p' w' where s': "s' = (p', w')" by fastforce
    have "kv_holds content names (part(i := part i)) (register_pool (kv_pool_name i) p' pools, w')"
      by (rule kv_holds_update [OF at(1) files i(1)]) (use run(2) s' in simp)
    moreover have "kv_flushed ks (register_pool key p' pools) (insert key flushed)"
      using at(2) run(3) s' \<open>key \<in> fst ` set pools\<close> by (auto simp: kv_flushed_def get_register_pool register_pool_keys)
    ultimately show ?thesis using Some run(1) s' i(2) by (simp add: flush_key_def on_pool_def written_or_raised_def)
  qed
qed

lemma flush_keys_hold:
  assumes files: "files_apart svc content names"
  shows "kv_holds content names part (pools, w) \<Longrightarrow> kv_flushed ks pools flushed \<Longrightarrow>
     written_or_raised (\<lambda>(pools', w'). kv_holds content names part (pools', w') \<and> kv_flushed ks pools' (set keys \<union> flushed))
       (forA (flush_key svc) keys (pools, w))"
proof (induction keys arbitrary: pools w flushed)
  case Nil
  then show ?case by (simp add: written_or_raised_def)
next
  case (Cons key keys)
  have "written_or_raised (\<lambda>(pools', w'). kv_holds content names part (pools', w') \<and> kv_flushed ks pools' (set keys \<union> insert key flushed))
      (seqA (flush_key svc key) (forA (flush_key svc) keys) (pools, w))"
    by (rule written_or_raised_seqA [where m = "flush_key svc key", OF flush_key_holds [OF Cons.prems files]])
      (use Cons.IH [where flushed = "insert key flushed"] in auto)
  then show ?case by simp
qed

text \<open>When all is flushed, each file holds the records of its bucket, in the pieces that its pool wrote.\<close>

definition shards_hold ::
    "(string \<Rightarrow> 'w \<Rightarrow> bytes) \<Rightarrow> string list \<Rightarrow> (nat \<Rightarrow> bytes list) \<Rightarrow> 'w \<Rightarrow> bool" where
  "shards_hold content names part w \<longleftrightarrow> (\<forall>i < length names.
     \<exists>dss. content (names ! i) w = concat (map records_bytes dss) \<and> concat dss = part i)"

lemma flushed_shards_hold:
  assumes "kv_holds content names part (pools, w)" "kv_flushed ks pools ks"
  shows "shards_hold content names part w"
  unfolding shards_hold_def
proof (intro allI impI)
  fix i assume i: "i < length names"
  have "rp_buffer (kv_pool pools names i) = []"
  proof (cases "get_pool pools (kv_pool_name i)")
    case (Some p)
    then have "kv_pool_name i \<in> fst ` set pools" by (rule get_pool_SomeD)
    then show ?thesis using assms(2) Some by (auto simp: kv_flushed_def kv_pool_def)
  qed (simp add: kv_pool_def records_pool_init_def)
  moreover obtain dss where "content (names ! i) w = concat (map records_bytes dss)"
      "concat dss @ rp_buffer (kv_pool pools names i) = part i"
    using assms(1) i by (auto simp: kv_holds_def pool_holds_def)
  ultimately show "\<exists>dss. content (names ! i) w = concat (map records_bytes dss) \<and> concat dss = part i" by auto
qed

section \<open>Properties\<close>

text \<open>
  The batches of a reader are its records, in order: no batch is empty, and each is cut as soon as it is larger
  than \<open>BATCH_SIZE\<close>.
\<close>

theorem batches_are_the_records:
  "\<forall>n \<in> set names. serves svc n (file_of ok content n) \<Longrightarrow> ok w \<Longrightarrow>
     \<exists>batches s'. batch_iter svc (records_input_init names 0, w) = Some (batches, None, s') \<and>
       concat batches = concat (map (\<lambda>n. plain_records (content n) 0) names) \<and> list_all batch_fits batches"
proof -
  assume files: "\<forall>n \<in> set names. serves svc n (file_of ok content n)" "ok w"
  let ?rs = "concat (map (\<lambda>n. plain_records (content n) 0) names)"
  have "remaining_records content (names, 0) = ?rs" by (cases names) (simp_all add: remaining_records_def)
  with batch_iter_at [OF input_fresh [OF files]] have "\<exists>s'. batch_iter svc (records_input_init names 0, w) = Some (batched [] 0 ?rs, None, s')"
    by simp
  moreover have "concat (batched [] 0 ?rs) = ?rs" by (simp add: concat_batched)
  moreover have "list_all batch_fits (batched [] 0 ?rs)" by (rule batched_fit) simp_all
  ultimately show ?thesis by blast
qed

theorem batches_are_the_records_witness:
  "\<exists>batches s'. batch_iter memory_service (records_input_init [''f'', ''g''] 0, records_bytes [[1, 2], [3]]) = Some (batches, None, s') \<and>
     concat batches = [[1, 2], [3], [1, 2], [3]] \<and> list_all batch_fits batches"
  using batches_are_the_records [of "[''f'', ''g'']" memory_service "\<lambda>w. w = records_bytes [[1, 2], [3]]"
      "\<lambda>_. records_bytes [[1, 2], [3]]" "records_bytes [[1, 2], [3]]"] memory_files plain_records_pieces [of "[[[1, 2], [3]]]"]
  by simp

text \<open>C39: Sorting leaves a file with the records of its batch, sorted by key; records of one key keep their order.
\<close>

theorem sorting_writes_sorted_file:
  "\<forall>kv \<in> set kvs. parse (encode kv) = Inr kv \<Longrightarrow>
     blobstore_create svc ''application/octet-stream'' (Some (name @ ''-'' @ mapreduce_id @ ''-output'')) w = (Inr path, w1) \<Longrightarrow>
     appends svc path cont \<Longrightarrow> cont w1 = Some [] \<Longrightarrow>
     \<forall>v. cont (snd (bindA (finished_name svc bs path) put_output v)) = cont v \<Longrightarrow>
     sort_records_map svc bs put_output parse name mapreduce_id (map encode kvs) w = (Inr (), w') \<Longrightarrow>
     \<exists>dss sorted_kvs. cont w' = Some (concat (map records_bytes dss)) \<and> concat dss = map encode sorted_kvs \<and>
       mset sorted_kvs = mset kvs \<and> sorted (map fst sorted_kvs) \<and>
       (\<forall>k. filter (\<lambda>kv. fst kv = k) sorted_kvs = filter (\<lambda>kv. fst kv = k) kvs)"
proof -
  assume "\<forall>kv \<in> set kvs. parse (encode kv) = Inr kv"
    "blobstore_create svc ''application/octet-stream'' (Some (name @ ''-'' @ mapreduce_id @ ''-output'')) w = (Inr path, w1)"
    "appends svc path cont" "cont w1 = Some []"
    "\<forall>v. cont (snd (bindA (finished_name svc bs path) put_output v)) = cont v"
    "sort_records_map svc bs put_output parse name mapreduce_id (map encode kvs) w = (Inr (), w')"
  from sort_records_map_content [OF this] obtain dss where
    "cont w' = Some (concat (map records_bytes dss))" "concat dss = map encode (sort_key fst kvs)" by blast
  moreover have "filter (\<lambda>kv. fst kv = k) (sort_key fst kvs) = filter (\<lambda>kv. fst kv = k) kvs" for k
    by (rule sort_key_stable)
  moreover have "mset (sort_key fst kvs) = mset kvs" "sorted (map fst (sort_key fst kvs))" by simp_all
  ultimately show ?thesis by blast
qed

theorem sorting_writes_sorted_file_witness:
  "\<exists>w'. sort_records_map shelf_service shelf_blobs put_nothing plain_parse ''job'' ''1'' (map plain_encode [([2], [20]), ([1], [10])])
       (\<lambda>_. []) = (Inr (), w') \<and>
     (\<exists>dss sorted_kvs. w' ''/blobstore/writable:1'' = concat (map records_bytes dss) \<and> concat dss = map plain_encode sorted_kvs \<and>
       mset sorted_kvs = mset [([2], [20]), ([1], [10])] \<and> sorted (map fst sorted_kvs))"
proof -
  let ?kvs = "[([2], [20]), ([1], [10])] :: key_value list" and ?path = "''/blobstore/writable:1''"
  have parse: "\<forall>kv \<in> set ?kvs. plain_parse (plain_encode kv) = Inr kv" by (simp add: plain_parse_def plain_encode_def)
  have create: "blobstore_create shelf_service ''application/octet-stream'' (Some (''job'' @ ''-'' @ ''1'' @ ''-output'')) w = (Inr ?path, w)" for w
    by (simp add: blobstore_create_def files_create_def BLOBSTORE_FILESYSTEM_def RAW_def make_call_def shelf_service_def)
  have finish: "\<forall>v. Some (snd (bindA (finished_name shelf_service shelf_blobs ?path) put_nothing v) ?path) = Some (v ?path)"
    by (simp add: shelf_finish)
  note out = shelf_appends [of ?path, simplified]
  obtain w1 where wrote: "write_records shelf_service ?path FILES_API_FLUSH_SIZE False (map plain_encode (sort_key fst ?kvs)) (\<lambda>_. []) = (Inr (), w1)"
    by (rule short_write [OF out, of "\<lambda>_. []" "[]" "map plain_encode (sort_key fst ?kvs)"])
      (simp_all add: plain_encode_def HEADER_LENGTH_def BLOCK_SIZE_def)
  have run: "sort_records_map shelf_service shelf_blobs put_nothing plain_parse ''job'' ''1'' (map plain_encode ?kvs) (\<lambda>_. []) = (Inr (), w1)"
    unfolding sort_records_map_def parse_encoded [where encode = plain_encode, OF parse]
    by (simp only: liftR_def bindA_def seqA_def create sorted_records wrote shelf_finish sum.case prod.case)
      (use shelf_finish [of w1] in \<open>simp add: bindA_def\<close>)
  from sorting_writes_sorted_file [OF parse create out refl finish run] run show ?thesis by auto
qed

text \<open>C38: Writing by hash leaves in each file the keys and values of its bucket, in the order in which they were written:
  all values of a key are in one file, and none is lost. The only error is that of a pool with too much to write.
\<close>

theorem hashing_partitions_keys:
  "files_apart svc content names \<Longrightarrow> names \<noteq> [] \<Longrightarrow> \<forall>n \<in> set names. content n w = [] \<Longrightarrow> \<forall>ks. set (order ks) = set ks \<Longrightarrow>
     written_or_raised
       (\<lambda>(pools, w'). shards_hold content names (\<lambda>i. map encode (filter (\<lambda>kv. bucket hash (length names) kv = i) kvs)) w')
       (seqA (write_pairs svc hash encode names kvs) (context_flush (records_pool_flush svc) order) ([], w))"
proof (rule written_or_raised_seqA)
  assume files: "files_apart svc content names" "names \<noteq> []" and new: "\<forall>n \<in> set names. content n w = []"
    and order: "\<forall>ks. set (order ks) = set ks"
  have "kv_holds content names (\<lambda>_. []) ([], w)"
    using new by (auto simp: kv_holds_def kv_pool_def get_pool_def pool_holds_def records_pool_init_def intro!: exI [of _ "[]"])
  from write_pairs_holds [OF files this, where hash = hash and encode = encode and kvs = kvs]
  show "written_or_raised (kv_holds content names (\<lambda>i. map encode (filter (\<lambda>kv. bucket hash (length names) kv = i) kvs)))
      (write_pairs svc hash encode names kvs ([], w))" by simp
  fix s' :: "records_pool pools \<times> 'a"
  assume at: "kv_holds content names (\<lambda>i. map encode (filter (\<lambda>kv. bucket hash (length names) kv = i) kvs)) s'"
  obtain pools w1 where s': "s' = (pools, w1)" by fastforce
  have "kv_flushed (fst ` set pools) pools {}" by (simp add: kv_flushed_def)
  from flush_keys_hold [OF files(1) at [unfolded s'] this, of "order (map fst pools)"]
  show "written_or_raised
      (\<lambda>(pools, w'). shards_hold content names (\<lambda>i. map encode (filter (\<lambda>kv. bucket hash (length names) kv = i) kvs)) w')
      (context_flush (records_pool_flush svc) order s')"
    using order flushed_shards_hold
    by (auto simp: s' context_flush_def flush_key_def [abs_def] written_or_raised_def split: sum.splits prod.splits)
qed

lemma shelf_apart: "distinct names \<Longrightarrow> [] \<notin> set names \<Longrightarrow> files_apart shelf_service (\<lambda>n w. w n) names"
  by (auto simp: files_apart_def appends_def alone_def shelf_service_def split: if_splits)

theorem hashing_partitions_keys_witness:
  "written_or_raised
     (\<lambda>(pools, w'). shards_hold (\<lambda>n w. w n) [''a'', ''b''] (\<lambda>i. map plain_encode (filter (\<lambda>kv. bucket (\<lambda>k. int (length k)) (length [''a'', ''b'']) kv = i) small_kvs)) w')
     (seqA (write_pairs shelf_service (\<lambda>k. int (length k)) plain_encode [''a'', ''b''] small_kvs)
       (context_flush (records_pool_flush shelf_service) (\<lambda>ks. ks)) ([], \<lambda>_. []))"
  by (rule hashing_partitions_keys [OF shelf_apart]) simp_all

end
