(* ===== verification/Spec2Isabelle.thy ===== *)
theory Spec2Isabelle
  imports App CompareInstances Log2Bq Bootstrap RecordsInput NamespaceRange Quota ZipReaders Shuffle
begin

text \<open>
  mlab-ns answers the question where a client should run a measurement: a request names a tool and
  the answer is one or several hosts (slivers) of that tool that are online, near or in the metro
  or country asked for, or drawn at random. The program is a Python 2 App Engine application under
  \<open>src/server/mlabns\<close> with its routes in \<open>src/server/main.py\<close>, and two scripts
  (\<open>src/compare_instances.py\<close>, \<open>src/environment_bootstrap.py\<close>). This development models the program's
  own code, as written, its errors included, and proves what makes it correct.

  \<^bold>\<open>The language.\<close> \<open>Prelude\<close> has exceptions (\<open>exn\<close>, results \<open>exn + 'a\<close>), actions (\<open>('s, 'a) act\<close>, a state
  passed through and a result) with their binds, handlers and loops, two ways to say what an action
  leaves alone (\<open>keepsA\<close>, a relation between the states, and \<open>safeA\<close>, an invariant and a relation), and
  a few list lemmas. \<open>PyString\<close>, \<open>PyFloat\<close>, \<open>PyRandom\<close>, \<open>PyRegex\<close> and \<open>Json\<close> model the parts of the
  standard library the code uses: string methods and number formats, floats as extended reals,
  \<open>random\<close> on a stream of draws, regular expressions with a backtracking matcher, \<open>json.loads\<close>.

  \<^bold>\<open>The state.\<close> \<open>Model\<close> follows \<open>db/model.py\<close>: an entity is a record, a table a list of entities with a
  key (\<open>Tables\<close> has the locale of a table, interpreted for slivers and sites), and a \<open>world\<close> holds the
  tables, the memcache by namespace, the random source, the cached MaxMind reader, the clock, the log and the
  response. An \<open>env\<close> holds what a request only reads: environment variables, web and cloud answers, which
  writes succeed, the iteration order of dicts. \<open>Constants\<close> has the constants of \<open>util/constants.py\<close> and
  \<open>util/message.py\<close>.

  \<^bold>\<open>Names.\<close> \<open>Fqdn\<close> models \<open>util/parse_fqdn.py\<close> and \<open>util/fqdn_rewrite.py\<close>, \<open>Names\<close> the production checks and
  the identifiers of \<open>db/model.py\<close>. Host names of well-formed parts are parsed back into the parts, and
  nothing else is parsed; rewriting annotates the machine label only, once; the production checks are
  characterised for the deployed patterns.

  \<^bold>\<open>Reading a request.\<close> \<open>IpAddr\<close> models the address parsers of the vendored \<open>ipaddr.py\<close>, \<open>Maxmind\<close> the
  geolocation wrapper (\<open>util/maxmind.py\<close>), \<open>Distance\<close> the haversine formula (proved to be the great-circle
  distance), \<open>LookupQuery\<close> the class of \<open>util/lookup_query.py\<close>: priority of the sources of a position,
  the policy chosen, the length of the client signature, and that reading a request does not raise.

  \<^bold>\<open>Choosing hosts.\<close> \<open>Fetcher\<close> models \<open>db/sliver_tool_fetcher.py\<close> and the signature fetcher. Its locale
  \<open>tool_source\<close> states what any source of tools answers (matching tools of its stock, one per site, a
  cover of the sites that have one); memcache and datastore interpret it, and the fallback from one to the
  other is a \<open>fallback_source\<close>. \<open>Resolver\<close> models \<open>util/resolver.py\<close>; the locale \<open>resolver_contract\<close> is
  interpreted for every resolver (only wanted tools, of distinct sites, at most the limit), and the geographic
  ones answer with the closest sites in order.

  \<^bold>\<open>Answering.\<close> \<open>Response\<close> models \<open>util/util.py\<close>, \<open>ReverseProxy\<close> \<open>util/reverse_proxy.py\<close>, \<open>Lookup\<close> the handler
  of \<open>handlers/lookup.py\<close> with its five formats and its log. A lookup never writes to the tables, and the
  answers without capacity are those of the documentation.

  \<^bold>\<open>Keeping the tables.\<close> \<open>StatusSources\<close> models \<open>util/nagios_status.py\<close> and \<open>util/prometheus_status.py\<close>
  (both interpret the locale \<open>status_source\<close>), \<open>Registration\<close> and \<open>StatusUpdate\<close> the jobs of
  \<open>handlers/update.py\<close>. Registration and status updates keep the tables well formed on every path; a row of the
  host file and a report of monitoring leave exactly what they say in the slivers; the check of a tool
  refines a map over its slivers.

  \<^bold>\<open>The application.\<close> \<open>Admin\<close> models \<open>handlers/admin.py\<close>, \<open>docs.py\<close> and \<open>privacy.py\<close>; \<open>App\<close> the routes, the step
  relation of the application (requests in any order, time, evictions) with the invariant of its runs, and
  the way of a host from a monitoring report to a client. \<open>Log2Bq\<close> models \<open>handlers/log2bq.py\<close> (the CSV lines are read
  back by a reader, the check of a job is a step relation), \<open>CompareInstances\<close> and \<open>Bootstrap\<close> the scripts.

  \<^bold>\<open>The files of the log pipeline.\<close> \<open>Log2Bq\<close> hands its mapper to \<open>src/server/mapreduce\<close>; the shards of that
  job write and read record files, and split their input. \<open>Crc32c\<close> models \<open>lib/files/crc32c.py\<close>: the table
  of the code divides by the Castagnoli polynomial, and a change within four neighbouring bytes is always
  seen. \<open>FilesApi\<close> models \<open>lib/files/file.py\<close> over a files service that is an argument (\<open>file_service\<close>, one
  field per remote call): \<open>serves\<close> says that a service reads back a content, \<open>appends\<close> that it appends, and
  \<open>RecordPools\<close> gives a service in memory that does both. \<open>Records\<close> models \<open>lib/files/records.py\<close>; its locales
  \<open>file_writer\<close> and \<open>file_reader\<close> state what a file object promises, with the format written down once as
  \<open>records_bytes\<close>, and are interpreted by the string writer of the pools and by \<open>BufferedFile\<close>.
  \<open>RecordPools\<close> models the pools of \<open>output_writers.py\<close>, \<open>RecordsInput\<close> the class \<open>RecordsReader\<close> of
  \<open>input_readers.py\<close>: what a shard writes is read back record for record, a reader put away as JSON goes on
  where it was, and a damaged record is never delivered. \<open>NamespaceRange\<close> models \<open>namespace_range.py\<close>; the
  locale \<open>ns_space\<close> proves, for any alphabet in order, that ordinals follow the lexicographic order and that
  a split is a partition, and is interpreted for the deployed alphabet. The first existing namespace of a range
  (a datastore query) is the argument \<open>first\<close>.

  \<^bold>\<open>Slices of a job.\<close> \<open>Quota\<close> models \<open>quota.py\<close>: the clients of one bucket are a step relation of single requests to
  memcache, in which quota is conserved; a request that fails creates some. \<open>Slices\<close> says what a job asks of
  an input reader: the locale \<open>item_reader\<close> (it hands out what remains, in order) and its extension \<open>resumable\<close> (put
  away as JSON and taken up again, it has the same left). \<open>BlobReaders\<close> and \<open>ZipReaders\<close> model the blob readers of
  \<open>input_readers.py\<close> and interpret these locales: the ranges of a split cover every line once, whatever the slices;
  the two cases where they do not (blobs smaller than the number of shards, an empty first line) are theorems too.
  \<open>MutationPool\<close> models the pools of \<open>context.py\<close>: batched changes to the datastore refine single ones when no key
  is changed by two kinds of operations, and two theorems show what is lost otherwise.

  \<^bold>\<open>The shuffler.\<close> \<open>Heapq\<close> is Python's \<open>heapq\<close>, proved to keep a heap; its locale \<open>min_queue\<close> is what a merge needs of
  a queue. \<open>Merging\<close> models \<open>_MergingReader\<close> of \<open>shuffler.py\<close>: the loop over the heap refines the merge of lists
  (\<open>kmerge\<close>) followed by the grouping of neighbours (\<open>key_groups\<close>), each group is yielded with the offsets from
  which the rest would be read, and sorted files give every key once. \<open>Shuffle\<close> has the steps before it: the writer
  that distributes keys by hash over files (all values of a key are in one), the reader of batches, the mapper
  that sorts a batch into a blob, and \<open>lib/files/blobstore.py\<close>. The protocol buffer of a key and a value is a pair of
  arguments, \<open>encode\<close> and \<open>parse\<close>; theorems ask that what was written is read back.

  \<^bold>\<open>Fuel and loops.\<close> The JSON parser takes fuel \<open>2 * length s + 2\<close>; every two units consume a character. The
  regular-expression star takes the length of the rest of the subject, since a repetition that consumes
  nothing is cut. \<open>random.sample\<close> may reject draws forever: that run is the result \<open>Diverges\<close>. The
  loop of the comparison script is a \<open>while_option\<close>, and it is proved to end for an integer number of
  samples. The loops of the record reader, of the input reader and of the namespace split are
  \<open>partial_function (option)\<close>, and are proved to return on every content and every split; so are those that
  drain a reader, consume quota, cut batches and merge.

  \<^bold>\<open>Bounds of the model.\<close> Floats are exact; printing rounds, arithmetic does not. Sorting distances follows
  \<open>list.sort\<close> for finite distances only; with a NaN among them the model sorts by insertion, and the theorems
  on the order ask for finite distances. Strings are byte strings. Clock readings within one request are equal.
  Debug messages are not part of the log. The properties of an entity are checked as App Engine checks
  them, as far as the code can see.

  \<^bold>\<open>Not modelled.\<close> The rest of \<open>mapreduce\<close> (handlers and models of jobs, pipelines, the readers of the
  datastore and of logs, the life cycle of output writers, counters, generated protocol buffers), the vendored libraries (\<open>apiclient\<close>, \<open>oauth2client\<close>, \<open>httplib2\<close>, \<open>uritemplate\<close>,
  \<open>gflags\<close>, geoip2, the cloud storage client), App Engine itself (memcache and datastore are maps and tables whose writes
  may fail), the templates (a page is its template and context), \<open>appengine_config.py\<close>, the build and
  deployment files, and the tests.
\<close>

end
